(* ===== verification/Prelude.thy ===== *)
theory Prelude
  imports Main "HOL-Library.Word"
begin

text \<open>
  What the component theories share: the names of the machine integers, the faults that stop a
  C program (a failed \<open>assert\<close>, a null dereference, a read of memory that does not hold
  the object the code takes it for, a loop that runs out of its bound), the result type of an
  operation that may stop that way, and generic lemmas on lists, words and results.
\<close>

unbundle bit_operations_syntax

type_synonym u8 = "8 word"
type_synonym u16 = "16 word"
type_synonym u32 = "32 word"
type_synonym u64 = "64 word"

section \<open>Faults and results\<close>

text \<open>
  The program is built without \<open>NDEBUG\<close>, so a failed \<open>assert\<close> aborts it.
  \<open>OutOfFuel\<close> is a loop or recursion that has not returned within its bound.
\<close>

datatype fault = AssertFail | NullDeref | WildAccess | OutOfFuel

type_synonym 'a res = "fault + 'a"

primrec bind_r :: "'a res \<Rightarrow> ('a \<Rightarrow> 'b res) \<Rightarrow> 'b res" where
  "bind_r (Inl e) k = Inl e"
| "bind_r (Inr x) k = k x"

definition assert_r :: "bool \<Rightarrow> 'a res \<Rightarrow> 'a res" where
  "assert_r b k = (if b then k else Inl AssertFail)"

lemma assert_r_simps [simp]:
  "assert_r True k = k"
  "assert_r False k = Inl AssertFail"
  by (simp_all add: assert_r_def)

lemma bind_r_eq_Inr: "bind_r m k = Inr y \<longleftrightarrow> (\<exists>x. m = Inr x \<and> k x = Inr y)"
  by (cases m) auto

lemma bind_r_assoc: "bind_r (bind_r m k) k' = bind_r m (\<lambda>x. bind_r (k x) k')"
  by (cases m) auto

lemma bind_r_cong [fundef_cong]:
  assumes "m = m'" and "\<And>x. m' = Inr x \<Longrightarrow> k x = k' x"
  shows "bind_r m k = bind_r m' k'"
  using assms by (cases m') auto

lemma assert_r_eq_Inr: "assert_r b k = Inr y \<longleftrightarrow> b \<and> k = Inr y"
  by (simp add: assert_r_def)

section \<open>Words\<close>

lemma unat_of_nat_small:
  "n < 2 ^ LENGTH('a) \<Longrightarrow> unat (word_of_nat n :: 'a::len word) = n"
  by (simp add: unat_of_nat take_bit_nat_eq_self)

lemma unat_less_u32: "unat (w :: u32) < 4294967296"
  using unsigned_less [of w] by simp

lemma unat_less_u16: "unat (w :: u16) < 65536"
  using unsigned_less [of w] by simp

lemma unat_less_u64: "unat (w :: u64) < 18446744073709551616"
  using unsigned_less [of w] by simp

lemma unat_drop_bit: "unat (drop_bit k w) = unat (w :: 'a::len word) div 2 ^ k"
  by (subst unat_drop_bit_eq) (rule drop_bit_eq_div)

lemma unat_and_mask6: "unat ((w :: u32) AND 63) = unat w mod 64"
proof -
  have "w AND 63 = take_bit 6 w"
    by (simp add: take_bit_eq_mask mask_eq_exp_minus_1)
  then have "unat (w AND 63) = take_bit 6 (unat w)"
    by (simp only: unsigned_take_bit_eq)
  then show ?thesis
    by (simp add: take_bit_eq_mod)
qed

lemma unat_inc: "i < j \<Longrightarrow> unat (i + 1) = Suc (unat i)" for i j :: "'a::len word"
proof -
  assume "i < j"
  then have "unat i + 1 < 2 ^ LENGTH('a)" using unsigned_less [of j] unfolding word_less_nat_alt by (metis Suc_eq_plus1 less_trans_Suc)
  then show ?thesis by (simp add: unat_word_ariths)
qed

lemma word_of_nat_unat [simp]: "word_of_nat (unat w) = (w :: 'a::len word)"
  by transfer simp

end
