(* ===== verification/RBTree.thy ===== *)
theory RBTree
  imports Prelude
begin

text \<open>
  \<open>src/rbtree.h\<close>: the intrusive red-black tree, a template over the pointer type, the
  key type and the comparison. The memory that holds the nodes is a total function from
  pointers to nodes; the null pointer \<open>RB_NULL\<close> is 0 in both instances of the template.
  Following a link goes through \<open>rb_get\<close>, the macro \<open>RB_GET_NODE\<close>, which faults on
  the null pointer. The comparison is the argument \<open>cmp\<close>, with C's sign convention.

  Loops are bounded by \<open>rb_fuel\<close>, 64 iterations: a tree that satisfies the red-black
  invariant and has fewer than 2 to the 31 nodes is less than 64 nodes high, so every loop
  that walks up or down ends within the bound (the theory RBTree_Abs proves the height, the
  theories that follow it that no operation runs out).
\<close>

section \<open>Nodes and trees\<close>

record ('p, 'k) rb_node =
  rb_s :: 'p
  rb_p :: 'p
  rb_left :: 'p
  rb_right :: 'p
  rb_v :: 'k
  rb_color :: u8

type_synonym ('p, 'k) rb_heap = "'p \<Rightarrow> ('p, 'k) rb_node"

record 'p rb_tree =
  rb_root :: 'p
  rb_size :: u32

abbreviation RB_RED :: u8 where "RB_RED \<equiv> 0"
abbreviation RB_BLACK :: u8 where "RB_BLACK \<equiv> 1"

definition set_p :: "('p, 'k) rb_heap \<Rightarrow> 'p \<Rightarrow> 'p \<Rightarrow> ('p, 'k) rb_heap" where
  "set_p h x y = h(x := (h x)\<lparr>rb_p := y\<rparr>)"
definition set_left :: "('p, 'k) rb_heap \<Rightarrow> 'p \<Rightarrow> 'p \<Rightarrow> ('p, 'k) rb_heap" where
  "set_left h x y = h(x := (h x)\<lparr>rb_left := y\<rparr>)"
definition set_right :: "('p, 'k) rb_heap \<Rightarrow> 'p \<Rightarrow> 'p \<Rightarrow> ('p, 'k) rb_heap" where
  "set_right h x y = h(x := (h x)\<lparr>rb_right := y\<rparr>)"
definition set_color :: "('p, 'k) rb_heap \<Rightarrow> 'p \<Rightarrow> u8 \<Rightarrow> ('p, 'k) rb_heap" where
  "set_color h x c = h(x := (h x)\<lparr>rb_color := c\<rparr>)"

text \<open>The assignments to a field, read back field by field.\<close>

lemma set_p_sel [simp]:
  "rb_p (set_p h x y q) = (if q = x then y else rb_p (h q))"
  "rb_s (set_p h x y q) = rb_s (h q)" "rb_left (set_p h x y q) = rb_left (h q)"
  "rb_right (set_p h x y q) = rb_right (h q)" "rb_v (set_p h x y q) = rb_v (h q)"
  "rb_color (set_p h x y q) = rb_color (h q)"
  by (simp_all add: set_p_def)

lemma set_left_sel [simp]:
  "rb_left (set_left h x y q) = (if q = x then y else rb_left (h q))"
  "rb_s (set_left h x y q) = rb_s (h q)" "rb_p (set_left h x y q) = rb_p (h q)"
  "rb_right (set_left h x y q) = rb_right (h q)" "rb_v (set_left h x y q) = rb_v (h q)"
  "rb_color (set_left h x y q) = rb_color (h q)"
  by (simp_all add: set_left_def)

lemma set_right_sel [simp]:
  "rb_right (set_right h x y q) = (if q = x then y else rb_right (h q))"
  "rb_s (set_right h x y q) = rb_s (h q)" "rb_p (set_right h x y q) = rb_p (h q)"
  "rb_left (set_right h x y q) = rb_left (h q)" "rb_v (set_right h x y q) = rb_v (h q)"
  "rb_color (set_right h x y q) = rb_color (h q)"
  by (simp_all add: set_right_def)

lemma set_color_sel [simp]:
  "rb_color (set_color h x c q) = (if q = x then c else rb_color (h q))"
  "rb_s (set_color h x c q) = rb_s (h q)" "rb_p (set_color h x c q) = rb_p (h q)"
  "rb_left (set_color h x c q) = rb_left (h q)" "rb_right (set_color h x c q) = rb_right (h q)"
  "rb_v (set_color h x c q) = rb_v (h q)"
  by (simp_all add: set_color_def)

lemma set_other [simp]:
  "q \<noteq> x \<Longrightarrow> set_p h x y q = h q" "q \<noteq> x \<Longrightarrow> set_left h x y q = h q"
  "q \<noteq> x \<Longrightarrow> set_right h x y q = h q" "q \<noteq> x \<Longrightarrow> set_color h x c q = h q"
  by (simp_all add: set_p_def set_left_def set_right_def set_color_def)

definition rb_get :: "'p::zero \<Rightarrow> 'p res" where
  "rb_get p = (if p = 0 then Inl NullDeref else Inr p)"

definition rbtree_check_node :: "'p::zero \<Rightarrow> 'p option" where
  "rbtree_check_node p = (if p = 0 then None else Some p)"

definition rb_fuel :: nat where
  "rb_fuel = 64"

text \<open>The tests \<open>n && n->color == RB_RED\<close> and \<open>n == NULL || n->color == RB_BLACK\<close>.\<close>

definition is_red :: "('p::zero, 'k) rb_heap \<Rightarrow> 'p \<Rightarrow> bool" where
  "is_red h q = (case rbtree_check_node q of None \<Rightarrow> False | Some u \<Rightarrow> rb_color (h u) = RB_RED)"

definition null_or_black :: "('p::zero, 'k) rb_heap \<Rightarrow> 'p \<Rightarrow> bool" where
  "null_or_black h q =
     (case rbtree_check_node q of None \<Rightarrow> True | Some u \<Rightarrow> rb_color (h u) = RB_BLACK)"

section \<open>Rotations\<close>

definition rbtree_left_rotate ::
  "'p::zero rb_tree \<Rightarrow> ('p, 'k) rb_heap \<Rightarrow> 'p \<Rightarrow> ('p rb_tree \<times> ('p, 'k) rb_heap) res" where
  "rbtree_left_rotate T h node =
     bind_r (rb_get (rb_right (h node))) (\<lambda>x.
       let p = rbtree_check_node (rb_p (h node));
           h = set_right h node (rb_left (h x));
           h = (if rb_right (h node) \<noteq> 0
                then let y = rb_right (h node) in set_p h y (rb_s (h node)) else h);
           h = set_p h node (rb_s (h x));
           h = set_left h x (rb_s (h node))
       in case p of
            None \<Rightarrow> Inr (T\<lparr>rb_root := rb_s (h x)\<rparr>, set_p h x 0)
          | Some p \<Rightarrow>
              let h = (if rb_left (h p) = rb_s (h node) then set_left h p (rb_s (h x))
                       else set_right h p (rb_s (h x)))
              in Inr (T, set_p h x (rb_s (h p))))"

definition rbtree_right_rotate ::
  "'p::zero rb_tree \<Rightarrow> ('p, 'k) rb_heap \<Rightarrow> 'p \<Rightarrow> ('p rb_tree \<times> ('p, 'k) rb_heap) res" where
  "rbtree_right_rotate T h node =
     bind_r (rb_get (rb_left (h node))) (\<lambda>x.
       let p = rbtree_check_node (rb_p (h node));
           h = set_left h node (rb_right (h x));
           h = (if rb_left (h node) \<noteq> 0
                then let y = rb_left (h node) in set_p h y (rb_s (h node)) else h);
           h = set_p h node (rb_s (h x));
           h = set_right h x (rb_s (h node))
       in case p of
            None \<Rightarrow> Inr (T\<lparr>rb_root := rb_s (h x)\<rparr>, set_p h x 0)
          | Some p \<Rightarrow>
              let h = (if rb_left (h p) = rb_s (h node) then set_left h p (rb_s (h x))
                       else set_right h p (rb_s (h x)))
              in Inr (T, set_p h x (rb_s (h p))))"

section \<open>The fix-up after an insertion\<close>

text \<open>
  The two halves of the loop body, for the parent a left or a right child of the grandparent
  \<open>pp\<close>; the result is the node the loop goes on with.
\<close>

definition fix_insert_left ::
  "'p::zero rb_tree \<Rightarrow> ('p, 'k) rb_heap \<Rightarrow> 'p \<Rightarrow> 'p \<Rightarrow> 'p
    \<Rightarrow> ('p rb_tree \<times> ('p, 'k) rb_heap \<times> 'p) res" where
  "fix_insert_left T h node p pp =
     (if is_red h (rb_right (h pp))
      then let uncle = rb_right (h pp);
               h = set_color h uncle RB_BLACK;
               h = set_color h p RB_BLACK;
               h = set_color h pp RB_RED
           in Inr (T, h, pp)
      else bind_r (if rb_s (h node) = rb_right (h p)
                   then bind_r (rbtree_left_rotate T h p) (\<lambda>(T, h). Inr (T, h, p, node))
                   else Inr (T, h, node, p)) (\<lambda>(T, h, node, p).
             let h = set_color h p RB_BLACK;
                 h = set_color h pp RB_RED
             in bind_r (rbtree_right_rotate T h pp) (\<lambda>(T, h). Inr (T, h, node))))"

definition fix_insert_right ::
  "'p::zero rb_tree \<Rightarrow> ('p, 'k) rb_heap \<Rightarrow> 'p \<Rightarrow> 'p \<Rightarrow> 'p
    \<Rightarrow> ('p rb_tree \<times> ('p, 'k) rb_heap \<times> 'p) res" where
  "fix_insert_right T h node p pp =
     (if is_red h (rb_left (h pp))
      then let uncle = rb_left (h pp);
               h = set_color h uncle RB_BLACK;
               h = set_color h p RB_BLACK;
               h = set_color h pp RB_RED
           in Inr (T, h, pp)
      else bind_r (if rb_s (h node) = rb_left (h p)
                   then bind_r (rbtree_right_rotate T h p) (\<lambda>(T, h). Inr (T, h, p, node))
                   else Inr (T, h, node, p)) (\<lambda>(T, h, node, p).
             let h = set_color h p RB_BLACK;
                 h = set_color h pp RB_RED
             in bind_r (rbtree_left_rotate T h pp) (\<lambda>(T, h). Inr (T, h, node))))"

primrec rbtree_fix_insert ::
  "nat \<Rightarrow> 'p::zero rb_tree \<Rightarrow> ('p, 'k) rb_heap \<Rightarrow> 'p
    \<Rightarrow> ('p rb_tree \<times> ('p, 'k) rb_heap) res" where
  "rbtree_fix_insert 0 T h node = Inl OutOfFuel"
| "rbtree_fix_insert (Suc fuel) T h node =
     (if is_red h (rb_p (h node))
      then let p = rb_p (h node)
           in bind_r (rb_get (rb_p (h p))) (\<lambda>pp.
                bind_r (if rb_s (h p) = rb_left (h pp) then fix_insert_left T h node p pp
                        else fix_insert_right T h node p pp) (\<lambda>(T, h, node).
                  rbtree_fix_insert fuel T h node))
      else Inr (T, if rb_p (h node) = 0 then set_color h node RB_BLACK else h))"

section \<open>The fix-up after a deletion\<close>

text \<open>
  The two halves of the loop body, for the node a left or a right child of its parent
  \<open>p\<close>, each in two parts: a red sibling \<open>w\<close> is rotated away, then the case
  analysis for a black sibling. The result of the second part holds the node the loop goes on
  with, \<open>None\<close> after the \<open>break\<close>.
\<close>

definition fix_delete_left_red ::
  "'p::zero rb_tree \<Rightarrow> ('p, 'k) rb_heap \<Rightarrow> 'p
    \<Rightarrow> ('p rb_tree \<times> ('p, 'k) rb_heap \<times> 'p) res" where
  "fix_delete_left_red T h p =
     bind_r (rb_get (rb_right (h p))) (\<lambda>w.
       if rb_color (h w) = RB_RED
       then let h = set_color h w RB_BLACK;
                h = set_color h p RB_RED
            in bind_r (rbtree_left_rotate T h p) (\<lambda>(T, h).
               bind_r (rb_get (rb_right (h p))) (\<lambda>w. Inr (T, h, w)))
       else Inr (T, h, w))"

definition fix_delete_left_black ::
  "'p::zero rb_tree \<Rightarrow> ('p, 'k) rb_heap \<Rightarrow> 'p \<Rightarrow> 'p
    \<Rightarrow> ('p rb_tree \<times> ('p, 'k) rb_heap \<times> 'p option) res" where
  "fix_delete_left_black T h p w =
     (let wl = rb_left (h w); wr = rb_right (h w)
      in if null_or_black h wl \<and> null_or_black h wr
         then Inr (T, set_color h w RB_RED, Some p)
         else bind_r (if null_or_black h wr
                      then bind_r (rb_get wl) (\<lambda>wl.
                           let h = set_color h wl RB_BLACK;
                               h = set_color h w RB_RED
                           in bind_r (rbtree_right_rotate T h w) (\<lambda>(T, h).
                              bind_r (rb_get (rb_right (h p))) (\<lambda>w.
                              bind_r (rb_get (rb_right (h w))) (\<lambda>wr. Inr (T, h, w, wr)))))
                      else Inr (T, h, w, wr)) (\<lambda>(T, h, w, wr).
                let h = set_color h w (rb_color (h p));
                    h = set_color h p RB_BLACK;
                    h = set_color h wr RB_BLACK
                in bind_r (rbtree_left_rotate T h p) (\<lambda>(T, h). Inr (T, h, None))))"

definition fix_delete_right_red ::
  "'p::zero rb_tree \<Rightarrow> ('p, 'k) rb_heap \<Rightarrow> 'p
    \<Rightarrow> ('p rb_tree \<times> ('p, 'k) rb_heap \<times> 'p) res" where
  "fix_delete_right_red T h p =
     bind_r (rb_get (rb_left (h p))) (\<lambda>w.
       if rb_color (h w) = RB_RED
       then let h = set_color h w RB_BLACK;
                h = set_color h p RB_RED
            in bind_r (rbtree_right_rotate T h p) (\<lambda>(T, h).
               bind_r (rb_get (rb_left (h p))) (\<lambda>w. Inr (T, h, w)))
       else Inr (T, h, w))"

definition fix_delete_right_black ::
  "'p::zero rb_tree \<Rightarrow> ('p, 'k) rb_heap \<Rightarrow> 'p \<Rightarrow> 'p
    \<Rightarrow> ('p rb_tree \<times> ('p, 'k) rb_heap \<times> 'p option) res" where
  "fix_delete_right_black T h p w =
     (let wl = rb_left (h w); wr = rb_right (h w)
      in if null_or_black h wl \<and> null_or_black h wr
         then Inr (T, set_color h w RB_RED, Some p)
         else bind_r (if null_or_black h wl
                      then bind_r (rb_get wr) (\<lambda>wr.
                           let h = set_color h wr RB_BLACK;
                               h = set_color h w RB_RED
                           in bind_r (rbtree_left_rotate T h w) (\<lambda>(T, h).
                              bind_r (rb_get (rb_left (h p))) (\<lambda>w.
                              bind_r (rb_get (rb_left (h w))) (\<lambda>wl. Inr (T, h, w, wl)))))
                      else Inr (T, h, w, wl)) (\<lambda>(T, h, w, wl).
                let h = set_color h w (rb_color (h p));
                    h = set_color h p RB_BLACK;
                    h = set_color h wl RB_BLACK
                in bind_r (rbtree_right_rotate T h p) (\<lambda>(T, h). Inr (T, h, None))))"

primrec rbtree_fix_delete ::
  "nat \<Rightarrow> 'p::zero rb_tree \<Rightarrow> ('p, 'k) rb_heap \<Rightarrow> 'p
    \<Rightarrow> ('p rb_tree \<times> ('p, 'k) rb_heap) res" where
  "rbtree_fix_delete 0 T h node = Inl OutOfFuel"
| "rbtree_fix_delete (Suc fuel) T h node =
     (if rb_p (h node) \<noteq> 0 \<and> rb_color (h node) = RB_BLACK
      then let p = rb_p (h node)
           in bind_r (if rb_left (h p) = rb_s (h node)
                      then bind_r (fix_delete_left_red T h p) (\<lambda>(T, h, w).
                             fix_delete_left_black T h p w)
                      else bind_r (fix_delete_right_red T h p) (\<lambda>(T, h, w).
                             fix_delete_right_black T h p w)) (\<lambda>(T, h, next).
                case next of
                  Some node' \<Rightarrow> rbtree_fix_delete fuel T h node'
                | None \<Rightarrow> Inr (T, set_color h node RB_BLACK))
      else Inr (T, set_color h node RB_BLACK))"

section \<open>The interface\<close>

definition rbtree_node_init :: "('p::zero, 'k) rb_heap \<Rightarrow> 'p \<Rightarrow> ('p, 'k) rb_heap" where
  "rbtree_node_init h node =
     h(node := (h node)\<lparr>rb_color := RB_RED, rb_p := 0, rb_left := 0, rb_right := 0\<rparr>)"

definition rbtree_init :: "'p::zero rb_tree" where
  "rbtree_init = \<lparr>rb_root = 0, rb_size = 0\<rparr>"

primrec rbtree_min_node :: "nat \<Rightarrow> ('p::zero, 'k) rb_heap \<Rightarrow> 'p \<Rightarrow> 'p res" where
  "rbtree_min_node 0 h node = Inl OutOfFuel"
| "rbtree_min_node (Suc fuel) h node =
     (if rb_left (h node) \<noteq> 0
      then bind_r (rb_get (rb_left (h node))) (\<lambda>node. rbtree_min_node fuel h node)
      else Inr node)"

primrec rbtree_max_node :: "nat \<Rightarrow> ('p::zero, 'k) rb_heap \<Rightarrow> 'p \<Rightarrow> 'p res" where
  "rbtree_max_node 0 h node = Inl OutOfFuel"
| "rbtree_max_node (Suc fuel) h node =
     (if rb_right (h node) \<noteq> 0
      then bind_r (rb_get (rb_right (h node))) (\<lambda>node. rbtree_max_node fuel h node)
      else Inr node)"

definition rbtree_min :: "'p::zero rb_tree \<Rightarrow> ('p, 'k) rb_heap \<Rightarrow> 'p option res" where
  "rbtree_min T h =
     (if rb_root T \<noteq> 0
      then bind_r (rb_get (rb_root T)) (\<lambda>r.
           bind_r (rbtree_min_node rb_fuel h r) (\<lambda>node. Inr (Some node)))
      else Inr None)"

definition rbtree_max :: "'p::zero rb_tree \<Rightarrow> ('p, 'k) rb_heap \<Rightarrow> 'p option res" where
  "rbtree_max T h =
     (if rb_root T \<noteq> 0
      then bind_r (rb_get (rb_root T)) (\<lambda>r.
           bind_r (rbtree_max_node rb_fuel h r) (\<lambda>node. Inr (Some node)))
      else Inr None)"

text \<open>The climb of \<open>rbtree_next\<close> and of \<open>rbtree_prev\<close> to the first ancestor reached
  from the left, from the right.\<close>

primrec next_up :: "nat \<Rightarrow> ('p::zero, 'k) rb_heap \<Rightarrow> 'p \<Rightarrow> 'p option res" where
  "next_up 0 h node = Inl OutOfFuel"
| "next_up (Suc fuel) h node =
     (if rb_p (h node) \<noteq> 0
      then bind_r (rb_get (rb_p (h node))) (\<lambda>p.
             if rb_s (h node) = rb_right (h p) then next_up fuel h p else Inr (Some p))
      else Inr None)"

primrec prev_up :: "nat \<Rightarrow> ('p::zero, 'k) rb_heap \<Rightarrow> 'p \<Rightarrow> 'p option res" where
  "prev_up 0 h node = Inl OutOfFuel"
| "prev_up (Suc fuel) h node =
     (if rb_p (h node) \<noteq> 0
      then bind_r (rb_get (rb_p (h node))) (\<lambda>p.
             if rb_s (h node) = rb_left (h p) then prev_up fuel h p else Inr (Some p))
      else Inr None)"

definition rbtree_next :: "('p::zero, 'k) rb_heap \<Rightarrow> 'p \<Rightarrow> 'p option res" where
  "rbtree_next h node =
     (if rb_right (h node) \<noteq> 0
      then bind_r (rb_get (rb_right (h node))) (\<lambda>node.
           bind_r (rbtree_min_node rb_fuel h node) (\<lambda>r. Inr (Some r)))
      else next_up rb_fuel h node)"

definition rbtree_prev :: "('p::zero, 'k) rb_heap \<Rightarrow> 'p \<Rightarrow> 'p option res" where
  "rbtree_prev h node =
     (if rb_left (h node) \<noteq> 0
      then bind_r (rb_get (rb_left (h node))) (\<lambda>node.
           bind_r (rbtree_max_node rb_fuel h node) (\<lambda>r. Inr (Some r)))
      else prev_up rb_fuel h node)"

primrec find_loop ::
  "nat \<Rightarrow> ('k \<Rightarrow> 'k \<Rightarrow> int) \<Rightarrow> ('p::zero, 'k) rb_heap \<Rightarrow> 'p \<Rightarrow> 'k \<Rightarrow> 'p option res" where
  "find_loop 0 cmp h node val = Inl OutOfFuel"
| "find_loop (Suc fuel) cmp h node val =
     (if node \<noteq> 0
      then bind_r (rb_get node) (\<lambda>pnode.
           let diff = cmp (rb_v (h pnode)) val
           in if diff < 0 then find_loop fuel cmp h (rb_right (h pnode)) val
              else if diff > 0 then find_loop fuel cmp h (rb_left (h pnode)) val
              else Inr (Some pnode))
      else Inr None)"

definition rbtree_find ::
  "('k \<Rightarrow> 'k \<Rightarrow> int) \<Rightarrow> 'p::zero rb_tree \<Rightarrow> ('p, 'k) rb_heap \<Rightarrow> 'k \<Rightarrow> 'p option res" where
  "rbtree_find cmp T h val = find_loop rb_fuel cmp h (rb_root T) val"

text \<open>
  \<open>rbtree_lower\<close> keeps the last node it went through in \<open>prev\<close> and whether some node
  was not smaller than \<open>val\<close> in \<open>prev_bigger\<close>; it stops at the first smaller node after
  that.
\<close>

primrec lower_loop ::
  "nat \<Rightarrow> ('k \<Rightarrow> 'k \<Rightarrow> int) \<Rightarrow> ('p::zero, 'k) rb_heap \<Rightarrow> 'p \<Rightarrow> 'k \<Rightarrow> 'p option \<Rightarrow> bool
    \<Rightarrow> 'p option res" where
  "lower_loop 0 cmp h node val prev prev_bigger = Inl OutOfFuel"
| "lower_loop (Suc fuel) cmp h node val prev prev_bigger =
     (if node \<noteq> 0
      then bind_r (rb_get node) (\<lambda>pnode.
           if cmp (rb_v (h pnode)) val < 0
           then if prev_bigger then Inr prev
                else lower_loop fuel cmp h (rb_right (h pnode)) val (Some pnode) prev_bigger
           else lower_loop fuel cmp h (rb_left (h pnode)) val (Some pnode) True)
      else Inr (if prev_bigger then prev else None))"

definition rbtree_lower ::
  "('k \<Rightarrow> 'k \<Rightarrow> int) \<Rightarrow> 'p::zero rb_tree \<Rightarrow> ('p, 'k) rb_heap \<Rightarrow> 'k \<Rightarrow> 'p option res" where
  "rbtree_lower cmp T h val = lower_loop rb_fuel cmp h (rb_root T) val None False"

primrec insert_descend ::
  "nat \<Rightarrow> ('k \<Rightarrow> 'k \<Rightarrow> int) \<Rightarrow> ('p::zero, 'k) rb_heap \<Rightarrow> 'p \<Rightarrow> 'p \<Rightarrow> 'p \<Rightarrow> 'p res" where
  "insert_descend 0 cmp h pnode node new_node = Inl OutOfFuel"
| "insert_descend (Suc fuel) cmp h pnode node new_node =
     (if pnode \<noteq> 0
      then bind_r (rb_get pnode) (\<lambda>node.
             insert_descend fuel cmp h
               (if cmp (rb_v (h node)) (rb_v (h new_node)) < 0 then rb_right (h node)
                else rb_left (h node)) node new_node)
      else Inr node)"

definition rbtree_insert ::
  "('k \<Rightarrow> 'k \<Rightarrow> int) \<Rightarrow> 'p::zero rb_tree \<Rightarrow> ('p, 'k) rb_heap \<Rightarrow> 'p
    \<Rightarrow> ('p rb_tree \<times> ('p, 'k) rb_heap) res" where
  "rbtree_insert cmp T h new_node = assert_r (rb_s (h new_node) = new_node)
     (let h = rbtree_node_init h new_node;
          T = T\<lparr>rb_size := rb_size T + 1\<rparr>
      in if rb_root T = 0
         then Inr (T\<lparr>rb_root := rb_s (h new_node)\<rparr>, set_color h new_node RB_BLACK)
         else bind_r (insert_descend rb_fuel cmp h (rb_root T) 0 new_node) (\<lambda>node.
              let h = (if cmp (rb_v (h node)) (rb_v (h new_node)) < 0
                       then set_right h node (rb_s (h new_node))
                       else set_left h node (rb_s (h new_node)));
                  h = set_p h new_node (rb_s (h node))
              in rbtree_fix_insert rb_fuel T h new_node))"

text \<open>
  The sentinel \<open>enode\<close> of \<open>rbtree_delete\<close> is a local variable. The model keeps it in
  the slot of the null pointer, which \<open>rb_get\<close> never reaches; the slot is dead again when
  the operation returns.
\<close>

definition enode_init :: "('p::zero, 'k) rb_heap \<Rightarrow> ('p, 'k) rb_heap" where
  "enode_init h = h(0 := (h 0)\<lparr>rb_s := 0, rb_p := 0, rb_left := 0, rb_right := 0,
                          rb_color := RB_BLACK\<rparr>)"

text \<open>
  Lines 412 to 445: the replacement \<open>y\<close> takes the place of the deleted node. The second
  half moves the parent link and the children.
\<close>

definition replace_children :: "('p::zero, 'k) rb_heap \<Rightarrow> 'p \<Rightarrow> 'p \<Rightarrow> ('p, 'k) rb_heap" where
  "replace_children h node y =
     (let h = set_p h y (rb_p (h node));
          h = set_p h node 0;
          h = (if rb_left (h node) \<noteq> 0
               then let t = rb_left (h node) in set_p h t (rb_s (h y)) else h);
          h = set_left h y (rb_left (h node));
          h = set_left h node 0;
          h = (if rb_right (h node) \<noteq> 0
               then let t = rb_right (h node) in set_p h t (rb_s (h y)) else h);
          h = set_right h y (rb_right (h node));
          h = set_right h node 0
      in h)"

definition delete_replace ::
  "'p::zero rb_tree \<Rightarrow> ('p, 'k) rb_heap \<Rightarrow> 'p \<Rightarrow> 'p \<Rightarrow> 'p
    \<Rightarrow> ('p rb_tree \<times> ('p, 'k) rb_heap) res" where
  "delete_replace T h node x y =
     (let h = (if rb_p (h y) = rb_s (h node) then set_p h x (rb_s (h y)) else h);
          h = set_color h y (rb_color (h node))
      in bind_r (if rb_p (h node) = 0 then Inr (T\<lparr>rb_root := rb_s (h y)\<rparr>, h)
                 else bind_r (rb_get (rb_p (h node))) (\<lambda>t.
                      Inr (T, if rb_left (h t) = rb_s (h node) then set_left h t (rb_s (h y))
                              else set_right h t (rb_s (h y))))) (\<lambda>(T, h).
         Inr (T, replace_children h node y)))"

text \<open>Lines 398 to 409: the node \<open>y\<close> is unlinked, its only child \<open>x\<close> takes its place.\<close>

definition delete_unlink ::
  "'p::zero rb_tree \<Rightarrow> ('p, 'k) rb_heap \<Rightarrow> 'p \<Rightarrow> 'p \<Rightarrow> ('p rb_tree \<times> ('p, 'k) rb_heap) res" where
  "delete_unlink T h x y =
     (let h = set_p h x (rb_p (h y))
      in if rb_p (h y) = 0 then Inr (T\<lparr>rb_root := rb_s (h x)\<rparr>, h)
         else bind_r (rb_get (rb_p (h y))) (\<lambda>p.
              Inr (T, if rb_s (h y) = rb_left (h p) then set_left h p (rb_s (h x))
                      else set_right h p (rb_s (h x)))))"

definition rbtree_delete ::
  "'p::zero rb_tree \<Rightarrow> ('p, 'k) rb_heap \<Rightarrow> 'p \<Rightarrow> ('p rb_tree \<times> ('p, 'k) rb_heap) res" where
  "rbtree_delete T h node =
     (let T = T\<lparr>rb_size := rb_size T - 1\<rparr>;
          h = enode_init h
      in bind_r (if rb_left (h node) = 0 then Inr (rb_right (h node), node)
                 else if rb_right (h node) = 0 then Inr (rb_left (h node), node)
                 else bind_r (rb_get (rb_right (h node))) (\<lambda>r.
                      bind_r (rbtree_min_node rb_fuel h r) (\<lambda>y. Inr (rb_right (h y), y))))
         (\<lambda>(px, y).
         let x = px
         in bind_r (delete_unlink T h x y) (\<lambda>(T, h).
            let color = rb_color (h y)
            in bind_r (if y \<noteq> node then delete_replace T h node x y else Inr (T, h)) (\<lambda>(T, h).
               if color = RB_BLACK then rbtree_fix_delete rb_fuel T h x else Inr (T, h)))))"

end
