(* ===== verification/RBTree_Abs.thy ===== *)
theory RBTree_Abs
  imports RBTree
begin

text \<open>
  What the linked nodes of a red-black tree stand for. \<open>ctree\<close> is the tree of node
  pointers with their colours, \<open>frame list\<close> the path from a subtree to the root, innermost
  frame first. \<open>cfg T h fs t\<close> says that the heap \<open>h\<close> and the tree header \<open>T\<close> hold
  the subtree \<open>t\<close> under the path \<open>fs\<close>: every link, parent link, self pointer and colour
  agrees, and no node occurs twice. The loops of \<open>rbtree.h\<close> walk up and down such
  configurations; each rotation and recolouring below is one rewrite of the abstract tree.
\<close>

section \<open>Trees of pointers\<close>

datatype rbc = Red | Black

primrec rbcode :: "rbc \<Rightarrow> u8" where
  "rbcode Red = RB_RED"
| "rbcode Black = RB_BLACK"

lemma rbcode_eq [simp]:
  "rbcode c = RB_RED \<longleftrightarrow> c = Red" "rbcode c = RB_BLACK \<longleftrightarrow> c = Black"
  "rbcode c = rbcode d \<longleftrightarrow> c = d"
  by (cases c; cases d; simp)+

lemma rbc_neq [simp]: "c \<noteq> Red \<longleftrightarrow> c = Black" "c \<noteq> Black \<longleftrightarrow> c = Red"
  by (cases c; simp)+

datatype 'p ctree = Lf | Br rbc "'p ctree" 'p "'p ctree"

primrec root_ptr :: "'p::zero ctree \<Rightarrow> 'p" where
  "root_ptr Lf = 0"
| "root_ptr (Br c l a r) = a"

primrec inord :: "'p ctree \<Rightarrow> 'p list" where
  "inord Lf = []"
| "inord (Br c l a r) = inord l @ a # inord r"

primrec tcol :: "'p ctree \<Rightarrow> rbc" where
  "tcol Lf = Black"
| "tcol (Br c l a r) = c"

primrec tlinked :: "('p::zero, 'k) rb_heap \<Rightarrow> 'p \<Rightarrow> 'p ctree \<Rightarrow> bool" where
  "tlinked h par Lf = True"
| "tlinked h par (Br c l a r) =
     (a \<noteq> 0 \<and> rb_s (h a) = a \<and> rb_p (h a) = par \<and> rb_left (h a) = root_ptr l
      \<and> rb_right (h a) = root_ptr r \<and> rb_color (h a) = rbcode c
      \<and> tlinked h a l \<and> tlinked h a r)"

datatype 'p frame =
  FL rbc 'p "'p ctree" \<comment> \<open>the hole is the left child\<close>
| FR rbc "'p ctree" 'p \<comment> \<open>the hole is the right child\<close>

primrec plug1 :: "'p frame \<Rightarrow> 'p ctree \<Rightarrow> 'p ctree" where
  "plug1 (FL c a r) t = Br c t a r"
| "plug1 (FR c l a) t = Br c l a t"

primrec plug :: "'p frame list \<Rightarrow> 'p ctree \<Rightarrow> 'p ctree" where
  "plug [] t = t"
| "plug (f # fs) t = plug fs (plug1 f t)"

primrec faddr :: "'p frame \<Rightarrow> 'p" where
  "faddr (FL c a r) = a"
| "faddr (FR c l a) = a"

primrec fcol :: "'p frame \<Rightarrow> rbc" where
  "fcol (FL c a r) = c"
| "fcol (FR c l a) = c"

primrec fsib :: "'p frame \<Rightarrow> 'p ctree" where
  "fsib (FL c a r) = r"
| "fsib (FR c l a) = l"

definition zpar :: "'p::zero frame list \<Rightarrow> 'p" where
  "zpar fs = (case fs of [] \<Rightarrow> 0 | f # _ \<Rightarrow> faddr f)"

lemma zpar_simps [simp]: "zpar [] = 0" "zpar (f # fs) = faddr f"
  by (simp_all add: zpar_def)

primrec zaddrs :: "'p frame list \<Rightarrow> 'p list" where
  "zaddrs [] = []"
| "zaddrs (f # fs) = faddr f # inord (fsib f) @ zaddrs fs"

primrec flinked :: "('p::zero, 'k) rb_heap \<Rightarrow> 'p \<Rightarrow> 'p \<Rightarrow> 'p frame \<Rightarrow> bool" where
  "flinked h par x (FL c a r) =
     (a \<noteq> 0 \<and> rb_s (h a) = a \<and> rb_p (h a) = par \<and> rb_left (h a) = x
      \<and> rb_right (h a) = root_ptr r \<and> rb_color (h a) = rbcode c \<and> tlinked h a r)"
| "flinked h par x (FR c l a) =
     (a \<noteq> 0 \<and> rb_s (h a) = a \<and> rb_p (h a) = par \<and> rb_left (h a) = root_ptr l
      \<and> rb_right (h a) = x \<and> rb_color (h a) = rbcode c \<and> tlinked h a l)"

primrec zlinked :: "('p::zero, 'k) rb_heap \<Rightarrow> 'p \<Rightarrow> 'p \<Rightarrow> 'p frame list \<Rightarrow> bool" where
  "zlinked h root x [] = (root = x)"
| "zlinked h root x (f # fs) = (flinked h (zpar fs) x f \<and> zlinked h root (faddr f) fs)"

definition cfg ::
  "'p::zero rb_tree \<Rightarrow> ('p, 'k) rb_heap \<Rightarrow> 'p frame list \<Rightarrow> 'p ctree \<Rightarrow> bool" where
  "cfg T h fs t \<longleftrightarrow> tlinked h (zpar fs) t \<and> zlinked h (rb_root T) (root_ptr t) fs
     \<and> distinct (inord t @ zaddrs fs)"

abbreviation linked :: "'p::zero rb_tree \<Rightarrow> ('p, 'k) rb_heap \<Rightarrow> 'p ctree \<Rightarrow> bool" where
  "linked T h t \<equiv> cfg T h [] t"

lemma inord_plug1: "set (inord (plug1 f t)) = insert (faddr f) (set (inord t) \<union> set (inord (fsib f)))"
  by (cases f) auto

lemma set_inord_plug: "set (inord (plug fs t)) = set (inord t) \<union> set (zaddrs fs)"
  by (induction fs arbitrary: t) (auto simp: inord_plug1)

lemma root_ptr_plug1 [simp]: "root_ptr (plug1 f t) = faddr f"
  by (cases f) auto

text \<open>Moving the focus up does not change what is said of the heap.\<close>

lemma cfg_up: "cfg T h (f # fs) t \<longleftrightarrow> cfg T h fs (plug1 f t)"
  by (cases f) (auto simp: cfg_def)

lemma cfg_plug: "cfg T h fs t \<longleftrightarrow> linked T h (plug fs t)"
  by (induction fs arbitrary: t) (auto simp: cfg_up)

lemma tlinked_cong:
  "(\<And>q. q \<in> set (inord t) \<Longrightarrow> h' q = h q) \<Longrightarrow> tlinked h' par t = tlinked h par t"
  by (induction t arbitrary: par) auto

lemma flinked_cong:
  "(\<And>q. q \<in> set (faddr f # inord (fsib f)) \<Longrightarrow> h' q = h q) \<Longrightarrow> flinked h' par x f = flinked h par x f"
  by (cases f) (auto cong: tlinked_cong)

lemma zlinked_cong:
  "(\<And>q. q \<in> set (zaddrs fs) \<Longrightarrow> h' q = h q) \<Longrightarrow> zlinked h' root x fs = zlinked h root x fs"
proof (induction fs arbitrary: x)
  case (Cons f fs)
  have "flinked h' (zpar fs) x f = flinked h (zpar fs) x f"
    by (rule flinked_cong) (use Cons.prems in auto)
  moreover have "zlinked h' root (faddr f) fs = zlinked h root (faddr f) fs"
    by (rule Cons.IH) (use Cons.prems in auto)
  ultimately show ?case by simp
qed simp

lemma tlinked_set_p [simp]:
  "a \<notin> set (inord t) \<Longrightarrow> tlinked (set_p h a y) par t = tlinked h par t"
  by (rule tlinked_cong, rule set_other) blast

lemma tlinked_set_left [simp]:
  "a \<notin> set (inord t) \<Longrightarrow> tlinked (set_left h a y) par t = tlinked h par t"
  by (rule tlinked_cong, rule set_other) blast

lemma tlinked_set_right [simp]:
  "a \<notin> set (inord t) \<Longrightarrow> tlinked (set_right h a y) par t = tlinked h par t"
  by (rule tlinked_cong, rule set_other) blast

lemma tlinked_set_color [simp]:
  "a \<notin> set (inord t) \<Longrightarrow> tlinked (set_color h a c) par t = tlinked h par t"
  by (rule tlinked_cong, rule set_other) blast

lemma flinked_set_p [simp]:
  "a \<notin> set (faddr f # inord (fsib f)) \<Longrightarrow> flinked (set_p h a y) par x f = flinked h par x f"
  by (rule flinked_cong, rule set_other) blast

lemma flinked_set_left [simp]:
  "a \<notin> set (faddr f # inord (fsib f)) \<Longrightarrow> flinked (set_left h a y) par x f = flinked h par x f"
  by (rule flinked_cong, rule set_other) blast

lemma flinked_set_right [simp]:
  "a \<notin> set (faddr f # inord (fsib f)) \<Longrightarrow> flinked (set_right h a y) par x f = flinked h par x f"
  by (rule flinked_cong, rule set_other) blast

lemma flinked_set_color [simp]:
  "a \<notin> set (faddr f # inord (fsib f)) \<Longrightarrow> flinked (set_color h a c) par x f = flinked h par x f"
  by (rule flinked_cong, rule set_other) blast

lemma zlinked_set_p [simp]:
  "a \<notin> set (zaddrs fs) \<Longrightarrow> zlinked (set_p h a y) root x fs = zlinked h root x fs"
  by (rule zlinked_cong, rule set_other) blast

lemma zlinked_set_left [simp]:
  "a \<notin> set (zaddrs fs) \<Longrightarrow> zlinked (set_left h a y) root x fs = zlinked h root x fs"
  by (rule zlinked_cong, rule set_other) blast

lemma zlinked_set_right [simp]:
  "a \<notin> set (zaddrs fs) \<Longrightarrow> zlinked (set_right h a y) root x fs = zlinked h root x fs"
  by (rule zlinked_cong, rule set_other) blast

lemma zlinked_set_color [simp]:
  "a \<notin> set (zaddrs fs) \<Longrightarrow> zlinked (set_color h a c) root x fs = zlinked h root x fs"
  by (rule zlinked_cong, rule set_other) blast

lemma tlinked_nonzero: "tlinked h par t \<Longrightarrow> 0 \<notin> set (inord t)"
  by (induction t arbitrary: par) auto

lemma flinked_nonzero: "flinked h par x f \<Longrightarrow> faddr f \<noteq> 0 \<and> 0 \<notin> set (inord (fsib f))"
  by (cases f) (auto dest: tlinked_nonzero)

lemma zlinked_nonzero: "zlinked h root x fs \<Longrightarrow> 0 \<notin> set (zaddrs fs)"
  by (induction fs arbitrary: x) (auto dest: flinked_nonzero)

lemma cfg_nonzero: "cfg T h fs t \<Longrightarrow> 0 \<notin> set (inord t) \<union> set (zaddrs fs)"
  by (auto simp: cfg_def dest: tlinked_nonzero zlinked_nonzero)

lemma root_ptr_in: "t \<noteq> Lf \<Longrightarrow> root_ptr t \<in> set (inord t)"
  by (cases t) auto

lemma root_ptr_zero: "tlinked h par t \<Longrightarrow> root_ptr t = 0 \<longleftrightarrow> t = Lf"
  by (cases t) auto

text \<open>A heap that differs from another only in links and colours, and only at \<open>A\<close>; the
  sentinel in slot 0 may get a new own pointer.\<close>

definition rb_same :: "'p::zero set \<Rightarrow> ('p, 'k) rb_heap \<Rightarrow> ('p, 'k) rb_heap \<Rightarrow> bool" where
  "rb_same A h h' \<longleftrightarrow> (\<forall>q. q \<notin> A \<longrightarrow> h' q = h q) \<and> (\<forall>q. rb_v (h' q) = rb_v (h q))
     \<and> (\<forall>q. q \<noteq> 0 \<longrightarrow> rb_s (h' q) = rb_s (h q))"

lemma rb_same_refl [simp]: "rb_same A h h"
  by (simp add: rb_same_def)

lemma rb_same_trans: "rb_same A h h' \<Longrightarrow> rb_same A h' h'' \<Longrightarrow> rb_same A h h''"
  by (simp add: rb_same_def)

lemma rb_same_mono: "rb_same A h h' \<Longrightarrow> A \<subseteq> B \<Longrightarrow> rb_same B h h'"
  by (auto simp: rb_same_def)

lemma rb_same_set [simp]:
  "a \<in> A \<Longrightarrow> rb_same A h (set_p h' a y) = rb_same A h h'"
  "a \<in> A \<Longrightarrow> rb_same A h (set_left h' a y) = rb_same A h h'"
  "a \<in> A \<Longrightarrow> rb_same A h (set_right h' a y) = rb_same A h h'"
  "a \<in> A \<Longrightarrow> rb_same A h (set_color h' a c) = rb_same A h h'"
  unfolding rb_same_def
  by (simp_all, (metis set_other)+)

section \<open>Rotation and recolouring\<close>

lemma recolor:
  assumes "cfg T h fs (Br c l a r)"
  shows "cfg T (set_color h a (rbcode c')) fs (Br c' l a r)"
  using assms by (simp add: cfg_def)

text \<open>The parent's link to a child \<open>x\<close> redirected to \<open>y\<close>, as the code tests it.\<close>

definition link_child :: "('p, 'k) rb_heap \<Rightarrow> 'p \<Rightarrow> 'p \<Rightarrow> 'p \<Rightarrow> ('p, 'k) rb_heap" where
  "link_child h p x y = (if rb_left (h p) = x then set_left h p y else set_right h p y)"

lemma root_ptr_neq: "a \<noteq> 0 \<Longrightarrow> a \<notin> set (inord t) \<Longrightarrow> root_ptr t \<noteq> a"
  by (cases t) auto

lemma link_child_apply: "q \<noteq> p \<Longrightarrow> link_child h p x y q = h q"
  by (simp add: link_child_def)

lemma set_p_link_child:
  "r \<noteq> p \<Longrightarrow> set_p (link_child h p x y) z q r = set_p h z q r"
  by (cases "r = z") (auto simp: set_p_def link_child_apply)

lemma link_child_p [simp]: "rb_p (link_child h p x y q) = rb_p (h q)"
  "rb_s (link_child h p x y q) = rb_s (h q)" "rb_v (link_child h p x y q) = rb_v (h q)"
  "rb_color (link_child h p x y q) = rb_color (h q)"
  by (simp_all add: link_child_def)

lemma flinked_link_child:
  assumes "flinked h par x f" and "x \<noteq> 0" and "x \<notin> set (inord (fsib f))"
    and "faddr f \<notin> set (inord (fsib f))"
  shows "flinked (link_child h (faddr f) x y) par y f"
  using assms root_ptr_neq [of x "fsib f"] by (cases f) (auto simp: link_child_def)

lemma zlinked_link_child:
  assumes "zlinked h root x (f # fs)" and "x \<noteq> 0" and "x \<notin> set (zaddrs (f # fs))"
    and "distinct (zaddrs (f # fs))"
  shows "zlinked (link_child h (faddr f) x y) root y (f # fs)"
proof -
  have "flinked (link_child h (faddr f) x y) (zpar fs) y f"
    using assms by (intro flinked_link_child) auto
  moreover have "zlinked (link_child h (faddr f) x y) root (faddr f) fs"
    using assms by (simp add: link_child_def)
  ultimately show ?thesis by simp
qed

lemma tlinked_link_child:
  "p \<notin> set (inord t) \<Longrightarrow> tlinked (link_child h p x y) par t = tlinked h par t"
  by (rule tlinked_cong, rule link_child_apply) auto

lemma link_child_same [simp]: "p \<in> A \<Longrightarrow> rb_same A h (link_child h' p x y) = rb_same A h h'"
  by (simp add: link_child_def)

lemma rotl:
  fixes h :: "('p::zero, 'k) rb_heap"
  assumes "tlinked h par (Br c A x (Br d B y C))" and "distinct (inord (Br c A x (Br d B y C)))"
  defines "h1 \<equiv> set_right h x (root_ptr B)"
  defines "h2 \<equiv> (if root_ptr B \<noteq> 0 then set_p h1 (root_ptr B) x else h1)"
  defines "h4 \<equiv> set_left (set_p h2 x y) y x"
  shows "tlinked (set_p h4 y q) q (Br d (Br c A x B) y C)"
  using assms(1,2) unfolding h4_def h2_def h1_def
  by (cases B) auto

lemma left_rotate_eq:
  assumes "rb_right (h x) \<noteq> 0" and "rb_s (h x) = x" and "rb_s (h (rb_right (h x))) = rb_right (h x)"
    and "x \<noteq> rb_right (h x)"
  defines "y \<equiv> rb_right (h x)" and "b \<equiv> rb_left (h (rb_right (h x)))"
  defines "h1 \<equiv> set_right h x b"
  defines "h2 \<equiv> (if b \<noteq> 0 then set_p h1 b x else h1)"
  defines "h4 \<equiv> set_left (set_p h2 x y) y x"
  assumes "rb_p (h x) \<noteq> 0 \<longrightarrow> rb_s (h (rb_p (h x))) = rb_p (h x)"
  shows "rbtree_left_rotate T h x = Inr
    (if rb_p (h x) = 0 then (T\<lparr>rb_root := y\<rparr>, set_p h4 y 0)
     else (T, set_p (link_child h4 (rb_p (h x)) x y) y (rb_p (h x))))"
  using assms
  by (simp add: rbtree_left_rotate_def rb_get_def rbtree_check_node_def Let_def link_child_def)

lemma left_rotate_cfg:
  assumes c: "cfg T h fs (Br c A x (Br d B y C))"
  shows "\<exists>T' h'. rbtree_left_rotate T h x = Inr (T', h')
    \<and> cfg T' h' fs (Br d (Br c A x B) y C) \<and> rb_size T' = rb_size T
    \<and> rb_same (set (inord (plug fs (Br c A x (Br d B y C))))) h h'"
proof -
  let ?t = "Br c A x (Br d B y C)"
  define h1 where "h1 = set_right h x (root_ptr B)"
  define h2 where "h2 = (if root_ptr B \<noteq> 0 then set_p h1 (root_ptr B) x else h1)"
  define h4 where "h4 = set_left (set_p h2 x y) y x"
  from c have t: "tlinked h (zpar fs) ?t" and z: "zlinked h (rb_root T) x fs"
    and d: "distinct (inord ?t)" and dz: "distinct (zaddrs fs)"
    and dj: "set (inord ?t) \<inter> set (zaddrs fs) = {}"
    using distinct_append by (simp_all add: cfg_def del: tlinked.simps inord.simps)
  have x0: "x \<noteq> 0" using t by simp
  have xy: "x \<noteq> y" using d by auto
  have xz: "x \<notin> set (zaddrs fs)" using dj by auto
  have B: "root_ptr B = 0 \<or> root_ptr B \<in> set (inord B)" by (cases B) auto
  have Bz: "root_ptr B \<noteq> 0 \<Longrightarrow> root_ptr B \<notin> set (zaddrs fs)"
    using B dj by auto
  have t': "tlinked (set_p h4 y q) q (Br d (Br c A x B) y C)" for q
    unfolding h4_def h2_def h1_def by (rule rotl [where c = c, OF t d])
  have z4: "zlinked h4 (rb_root T) x fs"
    using z dj Bz by (auto simp: h4_def h2_def h1_def)
  let ?S = "set (inord (plug fs ?t))"
  have s4: "rb_same ?S h h4"
    using B by (auto simp: h4_def h2_def h1_def set_inord_plug)
  have eq: "rbtree_left_rotate T h x = Inr
    (if zpar fs = 0 then (T\<lparr>rb_root := y\<rparr>, set_p h4 y 0)
     else (T, set_p (link_child h4 (zpar fs) x y) y (zpar fs)))"
  proof -
    have zs: "zpar fs \<noteq> 0 \<longrightarrow> rb_s (h (zpar fs)) = zpar fs"
      using z by (cases fs; cases "hd fs") simp_all
    have f: "rb_right (h x) = y" "rb_left (h y) = root_ptr B" "rb_p (h x) = zpar fs"
      "y \<noteq> 0" "rb_s (h x) = x" "rb_s (h y) = y" "x \<noteq> y"
      using t xy by simp_all
    show ?thesis
      using left_rotate_eq [of h x T, unfolded f] f zs unfolding h4_def h2_def h1_def by simp
  qed
  show ?thesis
  proof (cases fs)
    case Nil
    with eq t' [of 0] z4 d s4 show ?thesis
      by (simp add: cfg_def)
  next
    case (Cons f fs')
    have f0: "faddr f \<noteq> 0" using z zlinked_nonzero Cons by fastforce
    have p: "faddr f \<notin> set (inord (Br d (Br c A x B) y C))" using dj Cons by auto
    have yz: "y \<notin> set (zaddrs fs)" using dj by auto
    have "zlinked (link_child h4 (faddr f) x y) (rb_root T) y fs"
      using z4 x0 xz dz unfolding Cons by (rule zlinked_link_child)
    then have z': "zlinked (set_p (link_child h4 (faddr f) x y) y (faddr f)) (rb_root T) y fs"
      using yz by simp
    have "tlinked (set_p (link_child h4 (faddr f) x y) y (faddr f)) (faddr f) (Br d (Br c A x B) y C)
        = tlinked (set_p h4 y (faddr f)) (faddr f) (Br d (Br c A x B) y C)"
      by (rule tlinked_cong, rule set_p_link_child) (use p in blast)
    then have "tlinked (set_p (link_child h4 (faddr f) x y) y (faddr f)) (faddr f) (Br d (Br c A x B) y C)"
      using t' by (rule iffD2)
    moreover have "distinct (inord (Br d (Br c A x B) y C) @ zaddrs fs)"
      using c by (simp add: cfg_def)
    ultimately have "cfg T (set_p (link_child h4 (faddr f) x y) y (faddr f)) fs (Br d (Br c A x B) y C)"
      using z' unfolding cfg_def Cons zpar_simps root_ptr.simps by blast
    moreover have "rb_same ?S h (set_p (link_child h4 (faddr f) x y) y (faddr f))"
      using s4 Cons by (simp add: set_inord_plug inord_plug1)
    ultimately show ?thesis
      using eq f0 Cons by simp
  qed
qed

lemma rotr:
  fixes h :: "('p::zero, 'k) rb_heap"
  assumes "tlinked h par (Br c (Br d C y B) x A)" and "distinct (inord (Br c (Br d C y B) x A))"
  defines "h1 \<equiv> set_left h x (root_ptr B)"
  defines "h2 \<equiv> (if root_ptr B \<noteq> 0 then set_p h1 (root_ptr B) x else h1)"
  defines "h4 \<equiv> set_right (set_p h2 x y) y x"
  shows "tlinked (set_p h4 y q) q (Br d C y (Br c B x A))"
  using assms(1,2) unfolding h4_def h2_def h1_def
  by (cases B) auto

lemma right_rotate_eq:
  assumes "rb_left (h x) \<noteq> 0" and "rb_s (h x) = x" and "rb_s (h (rb_left (h x))) = rb_left (h x)"
    and "x \<noteq> rb_left (h x)"
  defines "y \<equiv> rb_left (h x)" and "b \<equiv> rb_right (h (rb_left (h x)))"
  defines "h1 \<equiv> set_left h x b"
  defines "h2 \<equiv> (if b \<noteq> 0 then set_p h1 b x else h1)"
  defines "h4 \<equiv> set_right (set_p h2 x y) y x"
  assumes "rb_p (h x) \<noteq> 0 \<longrightarrow> rb_s (h (rb_p (h x))) = rb_p (h x)"
  shows "rbtree_right_rotate T h x = Inr
    (if rb_p (h x) = 0 then (T\<lparr>rb_root := y\<rparr>, set_p h4 y 0)
     else (T, set_p (link_child h4 (rb_p (h x)) x y) y (rb_p (h x))))"
  using assms
  by (simp add: rbtree_right_rotate_def rb_get_def rbtree_check_node_def Let_def link_child_def)

lemma right_rotate_cfg:
  assumes c: "cfg T h fs (Br c (Br d C y B) x A)"
  shows "\<exists>T' h'. rbtree_right_rotate T h x = Inr (T', h')
    \<and> cfg T' h' fs (Br d C y (Br c B x A)) \<and> rb_size T' = rb_size T
    \<and> rb_same (set (inord (plug fs (Br c (Br d C y B) x A)))) h h'"
proof -
  let ?t = "Br c (Br d C y B) x A"
  define h1 where "h1 = set_left h x (root_ptr B)"
  define h2 where "h2 = (if root_ptr B \<noteq> 0 then set_p h1 (root_ptr B) x else h1)"
  define h4 where "h4 = set_right (set_p h2 x y) y x"
  from c have t: "tlinked h (zpar fs) ?t" and z: "zlinked h (rb_root T) x fs"
    and d: "distinct (inord ?t)" and dz: "distinct (zaddrs fs)"
    and dj: "set (inord ?t) \<inter> set (zaddrs fs) = {}"
    using distinct_append by (simp_all add: cfg_def del: tlinked.simps inord.simps)
  have x0: "x \<noteq> 0" using t by simp
  have xy: "x \<noteq> y" using d by auto
  have xz: "x \<notin> set (zaddrs fs)" using dj by auto
  have B: "root_ptr B = 0 \<or> root_ptr B \<in> set (inord B)" by (cases B) auto
  have Bz: "root_ptr B \<noteq> 0 \<Longrightarrow> root_ptr B \<notin> set (zaddrs fs)"
    using B dj by auto
  have t': "tlinked (set_p h4 y q) q (Br d C y (Br c B x A))" for q
    unfolding h4_def h2_def h1_def by (rule rotr [where c = c, OF t d])
  have z4: "zlinked h4 (rb_root T) x fs"
    using z dj Bz by (auto simp: h4_def h2_def h1_def)
  let ?S = "set (inord (plug fs ?t))"
  have s4: "rb_same ?S h h4"
    using B by (auto simp: h4_def h2_def h1_def set_inord_plug)
  have eq: "rbtree_right_rotate T h x = Inr
    (if zpar fs = 0 then (T\<lparr>rb_root := y\<rparr>, set_p h4 y 0)
     else (T, set_p (link_child h4 (zpar fs) x y) y (zpar fs)))"
  proof -
    have zs: "zpar fs \<noteq> 0 \<longrightarrow> rb_s (h (zpar fs)) = zpar fs"
      using z by (cases fs; cases "hd fs") simp_all
    have f: "rb_left (h x) = y" "rb_right (h y) = root_ptr B" "rb_p (h x) = zpar fs"
      "y \<noteq> 0" "rb_s (h x) = x" "rb_s (h y) = y" "x \<noteq> y"
      using t xy by simp_all
    show ?thesis
      using right_rotate_eq [of h x T, unfolded f] f zs unfolding h4_def h2_def h1_def by simp
  qed
  show ?thesis
  proof (cases fs)
    case Nil
    with eq t' [of 0] z4 d s4 show ?thesis
      by (simp add: cfg_def)
  next
    case (Cons f fs')
    have f0: "faddr f \<noteq> 0" using z zlinked_nonzero Cons by fastforce
    have p: "faddr f \<notin> set (inord (Br d C y (Br c B x A)))" using dj Cons by auto
    have yz: "y \<notin> set (zaddrs fs)" using dj by auto
    have "zlinked (link_child h4 (faddr f) x y) (rb_root T) y fs"
      using z4 x0 xz dz unfolding Cons by (rule zlinked_link_child)
    then have z': "zlinked (set_p (link_child h4 (faddr f) x y) y (faddr f)) (rb_root T) y fs"
      using yz by simp
    have "tlinked (set_p (link_child h4 (faddr f) x y) y (faddr f)) (faddr f) (Br d C y (Br c B x A))
        = tlinked (set_p h4 y (faddr f)) (faddr f) (Br d C y (Br c B x A))"
      by (rule tlinked_cong, rule set_p_link_child) (use p in blast)
    then have "tlinked (set_p (link_child h4 (faddr f) x y) y (faddr f)) (faddr f) (Br d C y (Br c B x A))"
      using t' by (rule iffD2)
    moreover have "distinct (inord (Br d C y (Br c B x A)) @ zaddrs fs)"
      using c by (simp add: cfg_def)
    ultimately have "cfg T (set_p (link_child h4 (faddr f) x y) y (faddr f)) fs (Br d C y (Br c B x A))"
      using z' unfolding cfg_def Cons zpar_simps root_ptr.simps by blast
    moreover have "rb_same ?S h (set_p (link_child h4 (faddr f) x y) y (faddr f))"
      using s4 Cons by (simp add: set_inord_plug inord_plug1)
    ultimately show ?thesis
      using eq f0 Cons by simp
  qed
qed

section \<open>Reading a configuration\<close>

lemma cfg_node:
  assumes "cfg T h fs (Br c l a r)"
  shows "a \<noteq> 0" "rb_s (h a) = a" "rb_p (h a) = zpar fs" "rb_left (h a) = root_ptr l"
    "rb_right (h a) = root_ptr r" "rb_color (h a) = rbcode c"
  using assms by (simp_all add: cfg_def)

lemma cfg_tlinked: "cfg T h fs t \<Longrightarrow> tlinked h (zpar fs) t"
  by (simp add: cfg_def)

lemma cfg_children:
  assumes "cfg T h fs (Br c l a r)"
  shows "tlinked h a l" "tlinked h a r" "a \<notin> set (inord l)" "a \<notin> set (inord r)"
  using assms by (simp_all add: cfg_def)

lemma cfg_parent:
  assumes "cfg T h (f # fs) t"
  shows "faddr f \<noteq> 0" "rb_s (h (faddr f)) = faddr f" "rb_p (h (faddr f)) = zpar fs"
    "rb_color (h (faddr f)) = rbcode (fcol f)"
  using assms by (cases f; simp add: cfg_def)+

lemma is_red_root: "tlinked h par t \<Longrightarrow> is_red h (root_ptr t) \<longleftrightarrow> tcol t = Red"
  by (cases t) (simp_all add: is_red_def rbtree_check_node_def)

lemma null_or_black_root: "tlinked h par t \<Longrightarrow> null_or_black h (root_ptr t) \<longleftrightarrow> tcol t = Black"
  by (cases t) (simp_all add: null_or_black_def rbtree_check_node_def)

lemma recolor_code:
  assumes "cfg T h fs (Br c l a r)"
  shows "cfg T (set_color h a RB_RED) fs (Br Red l a r)"
    "cfg T (set_color h a RB_BLACK) fs (Br Black l a r)"
  using recolor [OF assms, of Red] recolor [OF assms, of Black] by simp_all

lemma red_node: "tcol t = Red \<Longrightarrow> (\<And>l a r. t = Br Red l a r \<Longrightarrow> P) \<Longrightarrow> P"
  by (cases t) auto

text \<open>Recolouring the focus, the node above it, its sibling.\<close>

primrec tpaint :: "rbc \<Rightarrow> 'p ctree \<Rightarrow> 'p ctree" where
  "tpaint c Lf = Lf"
| "tpaint c (Br d l a r) = Br c l a r"

primrec fpaint :: "rbc \<Rightarrow> 'p frame \<Rightarrow> 'p frame" where
  "fpaint c (FL d a r) = FL c a r"
| "fpaint c (FR d l a) = FR c l a"

lemma inord_tpaint [simp]: "inord (tpaint c t) = inord t"
  by (cases t) auto

lemma root_ptr_tpaint [simp]: "root_ptr (tpaint c t) = root_ptr t"
  by (cases t) auto

lemma faddr_fpaint [simp]: "faddr (fpaint c f) = faddr f" "fsib (fpaint c f) = fsib f"
  "fcol (fpaint c f) = c"
  by (cases f; simp)+

lemma plug1_fpaint: "plug1 (fpaint c f) t = tpaint c (plug1 f t)"
  by (cases f) auto

lemma cfg_flip: "cfg T h (FL c a r # fs) t \<longleftrightarrow> cfg T h (FR c t a # fs) r"
  by (simp add: cfg_up)

lemma recolor_root:
  assumes "cfg T h fs t" and "t \<noteq> Lf"
  shows "cfg T (set_color h (root_ptr t) RB_RED) fs (tpaint Red t)"
    "cfg T (set_color h (root_ptr t) RB_BLACK) fs (tpaint Black t)"
  using assms by (cases t; auto dest: recolor_code)+

lemma recolor_parent:
  assumes "cfg T h (f # fs) t"
  shows "cfg T (set_color h (faddr f) RB_RED) (fpaint Red f # fs) t"
    "cfg T (set_color h (faddr f) RB_BLACK) (fpaint Black f # fs) t"
  using assms recolor_root [of T h fs "plug1 f t"]
  by (cases f; simp add: cfg_up plug1_fpaint)+

end
