(* ===== verification/RBTree_Inv.thy ===== *)
theory RBTree_Inv
  imports RBTree_Abs
begin

text \<open>
  The red-black invariant on the abstract trees and on the paths above a subtree, and the
  height bound that makes \<open>rb_fuel\<close> enough.
\<close>

section \<open>The invariant\<close>

primrec bh :: "'p ctree \<Rightarrow> nat" where
  "bh Lf = 0"
| "bh (Br c l a r) = bh l + (if c = Black then 1 else 0)"

primrec invc :: "'p ctree \<Rightarrow> bool" where
  "invc Lf = True"
| "invc (Br c l a r) =
     ((c = Red \<longrightarrow> tcol l = Black \<and> tcol r = Black) \<and> invc l \<and> invc r)"

primrec invh :: "'p ctree \<Rightarrow> bool" where
  "invh Lf = True"
| "invh (Br c l a r) = (bh l = bh r \<and> invh l \<and> invh r)"

definition rbt :: "'p ctree \<Rightarrow> bool" where
  "rbt t \<longleftrightarrow> invc t \<and> invh t \<and> tcol t = Black"

text \<open>The colour of the node above the hole; above the root it counts as red, so that
  the root has to be black.\<close>

definition zcol :: "'p frame list \<Rightarrow> rbc" where
  "zcol fs = (case fs of [] \<Rightarrow> Red | f # _ \<Rightarrow> fcol f)"

lemma zcol_simps [simp]: "zcol [] = Red" "zcol (f # fs) = fcol f"
  by (simp_all add: zcol_def)

text \<open>\<open>zrb n fs\<close>: a black subtree of black height \<open>n\<close> in the hole makes a red-black tree.\<close>

primrec zrb :: "nat \<Rightarrow> 'p frame list \<Rightarrow> bool" where
  "zrb n [] = True"
| "zrb n (f # fs) =
     (invc (fsib f) \<and> invh (fsib f) \<and> bh (fsib f) = n
      \<and> (fcol f = Red \<longrightarrow> tcol (fsib f) = Black \<and> zcol fs = Black)
      \<and> zrb (n + (if fcol f = Black then 1 else 0)) fs)"

lemma rbt_plug:
  "rbt (plug fs t) \<longleftrightarrow>
     invc t \<and> invh t \<and> zrb (bh t) fs \<and> (tcol t = Red \<longrightarrow> zcol fs = Black)"
proof (induction fs arbitrary: t)
  case Nil
  then show ?case by (auto simp: rbt_def)
next
  case (Cons f fs)
  show ?case
    by (cases f) (auto simp: Cons)
qed

lemma is_red_zpar: "cfg T h fs t \<Longrightarrow> is_red h (zpar fs) \<longleftrightarrow> fs \<noteq> [] \<and> zcol fs = Red"
  by (cases fs) (auto simp: is_red_def rbtree_check_node_def dest: cfg_parent)

lemma inord_plug_eq: "inord t = inord t' \<Longrightarrow> inord (plug fs t) = inord (plug fs t')"
proof (induction fs arbitrary: t t')
  case (Cons f fs)
  then have "inord (plug1 f t) = inord (plug1 f t')" by (cases f) auto
  then have "inord (plug fs (plug1 f t)) = inord (plug fs (plug1 f t'))" by (rule Cons.IH)
  then show ?case by simp
qed simp

section \<open>Height\<close>

primrec theight :: "'p ctree \<Rightarrow> nat" where
  "theight Lf = 0"
| "theight (Br c l a r) = Suc (max (theight l) (theight r))"

lemma theight_plug: "length fs + theight t \<le> theight (plug fs t)"
proof (induction fs arbitrary: t)
  case (Cons f fs)
  have "Suc (theight t) \<le> theight (plug1 f t)" by (cases f) auto
  with Cons [of "plug1 f t"] show ?case by simp
qed simp

lemma theight_bh: "invc t \<Longrightarrow> invh t \<Longrightarrow> theight t \<le> 2 * bh t + (if tcol t = Red then 1 else 0)"
  by (induction t) (auto split: if_splits)

lemma bh_size: "invh t \<Longrightarrow> 2 ^ bh t \<le> Suc (length (inord t))"
proof (induction t)
  case (Br c l a r)
  then have "2 ^ bh l \<le> Suc (length (inord l))" "2 ^ bh l \<le> Suc (length (inord r))" by auto
  then show ?case by auto
qed simp

lemma rbt_height:
  assumes "rbt t" and "length (inord t) < 2 ^ 31"
  shows "theight t \<le> 62"
proof -
  have t: "invc t" "invh t" "tcol t = Black" using assms(1) by (auto simp: rbt_def)
  have "2 ^ bh t \<le> Suc (length (inord t))" using t by (simp add: bh_size)
  also have "\<dots> \<le> 2 ^ 31" using assms(2) by simp
  finally have "bh t \<le> 31" by (rule power_le_imp_le_exp [rotated]) simp
  with theight_bh [OF t(1,2)] t(3) show ?thesis by simp
qed

lemma rbt_path:
  assumes "rbt (plug fs t)" and "length (inord (plug fs t)) < 2 ^ 31"
  shows "length fs + theight t \<le> 62"
  using theight_plug [of fs t] rbt_height [OF assms] by linarith

end
