(* ===== verification/RBTree_Insert.thy ===== *)
theory RBTree_Insert
  imports RBTree_Inv
begin

text \<open>
  Insertion keeps the red-black tree: the fix-up loop, one lemma per branch of its body, and
  the whole of \<open>rbtree_insert\<close>.
\<close>

section \<open>One iteration of the fix-up\<close>

lemma fix_insert_left_red:
  assumes c: "cfg T h (f # FL Black pp U # gs) t" and U: "tcol U = Red"
  shows "\<exists>h'. fix_insert_left T h node (faddr f) pp = Inr (T, h', pp)
    \<and> cfg T h' gs (Br Red (tpaint Black (plug1 f t)) pp (tpaint Black U))
    \<and> rb_same (set (inord (plug (f # FL Black pp U # gs) t))) h h'"
proof -
  have U0: "U \<noteq> Lf" using U by auto
  have pp: "cfg T h gs (Br Black (plug1 f t) pp U)" using c by (simp add: cfg_up)
  have right: "rb_right (h pp) = root_ptr U" using pp by (rule cfg_node)
  have red: "is_red h (root_ptr U)" using is_red_root [OF cfg_children(2) [OF pp]] U by simp
  let ?h1 = "set_color h (root_ptr U) RB_BLACK"
  let ?h2 = "set_color ?h1 (faddr f) RB_BLACK"
  have "cfg T ?h1 (FR Black (plug1 f t) pp # gs) (tpaint Black U)"
    using pp recolor_root(2) [of T h "FR Black (plug1 f t) pp # gs" U] U0 by (simp add: cfg_up)
  then have "cfg T ?h1 (f # FL Black pp (tpaint Black U) # gs) t"
    by (simp add: cfg_up)
  then have "cfg T ?h2 (fpaint Black f # FL Black pp (tpaint Black U) # gs) t"
    by (rule recolor_parent)
  then have "cfg T ?h2 gs (Br Black (tpaint Black (plug1 f t)) pp (tpaint Black U))"
    by (simp add: cfg_up plug1_fpaint)
  then have "cfg T (set_color ?h2 pp RB_RED) gs
      (Br Red (tpaint Black (plug1 f t)) pp (tpaint Black U))"
    by (rule recolor_code)
  moreover have "root_ptr U \<in> set (inord U)" using U0 by (rule root_ptr_in)
  ultimately show ?thesis
    using red right by (simp add: fix_insert_left_def Let_def set_inord_plug inord_plug1)
qed

text \<open>A red node under a red left child of a black node with a black uncle: the node is the
  outer child, then the inner one.\<close>

lemma fix_insert_left_outer:
  assumes c: "cfg T h (FL Red p S # FL Black pp U # gs) (Br e l a r)" and U: "tcol U = Black"
  shows "\<exists>T' h'. fix_insert_left T h a p pp = Inr (T', h', a)
    \<and> cfg T' h' (FL Black p (Br Red S pp U) # gs) (Br e l a r) \<and> rb_size T' = rb_size T
    \<and> rb_same (set (inord (plug (FL Red p S # FL Black pp U # gs) (Br e l a r)))) h h'"
proof -
  have pp: "cfg T h gs (Br Black (Br Red (Br e l a r) p S) pp U)" using c by (simp add: cfg_up)
  have right: "rb_right (h pp) = root_ptr U" using pp by (rule cfg_node)
  have nred: "\<not> is_red h (root_ptr U)" using is_red_root [OF cfg_children(2) [OF pp]] U by simp
  have p: "cfg T h (FL Black pp U # gs) (Br Red (Br e l a r) p S)" using c by (simp add: cfg_up)
  have "a \<noteq> 0" "a \<notin> set (inord S)" using c by (auto simp: cfg_def)
  then have outer: "rb_s (h a) \<noteq> rb_right (h p)"
    using cfg_node(2) [OF c] cfg_node(5) [OF p] root_ptr_neq [of a S] by simp
  let ?h1 = "set_color h p RB_BLACK"
  have "cfg T ?h1 (FL Black pp U # gs) (Br Black (Br e l a r) p S)"
    using p by (rule recolor_code)
  then have "cfg T ?h1 gs (Br Black (Br Black (Br e l a r) p S) pp U)" by (simp add: cfg_up)
  then have "cfg T (set_color ?h1 pp RB_RED) gs (Br Red (Br Black (Br e l a r) p S) pp U)"
    by (rule recolor_code)
  from right_rotate_cfg [OF this] obtain T' h'
    where rot: "rbtree_right_rotate T (set_color ?h1 pp RB_RED) pp = Inr (T', h')"
      and c': "cfg T' h' gs (Br Black (Br e l a r) p (Br Red S pp U))"
      and sz: "rb_size T' = rb_size T"
      and same: "rb_same (set (inord (plug gs (Br Red (Br Black (Br e l a r) p S) pp U))))
         (set_color ?h1 pp RB_RED) h'" by blast
  have "rb_same (set (inord (plug (FL Red p S # FL Black pp U # gs) (Br e l a r)))) h h'"
    by (rule rb_same_trans [of _ _ "set_color ?h1 pp RB_RED"])
       (use same in \<open>simp_all add: set_inord_plug\<close>)
  with rot c' sz right nred outer show ?thesis
    by (simp add: fix_insert_left_def Let_def cfg_up)
qed

lemma fix_insert_left_inner:
  assumes c: "cfg T h (FR Red S p # FL Black pp U # gs) (Br Red l a r)" and U: "tcol U = Black"
  shows "\<exists>T' h'. fix_insert_left T h a p pp = Inr (T', h', p)
    \<and> cfg T' h' (FL Black a (Br Red r pp U) # gs) (Br Red S p l) \<and> rb_size T' = rb_size T
    \<and> rb_same (set (inord (plug (FR Red S p # FL Black pp U # gs) (Br Red l a r)))) h h'"
proof -
  let ?A = "set (inord (plug (FR Red S p # FL Black pp U # gs) (Br Red l a r)))"
  have pp: "cfg T h gs (Br Black (Br Red S p (Br Red l a r)) pp U)" using c by (simp add: cfg_up)
  have right: "rb_right (h pp) = root_ptr U" using pp by (rule cfg_node)
  have nred: "\<not> is_red h (root_ptr U)" using is_red_root [OF cfg_children(2) [OF pp]] U by simp
  have p: "cfg T h (FL Black pp U # gs) (Br Red S p (Br Red l a r))" using c by (simp add: cfg_up)
  have inner: "rb_s (h a) = rb_right (h p)"
    using cfg_node(2) [OF c] cfg_node(5) [OF p] by simp
  from left_rotate_cfg [OF p] obtain T1 h1
    where rot1: "rbtree_left_rotate T h p = Inr (T1, h1)"
      and c1: "cfg T1 h1 (FL Black pp U # gs) (Br Red (Br Red S p l) a r)"
      and sz1: "rb_size T1 = rb_size T"
      and same1: "rb_same (set (inord (plug (FL Black pp U # gs) (Br Red S p (Br Red l a r))))) h h1"
    by blast
  let ?h2 = "set_color h1 a RB_BLACK"
  have "cfg T1 ?h2 (FL Black pp U # gs) (Br Black (Br Red S p l) a r)"
    using c1 by (rule recolor_code)
  then have "cfg T1 ?h2 gs (Br Black (Br Black (Br Red S p l) a r) pp U)" by (simp add: cfg_up)
  then have "cfg T1 (set_color ?h2 pp RB_RED) gs (Br Red (Br Black (Br Red S p l) a r) pp U)"
    by (rule recolor_code)
  from right_rotate_cfg [OF this] obtain T' h'
    where rot: "rbtree_right_rotate T1 (set_color ?h2 pp RB_RED) pp = Inr (T', h')"
      and c': "cfg T' h' gs (Br Black (Br Red S p l) a (Br Red r pp U))"
      and sz: "rb_size T' = rb_size T1"
      and same: "rb_same (set (inord (plug gs (Br Red (Br Black (Br Red S p l) a r) pp U))))
         (set_color ?h2 pp RB_RED) h'" by blast
  have "rb_same ?A h1 (set_color ?h2 pp RB_RED)" by (simp add: set_inord_plug)
  moreover have "rb_same ?A (set_color ?h2 pp RB_RED) h'"
    by (rule rb_same_mono [OF same]) (auto simp: set_inord_plug)
  moreover have "rb_same ?A h h1"
    by (rule rb_same_mono [OF same1]) (auto simp: set_inord_plug)
  ultimately have "rb_same ?A h h'" by (blast intro: rb_same_trans)
  with rot1 rot c' sz sz1 right nred inner show ?thesis
    by (simp add: fix_insert_left_def Let_def cfg_up)
qed

lemma fix_insert_right_red:
  assumes c: "cfg T h (f # FR Black U pp # gs) t" and U: "tcol U = Red"
  shows "\<exists>h'. fix_insert_right T h node (faddr f) pp = Inr (T, h', pp)
    \<and> cfg T h' gs (Br Red (tpaint Black U) pp (tpaint Black (plug1 f t)))
    \<and> rb_same (set (inord (plug (f # FR Black U pp # gs) t))) h h'"
proof -
  have U0: "U \<noteq> Lf" using U by auto
  have pp: "cfg T h gs (Br Black U pp (plug1 f t))" using c by (simp add: cfg_up)
  have right: "rb_left (h pp) = root_ptr U" using pp by (rule cfg_node)
  have red: "is_red h (root_ptr U)" using is_red_root [OF cfg_children(1) [OF pp]] U by simp
  let ?h1 = "set_color h (root_ptr U) RB_BLACK"
  let ?h2 = "set_color ?h1 (faddr f) RB_BLACK"
  have "cfg T ?h1 (FL Black pp (plug1 f t) # gs) (tpaint Black U)"
    using pp recolor_root(2) [of T h "FL Black pp (plug1 f t) # gs" U] U0 by (simp add: cfg_up)
  then have "cfg T ?h1 (f # FR Black (tpaint Black U) pp # gs) t"
    by (simp add: cfg_up)
  then have "cfg T ?h2 (fpaint Black f # FR Black (tpaint Black U) pp # gs) t"
    by (rule recolor_parent)
  then have "cfg T ?h2 gs (Br Black (tpaint Black U) pp (tpaint Black (plug1 f t)))"
    by (simp add: cfg_up plug1_fpaint)
  then have "cfg T (set_color ?h2 pp RB_RED) gs
      (Br Red (tpaint Black U) pp (tpaint Black (plug1 f t)))"
    by (rule recolor_code)
  moreover have "root_ptr U \<in> set (inord U)" using U0 by (rule root_ptr_in)
  ultimately show ?thesis
    using red right by (simp add: fix_insert_right_def Let_def set_inord_plug inord_plug1)
qed

text \<open>A red node under a red right child of a black node with a black uncle: the node is the
  outer child, then the inner one.\<close>

lemma fix_insert_right_outer:
  assumes c: "cfg T h (FR Red S p # FR Black U pp # gs) (Br e r a l)" and U: "tcol U = Black"
  shows "\<exists>T' h'. fix_insert_right T h a p pp = Inr (T', h', a)
    \<and> cfg T' h' (FR Black (Br Red U pp S) p # gs) (Br e r a l) \<and> rb_size T' = rb_size T
    \<and> rb_same (set (inord (plug (FR Red S p # FR Black U pp # gs) (Br e r a l)))) h h'"
proof -
  have pp: "cfg T h gs (Br Black U pp (Br Red S p (Br e r a l)))" using c by (simp add: cfg_up)
  have right: "rb_left (h pp) = root_ptr U" using pp by (rule cfg_node)
  have nred: "\<not> is_red h (root_ptr U)" using is_red_root [OF cfg_children(1) [OF pp]] U by simp
  have p: "cfg T h (FR Black U pp # gs) (Br Red S p (Br e r a l))" using c by (simp add: cfg_up)
  have "a \<noteq> 0" "a \<notin> set (inord S)" using c by (auto simp: cfg_def)
  then have outer: "rb_s (h a) \<noteq> rb_left (h p)"
    using cfg_node(2) [OF c] cfg_node(4) [OF p] root_ptr_neq [of a S] by simp
  let ?h1 = "set_color h p RB_BLACK"
  have "cfg T ?h1 (FR Black U pp # gs) (Br Black S p (Br e r a l))"
    using p by (rule recolor_code)
  then have "cfg T ?h1 gs (Br Black U pp (Br Black S p (Br e r a l)))" by (simp add: cfg_up)
  then have "cfg T (set_color ?h1 pp RB_RED) gs (Br Red U pp (Br Black S p (Br e r a l)))"
    by (rule recolor_code)
  from left_rotate_cfg [OF this] obtain T' h'
    where rot: "rbtree_left_rotate T (set_color ?h1 pp RB_RED) pp = Inr (T', h')"
      and c': "cfg T' h' gs (Br Black (Br Red U pp S) p (Br e r a l))"
      and sz: "rb_size T' = rb_size T"
      and same: "rb_same (set (inord (plug gs (Br Red U pp (Br Black S p (Br e r a l))))))
         (set_color ?h1 pp RB_RED) h'" by blast
  have "rb_same (set (inord (plug (FR Red S p # FR Black U pp # gs) (Br e r a l)))) h h'"
    by (rule rb_same_trans [of _ _ "set_color ?h1 pp RB_RED"])
       (use same in \<open>simp_all add: set_inord_plug\<close>)
  with rot c' sz right nred outer show ?thesis
    by (simp add: fix_insert_right_def Let_def cfg_up)
qed

lemma fix_insert_right_inner:
  assumes c: "cfg T h (FL Red p S # FR Black U pp # gs) (Br Red r a l)" and U: "tcol U = Black"
  shows "\<exists>T' h'. fix_insert_right T h a p pp = Inr (T', h', p)
    \<and> cfg T' h' (FR Black (Br Red U pp r) a # gs) (Br Red l p S) \<and> rb_size T' = rb_size T
    \<and> rb_same (set (inord (plug (FL Red p S # FR Black U pp # gs) (Br Red r a l)))) h h'"
proof -
  let ?A = "set (inord (plug (FL Red p S # FR Black U pp # gs) (Br Red r a l)))"
  have pp: "cfg T h gs (Br Black U pp (Br Red (Br Red r a l) p S))" using c by (simp add: cfg_up)
  have right: "rb_left (h pp) = root_ptr U" using pp by (rule cfg_node)
  have nred: "\<not> is_red h (root_ptr U)" using is_red_root [OF cfg_children(1) [OF pp]] U by simp
  have p: "cfg T h (FR Black U pp # gs) (Br Red (Br Red r a l) p S)" using c by (simp add: cfg_up)
  have inner: "rb_s (h a) = rb_left (h p)"
    using cfg_node(2) [OF c] cfg_node(4) [OF p] by simp
  from right_rotate_cfg [OF p] obtain T1 h1
    where rot1: "rbtree_right_rotate T h p = Inr (T1, h1)"
      and c1: "cfg T1 h1 (FR Black U pp # gs) (Br Red r a (Br Red l p S))"
      and sz1: "rb_size T1 = rb_size T"
      and same1: "rb_same (set (inord (plug (FR Black U pp # gs) (Br Red (Br Red r a l) p S)))) h h1"
    by blast
  let ?h2 = "set_color h1 a RB_BLACK"
  have "cfg T1 ?h2 (FR Black U pp # gs) (Br Black r a (Br Red l p S))"
    using c1 by (rule recolor_code)
  then have "cfg T1 ?h2 gs (Br Black U pp (Br Black r a (Br Red l p S)))" by (simp add: cfg_up)
  then have "cfg T1 (set_color ?h2 pp RB_RED) gs (Br Red U pp (Br Black r a (Br Red l p S)))"
    by (rule recolor_code)
  from left_rotate_cfg [OF this] obtain T' h'
    where rot: "rbtree_left_rotate T1 (set_color ?h2 pp RB_RED) pp = Inr (T', h')"
      and c': "cfg T' h' gs (Br Black (Br Red U pp r) a (Br Red l p S))"
      and sz: "rb_size T' = rb_size T1"
      and same: "rb_same (set (inord (plug gs (Br Red U pp (Br Black r a (Br Red l p S))))))
         (set_color ?h2 pp RB_RED) h'" by blast
  have "rb_same ?A h1 (set_color ?h2 pp RB_RED)" by (simp add: set_inord_plug)
  moreover have "rb_same ?A (set_color ?h2 pp RB_RED) h'"
    by (rule rb_same_mono [OF same]) (auto simp: set_inord_plug)
  moreover have "rb_same ?A h h1"
    by (rule rb_same_mono [OF same1]) (auto simp: set_inord_plug)
  ultimately have "rb_same ?A h h'" by (blast intro: rb_same_trans)
  with rot1 rot c' sz sz1 right nred inner show ?thesis
    by (simp add: fix_insert_right_def Let_def cfg_up)
qed


section \<open>The loop\<close>

definition rb_done ::
  "'p::zero rb_tree \<Rightarrow> ('p, 'k) rb_heap \<Rightarrow> 'p ctree \<Rightarrow> 'p rb_tree \<Rightarrow> ('p, 'k) rb_heap \<Rightarrow> bool" where
  "rb_done T h t T' h' \<longleftrightarrow> (\<exists>t'. linked T' h' t' \<and> rbt t' \<and> inord t' = inord t
     \<and> rb_size T' = rb_size T \<and> rb_same (set (inord t)) h h')"

lemma rb_done_step:
  assumes "rb_done T1 h1 t1 T' h'" and "inord t1 = inord t" and "rb_size T1 = rb_size T"
    and "rb_same (set (inord t)) h h1"
  shows "rb_done T h t T' h'"
  using assms unfolding rb_done_def by (metis rb_same_trans)

lemma rb_done_cfg:
  assumes "cfg T' h' fs t" and "invc t" "invh t" "zrb (bh t) fs" "tcol t = Red \<Longrightarrow> zcol fs = Black"
    and "inord (plug fs t) = inord u" "rb_size T' = rb_size T" "rb_same (set (inord u)) h h'"
  shows "rb_done T h u T' h'"
proof -
  have "rbt (plug fs t)" using assms by (simp add: rbt_plug)
  moreover have "linked T' h' (plug fs t)" using assms(1) by (subst cfg_plug [symmetric])
  ultimately show ?thesis using assms unfolding rb_done_def by blast
qed

lemma fix_insert_stop:
  assumes c: "cfg T h fs (Br Red l a r)" and "\<not> is_red h (zpar fs)" and "0 < fuel"
    and inv: "invc (Br Red l a r)" "invh (Br Red l a r)" "zrb (bh l) fs"
  shows "\<exists>T' h'. rbtree_fix_insert fuel T h a = Inr (T', h')
    \<and> rb_done T h (plug fs (Br Red l a r)) T' h'"
proof -
  obtain k where k: "fuel = Suc k" using assms(3) by (cases fuel) auto
  have p: "rb_p (h a) = zpar fs" using c by (rule cfg_node)
  show ?thesis
  proof (cases fs)
    case Nil
    have "cfg T (set_color h a RB_BLACK) fs (Br Black l a r)" using c by (rule recolor_code)
    then have "rb_done T h (plug fs (Br Red l a r)) T (set_color h a RB_BLACK)"
      by (rule rb_done_cfg) (use inv Nil in auto)
    with k p Nil assms(2) show ?thesis by simp
  next
    case (Cons f gs)
    then have "zpar fs \<noteq> 0" using cfg_parent(1) [of T h f gs] c by auto
    moreover have "zcol fs = Black" using is_red_zpar [OF c] assms(2) Cons by (cases "fcol f") auto
    then have "rb_done T h (plug fs (Br Red l a r)) T h"
      by (intro rb_done_cfg [OF c]) (use inv in auto)
    ultimately show ?thesis using k p assms(2) by simp
  qed
qed

lemma fix_insert_loop_left:
  fixes h :: "('p::zero, 'k) rb_heap"
  assumes c: "cfg T h (f # FL Black pp U # gs) (Br Red l a r)" and f: "fcol f = Red"
    and inv: "invc (Br Red l a r)" "invh (Br Red l a r)" "zrb (bh l) (f # FL Black pp U # gs)"
    and "0 < fuel"
    and IH: "\<And>(h :: ('p, 'k) rb_heap) l r. cfg T h gs (Br Red l pp r) \<Longrightarrow> invc (Br Red l pp r) \<Longrightarrow> invh (Br Red l pp r)
      \<Longrightarrow> zrb (bh l) gs \<Longrightarrow> bh l = bh r \<Longrightarrow> \<exists>T' h'. rbtree_fix_insert fuel T h pp = Inr (T', h')
        \<and> rb_done T h (plug gs (Br Red l pp r)) T' h'"
  shows "\<exists>T1 h1 n1 T' h'. fix_insert_left T h a (faddr f) pp = Inr (T1, h1, n1)
    \<and> rbtree_fix_insert fuel T1 h1 n1 = Inr (T', h')
    \<and> rb_done T h (plug (f # FL Black pp U # gs) (Br Red l a r)) T' h'"
proof (cases "tcol U")
  case Red
  from fix_insert_left_red [OF c Red] obtain h1
    where it: "fix_insert_left T h a (faddr f) pp = Inr (T, h1, pp)"
      and c1: "cfg T h1 gs (Br Red (tpaint Black (plug1 f (Br Red l a r))) pp (tpaint Black U))"
      and same: "rb_same (set (inord (plug (f # FL Black pp U # gs) (Br Red l a r)))) h h1"
    by blast
  have paint: "invc (tpaint Black t)" "invh (tpaint Black t)" if "invc t" "invh t" for t :: "'p ctree"
    using that by (cases t; simp)+
  have U: "bh (tpaint Black U) = Suc (bh l)" using inv Red f by (cases U) auto
  have P: "bh (tpaint Black (plug1 f (Br Red l a r))) = Suc (bh l)"
    "invc (tpaint Black (plug1 f (Br Red l a r)))" "invh (tpaint Black (plug1 f (Br Red l a r)))"
    using inv f by (cases f; simp)+
  have B: "tcol (tpaint Black t) = Black" for t :: "'p ctree" by (cases t) auto
  have "\<exists>T' h'. rbtree_fix_insert fuel T h1 pp = Inr (T', h')
      \<and> rb_done T h1 (plug gs (Br Red (tpaint Black (plug1 f (Br Red l a r))) pp (tpaint Black U))) T' h'"
    by (rule IH [OF c1]) (use f inv P U B paint [of U] in auto)
  moreover have "inord (plug gs (Br Red (tpaint Black (plug1 f (Br Red l a r))) pp (tpaint Black U)))
      = inord (plug (f # FL Black pp U # gs) (Br Red l a r))"
    by (simp add: inord_plug_eq [where t = "Br Red _ _ _" and t' = "Br Black _ _ _"])
  ultimately show ?thesis using it same by (blast intro: rb_done_step)
next
  case Black
  show ?thesis
  proof (cases f)
    case (FL fc p S)
    then have fs: "f = FL Red p S" using f by simp
    from fix_insert_left_outer [OF c [unfolded fs] Black] obtain T1 h1
      where it: "fix_insert_left T h a p pp = Inr (T1, h1, a)"
        and c1: "cfg T1 h1 (FL Black p (Br Red S pp U) # gs) (Br Red l a r)"
        and sz: "rb_size T1 = rb_size T"
        and same: "rb_same (set (inord (plug (FL Red p S # FL Black pp U # gs) (Br Red l a r)))) h h1"
      by blast
    have "\<exists>T' h'. rbtree_fix_insert fuel T1 h1 a = Inr (T', h')
        \<and> rb_done T1 h1 (plug (FL Black p (Br Red S pp U) # gs) (Br Red l a r)) T' h'"
      by (rule fix_insert_stop [OF c1])
         (use is_red_zpar [OF c1] inv Black fs \<open>0 < fuel\<close> in auto)
    moreover have "inord (plug (FL Black p (Br Red S pp U) # gs) (Br Red l a r))
        = inord (plug (FL Red p S # FL Black pp U # gs) (Br Red l a r))"
      by (simp, rule inord_plug_eq) simp
    ultimately show ?thesis using it same sz unfolding fs by (auto intro: rb_done_step)
  next
    case (FR fc S p)
    then have fs: "f = FR Red S p" using f by simp
    from fix_insert_left_inner [OF c [unfolded fs] Black] obtain T1 h1
      where it: "fix_insert_left T h a p pp = Inr (T1, h1, p)"
        and c1: "cfg T1 h1 (FL Black a (Br Red r pp U) # gs) (Br Red S p l)"
        and sz: "rb_size T1 = rb_size T"
        and same: "rb_same (set (inord (plug (FR Red S p # FL Black pp U # gs) (Br Red l a r)))) h h1"
      by blast
    have "\<exists>T' h'. rbtree_fix_insert fuel T1 h1 p = Inr (T', h')
        \<and> rb_done T1 h1 (plug (FL Black a (Br Red r pp U) # gs) (Br Red S p l)) T' h'"
      by (rule fix_insert_stop [OF c1])
         (use is_red_zpar [OF c1] inv Black fs \<open>0 < fuel\<close> in auto)
    moreover have "inord (plug (FL Black a (Br Red r pp U) # gs) (Br Red S p l))
        = inord (plug (FR Red S p # FL Black pp U # gs) (Br Red l a r))"
      by (simp, rule inord_plug_eq) simp
    ultimately show ?thesis using it same sz unfolding fs by (auto intro: rb_done_step)
  qed
qed

lemma fix_insert_loop_right:
  fixes h :: "('p::zero, 'k) rb_heap"
  assumes c: "cfg T h (f # FR Black U pp # gs) (Br Red r a l)" and f: "fcol f = Red"
    and inv: "invc (Br Red r a l)" "invh (Br Red r a l)" "zrb (bh l) (f # FR Black U pp # gs)"
    and "0 < fuel"
    and IH: "\<And>(h :: ('p, 'k) rb_heap) l r. cfg T h gs (Br Red r pp l) \<Longrightarrow> invc (Br Red r pp l) \<Longrightarrow> invh (Br Red r pp l)
      \<Longrightarrow> zrb (bh l) gs \<Longrightarrow> bh l = bh r \<Longrightarrow> \<exists>T' h'. rbtree_fix_insert fuel T h pp = Inr (T', h')
        \<and> rb_done T h (plug gs (Br Red r pp l)) T' h'"
  shows "\<exists>T1 h1 n1 T' h'. fix_insert_right T h a (faddr f) pp = Inr (T1, h1, n1)
    \<and> rbtree_fix_insert fuel T1 h1 n1 = Inr (T', h')
    \<and> rb_done T h (plug (f # FR Black U pp # gs) (Br Red r a l)) T' h'"
proof (cases "tcol U")
  case Red
  from fix_insert_right_red [OF c Red] obtain h1
    where it: "fix_insert_right T h a (faddr f) pp = Inr (T, h1, pp)"
      and c1: "cfg T h1 gs (Br Red (tpaint Black U) pp (tpaint Black (plug1 f (Br Red r a l))))"
      and same: "rb_same (set (inord (plug (f # FR Black U pp # gs) (Br Red r a l)))) h h1"
    by blast
  have paint: "invc (tpaint Black t)" "invh (tpaint Black t)" if "invc t" "invh t" for t :: "'p ctree"
    using that by (cases t; simp)+
  have U: "bh (tpaint Black U) = Suc (bh l)" using inv Red f by (cases U) auto
  have P: "bh (tpaint Black (plug1 f (Br Red r a l))) = Suc (bh l)"
    "invc (tpaint Black (plug1 f (Br Red r a l)))" "invh (tpaint Black (plug1 f (Br Red r a l)))"
    using inv f by (cases f; simp)+
  have B: "tcol (tpaint Black t) = Black" for t :: "'p ctree" by (cases t) auto
  have "\<exists>T' h'. rbtree_fix_insert fuel T h1 pp = Inr (T', h')
      \<and> rb_done T h1 (plug gs (Br Red (tpaint Black U) pp (tpaint Black (plug1 f (Br Red r a l))))) T' h'"
    by (rule IH [OF c1]) (use f inv P U B paint [of U] in auto)
  moreover have "inord (plug gs (Br Red (tpaint Black U) pp (tpaint Black (plug1 f (Br Red r a l)))))
      = inord (plug (f # FR Black U pp # gs) (Br Red r a l))"
    by (simp add: inord_plug_eq [where t = "Br Red _ _ _" and t' = "Br Black _ _ _"])
  ultimately show ?thesis using it same by (blast intro: rb_done_step)
next
  case Black
  show ?thesis
  proof (cases f)
    case (FR fc S p)
    then have fs: "f = FR Red S p" using f by simp
    from fix_insert_right_outer [OF c [unfolded fs] Black] obtain T1 h1
      where it: "fix_insert_right T h a p pp = Inr (T1, h1, a)"
        and c1: "cfg T1 h1 (FR Black (Br Red U pp S) p # gs) (Br Red r a l)"
        and sz: "rb_size T1 = rb_size T"
        and same: "rb_same (set (inord (plug (FR Red S p # FR Black U pp # gs) (Br Red r a l)))) h h1"
      by blast
    have "\<exists>T' h'. rbtree_fix_insert fuel T1 h1 a = Inr (T', h')
        \<and> rb_done T1 h1 (plug (FR Black (Br Red U pp S) p # gs) (Br Red r a l)) T' h'"
      by (rule fix_insert_stop [OF c1])
         (use is_red_zpar [OF c1] inv Black fs \<open>0 < fuel\<close> in auto)
    moreover have "inord (plug (FR Black (Br Red U pp S) p # gs) (Br Red r a l))
        = inord (plug (FR Red S p # FR Black U pp # gs) (Br Red r a l))"
      by (simp, rule inord_plug_eq) simp
    ultimately show ?thesis using it same sz unfolding fs by (auto intro: rb_done_step)
  next
    case (FL fc p S)
    then have fs: "f = FL Red p S" using f by simp
    from fix_insert_right_inner [OF c [unfolded fs] Black] obtain T1 h1
      where it: "fix_insert_right T h a p pp = Inr (T1, h1, p)"
        and c1: "cfg T1 h1 (FR Black (Br Red U pp r) a # gs) (Br Red l p S)"
        and sz: "rb_size T1 = rb_size T"
        and same: "rb_same (set (inord (plug (FL Red p S # FR Black U pp # gs) (Br Red r a l)))) h h1"
      by blast
    have "\<exists>T' h'. rbtree_fix_insert fuel T1 h1 p = Inr (T', h')
        \<and> rb_done T1 h1 (plug (FR Black (Br Red U pp r) a # gs) (Br Red l p S)) T' h'"
      by (rule fix_insert_stop [OF c1])
         (use is_red_zpar [OF c1] inv Black fs \<open>0 < fuel\<close> in auto)
    moreover have "inord (plug (FR Black (Br Red U pp r) a # gs) (Br Red l p S))
        = inord (plug (FL Red p S # FR Black U pp # gs) (Br Red r a l))"
      by (simp, rule inord_plug_eq) simp
    ultimately show ?thesis using it same sz unfolding fs by (auto intro: rb_done_step)
  qed
qed

lemma fix_insert_ok:
  fixes h :: "('p::zero, 'k) rb_heap"
  assumes "cfg T h fs (Br Red l a r)" and "invc (Br Red l a r)" "invh (Br Red l a r)" "zrb (bh l) fs"
    and "length fs + 2 \<le> fuel"
  shows "\<exists>T' h'. rbtree_fix_insert fuel T h a = Inr (T', h')
    \<and> rb_done T h (plug fs (Br Red l a r)) T' h'"
  using assms
proof (induction fuel arbitrary: T h fs l a r)
  case 0
  then show ?case by simp
next
  case (Suc fuel)
  note c = Suc.prems(1)
  let ?t = "Br Red l a r"
  show ?case
  proof (cases "is_red h (zpar fs)")
    case False
    then show ?thesis by (rule fix_insert_stop [OF c]) (use Suc.prems in auto)
  next
    case True
    then obtain f fs1 where fs: "fs = f # fs1" and fred: "fcol f = Red"
      using is_red_zpar [OF c] by (cases fs) auto
    from Suc.prems(4) fs fred have fb: "tcol (fsib f) = Black" "zcol fs1 = Black" by auto
    then obtain g gs where fs1: "fs1 = g # gs" and gb: "fcol g = Black" by (cases fs1) auto
    have p: "rb_p (h a) = faddr f" using cfg_node(3) [OF c] fs by simp
    have c1: "cfg T h (f # g # gs) ?t" using c fs fs1 by simp
    then have cp: "cfg T h (g # gs) (plug1 f ?t)" by (simp add: cfg_up)
    have pp: "rb_p (h (faddr f)) = faddr g" "faddr g \<noteq> 0" "rb_s (h (faddr f)) = faddr f"
      using cfg_parent [OF c1] cfg_parent [OF cp] by auto
    have z: "zrb (bh l) (f # g # gs)" using Suc.prems(4) fs fs1 by simp
    have unfold: "rbtree_fix_insert (Suc fuel) T h a =
      bind_r (if faddr f = rb_left (h (faddr g)) then fix_insert_left T h a (faddr f) (faddr g)
              else fix_insert_right T h a (faddr f) (faddr g))
        (\<lambda>(T, h, node). rbtree_fix_insert fuel T h node)"
      using True p pp fs by (simp add: rb_get_def)
    have IH: "\<exists>T' h'. rbtree_fix_insert fuel T h1 x = Inr (T', h')
        \<and> rb_done T h1 (plug gs (Br Red l1 x r1)) T' h'"
      if "cfg T h1 gs (Br Red l1 x r1)" "invc (Br Red l1 x r1)" "invh (Br Red l1 x r1)"
        "zrb (bh l1) gs" "bh l1 = bh r1" for h1 :: "('p, 'k) rb_heap" and l1 x r1
      using that(1-4) by (rule Suc.IH) (use Suc.prems(5) fs fs1 in simp)
    have IH': "\<exists>T' h'. rbtree_fix_insert fuel T h1 x = Inr (T', h')
        \<and> rb_done T h1 (plug gs (Br Red r1 x l1)) T' h'"
      if "cfg T h1 gs (Br Red r1 x l1)" "invc (Br Red r1 x l1)" "invh (Br Red r1 x l1)"
        "zrb (bh l1) gs" "bh l1 = bh r1" for h1 :: "('p, 'k) rb_heap" and l1 x r1
      by (rule IH) (use that in simp_all)
    have fuel: "0 < fuel" using Suc.prems(5) fs by simp
    show ?thesis
    proof (cases g)
      case (FL gc pp U)
      then have g: "g = FL Black pp U" using gb by simp
      have "faddr f = rb_left (h (faddr g))"
        using cp g by (simp add: cfg_def)
      moreover from fix_insert_loop_left [OF c1 [unfolded g] fred Suc.prems(2,3) z [unfolded g] fuel IH]
      obtain T1 h1 n1 T' h' where "fix_insert_left T h a (faddr f) pp = Inr (T1, h1, n1)"
        "rbtree_fix_insert fuel T1 h1 n1 = Inr (T', h')" "rb_done T h (plug fs ?t) T' h'"
        unfolding fs fs1 g by blast
      ultimately show ?thesis using unfold g by simp
    next
      case (FR gc U pp)
      then have g: "g = FR Black U pp" using gb by simp
      have "faddr f \<notin> set (inord U)" using c1 g by (auto simp: cfg_def)
      then have "faddr f \<noteq> rb_left (h (faddr g))"
        using cp g root_ptr_neq [of "faddr f" U] cfg_parent(1) [OF c1] by (auto simp: cfg_def)
      moreover from Suc.prems(3) z have z': "zrb (bh r) (f # FR Black U pp # gs)" using g by simp
      from fix_insert_loop_right [OF c1 [unfolded g] fred Suc.prems(2,3) z' fuel IH']
      obtain T1 h1 n1 T' h' where "fix_insert_right T h a (faddr f) pp = Inr (T1, h1, n1)"
        "rbtree_fix_insert fuel T1 h1 n1 = Inr (T', h')" "rb_done T h (plug fs ?t) T' h'"
        unfolding fs fs1 g by fastforce
      ultimately show ?thesis using unfold g by simp
    qed
  qed
qed

section \<open>The descent\<close>

text \<open>
  The path a new node takes: right of the nodes that satisfy \<open>g\<close>, left of the others; and
  the in-order sequence of the tree with the new node at the end of that path.
\<close>

primrec desc :: "('p \<Rightarrow> bool) \<Rightarrow> 'p frame list \<Rightarrow> 'p ctree \<Rightarrow> 'p frame list" where
  "desc g fs Lf = fs"
| "desc g fs (Br c l a r) =
     (if g a then desc g (FR c l a # fs) r else desc g (FL c a r # fs) l)"

primrec ins_inord :: "('p \<Rightarrow> bool) \<Rightarrow> 'p \<Rightarrow> 'p ctree \<Rightarrow> 'p list" where
  "ins_inord g x Lf = [x]"
| "ins_inord g x (Br c l a r) =
     (if g a then inord l @ a # ins_inord g x r else ins_inord g x l @ a # inord r)"

lemma plug_desc: "plug (desc g fs t) Lf = plug fs t"
  by (induction t arbitrary: fs) auto

primrec around :: "'p frame list \<Rightarrow> 'p list \<Rightarrow> 'p list" where
  "around [] xs = xs"
| "around (f # fs) xs = around fs
     (case f of FL c a r \<Rightarrow> xs @ a # inord r | FR c l a \<Rightarrow> inord l @ a # xs)"

lemma inord_plug: "inord (plug fs t) = around fs (inord t)"
proof (induction fs arbitrary: t)
  case (Cons f fs)
  then show ?case by (cases f) simp_all
qed simp

lemma inord_desc: "inord (plug (desc g fs t) (Br c Lf x Lf)) = around fs (ins_inord g x t)"
  by (induction t arbitrary: fs) (simp_all add: inord_plug)

lemma ins_inord_split: "\<exists>xs ys. inord t = xs @ ys \<and> ins_inord g x t = xs @ x # ys"
proof (induction t)
  case (Br c l a r)
  then obtain xl yl xr yr where "inord l = xl @ yl" "ins_inord g x l = xl @ x # yl"
    "inord r = xr @ yr" "ins_inord g x r = xr @ x # yr" by blast
  then show ?case
    by (cases "g a") (rule exI [of _ "inord l @ a # xr"], rule exI [of _ yr], simp,
      rule exI [of _ xl], rule exI [of _ "yl @ a # inord r"], simp)
qed simp

text \<open>When the nodes that satisfy \<open>g\<close> come first, the new node goes right after them.\<close>

lemma while_stops:
  assumes "\<not> g a"
  shows "takeWhile g (xs @ a # ys) = takeWhile g xs"
    and "dropWhile g (xs @ a # ys) = dropWhile g xs @ a # ys"
  using assms by (induction xs) auto

lemma ins_inord_sorted:
  assumes "sorted_wrt (\<lambda>a b. g b \<longrightarrow> g a) (inord t)"
  shows "ins_inord g x t = takeWhile g (inord t) @ x # dropWhile g (inord t)"
  using assms
proof (induction t)
  case (Br c l a r)
  show ?case
  proof (cases "g a")
    case True
    then have "\<forall>b \<in> set (inord l). g b" using Br.prems by (auto simp: sorted_wrt_append)
    with True Br show ?thesis
      by (simp add: sorted_wrt_append takeWhile_append2 dropWhile_append2)
  next
    case False
    then have "dropWhile g (inord l @ a # inord r) = dropWhile g (inord l) @ a # inord r"
      and "takeWhile g (inord l @ a # inord r) = takeWhile g (inord l)"
      by (simp_all add: while_stops)
    then show ?thesis using False Br by (simp add: sorted_wrt_append)
  qed
qed simp

lemma insert_descend_ok:
  assumes "tlinked h (zpar fs) t" and "theight t < fuel"
  shows "insert_descend fuel cmp h (root_ptr t) (zpar fs) x =
    Inr (zpar (desc (\<lambda>a. cmp (rb_v (h a)) (rb_v (h x)) < 0) fs t))"
  using assms
proof (induction t arbitrary: fs fuel)
  case Lf
  then show ?case by (cases fuel) auto
next
  case (Br c l a r)
  then obtain k where k: "fuel = Suc k" "theight l < k" "theight r < k" by (cases fuel) auto
  have "insert_descend k cmp h (root_ptr r) (zpar (FR c l a # fs)) x =
      Inr (zpar (desc (\<lambda>a. cmp (rb_v (h a)) (rb_v (h x)) < 0) (FR c l a # fs) r))"
    by (rule Br.IH) (use Br.prems k in auto)
  moreover have "insert_descend k cmp h (root_ptr l) (zpar (FL c a r # fs)) x =
      Inr (zpar (desc (\<lambda>a. cmp (rb_v (h a)) (rb_v (h x)) < 0) (FL c a r # fs) l))"
    by (rule Br.IH) (use Br.prems k in auto)
  ultimately show ?case using Br.prems k by (simp add: rb_get_def)
qed

text \<open>The side the new node is linked on is the side the descent left by.\<close>

lemma desc_side:
  assumes "desc g fs t = f # gs" and "t \<noteq> Lf \<or> (fs \<noteq> [] \<and> g (faddr (hd fs)) = (\<exists>c l a. hd fs = FR c l a))"
  shows "g (faddr f) \<longleftrightarrow> (\<exists>c l a. f = FR c l a)"
  using assms by (induction t arbitrary: fs) (auto split: if_splits)

lemma cfg_attach:
  assumes c: "cfg T h (f # fs) Lf" and x: "x \<noteq> 0" "x \<notin> set (zaddrs (f # fs))"
    and n: "rb_s (h x) = x" "rb_left (h x) = 0" "rb_right (h x) = 0" "rb_color (h x) = RB_RED"
    and h': "h' = (case f of FL c a r \<Rightarrow> set_left h a x | FR c l a \<Rightarrow> set_right h a x)"
  shows "cfg T (set_p h' x (faddr f)) (f # fs) (Br Red Lf x Lf)"
proof (cases f)
  case (FL c a r)
  then have "a \<noteq> x" using x by auto
  with FL c x n show ?thesis unfolding h' by (simp add: cfg_def)
next
  case (FR c l a)
  then have "a \<noteq> x" using x by auto
  with FR c x n show ?thesis unfolding h' by (simp add: cfg_def)
qed

section \<open>Insertion\<close>

lemma node_init_sel:
  "rb_s (rbtree_node_init h x q) = rb_s (h q)" "rb_v (rbtree_node_init h x q) = rb_v (h q)"
  "q \<noteq> x \<Longrightarrow> rbtree_node_init h x q = h q"
  "rb_left (rbtree_node_init h x x) = 0" "rb_right (rbtree_node_init h x x) = 0"
  "rb_p (rbtree_node_init h x x) = 0" "rb_color (rbtree_node_init h x x) = RB_RED"
  by (simp_all add: rbtree_node_init_def)

lemma rbtree_insert_ok:
  assumes lk: "linked T h t" and rb: "rbt t" and sz: "length (inord t) < 2 ^ 31"
    and x: "x \<noteq> 0" "x \<notin> set (inord t)" "rb_s (h x) = x"
  shows "\<exists>T' h' t'. rbtree_insert cmp T h x = Inr (T', h') \<and> linked T' h' t' \<and> rbt t'
    \<and> inord t' = ins_inord (\<lambda>a. cmp (rb_v (h a)) (rb_v (h x)) < 0) x t
    \<and> rb_size T' = rb_size T + 1 \<and> rb_same (insert x (set (inord t))) h h'"
proof -
  let ?h = "rbtree_node_init h x" and ?T = "T\<lparr>rb_size := rb_size T + 1\<rparr>"
  let ?g = "\<lambda>a. cmp (rb_v (h a)) (rb_v (h x)) < 0"
  have same0: "rb_same (insert x (set (inord t))) h ?h"
    by (simp add: rb_same_def node_init_sel)
  have lk': "linked ?T ?h t"
  proof -
    have "tlinked ?h 0 t = tlinked h 0 t"
      by (rule tlinked_cong, rule node_init_sel(3)) (use x in blast)
    with lk show ?thesis by (simp add: cfg_def)
  qed
  show ?thesis
  proof (cases t)
    case Lf
    then have root: "rb_root T = 0" using lk by (simp add: cfg_def)
    let ?h' = "set_color ?h x RB_BLACK"
    have "rbtree_insert cmp T h x = Inr (?T\<lparr>rb_root := x\<rparr>, ?h')"
      using x root by (simp add: rbtree_insert_def Let_def node_init_sel)
    moreover have "linked (?T\<lparr>rb_root := x\<rparr>) ?h' (Br Black Lf x Lf)"
      using x by (simp add: cfg_def node_init_sel)
    moreover have "rb_same (insert x (set (inord t))) h ?h'" using same0 by simp
    ultimately show ?thesis using Lf by (auto simp: rbt_def)
  next
    case (Br c l a r)
    then have root: "rb_root T = a" "a \<noteq> 0" using lk by (simp_all add: cfg_def)
    let ?fs = "desc ?g [] t"
    have plug: "plug ?fs Lf = t" by (simp add: plug_desc)
    have "?fs \<noteq> []" using plug Br by auto
    then obtain f fs where fs: "?fs = f # fs" by (cases ?fs) auto
    have "theight t < rb_fuel" using rbt_height [OF rb sz] by (simp add: rb_fuel_def)
    then have "insert_descend rb_fuel cmp ?h (root_ptr t) (zpar []) x = Inr (zpar ?fs)"
      using insert_descend_ok [of ?h "[]" t rb_fuel cmp x] cfg_tlinked [OF lk']
      by (simp add: node_init_sel)
    then have descend: "insert_descend rb_fuel cmp ?h (rb_root T) 0 x = Inr (faddr f)"
      using root Br fs by simp
    have c: "cfg ?T ?h (f # fs) Lf" using lk' plug fs by (simp add: cfg_plug [of _ _ "f # fs"])
    have side: "?g (faddr f) \<longleftrightarrow> (\<exists>c l a. f = FR c l a)"
      by (rule desc_side [OF fs]) (simp add: Br)
    have xz: "x \<notin> set (zaddrs (f # fs))"
      using x(2) plug fs set_inord_plug [of "f # fs" Lf] by simp
    define h1 where "h1 = (if ?g (faddr f) then set_right ?h (faddr f) x else set_left ?h (faddr f) x)"
    have h1: "h1 = (case f of FL c a r \<Rightarrow> set_left ?h a x | FR c l a \<Rightarrow> set_right ?h a x)"
      using side unfolding h1_def by (cases f) auto
    have c1: "cfg ?T (set_p h1 x (faddr f)) (f # fs) (Br Red Lf x Lf)"
      by (rule cfg_attach [OF c x(1) xz _ _ _ _ h1]) (use x in \<open>simp_all add: node_init_sel\<close>)
    have rbz: "rbt (plug (f # fs) Lf)" using rb plug fs by simp
    have len: "length (f # fs) + 2 \<le> rb_fuel"
      using rbt_path [of "f # fs" Lf] rb sz plug fs by (simp add: rb_fuel_def)
    have "invc (Br Red Lf x Lf)" "invh (Br Red Lf x Lf)" "zrb (bh (Lf :: 'a ctree)) (f # fs)"
      using rbz unfolding rbt_plug by simp_all
    from fix_insert_ok [OF c1 this len] obtain T' h'
      where fix_eq: "rbtree_fix_insert rb_fuel ?T (set_p h1 x (faddr f)) x = Inr (T', h')"
        and done': "rb_done ?T (set_p h1 x (faddr f)) (plug (f # fs) (Br Red Lf x Lf)) T' h'"
      by blast
    have addrs: "set (inord (plug (f # fs) (Br Red Lf x Lf))) = insert x (set (inord t))"
      using set_inord_plug [of "f # fs" Lf] plug fs
      by (auto simp: set_inord_plug inord_plug1)
    have "faddr f \<in> set (inord t)" using set_inord_plug [of "f # fs" Lf] plug fs by auto
    then have same1: "rb_same (insert x (set (inord t))) h (set_p h1 x (faddr f))"
      using same0 by (simp add: h1_def)
    have s: "rb_s (?h (faddr f)) = faddr f" using cfg_parent(2) [OF c] .
    have "rbtree_insert cmp T h x = Inr (T', h')"
      using x root descend fix_eq s
      by (cases "?g (faddr f)") (simp_all add: rbtree_insert_def Let_def node_init_sel h1_def)
    moreover have "inord (plug (f # fs) (Br Red Lf x Lf)) = ins_inord ?g x t"
      using inord_desc [of ?g "[]" t Red x] fs by simp
    moreover obtain t' where "linked T' h' t'" "rbt t'" "rb_size T' = rb_size ?T"
      "inord t' = inord (plug (f # fs) (Br Red Lf x Lf))"
      "rb_same (insert x (set (inord t))) (set_p h1 x (faddr f)) h'"
      using done' unfolding rb_done_def addrs by blast
    moreover from same1 this(5) have "rb_same (insert x (set (inord t))) h h'"
      by (rule rb_same_trans)
    ultimately show ?thesis by auto
  qed
qed

end
