(* ===== verification/RBTree_Fix_Delete.thy ===== *)
theory RBTree_Fix_Delete
  imports RBTree_Insert
begin

text \<open>
  The fix-up loop after a deletion restores the red-black invariant: one lemma per case of its
  body, and the induction over the loop.
\<close>

section \<open>A red sibling\<close>

lemma fix_delete_left_red_cfg:
  assumes c: "cfg T h (FL c p (Br Red X w Y) # gs) t" and X: "X \<noteq> Lf"
  shows "\<exists>T' h'. fix_delete_left_red T h p = Inr (T', h', root_ptr X)
    \<and> cfg T' h' (FL Red p X # FL Black w Y # gs) t \<and> rb_size T' = rb_size T
    \<and> rb_same (set (inord (plug (FL c p (Br Red X w Y) # gs) t))) h h'"
proof -
  let ?A = "set (inord (plug (FL c p (Br Red X w Y) # gs) t))"
  have p: "cfg T h gs (Br c t p (Br Red X w Y))" using c by (simp add: cfg_up)
  have right: "rb_right (h p) = w" using cfg_node(5) [OF p] by simp
  have w: "cfg T h (FR c t p # gs) (Br Red X w Y)" using p by (simp add: cfg_up)
  note wf = cfg_node [OF w]
  let ?h1 = "set_color h w RB_BLACK"
  have "cfg T ?h1 (FR c t p # gs) (Br Black X w Y)" using w by (rule recolor_code)
  then have "cfg T ?h1 gs (Br c t p (Br Black X w Y))" by (simp add: cfg_up)
  then have "cfg T (set_color ?h1 p RB_RED) gs (Br Red t p (Br Black X w Y))"
    by (rule recolor_code)
  from left_rotate_cfg [OF this] obtain T' h'
    where rot: "rbtree_left_rotate T (set_color ?h1 p RB_RED) p = Inr (T', h')"
      and c': "cfg T' h' gs (Br Black (Br Red t p X) w Y)" and sz: "rb_size T' = rb_size T"
      and same: "rb_same (set (inord (plug gs (Br Red t p (Br Black X w Y)))))
         (set_color ?h1 p RB_RED) h'" by blast
  have c2: "cfg T' h' (FL Black w Y # gs) (Br Red t p X)" using c' by (simp add: cfg_up)
  have "tlinked h' p X" "rb_right (h' p) = root_ptr X"
    using cfg_children(2) [OF c2] cfg_node(5) [OF c2] .
  then have "rb_get (rb_right (h' p)) = Inr (root_ptr X)"
    using root_ptr_zero [of h' p X] X by (simp add: rb_get_def)
  moreover have "rb_same ?A h h'"
    by (rule rb_same_trans [of _ _ "set_color ?h1 p RB_RED"])
       (use same in \<open>simp_all add: set_inord_plug\<close>)
  ultimately show ?thesis
    using rot c2 sz right wf by (simp add: fix_delete_left_red_def rb_get_def Let_def cfg_up)
qed

lemma fix_delete_left_red_skip:
  assumes c: "cfg T h (FL c p W # gs) t" and W: "W \<noteq> Lf" "tcol W = Black"
  shows "fix_delete_left_red T h p = Inr (T, h, root_ptr W)"
proof -
  have p: "cfg T h gs (Br c t p W)" using c by (simp add: cfg_up)
  have "rb_right (h p) = root_ptr W" using p by (rule cfg_node)
  moreover have "cfg T h (FR c t p # gs) W" using p by (simp add: cfg_up)
  then have "root_ptr W \<noteq> 0" "rb_color (h (root_ptr W)) = RB_BLACK"
    using W by (cases W; simp add: cfg_def)+
  ultimately show ?thesis by (simp add: fix_delete_left_red_def rb_get_def)
qed

section \<open>A black sibling\<close>

lemma fix_delete_left_up:
  assumes c: "cfg T h (FL c p (Br Black X w Y) # gs) t" and "tcol X = Black" "tcol Y = Black"
  shows "fix_delete_left_black T h p w = Inr (T, set_color h w RB_RED, Some p)"
    "cfg T (set_color h w RB_RED) gs (Br c t p (Br Red X w Y))"
proof -
  have w: "cfg T h (FR c t p # gs) (Br Black X w Y)" using c by (simp add: cfg_up)
  have "null_or_black h (rb_left (h w))" "null_or_black h (rb_right (h w))"
    using null_or_black_root [OF cfg_children(1) [OF w]] null_or_black_root [OF cfg_children(2) [OF w]]
      cfg_node(4) [OF w] cfg_node(5) [OF w] assms(2,3) by simp_all
  then show "fix_delete_left_black T h p w = Inr (T, set_color h w RB_RED, Some p)"
    by (simp add: fix_delete_left_black_def)
  show "cfg T (set_color h w RB_RED) gs (Br c t p (Br Red X w Y))"
    using recolor_code(1) [OF w] by (simp add: cfg_up)
qed

text \<open>The last recolouring and rotation, for a red far child of the sibling.\<close>

lemma fix_delete_left_last:
  assumes c: "cfg T h (FL c p (Br d X w (Br Red l y r)) # gs) t"
  defines "h3 \<equiv> set_color (set_color (set_color h w (rb_color (h p))) p RB_BLACK) y RB_BLACK"
  shows "\<exists>T' h'. rbtree_left_rotate T h3 p = Inr (T', h')
    \<and> cfg T' h' (FL Black p X # FL c w (Br Black l y r) # gs) t \<and> rb_size T' = rb_size T
    \<and> rb_same (set (inord (plug (FL c p (Br d X w (Br Red l y r)) # gs) t))) h h'"
proof -
  let ?A = "set (inord (plug (FL c p (Br d X w (Br Red l y r)) # gs) t))"
  have p: "cfg T h gs (Br c t p (Br d X w (Br Red l y r)))" using c by (simp add: cfg_up)
  have cp: "rb_color (h p) = rbcode c" using p by (rule cfg_node)
  let ?h1 = "set_color h w (rb_color (h p))"
  have "cfg T h (FR c t p # gs) (Br d X w (Br Red l y r))" using p by (simp add: cfg_up)
  then have "cfg T ?h1 (FR c t p # gs) (Br c X w (Br Red l y r))"
    unfolding cp by (rule recolor)
  then have "cfg T ?h1 gs (Br c t p (Br c X w (Br Red l y r)))" by (simp add: cfg_up)
  then have "cfg T (set_color ?h1 p RB_BLACK) gs (Br Black t p (Br c X w (Br Red l y r)))"
    by (rule recolor_code)
  then have "cfg T (set_color ?h1 p RB_BLACK) (FR c X w # FR Black t p # gs) (Br Red l y r)"
    by (simp add: cfg_up)
  then have "cfg T h3 (FR c X w # FR Black t p # gs) (Br Black l y r)"
    unfolding h3_def by (rule recolor_code)
  then have "cfg T h3 gs (Br Black t p (Br c X w (Br Black l y r)))" by (simp add: cfg_up)
  from left_rotate_cfg [OF this] obtain T' h'
    where rot: "rbtree_left_rotate T h3 p = Inr (T', h')"
      and c': "cfg T' h' gs (Br c (Br Black t p X) w (Br Black l y r))"
      and sz: "rb_size T' = rb_size T"
      and same: "rb_same (set (inord (plug gs (Br Black t p (Br c X w (Br Black l y r)))))) h3 h'"
    by blast
  have "rb_same ?A h h3" by (simp add: h3_def set_inord_plug)
  moreover have "rb_same ?A h3 h'"
    by (rule rb_same_mono [OF same]) (auto simp: set_inord_plug)
  ultimately have "rb_same ?A h h'" by (rule rb_same_trans)
  with rot c' sz show ?thesis by (simp add: cfg_up)
qed

lemma fix_delete_left_far:
  assumes c: "cfg T h (FL c p (Br Black X w (Br Red l y r)) # gs) t"
  shows "\<exists>T' h'. fix_delete_left_black T h p w = Inr (T', h', None)
    \<and> cfg T' h' (FL Black p X # FL c w (Br Black l y r) # gs) t \<and> rb_size T' = rb_size T
    \<and> rb_same (set (inord (plug (FL c p (Br Black X w (Br Red l y r)) # gs) t))) h h'"
proof -
  have w: "cfg T h (FR c t p # gs) (Br Black X w (Br Red l y r))" using c by (simp add: cfg_up)
  have "rb_right (h w) = y" using cfg_node(5) [OF w] by simp
  moreover have "\<not> null_or_black h y"
    using null_or_black_root [OF cfg_children(2) [OF w]] by simp
  ultimately show ?thesis
    using fix_delete_left_last [OF c] by (auto simp: fix_delete_left_black_def Let_def)
qed

lemma fix_delete_left_near:
  assumes c: "cfg T h (FL c p (Br Black (Br Red P x Q) w Y) # gs) t" and Y: "tcol Y = Black"
  shows "\<exists>T' h'. fix_delete_left_black T h p w = Inr (T', h', None)
    \<and> cfg T' h' (FL Black p P # FL c x (Br Black Q w Y) # gs) t \<and> rb_size T' = rb_size T
    \<and> rb_same (set (inord (plug (FL c p (Br Black (Br Red P x Q) w Y) # gs) t))) h h'"
proof -
  let ?A = "set (inord (plug (FL c p (Br Black (Br Red P x Q) w Y) # gs) t))"
  have w: "cfg T h (FR c t p # gs) (Br Black (Br Red P x Q) w Y)" using c by (simp add: cfg_up)
  have wl: "rb_left (h w) = x" and wr: "rb_right (h w) = root_ptr Y"
    using cfg_node(4) [OF w] cfg_node(5) [OF w] by simp_all
  have bl: "\<not> null_or_black h x" "null_or_black h (root_ptr Y)"
    using null_or_black_root [OF cfg_children(1) [OF w]] null_or_black_root [OF cfg_children(2) [OF w]] Y
    by simp_all
  have x: "cfg T h (FL Black w Y # FR c t p # gs) (Br Red P x Q)" using w by (simp add: cfg_up)
  let ?h1 = "set_color h x RB_BLACK"
  have "cfg T ?h1 (FL Black w Y # FR c t p # gs) (Br Black P x Q)" using x by (rule recolor_code)
  then have "cfg T ?h1 (FR c t p # gs) (Br Black (Br Black P x Q) w Y)" by (simp add: cfg_up)
  then have "cfg T (set_color ?h1 w RB_RED) (FR c t p # gs) (Br Red (Br Black P x Q) w Y)"
    by (rule recolor_code)
  from right_rotate_cfg [OF this] obtain T1 h1
    where rot: "rbtree_right_rotate T (set_color ?h1 w RB_RED) w = Inr (T1, h1)"
      and c1: "cfg T1 h1 (FR c t p # gs) (Br Black P x (Br Red Q w Y))"
      and sz: "rb_size T1 = rb_size T"
      and same: "rb_same (set (inord (plug (FR c t p # gs) (Br Red (Br Black P x Q) w Y))))
         (set_color ?h1 w RB_RED) h1" by blast
  have c1p: "cfg T1 h1 gs (Br c t p (Br Black P x (Br Red Q w Y)))" using c1 by (simp add: cfg_up)
  then have c1l: "cfg T1 h1 (FL c p (Br Black P x (Br Red Q w Y)) # gs) t" by (simp add: cfg_up)
  have w1: "rb_right (h1 p) = x" "rb_right (h1 x) = w"
    using cfg_node(5) [OF c1p] cfg_node(5) [OF c1] by simp_all
  have nz: "x \<noteq> 0" "w \<noteq> 0" using cfg_node(1) [OF x] cfg_node(1) [OF w] .
  from fix_delete_left_last [OF c1l] obtain T' h'
    where rot2: "rbtree_left_rotate T1 (set_color (set_color (set_color h1 x (rb_color (h1 p)))
        p RB_BLACK) w RB_BLACK) p = Inr (T', h')"
      and c': "cfg T' h' (FL Black p P # FL c x (Br Black Q w Y) # gs) t"
      and sz': "rb_size T' = rb_size T1"
      and same': "rb_same (set (inord (plug (FL c p (Br Black P x (Br Red Q w Y)) # gs) t))) h1 h'"
    by blast
  have "rb_same ?A h (set_color ?h1 w RB_RED)" by (simp add: set_inord_plug)
  moreover have "rb_same ?A (set_color ?h1 w RB_RED) h1"
    by (rule rb_same_mono [OF same]) (auto simp: set_inord_plug)
  moreover have "rb_same ?A h1 h'"
    by (rule rb_same_mono [OF same']) (auto simp: set_inord_plug)
  ultimately have "rb_same ?A h h'" by (blast intro: rb_same_trans)
  with rot rot2 c' sz sz' wl wr bl w1 nz show ?thesis
    by (simp add: fix_delete_left_black_def rb_get_def Let_def)
qed

section \<open>The mirror images\<close>

lemma fix_delete_right_red_cfg:
  assumes c: "cfg T h (FR c (Br Red Y w X) p # gs) t" and X: "X \<noteq> Lf"
  shows "\<exists>T' h'. fix_delete_right_red T h p = Inr (T', h', root_ptr X)
    \<and> cfg T' h' (FR Red X p # FR Black Y w # gs) t \<and> rb_size T' = rb_size T
    \<and> rb_same (set (inord (plug (FR c (Br Red Y w X) p # gs) t))) h h'"
proof -
  let ?A = "set (inord (plug (FR c (Br Red Y w X) p # gs) t))"
  have p: "cfg T h gs (Br c (Br Red Y w X) p t)" using c by (simp add: cfg_up)
  have right: "rb_left (h p) = w" using cfg_node(4) [OF p] by simp
  have w: "cfg T h (FL c p t # gs) (Br Red Y w X)" using p by (simp add: cfg_up)
  note wf = cfg_node [OF w]
  let ?h1 = "set_color h w RB_BLACK"
  have "cfg T ?h1 (FL c p t # gs) (Br Black Y w X)" using w by (rule recolor_code)
  then have "cfg T ?h1 gs (Br c (Br Black Y w X) p t)" by (simp add: cfg_up)
  then have "cfg T (set_color ?h1 p RB_RED) gs (Br Red (Br Black Y w X) p t)"
    by (rule recolor_code)
  from right_rotate_cfg [OF this] obtain T' h'
    where rot: "rbtree_right_rotate T (set_color ?h1 p RB_RED) p = Inr (T', h')"
      and c': "cfg T' h' gs (Br Black Y w (Br Red X p t))" and sz: "rb_size T' = rb_size T"
      and same: "rb_same (set (inord (plug gs (Br Red (Br Black Y w X) p t))))
         (set_color ?h1 p RB_RED) h'" by blast
  have c2: "cfg T' h' (FR Black Y w # gs) (Br Red X p t)" using c' by (simp add: cfg_up)
  have "tlinked h' p X" "rb_left (h' p) = root_ptr X"
    using cfg_children(1) [OF c2] cfg_node(4) [OF c2] .
  then have "rb_get (rb_left (h' p)) = Inr (root_ptr X)"
    using root_ptr_zero [of h' p X] X by (simp add: rb_get_def)
  moreover have "rb_same ?A h h'"
    by (rule rb_same_trans [of _ _ "set_color ?h1 p RB_RED"])
       (use same in \<open>simp_all add: set_inord_plug\<close>)
  ultimately show ?thesis
    using rot c2 sz right wf by (simp add: fix_delete_right_red_def rb_get_def Let_def cfg_up)
qed

lemma fix_delete_right_red_skip:
  assumes c: "cfg T h (FR c W p # gs) t" and W: "W \<noteq> Lf" "tcol W = Black"
  shows "fix_delete_right_red T h p = Inr (T, h, root_ptr W)"
proof -
  have p: "cfg T h gs (Br c W p t)" using c by (simp add: cfg_up)
  have "rb_left (h p) = root_ptr W" using p by (rule cfg_node)
  moreover have "cfg T h (FL c p t # gs) W" using p by (simp add: cfg_up)
  then have "root_ptr W \<noteq> 0" "rb_color (h (root_ptr W)) = RB_BLACK"
    using W by (cases W; simp add: cfg_def)+
  ultimately show ?thesis by (simp add: fix_delete_right_red_def rb_get_def)
qed

lemma fix_delete_right_up:
  assumes c: "cfg T h (FR c (Br Black Y w X) p # gs) t" and "tcol X = Black" "tcol Y = Black"
  shows "fix_delete_right_black T h p w = Inr (T, set_color h w RB_RED, Some p)"
    "cfg T (set_color h w RB_RED) gs (Br c (Br Red Y w X) p t)"
proof -
  have w: "cfg T h (FL c p t # gs) (Br Black Y w X)" using c by (simp add: cfg_up)
  have "null_or_black h (rb_right (h w))" "null_or_black h (rb_left (h w))"
    using null_or_black_root [OF cfg_children(2) [OF w]] null_or_black_root [OF cfg_children(1) [OF w]]
      cfg_node(5) [OF w] cfg_node(4) [OF w] assms(2,3) by simp_all
  then show "fix_delete_right_black T h p w = Inr (T, set_color h w RB_RED, Some p)"
    by (simp add: fix_delete_right_black_def)
  show "cfg T (set_color h w RB_RED) gs (Br c (Br Red Y w X) p t)"
    using recolor_code(1) [OF w] by (simp add: cfg_up)
qed

lemma fix_delete_right_last:
  assumes c: "cfg T h (FR c (Br d (Br Red r y l) w X) p # gs) t"
  defines "h3 \<equiv> set_color (set_color (set_color h w (rb_color (h p))) p RB_BLACK) y RB_BLACK"
  shows "\<exists>T' h'. rbtree_right_rotate T h3 p = Inr (T', h')
    \<and> cfg T' h' (FR Black X p # FR c (Br Black r y l) w # gs) t \<and> rb_size T' = rb_size T
    \<and> rb_same (set (inord (plug (FR c (Br d (Br Red r y l) w X) p # gs) t))) h h'"
proof -
  let ?A = "set (inord (plug (FR c (Br d (Br Red r y l) w X) p # gs) t))"
  have p: "cfg T h gs (Br c (Br d (Br Red r y l) w X) p t)" using c by (simp add: cfg_up)
  have cp: "rb_color (h p) = rbcode c" using p by (rule cfg_node)
  let ?h1 = "set_color h w (rb_color (h p))"
  have "cfg T h (FL c p t # gs) (Br d (Br Red r y l) w X)" using p by (simp add: cfg_up)
  then have "cfg T ?h1 (FL c p t # gs) (Br c (Br Red r y l) w X)"
    unfolding cp by (rule recolor)
  then have "cfg T ?h1 gs (Br c (Br c (Br Red r y l) w X) p t)" by (simp add: cfg_up)
  then have "cfg T (set_color ?h1 p RB_BLACK) gs (Br Black (Br c (Br Red r y l) w X) p t)"
    by (rule recolor_code)
  then have "cfg T (set_color ?h1 p RB_BLACK) (FL c w X # FL Black p t # gs) (Br Red r y l)"
    by (simp add: cfg_up)
  then have "cfg T h3 (FL c w X # FL Black p t # gs) (Br Black r y l)"
    unfolding h3_def by (rule recolor_code)
  then have "cfg T h3 gs (Br Black (Br c (Br Black r y l) w X) p t)" by (simp add: cfg_up)
  from right_rotate_cfg [OF this] obtain T' h'
    where rot: "rbtree_right_rotate T h3 p = Inr (T', h')"
      and c': "cfg T' h' gs (Br c (Br Black r y l) w (Br Black X p t))"
      and sz: "rb_size T' = rb_size T"
      and same: "rb_same (set (inord (plug gs (Br Black (Br c (Br Black r y l) w X) p t)))) h3 h'"
    by blast
  have "rb_same ?A h h3" by (simp add: h3_def set_inord_plug)
  moreover have "rb_same ?A h3 h'"
    by (rule rb_same_mono [OF same]) (auto simp: set_inord_plug)
  ultimately have "rb_same ?A h h'" by (rule rb_same_trans)
  with rot c' sz show ?thesis by (simp add: cfg_up)
qed

lemma fix_delete_right_far:
  assumes c: "cfg T h (FR c (Br Black (Br Red r y l) w X) p # gs) t"
  shows "\<exists>T' h'. fix_delete_right_black T h p w = Inr (T', h', None)
    \<and> cfg T' h' (FR Black X p # FR c (Br Black r y l) w # gs) t \<and> rb_size T' = rb_size T
    \<and> rb_same (set (inord (plug (FR c (Br Black (Br Red r y l) w X) p # gs) t))) h h'"
proof -
  have w: "cfg T h (FL c p t # gs) (Br Black (Br Red r y l) w X)" using c by (simp add: cfg_up)
  have "rb_left (h w) = y" using cfg_node(4) [OF w] by simp
  moreover have "\<not> null_or_black h y"
    using null_or_black_root [OF cfg_children(1) [OF w]] by simp
  ultimately show ?thesis
    using fix_delete_right_last [OF c] by (auto simp: fix_delete_right_black_def Let_def)
qed

lemma fix_delete_right_near:
  assumes c: "cfg T h (FR c (Br Black Y w (Br Red Q x P)) p # gs) t" and Y: "tcol Y = Black"
  shows "\<exists>T' h'. fix_delete_right_black T h p w = Inr (T', h', None)
    \<and> cfg T' h' (FR Black P p # FR c (Br Black Y w Q) x # gs) t \<and> rb_size T' = rb_size T
    \<and> rb_same (set (inord (plug (FR c (Br Black Y w (Br Red Q x P)) p # gs) t))) h h'"
proof -
  let ?A = "set (inord (plug (FR c (Br Black Y w (Br Red Q x P)) p # gs) t))"
  have w: "cfg T h (FL c p t # gs) (Br Black Y w (Br Red Q x P))" using c by (simp add: cfg_up)
  have wl: "rb_right (h w) = x" and wr: "rb_left (h w) = root_ptr Y"
    using cfg_node(5) [OF w] cfg_node(4) [OF w] by simp_all
  have bl: "\<not> null_or_black h x" "null_or_black h (root_ptr Y)"
    using null_or_black_root [OF cfg_children(2) [OF w]] null_or_black_root [OF cfg_children(1) [OF w]] Y
    by simp_all
  have x: "cfg T h (FR Black Y w # FL c p t # gs) (Br Red Q x P)" using w by (simp add: cfg_up)
  let ?h1 = "set_color h x RB_BLACK"
  have "cfg T ?h1 (FR Black Y w # FL c p t # gs) (Br Black Q x P)" using x by (rule recolor_code)
  then have "cfg T ?h1 (FL c p t # gs) (Br Black Y w (Br Black Q x P))" by (simp add: cfg_up)
  then have "cfg T (set_color ?h1 w RB_RED) (FL c p t # gs) (Br Red Y w (Br Black Q x P))"
    by (rule recolor_code)
  from left_rotate_cfg [OF this] obtain T1 h1
    where rot: "rbtree_left_rotate T (set_color ?h1 w RB_RED) w = Inr (T1, h1)"
      and c1: "cfg T1 h1 (FL c p t # gs) (Br Black (Br Red Y w Q) x P)"
      and sz: "rb_size T1 = rb_size T"
      and same: "rb_same (set (inord (plug (FL c p t # gs) (Br Red Y w (Br Black Q x P)))))
         (set_color ?h1 w RB_RED) h1" by blast
  have c1p: "cfg T1 h1 gs (Br c (Br Black (Br Red Y w Q) x P) p t)" using c1 by (simp add: cfg_up)
  then have c1l: "cfg T1 h1 (FR c (Br Black (Br Red Y w Q) x P) p # gs) t" by (simp add: cfg_up)
  have w1: "rb_left (h1 p) = x" "rb_left (h1 x) = w"
    using cfg_node(4) [OF c1p] cfg_node(4) [OF c1] by simp_all
  have nz: "x \<noteq> 0" "w \<noteq> 0" using cfg_node(1) [OF x] cfg_node(1) [OF w] .
  from fix_delete_right_last [OF c1l] obtain T' h'
    where rot2: "rbtree_right_rotate T1 (set_color (set_color (set_color h1 x (rb_color (h1 p)))
        p RB_BLACK) w RB_BLACK) p = Inr (T', h')"
      and c': "cfg T' h' (FR Black P p # FR c (Br Black Y w Q) x # gs) t"
      and sz': "rb_size T' = rb_size T1"
      and same': "rb_same (set (inord (plug (FR c (Br Black (Br Red Y w Q) x P) p # gs) t))) h1 h'"
    by blast
  have "rb_same ?A h (set_color ?h1 w RB_RED)" by (simp add: set_inord_plug)
  moreover have "rb_same ?A (set_color ?h1 w RB_RED) h1"
    by (rule rb_same_mono [OF same]) (auto simp: set_inord_plug)
  moreover have "rb_same ?A h1 h'"
    by (rule rb_same_mono [OF same']) (auto simp: set_inord_plug)
  ultimately have "rb_same ?A h h'" by (blast intro: rb_same_trans)
  with rot rot2 c' sz sz' wl wr bl w1 nz show ?thesis
    by (simp add: fix_delete_right_black_def rb_get_def Let_def)
qed

section \<open>The loop\<close>

text \<open>
  The pointer the loop holds: the root of the subtree \<open>t\<close>, or the sentinel in slot 0 when
  \<open>t\<close> is empty; its parent, own pointer and colour are readable in both cases.
\<close>

definition focus :: "('p::zero, 'k) rb_heap \<Rightarrow> 'p frame list \<Rightarrow> 'p ctree \<Rightarrow> bool" where
  "focus h fs t \<longleftrightarrow> rb_s (h (root_ptr t)) = root_ptr t \<and> rb_p (h (root_ptr t)) = zpar fs
     \<and> rb_color (h (root_ptr t)) = rbcode (tcol t)"

lemma focus_node: "cfg T h fs (Br c l a r) \<Longrightarrow> focus h fs (Br c l a r)"
  by (simp add: focus_def cfg_def)

lemma focus_moved:
  assumes "focus h fs t" and c: "cfg T' h' fs' t" and "h' 0 = h 0" and "zpar fs' = zpar fs"
  shows "focus h' fs' t"
proof (cases t)
  case Lf
  with assms show ?thesis by (simp add: focus_def)
next
  case (Br d l a r)
  with c show ?thesis using focus_node by blast
qed

definition rb_done0 ::
  "'p::zero rb_tree \<Rightarrow> ('p, 'k) rb_heap \<Rightarrow> 'p ctree \<Rightarrow> 'p rb_tree \<Rightarrow> ('p, 'k) rb_heap \<Rightarrow> bool" where
  "rb_done0 T h t T' h' \<longleftrightarrow> (\<exists>t'. linked T' h' t' \<and> rbt t' \<and> inord t' = inord t
     \<and> rb_size T' = rb_size T \<and> rb_same (insert 0 (set (inord t))) h h')"

lemma rb_done0_step:
  assumes "rb_done0 T1 h1 t1 T' h'" and "inord t1 = inord t" and "rb_size T1 = rb_size T"
    and "rb_same (set (inord t)) h h1"
  shows "rb_done0 T h t T' h'"
  using assms rb_same_mono [OF assms(4), of "insert 0 (set (inord t))"]
  unfolding rb_done0_def by (metis rb_same_trans subset_insertI)

text \<open>Painting the node black ends the loop.\<close>

lemma fix_delete_finish:
  assumes c: "cfg T h fs t" and "invc (tpaint Black t)" "invh t" "zrb (bh (tpaint Black t)) fs"
  shows "rb_done0 T h (plug fs t) T (set_color h (root_ptr t) RB_BLACK)"
proof -
  have "cfg T (set_color h (root_ptr t) RB_BLACK) fs (tpaint Black t)"
  proof (cases t)
    case Lf
    then show ?thesis using c cfg_nonzero [OF c] by (simp add: cfg_def)
  next
    case (Br d l a r)
    then show ?thesis using recolor_root(2) [OF c] by simp
  qed
  moreover have "rbt (plug fs (tpaint Black t))"
    using assms by (cases t) (auto simp: rbt_plug)
  moreover have "inord (plug fs (tpaint Black t)) = inord (plug fs t)"
    by (rule inord_plug_eq) simp
  moreover have "root_ptr t \<in> insert 0 (set (inord (plug fs t)))"
    by (cases t) (auto simp: set_inord_plug)
  ultimately show ?thesis
    unfolding rb_done0_def by (subst (asm) cfg_plug) (auto intro: exI)
qed

lemma fix_delete_stop:
  assumes c: "cfg T h fs t" and f: "focus h fs t" and "fs = [] \<or> tcol t = Red" and "0 < fuel"
    and inv: "invc (tpaint Black t)" "invh t" "zrb (Suc (bh t)) fs"
  shows "\<exists>T' h'. rbtree_fix_delete fuel T h (root_ptr t) = Inr (T', h')
    \<and> rb_done0 T h (plug fs t) T' h'"
proof -
  obtain k where k: "fuel = Suc k" using assms(4) by (cases fuel) auto
  have "\<not> (rb_p (h (root_ptr t)) \<noteq> 0 \<and> rb_color (h (root_ptr t)) = RB_BLACK)"
    using f assms(3) by (auto simp: focus_def)
  moreover have "zrb (bh (tpaint Black t)) fs"
    using inv assms(3) by (cases t) auto
  ultimately show ?thesis
    using k fix_delete_finish [OF c inv(1,2)] by auto
qed

lemma fix_delete_black_left:
  fixes h :: "('p::zero, 'k) rb_heap"
  assumes c: "cfg T h (FL c p W # gs) t" and f: "focus h (FL c p W # gs) t"
    and t: "invc t" "invh t" "tcol t = Black"
    and z: "zrb (Suc (bh t)) (FL c p W # gs)" and W: "tcol W = Black"
    and fuel: "0 < fuel"
    and IH: "\<And>T (h :: ('p, 'k) rb_heap) l w r. c = Black \<Longrightarrow> cfg T h gs (Br c l w r)
      \<Longrightarrow> invc (tpaint Black (Br c l w r))
      \<Longrightarrow> invh (Br c l w r) \<Longrightarrow> zrb (Suc (bh (Br c l w r))) gs
      \<Longrightarrow> \<exists>T' h'. rbtree_fix_delete fuel T h w = Inr (T', h')
        \<and> rb_done0 T h (plug gs (Br c l w r)) T' h'"
  shows "\<exists>T1 h1 next T' h'. fix_delete_left_black T h p (root_ptr W) = Inr (T1, h1, next)
    \<and> (case next of Some n \<Rightarrow> rbtree_fix_delete fuel T1 h1 n
                  | None \<Rightarrow> Inr (T1, set_color h1 (root_ptr t) RB_BLACK)) = Inr (T', h')
    \<and> rb_done0 T h (plug (FL c p W # gs) t) T' h'"
proof -
  have inv: "invc W" "invh W" "bh W = Suc (bh t)" "c = Red \<Longrightarrow> zcol gs = Black"
    "zrb (Suc (bh t) + (if c = Black then 1 else 0)) gs"
    using z by auto
  then obtain X w Y where Wd: "W = Br Black X w Y" using W by (cases W) auto
  have sub: "invc X" "invh X" "bh X = bh t" "invc Y" "invh Y" "bh Y = bh t"
    using inv Wd by auto
  have paint: "tpaint Black t = t" using t(3) by (cases t) auto
  consider (up) "tcol X = Black" "tcol Y = Black" | (far) "tcol Y = Red"
    | (near) "tcol X = Red" "tcol Y = Black" by (cases "tcol X"; cases "tcol Y") auto
  then show ?thesis
  proof cases
    case up
    note it = fix_delete_left_up [OF c [unfolded Wd] up]
    let ?h1 = "set_color h w RB_RED"
    let ?t = "Br c t p (Br Red X w Y)"
    have i: "invc (tpaint Black ?t)" "invh ?t" "zrb (Suc (bh ?t)) gs"
      using t sub up inv by auto
    have "\<exists>T' h'. rbtree_fix_delete fuel T ?h1 p = Inr (T', h') \<and> rb_done0 T ?h1 (plug gs ?t) T' h'"
    proof (cases c)
      case Red
      then show ?thesis
        using fix_delete_stop [OF it(2) focus_node [OF it(2)] _ fuel i] by simp
    next
      case Black
      then show ?thesis using IH [OF Black it(2) i] by simp
    qed
    then obtain T' h' where r: "rbtree_fix_delete fuel T ?h1 p = Inr (T', h')"
      "rb_done0 T ?h1 (plug gs ?t) T' h'" by blast
    have "rb_done0 T h (plug (FL c p W # gs) t) T' h'"
      by (rule rb_done0_step [OF r(2)])
         (simp_all add: Wd set_inord_plug inord_plug_eq [where t = ?t and t' = "Br c t p W"])
    with it(1) r(1) show ?thesis unfolding Wd by auto
  next
    case far
    then obtain l y r where Y: "Y = Br Red l y r" by (cases Y) auto
    from fix_delete_left_far [OF c [unfolded Wd Y]] obtain T1 h1
      where it: "fix_delete_left_black T h p w = Inr (T1, h1, None)"
        and c1: "cfg T1 h1 (FL Black p X # FL c w (Br Black l y r) # gs) t"
        and sz: "rb_size T1 = rb_size T"
        and same: "rb_same (set (inord (plug (FL c p (Br Black X w (Br Red l y r)) # gs) t))) h h1"
      by blast
    have "rb_done0 T1 h1 (plug (FL Black p X # FL c w (Br Black l y r) # gs) t) T1
        (set_color h1 (root_ptr t) RB_BLACK)"
      by (rule fix_delete_finish [OF c1]) (use paint t sub inv Y in auto)
    moreover have "inord (plug (FL Black p X # FL c w (Br Black l y r) # gs) t)
        = inord (plug (FL c p W # gs) t)"
      unfolding Wd Y by (simp, rule inord_plug_eq) simp
    ultimately have "rb_done0 T h (plug (FL c p W # gs) t) T1 (set_color h1 (root_ptr t) RB_BLACK)"
      using sz same unfolding Wd Y by (rule rb_done0_step)
    with it show ?thesis unfolding Wd by auto
  next
    case near
    then obtain P x Q where X: "X = Br Red P x Q" by (cases X) auto
    from fix_delete_left_near [OF c [unfolded Wd X] near(2)] obtain T1 h1
      where it: "fix_delete_left_black T h p w = Inr (T1, h1, None)"
        and c1: "cfg T1 h1 (FL Black p P # FL c x (Br Black Q w Y) # gs) t"
        and sz: "rb_size T1 = rb_size T"
        and same: "rb_same (set (inord (plug (FL c p (Br Black (Br Red P x Q) w Y) # gs) t))) h h1"
      by blast
    have "rb_done0 T1 h1 (plug (FL Black p P # FL c x (Br Black Q w Y) # gs) t) T1
        (set_color h1 (root_ptr t) RB_BLACK)"
      by (rule fix_delete_finish [OF c1]) (use paint t sub inv X in auto)
    moreover have "inord (plug (FL Black p P # FL c x (Br Black Q w Y) # gs) t)
        = inord (plug (FL c p W # gs) t)"
      unfolding Wd X by (simp, rule inord_plug_eq) simp
    ultimately have "rb_done0 T h (plug (FL c p W # gs) t) T1 (set_color h1 (root_ptr t) RB_BLACK)"
      using sz same unfolding Wd X by (rule rb_done0_step)
    with it show ?thesis unfolding Wd by auto
  qed
qed

lemma fix_delete_black_right:
  fixes h :: "('p::zero, 'k) rb_heap"
  assumes c: "cfg T h (FR c W p # gs) t" and f: "focus h (FR c W p # gs) t"
    and t: "invc t" "invh t" "tcol t = Black"
    and z: "zrb (Suc (bh t)) (FR c W p # gs)" and W: "tcol W = Black"
    and fuel: "0 < fuel"
    and IH: "\<And>T (h :: ('p, 'k) rb_heap) l w r. c = Black \<Longrightarrow> cfg T h gs (Br c r w l)
      \<Longrightarrow> invc (tpaint Black (Br c r w l))
      \<Longrightarrow> invh (Br c r w l) \<Longrightarrow> zrb (Suc (bh (Br c r w l))) gs
      \<Longrightarrow> \<exists>T' h'. rbtree_fix_delete fuel T h w = Inr (T', h')
        \<and> rb_done0 T h (plug gs (Br c r w l)) T' h'"
  shows "\<exists>T1 h1 next T' h'. fix_delete_right_black T h p (root_ptr W) = Inr (T1, h1, next)
    \<and> (case next of Some n \<Rightarrow> rbtree_fix_delete fuel T1 h1 n
                  | None \<Rightarrow> Inr (T1, set_color h1 (root_ptr t) RB_BLACK)) = Inr (T', h')
    \<and> rb_done0 T h (plug (FR c W p # gs) t) T' h'"
proof -
  have inv: "invc W" "invh W" "bh W = Suc (bh t)" "c = Red \<Longrightarrow> zcol gs = Black"
    "zrb (Suc (bh t) + (if c = Black then 1 else 0)) gs"
    using z by auto
  then obtain X w Y where Wd: "W = Br Black Y w X" using W by (cases W) auto
  have sub: "invc X" "invh X" "bh X = bh t" "invc Y" "invh Y" "bh Y = bh t"
    using inv Wd by auto
  have paint: "tpaint Black t = t" using t(3) by (cases t) auto
  consider (up) "tcol X = Black" "tcol Y = Black" | (far) "tcol Y = Red"
    | (near) "tcol X = Red" "tcol Y = Black" by (cases "tcol X"; cases "tcol Y") auto
  then show ?thesis
  proof cases
    case up
    note it = fix_delete_right_up [OF c [unfolded Wd] up]
    let ?h1 = "set_color h w RB_RED"
    let ?t = "Br c (Br Red Y w X) p t"
    have i: "invc (tpaint Black ?t)" "invh ?t" "zrb (Suc (bh ?t)) gs"
      using t sub up inv by auto
    have "\<exists>T' h'. rbtree_fix_delete fuel T ?h1 p = Inr (T', h') \<and> rb_done0 T ?h1 (plug gs ?t) T' h'"
    proof (cases c)
      case Red
      then show ?thesis
        using fix_delete_stop [OF it(2) focus_node [OF it(2)] _ fuel i] by simp
    next
      case Black
      then show ?thesis using IH [OF Black it(2) i] by simp
    qed
    then obtain T' h' where r: "rbtree_fix_delete fuel T ?h1 p = Inr (T', h')"
      "rb_done0 T ?h1 (plug gs ?t) T' h'" by blast
    have "rb_done0 T h (plug (FR c W p # gs) t) T' h'"
      by (rule rb_done0_step [OF r(2)])
         (simp_all add: Wd set_inord_plug inord_plug_eq [where t = ?t and t' = "Br c W p t"])
    with it(1) r(1) show ?thesis unfolding Wd by auto
  next
    case far
    then obtain l y r where Y: "Y = Br Red r y l" by (cases Y) auto
    from fix_delete_right_far [OF c [unfolded Wd Y]] obtain T1 h1
      where it: "fix_delete_right_black T h p w = Inr (T1, h1, None)"
        and c1: "cfg T1 h1 (FR Black X p # FR c (Br Black r y l) w # gs) t"
        and sz: "rb_size T1 = rb_size T"
        and same: "rb_same (set (inord (plug (FR c (Br Black (Br Red r y l) w X) p # gs) t))) h h1"
      by blast
    have "rb_done0 T1 h1 (plug (FR Black X p # FR c (Br Black r y l) w # gs) t) T1
        (set_color h1 (root_ptr t) RB_BLACK)"
      by (rule fix_delete_finish [OF c1]) (use paint t sub inv Y in auto)
    moreover have "inord (plug (FR Black X p # FR c (Br Black r y l) w # gs) t)
        = inord (plug (FR c W p # gs) t)"
      unfolding Wd Y by (simp, rule inord_plug_eq) simp
    ultimately have "rb_done0 T h (plug (FR c W p # gs) t) T1 (set_color h1 (root_ptr t) RB_BLACK)"
      using sz same unfolding Wd Y by (rule rb_done0_step)
    with it show ?thesis unfolding Wd by auto
  next
    case near
    then obtain P x Q where X: "X = Br Red Q x P" by (cases X) auto
    from fix_delete_right_near [OF c [unfolded Wd X] near(2)] obtain T1 h1
      where it: "fix_delete_right_black T h p w = Inr (T1, h1, None)"
        and c1: "cfg T1 h1 (FR Black P p # FR c (Br Black Y w Q) x # gs) t"
        and sz: "rb_size T1 = rb_size T"
        and same: "rb_same (set (inord (plug (FR c (Br Black Y w (Br Red Q x P)) p # gs) t))) h h1"
      by blast
    have "rb_done0 T1 h1 (plug (FR Black P p # FR c (Br Black Y w Q) x # gs) t) T1
        (set_color h1 (root_ptr t) RB_BLACK)"
      by (rule fix_delete_finish [OF c1]) (use paint t sub inv X in auto)
    moreover have "inord (plug (FR Black P p # FR c (Br Black Y w Q) x # gs) t)
        = inord (plug (FR c W p # gs) t)"
      unfolding Wd X by (simp, rule inord_plug_eq) simp
    ultimately have "rb_done0 T h (plug (FR c W p # gs) t) T1 (set_color h1 (root_ptr t) RB_BLACK)"
      using sz same unfolding Wd X by (rule rb_done0_step)
    with it show ?thesis unfolding Wd by auto
  qed
qed

lemma fix_delete_iter_left:
  fixes h :: "('p::zero, 'k) rb_heap"
  assumes c: "cfg T h (FL c p W # gs) t" and f: "focus h (FL c p W # gs) t"
    and t: "invc t" "invh t" "tcol t = Black"
    and z: "zrb (Suc (bh t)) (FL c p W # gs)" and fuel: "0 < fuel"
    and IH: "\<And>T (h :: ('p, 'k) rb_heap) l w r. c = Black \<Longrightarrow> cfg T h gs (Br c l w r)
      \<Longrightarrow> invc (tpaint Black (Br c l w r))
      \<Longrightarrow> invh (Br c l w r) \<Longrightarrow> zrb (Suc (bh (Br c l w r))) gs
      \<Longrightarrow> \<exists>T' h'. rbtree_fix_delete fuel T h w = Inr (T', h')
        \<and> rb_done0 T h (plug gs (Br c l w r)) T' h'"
  shows "\<exists>T' h'. bind_r (bind_r (fix_delete_left_red T h p)
      (\<lambda>(T, h, w). fix_delete_left_black T h p w)) (\<lambda>(T1, h1, next).
        case next of Some n \<Rightarrow> rbtree_fix_delete fuel T1 h1 n
                  | None \<Rightarrow> Inr (T1, set_color h1 (root_ptr t) RB_BLACK)) = Inr (T', h')
    \<and> rb_done0 T h (plug (FL c p W # gs) t) T' h'"
proof (cases "tcol W")
  case Black
  have "W \<noteq> Lf" using z by auto
  note skip = fix_delete_left_red_skip [OF c this Black]
  from fix_delete_black_left [OF c f t z Black fuel IH]
  obtain T1 h1 nx T' h' where "fix_delete_left_black T h p (root_ptr W) = Inr (T1, h1, nx)"
    and r: "(case nx of Some n \<Rightarrow> rbtree_fix_delete fuel T1 h1 n
        | None \<Rightarrow> Inr (T1, set_color h1 (root_ptr t) RB_BLACK)) = Inr (T', h')"
      "rb_done0 T h (plug (FL c p W # gs) t) T' h'" by blast
  then show ?thesis using skip by simp
next
  case Red
  then obtain X w Y where W: "W = Br Red X w Y" by (cases W) auto
  have X: "X \<noteq> Lf" "tcol X = Black" using z W by auto
  have z1: "zrb (Suc (bh t)) (FL Red p X # FL Black w Y # gs)" using z W by auto
  let ?gs = "FL Black w Y # gs"
  from fix_delete_left_red_cfg [OF c [unfolded W] X(1)] obtain T1 h1
    where red: "fix_delete_left_red T h p = Inr (T1, h1, root_ptr X)"
      and c1: "cfg T1 h1 (FL Red p X # ?gs) t" and sz: "rb_size T1 = rb_size T"
      and same: "rb_same (set (inord (plug (FL c p (Br Red X w Y) # gs) t))) h h1" by blast
  have "0 \<notin> set (inord (plug (FL c p (Br Red X w Y) # gs) t))"
    using cfg_nonzero [OF c] unfolding set_inord_plug W by simp
  then have "h1 0 = h 0" using same by (simp add: rb_same_def)
  then have f1: "focus h1 (FL Red p X # ?gs) t"
    by (rule focus_moved [OF f c1]) simp
  obtain T2 h2 nx T' h' where b: "fix_delete_left_black T1 h1 p (root_ptr X) = Inr (T2, h2, nx)"
    and r: "(case nx of Some n \<Rightarrow> rbtree_fix_delete fuel T2 h2 n
        | None \<Rightarrow> Inr (T2, set_color h2 (root_ptr t) RB_BLACK)) = Inr (T', h')"
    and d: "rb_done0 T1 h1 (plug (FL Red p X # ?gs) t) T' h'"
    using fix_delete_black_left [OF c1 f1 t z1 X(2) fuel] rbc.distinct(1) by blast
  have "inord (plug (FL Red p X # ?gs) t) = inord (plug (FL c p W # gs) t)"
    unfolding W by (simp, rule inord_plug_eq) simp
  with d have "rb_done0 T h (plug (FL c p W # gs) t) T' h'"
    using sz same unfolding W by (rule rb_done0_step)
  with red b r show ?thesis by simp
qed

lemma fix_delete_iter_right:
  fixes h :: "('p::zero, 'k) rb_heap"
  assumes c: "cfg T h (FR c W p # gs) t" and f: "focus h (FR c W p # gs) t"
    and t: "invc t" "invh t" "tcol t = Black"
    and z: "zrb (Suc (bh t)) (FR c W p # gs)" and fuel: "0 < fuel"
    and IH: "\<And>T (h :: ('p, 'k) rb_heap) l w r. c = Black \<Longrightarrow> cfg T h gs (Br c r w l)
      \<Longrightarrow> invc (tpaint Black (Br c r w l))
      \<Longrightarrow> invh (Br c r w l) \<Longrightarrow> zrb (Suc (bh (Br c r w l))) gs
      \<Longrightarrow> \<exists>T' h'. rbtree_fix_delete fuel T h w = Inr (T', h')
        \<and> rb_done0 T h (plug gs (Br c r w l)) T' h'"
  shows "\<exists>T' h'. bind_r (bind_r (fix_delete_right_red T h p)
      (\<lambda>(T, h, w). fix_delete_right_black T h p w)) (\<lambda>(T1, h1, next).
        case next of Some n \<Rightarrow> rbtree_fix_delete fuel T1 h1 n
                  | None \<Rightarrow> Inr (T1, set_color h1 (root_ptr t) RB_BLACK)) = Inr (T', h')
    \<and> rb_done0 T h (plug (FR c W p # gs) t) T' h'"
proof (cases "tcol W")
  case Black
  have "W \<noteq> Lf" using z by auto
  note skip = fix_delete_right_red_skip [OF c this Black]
  from fix_delete_black_right [OF c f t z Black fuel IH]
  obtain T1 h1 nx T' h' where "fix_delete_right_black T h p (root_ptr W) = Inr (T1, h1, nx)"
    and r: "(case nx of Some n \<Rightarrow> rbtree_fix_delete fuel T1 h1 n
        | None \<Rightarrow> Inr (T1, set_color h1 (root_ptr t) RB_BLACK)) = Inr (T', h')"
      "rb_done0 T h (plug (FR c W p # gs) t) T' h'" by blast
  then show ?thesis using skip by simp
next
  case Red
  then obtain X w Y where W: "W = Br Red Y w X" by (cases W) auto
  have X: "X \<noteq> Lf" "tcol X = Black" using z W by auto
  have z1: "zrb (Suc (bh t)) (FR Red X p # FR Black Y w # gs)" using z W by auto
  let ?gs = "FR Black Y w # gs"
  from fix_delete_right_red_cfg [OF c [unfolded W] X(1)] obtain T1 h1
    where red: "fix_delete_right_red T h p = Inr (T1, h1, root_ptr X)"
      and c1: "cfg T1 h1 (FR Red X p # ?gs) t" and sz: "rb_size T1 = rb_size T"
      and same: "rb_same (set (inord (plug (FR c (Br Red Y w X) p # gs) t))) h h1" by blast
  have "0 \<notin> set (inord (plug (FR c (Br Red Y w X) p # gs) t))"
    using cfg_nonzero [OF c] unfolding set_inord_plug W by simp
  then have "h1 0 = h 0" using same by (simp add: rb_same_def)
  then have f1: "focus h1 (FR Red X p # ?gs) t"
    by (rule focus_moved [OF f c1]) simp
  obtain T2 h2 nx T' h' where b: "fix_delete_right_black T1 h1 p (root_ptr X) = Inr (T2, h2, nx)"
    and r: "(case nx of Some n \<Rightarrow> rbtree_fix_delete fuel T2 h2 n
        | None \<Rightarrow> Inr (T2, set_color h2 (root_ptr t) RB_BLACK)) = Inr (T', h')"
    and d: "rb_done0 T1 h1 (plug (FR Red X p # ?gs) t) T' h'"
    using fix_delete_black_right [OF c1 f1 t z1 X(2) fuel] rbc.distinct(1) by blast
  have "inord (plug (FR Red X p # ?gs) t) = inord (plug (FR c W p # gs) t)"
    unfolding W by (simp, rule inord_plug_eq) simp
  with d have "rb_done0 T h (plug (FR c W p # gs) t) T' h'"
    using sz same unfolding W by (rule rb_done0_step)
  with red b r show ?thesis by simp
qed

lemma fix_delete_ok:
  fixes h :: "('p::zero, 'k) rb_heap"
  assumes "cfg T h fs t" and "focus h fs t" and "invc (tpaint Black t)" "invh t"
    and "zrb (Suc (bh t)) fs" and "length fs + 2 \<le> fuel"
  shows "\<exists>T' h'. rbtree_fix_delete fuel T h (root_ptr t) = Inr (T', h')
    \<and> rb_done0 T h (plug fs t) T' h'"
  using assms
proof (induction fuel arbitrary: T h fs t)
  case 0
  then show ?case by simp
next
  case (Suc fuel)
  note c = Suc.prems(1) and f = Suc.prems(2)
  show ?case
  proof (cases "fs = [] \<or> tcol t = Red")
    case True
    then show ?thesis by (rule fix_delete_stop [OF c f]) (use Suc.prems in simp_all)
  next
    case False
    then obtain g gs where fs: "fs = g # gs" and tb: "tcol t = Black" by (cases fs) auto
    have t: "invc t" using Suc.prems(3) tb by (cases t) auto
    have fuel: "0 < fuel" using Suc.prems(6) fs by simp
    have n: "rb_p (h (root_ptr t)) = faddr g" "rb_color (h (root_ptr t)) = RB_BLACK"
      "rb_s (h (root_ptr t)) = root_ptr t" "faddr g \<noteq> 0"
      using f tb fs cfg_parent(1) [of T h g gs t] c by (simp_all add: focus_def)
    have IH: "\<exists>T' h'. rbtree_fix_delete fuel T h w = Inr (T', h')
        \<and> rb_done0 T h (plug gs (Br d l w r)) T' h'"
      if "cfg T h gs (Br d l w r)" "invc (tpaint Black (Br d l w r))" "invh (Br d l w r)"
        "zrb (Suc (bh (Br d l w r))) gs" for T and h :: "('p, 'k) rb_heap" and d l w r
      using Suc.IH [OF that(1) focus_node [OF that(1)] that(2-4)] Suc.prems(6) fs by simp
    show ?thesis
    proof (cases g)
      case (FL d p W)
      have "rb_left (h p) = root_ptr t" using c fs FL by (simp add: cfg_def)
      with n FL fix_delete_iter_left [OF c [unfolded fs FL] f [unfolded fs FL] t Suc.prems(4) tb
          Suc.prems(5) [unfolded fs FL] fuel IH]
      show ?thesis unfolding fs by simp
    next
      case (FR d W p)
      have W: "W \<noteq> Lf" using Suc.prems(5) fs FR by auto
      have cW: "cfg T h gs (Br d W p t)" using c fs FR by (simp add: cfg_up)
      have "root_ptr W \<noteq> 0" using root_ptr_zero [OF cfg_children(1) [OF cW]] W by simp
      moreover have "set (inord W) \<inter> set (inord t) = {}" using cW by (auto simp: cfg_def)
      ultimately have "root_ptr W \<noteq> root_ptr t"
        using root_ptr_in [OF W] by (cases t) auto
      then have "rb_left (h p) \<noteq> root_ptr t" using cfg_node(4) [OF cW] by simp
      with n FR fix_delete_iter_right [OF c [unfolded fs FR] f [unfolded fs FR] t Suc.prems(4) tb
          Suc.prems(5) [unfolded fs FR] fuel IH]
      show ?thesis unfolding fs by simp
    qed
  qed
qed


end
