(* ===== verification/RBTree_Delete.thy ===== *)
theory RBTree_Delete
  imports RBTree_Fix_Delete
begin

text \<open>
  The unlinking of a node, its replacement by its successor, and the whole of
  \<open>rbtree_delete\<close>.
\<close>

section \<open>The leftmost node\<close>

lemma min_node_ok:
  assumes "tlinked h par t" and "t \<noteq> Lf" and "theight t \<le> fuel"
  shows "rbtree_min_node fuel h (root_ptr t) = Inr (hd (inord t))"
  using assms
proof (induction t arbitrary: par fuel)
  case (Br c l a r)
  then obtain k where k: "fuel = Suc k" "theight l \<le> k" by (cases fuel) auto
  show ?case
  proof (cases "l = Lf")
    case True
    with Br.prems k show ?thesis by simp
  next
    case False
    have "rbtree_min_node k h (root_ptr l) = Inr (hd (inord l))"
      by (rule Br.IH(1)) (use Br.prems False k in auto)
    moreover have "root_ptr l \<noteq> 0" using Br.prems(1) False root_ptr_zero [of h a l] by simp
    moreover have "inord l \<noteq> []" using False by (cases l) auto
    ultimately show ?thesis using Br.prems k by (simp add: rb_get_def)
  qed
qed simp

lemma max_node_ok:
  assumes "tlinked h par t" and "t \<noteq> Lf" and "theight t \<le> fuel"
  shows "rbtree_max_node fuel h (root_ptr t) = Inr (last (inord t))"
  using assms
proof (induction t arbitrary: par fuel)
  case (Br c l a r)
  then obtain k where k: "fuel = Suc k" "theight r \<le> k" by (cases fuel) auto
  show ?case
  proof (cases "r = Lf")
    case True
    with Br.prems k show ?thesis by simp
  next
    case False
    have "rbtree_max_node k h (root_ptr r) = Inr (last (inord r))"
      by (rule Br.IH(2)) (use Br.prems False k in auto)
    moreover have "root_ptr r \<noteq> 0" using Br.prems(1) False root_ptr_zero [of h a r] by simp
    moreover have "inord r \<noteq> []" using False by (cases r) auto
    ultimately show ?thesis using Br.prems k by (simp add: rb_get_def)
  qed
qed simp

lemma plug_append: "plug (gs @ fs) t = plug fs (plug gs t)"
  by (induction gs arbitrary: t) auto

lemma leftmost:
  assumes "t \<noteq> Lf"
  obtains gs d s ws where "t = plug gs (Br d Lf (hd (inord t)) s)"
    and "\<And>u. inord (plug gs u) = inord u @ ws"
  using assms
proof (induction t arbitrary: thesis)
  case (Br c l a r)
  show ?case
  proof (cases "l = Lf")
    case True
    show ?thesis by (rule Br.prems(1) [of "[]" c r "[]"]) (use True in auto)
  next
    case False
    then obtain gs d s ws where l: "l = plug gs (Br d Lf (hd (inord l)) s)"
      and ws: "\<And>u. inord (plug gs u) = inord u @ ws" using Br.IH(1) by blast
    have ne: "inord l \<noteq> []" using False by (cases l) auto
    show ?thesis
    proof (rule Br.prems(1))
      show "Br c l a r = plug (gs @ [FL c a r]) (Br d Lf (hd (inord (Br c l a r))) s)"
        using l ne by (simp add: plug_append)
      show "inord (plug (gs @ [FL c a r]) u) = inord u @ ws @ a # inord r" for u
        by (simp add: plug_append ws)
    qed
  qed
qed simp

lemma around_split: "\<exists>pre post. \<forall>xs. around fs xs = pre @ xs @ post"
proof (induction fs)
  case (Cons f fs)
  then obtain pre post where "\<forall>xs. around fs xs = pre @ xs @ post" by blast
  then show ?case
  proof (cases f)
    case (FL c a r)
    with \<open>\<forall>xs. around fs xs = pre @ xs @ post\<close> show ?thesis
      by (intro exI [of _ pre] exI [of _ "a # inord r @ post"]) simp
  next
    case (FR c l a)
    with \<open>\<forall>xs. around fs xs = pre @ xs @ post\<close> show ?thesis
      by (intro exI [of _ "pre @ inord l @ [a]"] exI [of _ post]) simp
  qed
next
  case Nil
  show ?case by (intro exI [of _ "[]"]) simp
qed

section \<open>Unlinking a node with at most one child\<close>

lemma tlinked_set_p_any:
  "tlinked h par s \<Longrightarrow> distinct (inord s) \<Longrightarrow> tlinked (set_p h (root_ptr s) q) q s"
  by (cases s) auto

lemma delete_unlink_ok:
  assumes c: "cfg T h fs (Br d l y r)" and s: "l = Lf \<and> s = r \<or> r = Lf \<and> s = l"
    and e: "rb_s (h 0) = 0" "rb_color (h 0) = RB_BLACK"
  shows "\<exists>T' h'. delete_unlink T h (root_ptr s) y = Inr (T', h') \<and> cfg T' h' fs s
    \<and> focus h' fs s \<and> rb_size T' = rb_size T \<and> h' y = h y
    \<and> rb_same (insert 0 (set (inord (plug fs (Br d l y r))))) h h'"
proof -
  let ?A = "insert 0 (set (inord (plug fs (Br d l y r))))"
  have y: "y \<noteq> 0" "rb_s (h y) = y" "rb_p (h y) = zpar fs" using cfg_node [OF c] by simp_all
  have ts: "tlinked h y s" using cfg_children(1,2) [OF c] s by auto
  have ds: "distinct (inord s)" "y \<notin> set (inord s)" using c s by (auto simp: cfg_def)
  have inA: "root_ptr s \<in> ?A" using s by (cases s) (auto simp: set_inord_plug)
  have z: "zlinked h (rb_root T) y fs" and dz: "distinct (zaddrs fs)" and yz: "y \<notin> set (zaddrs fs)"
    and sz: "set (inord s) \<inter> set (zaddrs fs) = {}" and z0: "0 \<notin> set (zaddrs fs)"
    and nz: "0 \<notin> set (inord s)"
    using c s cfg_nonzero [OF c] by (auto simp: cfg_def)
  define h1 where "h1 = set_p h (root_ptr s) (zpar fs)"
  have xs: "rb_s (h1 (root_ptr s)) = root_ptr s" "rb_color (h1 (root_ptr s)) = rbcode (tcol s)"
    "rb_p (h1 (root_ptr s)) = zpar fs"
    using ts e by (cases s; simp add: h1_def)+
  have xz: "root_ptr s \<notin> set (zaddrs fs)" using sz z0 by (cases s) auto
  have xy: "y \<noteq> root_ptr s" using ds y by (cases s) auto
  have t1: "tlinked h1 (zpar fs) s" unfolding h1_def using ts ds by (intro tlinked_set_p_any)
  have z1: "zlinked h1 (rb_root T) y fs" using z xz by (simp add: h1_def)
  have same1: "rb_same ?A h h1" using inA by (simp add: h1_def)
  show ?thesis
  proof (cases fs)
    case Nil
    then have "delete_unlink T h (root_ptr s) y = Inr (T\<lparr>rb_root := root_ptr s\<rparr>, h1)"
      using y xs(1) xy by (simp add: delete_unlink_def h1_def Let_def)
    moreover have "cfg (T\<lparr>rb_root := root_ptr s\<rparr>) h1 fs s"
      using t1 ds Nil by (simp add: cfg_def)
    ultimately show ?thesis
      using xs same1 xy Nil by (auto simp: focus_def h1_def)
  next
    case (Cons f gs)
    let ?h2 = "link_child h1 (faddr f) y (root_ptr s)"
    have f0: "faddr f \<noteq> 0" using z0 Cons by auto
    have eq: "delete_unlink T h (root_ptr s) y = Inr (T, ?h2)"
      using y xs(1) xy f0 Cons
      by (auto simp: delete_unlink_def h1_def Let_def rb_get_def link_child_def)
    have zl: "zlinked ?h2 (rb_root T) (root_ptr s) fs"
      using zlinked_link_child [of h1 "rb_root T" y f gs] z1 y(1) yz dz unfolding Cons by blast
    have "faddr f \<notin> set (inord s)" using sz Cons by auto
    then have "tlinked ?h2 (zpar fs) s" using t1 by (simp add: tlinked_link_child)
    then have "cfg T ?h2 fs s" using zl ds dz sz by (simp add: cfg_def)
    moreover have "focus ?h2 fs s" using xs by (simp add: focus_def)
    moreover have "?h2 y = h y"
    proof -
      have "y \<noteq> faddr f" using yz Cons by auto
      then show ?thesis using xy by (simp add: link_child_apply h1_def)
    qed
    moreover have "faddr f \<in> ?A" using Cons by (simp add: set_inord_plug inord_plug1)
    then have "rb_same ?A h ?h2" using same1 by simp
    ultimately show ?thesis using eq by blast
  qed
qed

section \<open>Putting the successor in the place of the node\<close>

text \<open>The assignments of \<open>delete_replace\<close> to the two nodes and to the children.\<close>

lemma replace_local:
  fixes h :: "('p::zero, 'k) rb_heap" and par y :: 'p
  assumes tl: "tlinked h q1 l" and tr: "tlinked h q2 r" and d: "distinct (inord (Br c l a r))"
    and y: "y \<noteq> 0" "y \<notin> set (inord (Br c l a r))" "rb_s (h y) = y" "rb_color (h y) = rbcode c"
  defines "h1 \<equiv> set_p (set_p h y par) a 0"
  defines "h2 \<equiv> (if root_ptr l \<noteq> 0 then set_p h1 (root_ptr l) y else h1)"
  defines "h3 \<equiv> set_left (set_left h2 y (root_ptr l)) a 0"
  defines "h4 \<equiv> (if root_ptr r \<noteq> 0 then set_p h3 (root_ptr r) y else h3)"
  defines "h5 \<equiv> set_right (set_right h4 y (root_ptr r)) a 0"
  shows "tlinked h5 par (Br c l y r)"
proof -
  have ay: "a \<noteq> y" "y \<noteq> a" using y by auto
  have lr: "y \<notin> set (inord l)" "a \<notin> set (inord l)" "y \<notin> set (inord r)" "a \<notin> set (inord r)"
    "set (inord l) \<inter> set (inord r) = {}" "distinct (inord l)" "distinct (inord r)"
    using y d by auto
  have rl: "root_ptr l \<noteq> 0 \<Longrightarrow> root_ptr l \<in> set (inord l)" by (cases l) auto
  have rr: "root_ptr r \<noteq> 0 \<Longrightarrow> root_ptr r \<in> set (inord r)" by (cases r) auto
  have ql: "h5 q = set_p h (root_ptr l) y q" if "q \<in> set (inord l)" for q
  proof -
    have "q \<noteq> y" "q \<noteq> a" using that lr by auto
    moreover have "root_ptr r \<noteq> 0 \<Longrightarrow> q \<noteq> root_ptr r" using that rr lr by auto
    moreover have "root_ptr l \<noteq> 0" using that root_ptr_zero [OF tl] by auto
    ultimately show ?thesis
      by (cases "q = root_ptr l") (simp_all add: h5_def h4_def h3_def h2_def h1_def set_p_def)
  qed
  have qr: "h5 q = set_p h (root_ptr r) y q" if "q \<in> set (inord r)" for q
  proof -
    have "q \<noteq> y" "q \<noteq> a" using that lr by auto
    moreover have "root_ptr l \<noteq> 0 \<Longrightarrow> q \<noteq> root_ptr l" using that rl lr by auto
    moreover have "root_ptr r \<noteq> 0" using that root_ptr_zero [OF tr] by auto
    ultimately show ?thesis
      by (cases "q = root_ptr r")
         (simp_all add: h5_def h4_def h3_def h2_def h1_def set_p_def set_left_def)
  qed
  have "tlinked h5 y l"
    using tlinked_cong [OF ql] tlinked_set_p_any [OF tl lr(6), of y] by simp
  moreover have "tlinked h5 y r"
    using tlinked_cong [OF qr] tlinked_set_p_any [OF tr lr(7), of y] by simp
  moreover have "root_ptr l \<noteq> y \<or> root_ptr l = 0" "root_ptr r \<noteq> y \<or> root_ptr r = 0"
    using rl rr lr by auto
  ultimately show ?thesis
    using y ay by (auto simp: h5_def h4_def h3_def h2_def h1_def)
qed

lemma replace_children_eq:
  assumes "rb_p (h a) = par" "rb_left (h a) = lp" "rb_right (h a) = rp" "rb_s (h y) = y" "a \<noteq> y"
  defines "h1 \<equiv> set_p (set_p h y par) a 0"
  defines "h2 \<equiv> (if lp \<noteq> 0 then set_p h1 lp y else h1)"
  defines "h3 \<equiv> set_left (set_left h2 y lp) a 0"
  defines "h4 \<equiv> (if rp \<noteq> 0 then set_p h3 rp y else h3)"
  shows "replace_children h a y = set_right (set_right h4 y rp) a 0"
  using assms(1-5) by (simp add: replace_children_def Let_def h4_def h3_def h2_def h1_def)

lemma replace_children_ok:
  assumes hl: "rb_p (h a) = par" "rb_left (h a) = root_ptr l" "rb_right (h a) = root_ptr r"
    and t: "tlinked h q1 l" "tlinked h q2 r" and d: "distinct (inord (Br c l a r))"
    and y: "y \<noteq> 0" "y \<notin> set (inord (Br c l a r))" "rb_s (h y) = y" "rb_color (h y) = rbcode c"
    and a0: "a \<noteq> 0"
  shows "tlinked (replace_children h a y) par (Br c l y r)" "replace_children h a y 0 = h 0"
    and "\<And>t fs. zlinked h t y fs \<Longrightarrow> {y, a, root_ptr l, root_ptr r} \<inter> set (zaddrs fs) = {} \<Longrightarrow>
      zlinked (replace_children h a y) t y fs"
    and "{y, a, root_ptr l, root_ptr r} \<subseteq> A \<Longrightarrow> rb_same A h (replace_children h a y)"
proof -
  define h1 where "h1 = set_p (set_p h y par) a 0"
  define h2 where "h2 = (if root_ptr l \<noteq> 0 then set_p h1 (root_ptr l) y else h1)"
  define h3 where "h3 = set_left (set_left h2 y (root_ptr l)) a 0"
  define h4 where "h4 = (if root_ptr r \<noteq> 0 then set_p h3 (root_ptr r) y else h3)"
  define h5 where "h5 = set_right (set_right h4 y (root_ptr r)) a 0"
  have ay: "a \<noteq> y" using y(2) by auto
  have eq: "replace_children h a y = h5"
    unfolding h5_def h4_def h3_def h2_def h1_def by (rule replace_children_eq [OF hl y(3) ay])
  show "tlinked (replace_children h a y) par (Br c l y r)"
    unfolding eq h5_def h4_def h3_def h2_def h1_def by (rule replace_local [OF t d y])
  have "0 \<noteq> y" "0 \<noteq> a" using y(1) a0 by auto
  then show "replace_children h a y 0 = h 0" unfolding eq by (simp add: h5_def h4_def h3_def h2_def h1_def)
  show "zlinked (replace_children h a y) t y fs"
    if "zlinked h t y fs" "{y, a, root_ptr l, root_ptr r} \<inter> set (zaddrs fs) = {}" for t fs
    using that unfolding eq by (auto simp: h5_def h4_def h3_def h2_def h1_def)
  show "rb_same A h (replace_children h a y)" if A: "{y, a, root_ptr l, root_ptr r} \<subseteq> A"
  proof -
    have "rb_same A h h2" using A by (simp add: h2_def h1_def)
    then have "rb_same A h h4" using A by (simp add: h4_def h3_def)
    then show ?thesis unfolding eq using A by (simp add: h5_def)
  qed
qed

text \<open>The heap before the children are moved: \<open>y\<close> has the colour of the node and is the child of its
  parent, and \<open>x\<close> points to \<open>y\<close> when \<open>y\<close> was a child of the node.\<close>

lemma delete_replace_eq:
  assumes n: "rb_s (h a) = a" "rb_p (h a) = zpar fs" "rb_color (h a) = rbcode c" and y: "rb_s (h y) = y"
    and x: "rb_p (h y) = a \<Longrightarrow> x \<noteq> a" and p0: "zpar fs = 0 \<longleftrightarrow> fs = []"
  defines "hc \<equiv> set_color (if rb_p (h y) = a then set_p h x y else h) y (rbcode c)"
  shows "delete_replace T h a x y = Inr (if fs = [] then T\<lparr>rb_root := y\<rparr> else T,
    replace_children (if fs = [] then hc else link_child hc (zpar fs) a y) a y)"
proof (cases fs)
  case Nil
  then show ?thesis
    using n y x p0 unfolding delete_replace_def hc_def by (cases "rb_p (h y) = a") (auto simp: Let_def)
next
  case (Cons f gs)
  then have "zpar fs \<noteq> 0" using p0 by simp
  then show ?thesis
    using n y Cons x unfolding delete_replace_def hc_def
    by (cases "rb_p (h y) = a") (auto simp: Let_def rb_get_def link_child_def)
qed

lemma delete_replace_ok:
  assumes c: "cfg T h fs (Br c l a r)"
    and y: "y \<noteq> 0" "y \<notin> set (inord (plug fs (Br c l a r)))" "rb_s (h y) = y"
    and x: "rb_p (h y) = a \<Longrightarrow> x = root_ptr r"
  shows "\<exists>T' h'. delete_replace T h a x y = Inr (T', h') \<and> cfg T' h' fs (Br c l y r)
    \<and> rb_size T' = rb_size T \<and> h' 0 = (if rb_p (h y) = a then set_p h x y 0 else h 0)
    \<and> rb_same (insert 0 (insert y (set (inord (plug fs (Br c l a r)))))) h h'"
proof -
  let ?A = "insert 0 (insert y (set (inord (plug fs (Br c l a r)))))"
  note n = cfg_node [OF c]
  have ys: "y \<noteq> a" "y \<notin> set (inord (Br c l a r))" "y \<notin> set (zaddrs fs)" using y by (auto simp: set_inord_plug)
  have tl: "tlinked h a l" and tr: "tlinked h a r" using cfg_children [OF c] by simp_all
  have d: "distinct (inord (Br c l a r))" and z: "zlinked h (rb_root T) a fs"
    and dz: "distinct (zaddrs fs)" and dj: "set (inord (Br c l a r)) \<inter> set (zaddrs fs) = {}"
    using c by (auto simp: cfg_def)
  have z0: "0 \<notin> set (zaddrs fs)" and n0: "0 \<notin> set (inord (Br c l a r))" using cfg_nonzero [OF c] by auto
  have az: "{y, a, root_ptr l, root_ptr r} \<inter> set (zaddrs fs) = {}" "{y, a, root_ptr l, root_ptr r} \<subseteq> ?A"
    using dj z0 ys by (cases l; cases r; auto simp: set_inord_plug)+
  define h0 where "h0 = (if rb_p (h y) = a then set_p h x y else h)"
  define hc where "hc = set_color h0 y (rbcode c)"
  define hl where "hl = (if fs = [] then hc else link_child hc (zpar fs) a y)"
  define T1 where "T1 = (if fs = [] then T\<lparr>rb_root := y\<rparr> else T)"
  have x': "x \<noteq> a" "x \<notin> set (inord l)" "x \<notin> set (zaddrs fs)" "x \<in> ?A" if "rb_p (h y) = a"
    unfolding x [OF that] using d az n(1) n0 by (cases r; auto)+
  have p0: "zpar fs = 0 \<longleftrightarrow> fs = []" using z0 by (cases fs) auto
  have pn: "zpar fs \<notin> set (inord l)" "zpar fs \<notin> set (inord r)" "zpar fs \<noteq> a" "zpar fs \<noteq> y"
    using dj n0 y(1) ys n(1) by (cases fs; auto)+
  have l0: "tlinked h0 a l" using tl x' by (simp add: h0_def)
  obtain q where "tlinked h0 q r"
  proof (cases "rb_p (h y) = a")
    case True
    have "tlinked (set_p h x y) y r" unfolding x [OF True] using tr d by (intro tlinked_set_p_any) auto
    then show ?thesis using that True by (simp add: h0_def)
  qed (use tr that in \<open>simp add: h0_def\<close>)
  then have rlq: "tlinked hl q r" and ll: "tlinked hl a l"
    using l0 ys pn by (auto simp: hl_def hc_def tlinked_link_child)
  have "zlinked h0 (rb_root T) a fs" using z x' by (simp add: h0_def)
  then have zc: "zlinked hc (rb_root T) a fs" using ys by (simp add: hc_def)
  have zl: "zlinked hl (rb_root T1) y fs"
  proof (cases fs)
    case (Cons f gs)
    have "a \<notin> set (zaddrs fs)" using az by simp
    then have "zlinked (link_child hc (faddr f) a y) (rb_root T) y (f # gs)"
      using zc n(1) dz unfolding Cons by (intro zlinked_link_child)
    then show ?thesis using Cons by (simp add: hl_def T1_def)
  qed (simp add: T1_def)
  have fl: "rb_s (hl y) = y" "rb_color (hl y) = rbcode c" "rb_p (hl a) = zpar fs"
    "rb_left (hl a) = root_ptr l" "rb_right (hl a) = root_ptr r"
    using y(3) ys n pn x' by (auto simp: hl_def hc_def h0_def link_child_apply)
  note R = replace_children_ok [OF fl(3-5) ll rlq d y(1) ys(2) fl(1,2) n(1)]
  have "cfg T1 (replace_children hl a y) fs (Br c l y r)"
    using R(1) R(3) [OF zl az(1)] d ys dz dj by (auto simp: cfg_def)
  moreover have "delete_replace T h a x y = Inr (T1, replace_children hl a y)"
    unfolding T1_def hl_def hc_def h0_def by (rule delete_replace_eq [OF n(2,3,6) y(3) x'(1) p0])
  moreover have "hl 0 = h0 0" using y(1) p0 by (auto simp: hl_def hc_def link_child_apply)
  moreover have "rb_same ?A h (replace_children hl a y)"
  proof -
    have zA: "zpar fs \<in> ?A" by (cases fs) (auto simp: set_inord_plug inord_plug1)
    have step: "rb_same A h hl" if "y \<in> A" "zpar fs \<in> A" "rb_p (h y) = a \<Longrightarrow> x \<in> A" for A
    proof -
      have "rb_same A h h0" using that(3) by (simp add: h0_def)
      then show ?thesis using that(1,2) by (simp add: hl_def hc_def)
    qed
    have "rb_same ?A h hl" by (rule step [OF _ zA x'(4)]) simp
    then show ?thesis using R(4) [OF az(2)] by (rule rb_same_trans)
  qed
  ultimately show ?thesis using R(2) by (auto simp: T1_def h0_def)
qed

section \<open>The whole of \<open>rbtree_delete\<close>\<close>

lemma enode_init_sel:
  "rb_s (enode_init h 0) = 0" "rb_color (enode_init h 0) = RB_BLACK"
  "rb_v (enode_init h q) = rb_v (h q)" "q \<noteq> 0 \<Longrightarrow> enode_init h q = h q"
  by (simp_all add: enode_init_def)

lemma enode_init_cfg: "cfg T h fs t \<Longrightarrow> rb_root T' = rb_root T \<Longrightarrow> cfg T' (enode_init h) fs t"
proof -
  assume c: "cfg T h fs t" and "rb_root T' = rb_root T"
  have 0: "0 \<notin> set (inord t)" "0 \<notin> set (zaddrs fs)" using cfg_nonzero [OF c] by auto
  have "tlinked (enode_init h) p t = tlinked h p t" for p
    by (rule tlinked_cong, rule enode_init_sel(4)) (use 0 in auto)
  moreover have "zlinked (enode_init h) r x fs = zlinked h r x fs" for r x
    by (rule zlinked_cong, rule enode_init_sel(4)) (use 0 in auto)
  ultimately show ?thesis using c \<open>rb_root T' = rb_root T\<close> by (simp add: cfg_def)
qed

lemma unlink_rbt:
  assumes "rbt (plug fs (Br d l y r))" and "l = Lf \<and> s = r \<or> r = Lf \<and> s = l"
  shows "d = Red \<Longrightarrow> rbt (plug fs s)" and "invc s" "invh s" "d = Black \<Longrightarrow> zrb (Suc (bh s)) fs"
proof -
  have a: "invc (Br d l y r)" "invh (Br d l y r)" "zrb (bh (Br d l y r)) fs"
    "d = Red \<longrightarrow> zcol fs = Black" using assms(1) unfolding rbt_plug by (blast, blast, blast, simp)
  have e: "t = Lf" if "bh t = 0" "tcol t = Black" for t :: "'a ctree" using that by (cases t) auto
  show "rbt (plug fs s)" if "d = Red"
  proof -
    have "s = Lf" using a(1,2) that assms(2) e [of l] e [of r] by auto
    then show ?thesis using a that assms(2) by (auto simp: rbt_plug)
  qed
  show "invc s" "invh s" "d = Black \<Longrightarrow> zrb (Suc (bh s)) fs" using a assms(2) by auto
qed

lemma rbt_swap: "rbt (plug (gs @ FR c l a # fs) t) \<longleftrightarrow> rbt (plug (gs @ FR c l b # fs) t)"
  by (simp add: plug_append rbt_plug)

lemma delete_fix_ok:
  assumes c: "cfg T h fs s" and f: "focus h fs s"
    and rb: "rbt (plug fs' (Br d l y r))" and s: "l = Lf \<and> s = r \<or> r = Lf \<and> s = l"
    and swap: "\<And>t. rbt (plug fs' t) = rbt (plug fs t)" and len: "length fs + 2 \<le> rb_fuel"
  shows "\<exists>T' h'. (if rbcode d = RB_BLACK then rbtree_fix_delete rb_fuel T h (root_ptr s) else Inr (T, h))
      = Inr (T', h') \<and> rb_done0 T h (plug fs s) T' h'"
proof -
  have rb': "rbt (plug fs (Br d l y r))" using rb swap by simp
  note u = unlink_rbt [OF rb' s]
  show ?thesis
  proof (cases "d = Black")
    case True
    have "invc (tpaint Black s)" using u(2) by (cases s) auto
    then show ?thesis using fix_delete_ok [OF c f _ u(3) u(4) [OF True] len] True by simp
  next
    case False
    then have "rbt (plug fs s)" using u(1) by simp
    moreover have "linked T h (plug fs s)" using c by (simp add: cfg_plug [of _ _ fs])
    ultimately have "rb_done0 T h (plug fs s) T h" unfolding rb_done0_def by (auto intro: exI)
    then show ?thesis using False by auto
  qed
qed

text \<open>The two ways to delete: the node has at most one child, or its successor is unlinked and
  put in its place.\<close>

lemma delete_simple:
  assumes c: "cfg T h fs (Br d l y r)" and s: "l = Lf \<and> s = r \<or> r = Lf \<and> s = l"
    and e: "rb_s (h 0) = 0" "rb_color (h 0) = RB_BLACK"
    and rb: "rbt (plug fs (Br d l y r))" and len: "length fs + 2 \<le> rb_fuel"
  shows "\<exists>T1 h1 T' h'. delete_unlink T h (root_ptr s) y = Inr (T1, h1) \<and> h1 y = h y
    \<and> (if rbcode d = RB_BLACK then rbtree_fix_delete rb_fuel T1 h1 (root_ptr s) else Inr (T1, h1))
       = Inr (T', h')
    \<and> (\<exists>t'. linked T' h' t' \<and> rbt t' \<and> inord t' = inord (plug fs s) \<and> rb_size T' = rb_size T
        \<and> rb_same (insert 0 (set (inord (plug fs (Br d l y r))))) h h')"
  proof -
  let ?A = "insert 0 (set (inord (plug fs (Br d l y r))))"
  obtain T1 h1 where un: "delete_unlink T h (root_ptr s) y = Inr (T1, h1)" "cfg T1 h1 fs s"
      "focus h1 fs s" "rb_size T1 = rb_size T" "h1 y = h y" and same: "rb_same ?A h h1"
    using delete_unlink_ok [OF c s e] by blast
  obtain T' h' where fx: "(if rbcode d = RB_BLACK then rbtree_fix_delete rb_fuel T1 h1 (root_ptr s)
      else Inr (T1, h1)) = Inr (T', h')" and dn: "rb_done0 T1 h1 (plug fs s) T' h'"
    using delete_fix_ok [OF un(2,3) rb s refl len] by blast
  obtain t' where t': "linked T' h' t'" "rbt t'" "inord t' = inord (plug fs s)"
      "rb_size T' = rb_size T1" and same': "rb_same (insert 0 (set (inord (plug fs s)))) h1 h'"
    using dn unfolding rb_done0_def by blast
  have "rb_same ?A h1 h'" by (rule rb_same_mono [OF same']) (use s in \<open>auto simp: set_inord_plug\<close>)
  with same have "rb_same ?A h h'" by (rule rb_same_trans)
  with un fx t' show ?thesis by (metis (no_types, lifting))
qed

lemma delete_succ:
  fixes h :: "('p::zero, 'k) rb_heap"
  assumes c: "cfg T h fs (Br c l a r)" and r: "r = plug gs (Br d Lf y s)"
    and e: "rb_s (h 0) = 0" "rb_color (h 0) = RB_BLACK"
    and rb: "rbt (plug fs (Br c l a r))" and len: "length (gs @ FR c l a # fs) + 2 \<le> rb_fuel"
  shows "\<exists>T1 h1 T2 h2 T' h'. delete_unlink T h (root_ptr s) y = Inr (T1, h1) \<and> h1 y = h y
    \<and> delete_replace T1 h1 a (root_ptr s) y = Inr (T2, h2)
    \<and> (if rbcode d = RB_BLACK then rbtree_fix_delete rb_fuel T2 h2 (root_ptr s) else Inr (T2, h2))
       = Inr (T', h')
    \<and> (\<exists>t'. linked T' h' t' \<and> rbt t' \<and> inord t' = inord (plug fs (Br c l y (plug gs s)))
        \<and> rb_size T' = rb_size T \<and> rb_same (insert 0 (set (inord (plug fs (Br c l a r))))) h h')"
  proof -
  let ?A = "insert 0 (set (inord (plug fs (Br c l a r))))"
  let ?f = "gs @ FR c l a # fs" and ?g = "gs @ FR c l y # fs"
  have v: "cfg T h (gs @ FR c l b # fs) t \<longleftrightarrow> cfg T h fs (Br c l b (plug gs t))"
    for T and h :: "('p, 'k) rb_heap" and b t
    by (simp add: cfg_plug [of _ _ "gs @ FR c l b # fs"] cfg_plug [of _ _ fs] plug_append)
  have c0: "cfg T h ?f (Br d Lf y s)" using c r v by simp
  have A: "insert 0 (set (inord (plug ?f (Br d Lf y s)))) = ?A" by (simp add: r plug_append)
  obtain T1 h1 where un: "delete_unlink T h (root_ptr s) y = Inr (T1, h1)" "cfg T1 h1 ?f s"
      "focus h1 ?f s" "rb_size T1 = rb_size T" "h1 y = h y" and same1: "rb_same ?A h h1"
    using delete_unlink_ok [OF c0 _ e, of s] unfolding A by blast
  have c1: "cfg T1 h1 fs (Br c l a (plug gs s))" using un(2) v by blast
  have dy: "distinct (inord (Br d Lf y s) @ zaddrs ?f)" using c0 unfolding cfg_def by blast
  have y: "y \<noteq> 0" "rb_s (h1 y) = y" "rb_p (h1 y) = zpar ?f" using cfg_node [OF c0] un(5) by simp_all
  have za: "set (zaddrs (gs @ fs')) = set (zaddrs gs) \<union> set (zaddrs fs')" for fs' :: "'p frame list"
    by (induction gs) auto
  have yn: "y \<notin> set (inord (plug fs (Br c l a (plug gs s))))"
    using dy by (auto simp: set_inord_plug za)
  have gs: "zpar ?f = a \<longleftrightarrow> gs = []"
  proof (cases gs)
    case (Cons g gs')
    have "a \<in> set (zaddrs (gs' @ FR c l a # fs))" by (induction gs') auto
    with dy Cons show ?thesis by auto
  qed simp
  obtain T2 h2 where re: "delete_replace T1 h1 a (root_ptr s) y = Inr (T2, h2)"
      "cfg T2 h2 fs (Br c l y (plug gs s))" "rb_size T2 = rb_size T1"
      "h2 0 = (if rb_p (h1 y) = a then set_p h1 (root_ptr s) y 0 else h1 0)"
      and same2: "rb_same (insert 0 (insert y (set (inord (plug fs (Br c l a (plug gs s))))))) h1 h2"
    using delete_replace_ok [OF c1 y(1) yn y(2), of "root_ptr s"] gs y(3) by auto
  have c2: "cfg T2 h2 ?g s" using re(2) v by blast
  have f2: "focus h2 ?g s"
  proof (cases s)
    case Lf
    have "zpar ?g = (if gs = [] then y else zpar ?f)" by (cases gs) auto
    then show ?thesis using un(3) re(4) Lf gs y(3) by (simp add: focus_def)
  next
    case (Br d' l' x' r')
    then show ?thesis using c2 focus_node by blast
  qed
  have rb': "rbt (plug ?f (Br d Lf y s))" using rb r by (simp add: plug_append)
  have len': "length ?g + 2 \<le> rb_fuel" using len by simp
  obtain T' h' where fx: "(if rbcode d = RB_BLACK then rbtree_fix_delete rb_fuel T2 h2 (root_ptr s)
      else Inr (T2, h2)) = Inr (T', h')" and dn: "rb_done0 T2 h2 (plug ?g s) T' h'"
    using delete_fix_ok [OF c2 f2 rb' _ rbt_swap len'] by blast
  obtain t' where t': "linked T' h' t'" "rbt t'" "inord t' = inord (plug ?g s)"
      "rb_size T' = rb_size T2" and same3: "rb_same (insert 0 (set (inord (plug ?g s)))) h2 h'"
    using dn unfolding rb_done0_def by blast
  have S: "insert 0 (insert y (set (inord (plug fs (Br c l a (plug gs s)))))) = ?A"
    "insert 0 (set (inord (plug ?g s))) \<subseteq> ?A"
    unfolding r by (auto simp: set_inord_plug plug_append)
  have "rb_same ?A h1 h2" using same2 unfolding S(1) .
  moreover have "rb_same ?A h2 h'" by (rule rb_same_mono [OF same3 S(2)])
  ultimately have "rb_same ?A h h'" using same1 by (blast intro: rb_same_trans)
  moreover have "inord t' = inord (plug fs (Br c l y (plug gs s)))" using t'(3) by (simp add: plug_append)
  ultimately show ?thesis using un re fx t' by (metis (no_types, lifting))
qed

lemma subtree_of:
  "a \<in> set (inord t) \<Longrightarrow> \<exists>fs c l r. t = plug fs (Br c l a r)"
proof (induction t)
  case (Br c l b r)
  show ?case
  proof (cases "a = b")
    case True
    then show ?thesis by (intro exI [of _ "[]"]) simp
  next
    case False
    then consider "a \<in> set (inord l)" | "a \<in> set (inord r)" using Br.prems by auto
    then show ?thesis
    proof cases
      case 1
      then obtain fs c' l' r' where "l = plug fs (Br c' l' a r')" using Br.IH by blast
      then have "Br c l b r = plug (fs @ [FL c b r]) (Br c' l' a r')" by (simp add: plug_append)
      then show ?thesis by blast
    next
      case 2
      then obtain fs c' l' r' where "r = plug fs (Br c' l' a r')" using Br.IH by blast
      then have "Br c l b r = plug (fs @ [FR c l b]) (Br c' l' a r')" by (simp add: plug_append)
      then show ?thesis by blast
    qed
  qed
qed simp

lemma rbtree_delete_ok:
  assumes lk: "linked T h t" and rb: "rbt t" and sz: "length (inord t) < 2 ^ 31"
    and a: "a \<in> set (inord t)"
  shows "\<exists>T' h' t'. rbtree_delete T h a = Inr (T', h') \<and> linked T' h' t' \<and> rbt t'
    \<and> inord t' = remove1 a (inord t) \<and> rb_size T' = rb_size T - 1
    \<and> rb_same (insert 0 (set (inord t))) h h'"
proof -
  let ?h = "enode_init h" and ?T = "T\<lparr>rb_size := rb_size T - 1\<rparr>"
  obtain fs c l r where t: "t = plug fs (Br c l a r)" using subtree_of [OF a] by blast
  have c: "cfg ?T ?h fs (Br c l a r)"
    using lk t by (intro enode_init_cfg [of T]) (simp_all add: cfg_plug [of _ _ fs])
  note n = cfg_node [OF c]
  have d: "distinct (inord t)" using lk by (simp add: cfg_def)
  obtain pre post where pp: "\<And>u. inord (plug fs u) = pre @ inord u @ post"
    using around_split [of fs] inord_plug by metis
  have rm: "remove1 a (inord t) = pre @ inord l @ inord r @ post"
    using d unfolding t pp by (simp add: remove1_append)
  have same0: "rb_same (insert 0 (set (inord t))) h ?h" by (simp add: rb_same_def enode_init_sel)
  have lr: "rb_left (?h a) = 0 \<longleftrightarrow> l = Lf" "rb_right (?h a) = 0 \<longleftrightarrow> r = Lf"
    using n root_ptr_zero [OF cfg_children(1) [OF c]] root_ptr_zero [OF cfg_children(2) [OF c]]
    by simp_all
  have len: "length fs + theight (Br c l a r) \<le> 62" using rbt_path rb sz t by blast
  show ?thesis
  proof (cases "l = Lf \<or> r = Lf")
    case True
    define s where "s = (if l = Lf then r else l)"
    have s: "l = Lf \<and> s = r \<or> r = Lf \<and> s = l" using True s_def by auto
    have len': "length fs + 2 \<le> rb_fuel" using len by (simp add: rb_fuel_def)
    obtain T1 h1 T' h' t' where del: "delete_unlink ?T ?h (root_ptr s) a = Inr (T1, h1)" "h1 a = ?h a"
        "(if rbcode c = RB_BLACK then rbtree_fix_delete rb_fuel T1 h1 (root_ptr s) else Inr (T1, h1))
          = Inr (T', h')"
        and t': "linked T' h' t'" "rbt t'" "inord t' = inord (plug fs s)" "rb_size T' = rb_size ?T"
          "rb_same (insert 0 (set (inord t))) ?h h'"
      using delete_simple [OF c s enode_init_sel(1,2) _ len'] rb unfolding t by blast
    have "rbtree_delete T h a = Inr (T', h')"
      using del n lr True by (auto simp: rbtree_delete_def Let_def s_def)
    moreover have "inord t' = remove1 a (inord t)" using t'(3) s rm pp by auto
    ultimately show ?thesis using t' same0 by (auto intro: rb_same_trans)
  next
    case False
    then have lf: "l \<noteq> Lf" and rf: "r \<noteq> Lf" by auto
    define y where "y = hd (inord r)"
    obtain gs d s ws where r: "r = plug gs (Br d Lf y s)" and ws: "\<And>u. inord (plug gs u) = inord u @ ws"
      using leftmost [OF rf] unfolding y_def by metis
    have cy: "cfg ?T ?h (gs @ FR c l a # fs) (Br d Lf y s)"
      using c unfolding r by (simp add: cfg_plug [of _ _ "gs @ FR c l a # fs"] cfg_plug [of _ _ fs] plug_append)
    have len': "length (gs @ FR c l a # fs) + 2 \<le> rb_fuel"
      using rbt_path [of "gs @ FR c l a # fs" "Br d Lf y s"] rb sz t r
      by (simp add: plug_append rb_fuel_def)
    have "theight r \<le> rb_fuel" using len by (simp add: rb_fuel_def)
    then have mn: "rbtree_min_node rb_fuel ?h (root_ptr r) = Inr y"
      using min_node_ok [OF cfg_children(2) [OF c] rf] by (simp add: y_def)
    have ya: "y \<noteq> a" using cfg_children(4) [OF c] r ws by auto
    have ge: "rb_get (rb_right (?h a)) = Inr (root_ptr r)" using n lr rf by (simp add: rb_get_def)
    obtain T1 h1 T2 h2 T' h' t' where
        del: "delete_unlink ?T ?h (root_ptr s) y = Inr (T1, h1)" "h1 y = ?h y"
          "delete_replace T1 h1 a (root_ptr s) y = Inr (T2, h2)"
          "(if rbcode d = RB_BLACK then rbtree_fix_delete rb_fuel T2 h2 (root_ptr s) else Inr (T2, h2))
            = Inr (T', h')"
        and t': "linked T' h' t'" "rbt t'" "inord t' = inord (plug fs (Br c l y (plug gs s)))"
          "rb_size T' = rb_size ?T" "rb_same (insert 0 (set (inord t))) ?h h'"
      using delete_succ [OF c r enode_init_sel(1,2) _ len'] rb unfolding t by blast
    have "rbtree_delete T h a = Inr (T', h')"
      using del mn ge ya lr lf rf cfg_node(5,6) [OF cy] by (simp add: rbtree_delete_def Let_def)
    moreover have "inord t' = remove1 a (inord t)" using t'(3) rm unfolding pp by (simp add: r ws)
    ultimately show ?thesis using t' same0 by (auto intro: rb_same_trans)
  qed
qed


end
