(* ===== verification/RBTree_Query.thy ===== *)
theory RBTree_Query
  imports RBTree_Delete "HOL-Library.Multiset"
begin

text \<open>
  What a client of \<open>rbtree.h\<close> relies on: \<open>rb_rep T h xs\<close> says that the tree holds
  the nodes \<open>xs\<close>, in this order. Insertion, deletion, the two ends, the two neighbours and
  the searches are described by what they do to that list. The locale \<open>rb_order\<close> is the
  contract of the comparison macro; what rests on the order of the keys is proved in it.
\<close>

section \<open>The nodes before and after a subtree\<close>

primrec zbefore :: "'p frame list \<Rightarrow> 'p list" where
  "zbefore [] = []"
| "zbefore (f # fs) = zbefore fs @ (case f of FL c a r \<Rightarrow> [] | FR c l a \<Rightarrow> inord l @ [a])"

primrec zafter :: "'p frame list \<Rightarrow> 'p list" where
  "zafter [] = []"
| "zafter (f # fs) = (case f of FL c a r \<Rightarrow> a # inord r | FR c l a \<Rightarrow> []) @ zafter fs"

lemma inord_plug_split: "inord (plug fs t) = zbefore fs @ inord t @ zafter fs"
proof (induction fs arbitrary: t)
  case (Cons f fs)
  then show ?case by (cases f) simp_all
qed simp

definition first :: "'p list \<Rightarrow> 'p option" where
  "first xs = (case xs of [] \<Rightarrow> None | x # _ \<Rightarrow> Some x)"

lemma first_simps [simp]: "first [] = None" "first (x # xs) = Some x"
  by (simp_all add: first_def)

lemma first_append: "first (xs @ ys) = (if xs = [] then first ys else first xs)"
  by (cases xs) simp_all

lemma first_hd: "xs \<noteq> [] \<Longrightarrow> first xs = Some (hd xs)"
  by (cases xs) simp_all

lemma inord_nonempty: "inord t = [] \<longleftrightarrow> t = Lf"
  by (cases t) simp_all

lemma next_up_ok:
  assumes "cfg T h fs (Br c l a r)" and "length fs < fuel"
  shows "next_up fuel h a = Inr (first (zafter fs))"
  using assms
proof (induction fs arbitrary: c l a r fuel)
  case Nil
  then obtain k where "fuel = Suc k" by (cases fuel) auto
  with cfg_node [OF Nil(1)] show ?case by simp
next
  case (Cons f fs)
  obtain k where k: "fuel = Suc k" "length fs < k" using Cons.prems(2) by (cases fuel) auto
  note n = cfg_node [OF Cons.prems(1)]
  have up: "cfg T h fs (plug1 f (Br c l a r))" using Cons.prems(1) by (simp add: cfg_up)
  show ?case
  proof (cases f)
    case (FL d b s)
    have "cfg T h fs (Br d (Br c l a r) b s)" using up FL by simp
    note m = cfg_node [OF this] and c' = this
    have "a \<notin> set (inord s)" using c' by (auto simp: cfg_def)
    then have "rb_right (h b) \<noteq> a" using m(5) root_ptr_neq [OF n(1)] by simp
    then show ?thesis using k n m FL by (auto simp: rb_get_def)
  next
    case (FR d s b)
    have c': "cfg T h fs (Br d s b (Br c l a r))" using up FR by simp
    note m = cfg_node [OF this]
    have "next_up k h b = Inr (first (zafter fs))" by (rule Cons.IH [OF c' k(2)])
    then show ?thesis using k n m FR by (simp add: rb_get_def)
  qed
qed

lemma prev_up_ok:
  assumes "cfg T h fs (Br c l a r)" and "length fs < fuel"
  shows "prev_up fuel h a = Inr (first (rev (zbefore fs)))"
  using assms
proof (induction fs arbitrary: c l a r fuel)
  case Nil
  then obtain k where "fuel = Suc k" by (cases fuel) auto
  with cfg_node [OF Nil(1)] show ?case by simp
next
  case (Cons f fs)
  obtain k where k: "fuel = Suc k" "length fs < k" using Cons.prems(2) by (cases fuel) auto
  note n = cfg_node [OF Cons.prems(1)]
  have up: "cfg T h fs (plug1 f (Br c l a r))" using Cons.prems(1) by (simp add: cfg_up)
  show ?case
  proof (cases f)
    case (FR d s b)
    have "cfg T h fs (Br d s b (Br c l a r))" using up FR by simp
    note m = cfg_node [OF this] and c' = this
    have "a \<notin> set (inord s)" using c' by (auto simp: cfg_def)
    then have "rb_left (h b) \<noteq> a" using m(4) root_ptr_neq [OF n(1)] by simp
    then show ?thesis using k n m FR by (auto simp: rb_get_def)
  next
    case (FL d b s)
    have c': "cfg T h fs (Br d (Br c l a r) b s)" using up FL by simp
    note m = cfg_node [OF this]
    have "prev_up k h b = Inr (first (rev (zbefore fs)))" by (rule Cons.IH [OF c' k(2)])
    then show ?thesis using k n m FL by (simp add: rb_get_def)
  qed
qed

section \<open>The tree as the list of its nodes\<close>

definition rb_rep :: "'p::zero rb_tree \<Rightarrow> ('p, 'k) rb_heap \<Rightarrow> 'p list \<Rightarrow> bool" where
  "rb_rep T h xs \<longleftrightarrow> (\<exists>t. linked T h t \<and> rbt t \<and> inord t = xs)
     \<and> rb_size T = of_nat (length xs) \<and> length xs < 2 ^ 31"

lemma rb_repE:
  assumes "rb_rep T h xs"
  obtains t where "linked T h t" "rbt t" "inord t = xs" "length (inord t) < 2 ^ 31"
    "rb_size T = of_nat (length xs)"
  using assms unfolding rb_rep_def by blast

lemma rb_rep_cong:
  assumes "rb_rep T h xs" and "\<And>q. q \<in> set xs \<Longrightarrow> h' q = h q"
  shows "rb_rep T h' xs"
proof -
  obtain t where t: "linked T h t" "rbt t" "inord t = xs" using assms(1) by (rule rb_repE)
  have "tlinked h' 0 t = tlinked h 0 t" by (rule tlinked_cong) (use assms(2) t(3) in blast)
  then have "linked T h' t" using t(1) by (simp add: cfg_def)
  with t assms(1) show ?thesis unfolding rb_rep_def by blast
qed

lemma rb_rep_distinct: "rb_rep T h xs \<Longrightarrow> distinct xs"
  by (auto simp: rb_rep_def cfg_def)

lemma rb_rep_node: "rb_rep T h xs \<Longrightarrow> a \<in> set xs \<Longrightarrow> a \<noteq> 0 \<and> rb_s (h a) = a"
proof -
  have "\<And>par. tlinked h par t \<Longrightarrow> a \<in> set (inord t) \<Longrightarrow> a \<noteq> 0 \<and> rb_s (h a) = a" for t
    by (induction t) auto
  then show "rb_rep T h xs \<Longrightarrow> a \<in> set xs \<Longrightarrow> a \<noteq> 0 \<and> rb_s (h a) = a"
    by (auto simp: rb_rep_def cfg_def)
qed

lemma rb_rep_init: "rb_rep rbtree_init h []"
  unfolding rb_rep_def rbtree_init_def
  by (intro conjI exI [of _ Lf]) (simp_all add: cfg_def rbt_def)

lemma insert_rep:
  assumes "rb_rep T h xs" and "Suc (length xs) < 2 ^ 31" and "x \<noteq> 0" "x \<notin> set xs" "rb_s (h x) = x"
  shows "\<exists>T' h' ys zs. rbtree_insert cmp T h x = Inr (T', h') \<and> xs = ys @ zs
    \<and> rb_rep T' h' (ys @ x # zs) \<and> rb_same (insert x (set xs)) h h'
    \<and> (sorted_wrt (\<lambda>a b. cmp (rb_v (h b)) (rb_v (h x)) < 0 \<longrightarrow> cmp (rb_v (h a)) (rb_v (h x)) < 0) xs \<longrightarrow>
       ys = takeWhile (\<lambda>a. cmp (rb_v (h a)) (rb_v (h x)) < 0) xs \<and>
       zs = dropWhile (\<lambda>a. cmp (rb_v (h a)) (rb_v (h x)) < 0) xs)"
proof -
  let ?g = "\<lambda>a. cmp (rb_v (h a)) (rb_v (h x)) < 0"
  obtain t where t: "linked T h t" "rbt t" "inord t = xs" "length (inord t) < 2 ^ 31"
    and sz: "rb_size T = of_nat (length xs)" using assms(1) by (rule rb_repE)
  obtain T' h' t' where i: "rbtree_insert cmp T h x = Inr (T', h')" "linked T' h' t'" "rbt t'"
      "inord t' = ins_inord ?g x t" "rb_size T' = rb_size T + 1"
      "rb_same (insert x (set (inord t))) h h'"
    using rbtree_insert_ok [OF t(1,2,4), of x cmp] assms(3-5) t(3) by blast
  obtain ys zs where s: "xs = ys @ zs" "ins_inord ?g x t = ys @ x # zs"
    "sorted_wrt (\<lambda>a b. ?g b \<longrightarrow> ?g a) xs \<longrightarrow> ys = takeWhile ?g xs \<and> zs = dropWhile ?g xs"
  proof (cases "sorted_wrt (\<lambda>a b. ?g b \<longrightarrow> ?g a) xs")
    case True
    show ?thesis
      by (rule that [of "takeWhile ?g xs" "dropWhile ?g xs"])
         (use ins_inord_sorted [of ?g t x] True t(3) in simp_all)
  next
    case False
    obtain ys zs where a: "inord t = ys @ zs" "ins_inord ?g x t = ys @ x # zs"
      using ins_inord_split [of t ?g x] by blast
    show ?thesis by (rule that [OF _ a(2)]) (use a(1) t(3) in simp, use False in blast)
  qed
  have "rb_rep T' h' (ys @ x # zs)"
    unfolding rb_rep_def using i(2-5) s(1,2) sz assms(2)
    by (intro conjI exI [of _ t']) (simp_all add: add.commute)
  then show ?thesis
    by (intro exI [of _ T'] exI [of _ h'] exI [of _ ys] exI [of _ zs])
       (use i(1,6) s(1,3) in \<open>unfold t(3), blast\<close>)
qed

lemma delete_rep:
  assumes "rb_rep T h xs" and "a \<in> set xs"
  shows "\<exists>T' h'. rbtree_delete T h a = Inr (T', h') \<and> rb_rep T' h' (remove1 a xs)
    \<and> rb_same (insert 0 (set xs)) h h'"
proof -
  obtain t where t: "linked T h t" "rbt t" "inord t = xs" "length (inord t) < 2 ^ 31"
    and sz: "rb_size T = of_nat (length xs)" using assms(1) by (rule rb_repE)
  obtain T' h' t' where d: "rbtree_delete T h a = Inr (T', h')" "linked T' h' t'" "rbt t'"
      "inord t' = remove1 a xs" "rb_size T' = rb_size T - 1" "rb_same (insert 0 (set xs)) h h'"
    using rbtree_delete_ok [OF t(1,2,4), of a] assms(2) t(3) by blast
  have n: "length (remove1 a xs) = length xs - 1" "length xs \<noteq> 0"
    using assms(2) by (auto simp: length_remove1)
  have sz': "rb_size T' = of_nat (length (remove1 a xs))"
    using d(5) sz n by (cases xs) simp_all
  then have "rb_rep T' h' (remove1 a xs)"
    unfolding rb_rep_def using d(2-4) n t(3,4) sz'
    by (metis One_nat_def diff_le_self order_le_less_trans)
  then show ?thesis using d by blast
qed

lemma min_rep: "rb_rep T h xs \<Longrightarrow> rbtree_min T h = Inr (first xs)"
  and max_rep: "rb_rep T h xs \<Longrightarrow> rbtree_max T h = Inr (first (rev xs))"
proof -
  assume "rb_rep T h xs"
  then obtain t where t: "linked T h t" "rbt t" "inord t = xs" "length (inord t) < 2 ^ 31"
    by (rule rb_repE)
  have tl: "tlinked h 0 t" and root: "rb_root T = root_ptr t" using t(1) by (simp_all add: cfg_def)
  have ht: "theight t \<le> rb_fuel" using rbt_height [OF t(2,4)] by (simp add: rb_fuel_def)
  have "rbtree_min T h = Inr (first xs) \<and> rbtree_max T h = Inr (first (rev xs))"
  proof (cases "t = Lf")
    case True
    then show ?thesis using root t(3) by (auto simp: rbtree_min_def rbtree_max_def)
  next
    case False
    have ne: "xs \<noteq> []" using False t(3) inord_nonempty by blast
    have "first (rev xs) = Some (last xs)" using ne by (simp add: first_hd hd_rev)
    then show ?thesis
      using min_node_ok [OF tl False ht] max_node_ok [OF tl False ht] root_ptr_zero [OF tl]
        root False t(3) ne
      by (simp add: rbtree_min_def rbtree_max_def rb_get_def first_hd)
  qed
  then show "rbtree_min T h = Inr (first xs)" "rbtree_max T h = Inr (first (rev xs))" by simp_all
qed

lemma neighbours_rep:
  assumes "rb_rep T h (ys @ a # zs)"
  shows "rbtree_next h a = Inr (first zs)" "rbtree_prev h a = Inr (first (rev ys))"
proof -
  let ?xs = "ys @ a # zs"
  obtain t where t: "linked T h t" "rbt t" "inord t = ?xs" "length (inord t) < 2 ^ 31"
    using assms by (rule rb_repE)
  obtain fs c l r where p: "t = plug fs (Br c l a r)" using subtree_of [of a t] t(3) by auto
  have c: "cfg T h fs (Br c l a r)" using t(1) p by (simp add: cfg_plug [of _ _ fs])
  have "distinct ?xs" using rb_rep_distinct [OF assms] .
  moreover have "?xs = (zbefore fs @ inord l) @ a # (inord r @ zafter fs)"
    using t(3) unfolding p inord_plug_split by simp
  ultimately have "ys = zbefore fs @ inord l \<and> zs = inord r @ zafter fs"
    using append_Cons_eq_iff [of a ys zs "zbefore fs @ inord l" "inord r @ zafter fs"]
    by (metis distinct.simps(2) distinct_append not_distinct_conv_prefix append.assoc Un_iff
      set_append append_Cons)
  then have yz: "ys = zbefore fs @ inord l" "zs = inord r @ zafter fs" by simp_all
  have len: "length fs + theight (Br c l a r) \<le> 62" using rbt_path t(2,4) p by blast
  then have fuel: "length fs < rb_fuel" "theight l \<le> rb_fuel" "theight r \<le> rb_fuel"
    by (simp_all add: rb_fuel_def)
  note n = cfg_node [OF c] and ch = cfg_children [OF c]
  show "rbtree_next h a = Inr (first zs)"
  proof (cases "r = Lf")
    case True
    then show ?thesis using n next_up_ok [OF c fuel(1)] yz by (simp add: rbtree_next_def)
  next
    case False
    then show ?thesis
      using n min_node_ok [OF ch(2) False fuel(3)] root_ptr_zero [OF ch(2)] inord_nonempty [of r] yz
      by (simp add: rbtree_next_def rb_get_def first_append first_hd)
  qed
  show "rbtree_prev h a = Inr (first (rev ys))"
  proof (cases "l = Lf")
    case True
    then show ?thesis using n prev_up_ok [OF c fuel(1)] yz by (simp add: rbtree_prev_def)
  next
    case False
    then show ?thesis
      using n max_node_ok [OF ch(1) False fuel(2)] root_ptr_zero [OF ch(1)] inord_nonempty [of l] yz
      by (simp add: rbtree_prev_def rb_get_def first_append first_hd hd_rev)
  qed
qed

section \<open>Traversals\<close>

text \<open>What a client sees that follows \<open>rbtree_next\<close>, or \<open>rbtree_prev\<close>, for at most
  \<open>n\<close> nodes.\<close>

primrec collect :: "('p \<Rightarrow> 'p option res) \<Rightarrow> nat \<Rightarrow> 'p option \<Rightarrow> 'p list res" where
  "collect step 0 p = Inr []"
| "collect step (Suc n) p = (case p of None \<Rightarrow> Inr []
     | Some a \<Rightarrow> bind_r (step a) (\<lambda>q. bind_r (collect step n q) (\<lambda>as. Inr (a # as))))"

definition rb_forward :: "'p rb_tree \<Rightarrow> ('p::zero, 'k) rb_heap \<Rightarrow> 'p list res" where
  "rb_forward T h = bind_r (rbtree_min T h) (collect (rbtree_next h) (unat (rb_size T)))"

definition rb_backward :: "'p rb_tree \<Rightarrow> ('p::zero, 'k) rb_heap \<Rightarrow> 'p list res" where
  "rb_backward T h = bind_r (rbtree_max T h) (collect (rbtree_prev h) (unat (rb_size T)))"

lemma collect_suffix:
  assumes "\<And>us a vs. xs = us @ a # vs \<Longrightarrow> step a = Inr (first vs)" and "xs = ys @ zs" "length zs \<le> n"
  shows "collect step n (first zs) = Inr zs"
  using assms(2,3)
proof (induction zs arbitrary: ys n)
  case Nil
  then show ?case by (cases n) simp_all
next
  case (Cons z zs)
  then obtain m where m: "n = Suc m" "length zs \<le> m" by (cases n) auto
  have "xs = (ys @ [z]) @ zs" using Cons.prems(1) by simp
  from Cons.IH [OF this m(2)] assms(1) [OF Cons.prems(1)] m(1) show ?case by simp
qed

lemma rb_forward_ok:
  assumes "rb_rep T h xs"
  shows "rb_forward T h = Inr xs"
proof -
  have "step = Inr (first vs)" if "xs = us @ a # vs" "step = rbtree_next h a" for us a vs step
    using neighbours_rep(1) assms that by blast
  moreover have "unat (rb_size T) = length xs"
    using assms unfolding rb_rep_def by (auto intro: unat_of_nat_small)
  ultimately show ?thesis
    using collect_suffix [of xs "rbtree_next h" "[]" xs] min_rep [OF assms] by (simp add: rb_forward_def)
qed

lemma rb_backward_ok:
  assumes "rb_rep T h xs"
  shows "rb_backward T h = Inr (rev xs)"
proof -
  have "step = Inr (first vs)" if "rev xs = us @ a # vs" "step = rbtree_prev h a" for us a vs step
  proof -
    have "xs = rev vs @ a # rev us" using that(1) by (metis append.assoc append_Cons append_Nil rev_append rev_rev_ident rev.simps(2))
    then show ?thesis using neighbours_rep(2) assms that(2) rev_rev_ident by metis
  qed
  moreover have "unat (rb_size T) = length xs"
    using assms unfolding rb_rep_def by (auto intro: unat_of_nat_small)
  ultimately show ?thesis
    using collect_suffix [of "rev xs" "rbtree_prev h" "[]" "rev xs"] max_rep [OF assms] by (simp add: rb_backward_def)
qed

section \<open>The contract of the comparison\<close>

locale rb_order =
  fixes cmp :: "'k \<Rightarrow> 'k \<Rightarrow> int" and key :: "'k \<Rightarrow> nat" and ok :: "'k \<Rightarrow> bool"
  assumes cmp_less: "\<lbrakk>ok a; ok b\<rbrakk> \<Longrightarrow> cmp a b < 0 \<longleftrightarrow> key a < key b"
    and cmp_greater: "\<lbrakk>ok a; ok b\<rbrakk> \<Longrightarrow> 0 < cmp a b \<longleftrightarrow> key b < key a"
begin

text \<open>A tree in search order: its keys are fit for the comparison and do not decrease.\<close>

definition ordered :: "('p, 'k) rb_heap \<Rightarrow> 'p list \<Rightarrow> bool" where
  "ordered h xs \<longleftrightarrow> (\<forall>a \<in> set xs. ok (rb_v (h a))) \<and> sorted (map (\<lambda>a. key (rb_v (h a))) xs)"

lemma ordered_same: "rb_same A h h' \<Longrightarrow> ordered h' xs = ordered h xs"
  by (simp add: ordered_def rb_same_def)

lemma ordered_remove1:
  fixes h :: "('p, 'k) rb_heap"
  shows "ordered h xs \<Longrightarrow> ordered h (remove1 a xs)"
proof -
  have "sorted (map f xs) \<Longrightarrow> sorted (map f (remove1 a xs))" for f :: "'p \<Rightarrow> nat"
    by (induction xs) (auto dest: notin_set_remove1)
  moreover assume "ordered h xs"
  ultimately show ?thesis unfolding ordered_def by (meson notin_set_remove1)
qed

lemma ordered_insert:
  assumes o: "ordered h xs" and x: "ok (rb_v (h x))"
  defines "g \<equiv> \<lambda>a. cmp (rb_v (h a)) (rb_v (h x)) < 0"
  shows "sorted_wrt (\<lambda>a b. g b \<longrightarrow> g a) xs"
    and "ordered h (takeWhile g xs @ x # dropWhile g xs)"
proof -
  let ?k = "\<lambda>a. key (rb_v (h a))"
  have gk: "g a \<longleftrightarrow> ?k a < ?k x" if "a \<in> set xs" for a
    using o x that by (simp add: g_def ordered_def cmp_less)
  have s: "sorted (map ?k xs)" using o by (simp add: ordered_def)
  then have sw: "sorted_wrt (\<lambda>a b. ?k a \<le> ?k b) xs" by (simp add: sorted_wrt_map)
  then show "sorted_wrt (\<lambda>a b. g b \<longrightarrow> g a) xs"
    by (rule sorted_wrt_mono_rel [rotated]) (use gk in auto)
  have tw: "takeWhile g xs @ dropWhile g xs = xs" by simp
  have "sorted_wrt (\<lambda>a b. ?k a \<le> ?k b) (takeWhile g xs @ dropWhile g xs)" using sw by simp
  then have st: "sorted_wrt (\<lambda>a b. ?k a \<le> ?k b) (takeWhile g xs)"
    "sorted_wrt (\<lambda>a b. ?k a \<le> ?k b) (dropWhile g xs)"
    "\<forall>a \<in> set (takeWhile g xs). \<forall>b \<in> set (dropWhile g xs). ?k a \<le> ?k b"
    unfolding sorted_wrt_append by blast+
  have lo: "?k a \<le> ?k x" if "a \<in> set (takeWhile g xs)" for a
    using set_takeWhileD [OF that] gk by auto
  have hi: "?k x \<le> ?k b" if b: "b \<in> set (dropWhile g xs)" for b
  proof -
    obtain d ds where d: "dropWhile g xs = d # ds" using b by (cases "dropWhile g xs") auto
    have "\<not> g d" using d by (simp add: dropWhile_eq_Cons_conv)
    moreover have "d \<in> set xs" using d set_dropWhileD [of d g xs] by simp
    ultimately have "?k x \<le> ?k d" using gk by auto
    also have "?k d \<le> ?k b" using st(2) b unfolding d by auto
    finally show ?thesis .
  qed
  have "sorted_wrt (\<lambda>a b. ?k a \<le> ?k b) (takeWhile g xs @ x # dropWhile g xs)"
    using st lo hi by (auto simp: sorted_wrt_append intro: order_trans)
  then have "sorted (map ?k (takeWhile g xs @ x # dropWhile g xs))" unfolding sorted_wrt_map .
  then show "ordered h (takeWhile g xs @ x # dropWhile g xs)"
    using o x unfolding ordered_def by (auto dest: set_takeWhileD set_dropWhileD)
qed

lemma insert_ordered:
  assumes "rb_rep T h xs" and "Suc (length xs) < 2 ^ 31" and "x \<noteq> 0" "x \<notin> set xs" "rb_s (h x) = x"
    and "ordered h xs" and "ok (rb_v (h x))"
  shows "\<exists>T' h' xs'. rbtree_insert cmp T h x = Inr (T', h') \<and> rb_rep T' h' xs' \<and> ordered h' xs'
    \<and> mset xs' = add_mset x (mset xs) \<and> rb_same (insert x (set xs)) h h'"
proof -
  let ?g = "\<lambda>a. cmp (rb_v (h a)) (rb_v (h x)) < 0"
  note o = ordered_insert [OF assms(6,7)]
  obtain T' h' ys zs where i: "rbtree_insert cmp T h x = Inr (T', h')" "xs = ys @ zs"
      "rb_rep T' h' (ys @ x # zs)" "rb_same (insert x (set xs)) h h'"
      and yz: "ys = takeWhile ?g xs" "zs = dropWhile ?g xs"
    using insert_rep [OF assms(1-5), of cmp] o(1) by blast
  have "ordered h (ys @ x # zs)" unfolding yz by (rule o(2))
  then have "ordered h' (ys @ x # zs)" using ordered_same [OF i(4)] by blast
  moreover have "mset (ys @ x # zs) = add_mset x (mset xs)" using i(2) by simp
  ultimately show ?thesis using i by blast
qed

text \<open>The search returns a node with the key, if there is one.\<close>

lemma find_loop_ok:
  assumes "tlinked h par t" and "ordered h (inord t)" and "ok val" and "theight t < fuel"
  shows "\<exists>r. find_loop fuel cmp h (root_ptr t) val = Inr r
    \<and> (case r of None \<Rightarrow> \<forall>a \<in> set (inord t). key (rb_v (h a)) \<noteq> key val
        | Some b \<Rightarrow> b \<in> set (inord t) \<and> key (rb_v (h b)) = key val)"
  using assms
proof (induction t arbitrary: par fuel)
  case Lf
  then obtain k where "fuel = Suc k" by (cases fuel) auto
  then show ?case by simp
next
  case (Br c l a r)
  obtain k where k: "fuel = Suc k" "theight l < k" "theight r < k" using Br.prems(4) by (cases fuel) auto
  have o: "ordered h (inord l)" "ordered h (inord r)" "ok (rb_v (h a))"
    and lo: "\<forall>b \<in> set (inord l). key (rb_v (h b)) \<le> key (rb_v (h a))"
    and hi: "\<forall>b \<in> set (inord r). key (rb_v (h a)) \<le> key (rb_v (h b))"
    using Br.prems(2) by (auto simp: ordered_def sorted_append)
  note cl = cmp_less [OF o(3) Br.prems(3)] and cg = cmp_greater [OF o(3) Br.prems(3)]
  consider "key (rb_v (h a)) < key val" | "key val < key (rb_v (h a))" | "key (rb_v (h a)) = key val"
    by linarith
  then show ?case
  proof cases
    case 1
    from Br.IH(2) [of a k] Br.prems o k obtain x where
      "find_loop k cmp h (root_ptr r) val = Inr x" and
      x: "case x of None \<Rightarrow> \<forall>a \<in> set (inord r). key (rb_v (h a)) \<noteq> key val
        | Some b \<Rightarrow> b \<in> set (inord r) \<and> key (rb_v (h b)) = key val" by auto
    then have "find_loop fuel cmp h a val = Inr x"
      using Br.prems(1) k 1 cl cg by (simp add: rb_get_def)
    then show ?thesis using x lo 1 by (auto split: option.splits)
  next
    case 2
    from Br.IH(1) [of a k] Br.prems o k obtain x where
      "find_loop k cmp h (root_ptr l) val = Inr x" and
      x: "case x of None \<Rightarrow> \<forall>a \<in> set (inord l). key (rb_v (h a)) \<noteq> key val
        | Some b \<Rightarrow> b \<in> set (inord l) \<and> key (rb_v (h b)) = key val" by auto
    then have "find_loop fuel cmp h a val = Inr x"
      using Br.prems(1) k 2 cl cg by (simp add: rb_get_def)
    then show ?thesis using x hi 2 by (auto split: option.splits)
  next
    case 3
    then have "find_loop fuel cmp h a val = Inr (Some a)"
      using Br.prems(1) k cl cg by (simp add: rb_get_def)
    then show ?thesis using 3 by simp
  qed
qed

lemma find_ok:
  assumes "rb_rep T h xs" and "ordered h xs" and "ok val"
  shows "\<exists>r. rbtree_find cmp T h val = Inr r
    \<and> (case r of None \<Rightarrow> \<forall>a \<in> set xs. key (rb_v (h a)) \<noteq> key val
        | Some b \<Rightarrow> b \<in> set xs \<and> key (rb_v (h b)) = key val)"
proof -
  obtain t where t: "linked T h t" "rbt t" "inord t = xs" "length (inord t) < 2 ^ 31"
    using assms(1) by (rule rb_repE)
  have tl: "tlinked h 0 t" and root: "rb_root T = root_ptr t" using t(1) by (simp_all add: cfg_def)
  have "theight t < rb_fuel" using rbt_height [OF t(2,4)] by (simp add: rb_fuel_def)
  from find_loop_ok [OF tl _ assms(3) this] show ?thesis
    using assms(2) unfolding rbtree_find_def root t(3) by blast
qed

lemma lower_loop_bigger:
  assumes "tlinked h par t" and "\<forall>a \<in> set (inord t). ok (rb_v (h a))" and "ok val" and "theight t < fuel"
  shows "\<exists>r. lower_loop fuel cmp h (root_ptr t) val (Some p) True = Inr (Some r)
    \<and> (r = p \<or> r \<in> set (inord t) \<and> key val \<le> key (rb_v (h r)))"
  using assms
proof (induction t arbitrary: par fuel p)
  case Lf
  then obtain k where "fuel = Suc k" by (cases fuel) auto
  then show ?case by simp
next
  case (Br c l a r)
  obtain k where k: "fuel = Suc k" "theight l < k" using Br.prems(4) by (cases fuel) auto
  have cl: "cmp (rb_v (h a)) val < 0 \<longleftrightarrow> key (rb_v (h a)) < key val"
    using Br.prems(2,3) by (simp add: cmp_less)
  show ?case
  proof (cases "key (rb_v (h a)) < key val")
    case True
    then have "lower_loop fuel cmp h a val (Some p) True = Inr (Some p)"
      using Br.prems(1) k cl by (simp add: rb_get_def)
    then show ?thesis by simp
  next
    case False
    have "\<exists>x. lower_loop k cmp h (root_ptr l) val (Some a) True = Inr (Some x)
        \<and> (x = a \<or> x \<in> set (inord l) \<and> key val \<le> key (rb_v (h x)))"
      by (rule Br.IH(1) [of a]) (use Br.prems k in auto)
    then obtain x where x: "lower_loop k cmp h (root_ptr l) val (Some a) True = Inr (Some x)"
        "x = a \<or> x \<in> set (inord l) \<and> key val \<le> key (rb_v (h x))" by blast
    have "lower_loop fuel cmp h a val (Some p) True = Inr (Some x)"
      using Br.prems(1) k cl False x(1) by (simp add: rb_get_def)
    moreover have "x \<in> set (inord (Br c l a r))" "key val \<le> key (rb_v (h x))"
      using x(2) False by auto
    ultimately show ?thesis by auto
  qed
qed

lemma lower_loop_ok:
  assumes "tlinked h par t" and "ordered h (inord t)" and "ok val" and "theight t < fuel"
  shows "\<exists>r. lower_loop fuel cmp h (root_ptr t) val p False = Inr r
    \<and> (case r of None \<Rightarrow> \<forall>a \<in> set (inord t). key (rb_v (h a)) < key val
        | Some b \<Rightarrow> b \<in> set (inord t) \<and> key val \<le> key (rb_v (h b)))"
  using assms
proof (induction t arbitrary: par fuel p)
  case Lf
  then obtain k where "fuel = Suc k" by (cases fuel) auto
  then show ?case by simp
next
  case (Br c l a r)
  obtain k where k: "fuel = Suc k" "theight l < k" "theight r < k" using Br.prems(4) by (cases fuel) auto
  have o: "ordered h (inord l)" "ordered h (inord r)" "ok (rb_v (h a))"
    and lo: "\<forall>b \<in> set (inord l). key (rb_v (h b)) \<le> key (rb_v (h a))"
    using Br.prems(2) by (auto simp: ordered_def sorted_append)
  have cl: "cmp (rb_v (h a)) val < 0 \<longleftrightarrow> key (rb_v (h a)) < key val"
    using o(3) Br.prems(3) by (simp add: cmp_less)
  show ?case
  proof (cases "key (rb_v (h a)) < key val")
    case True
    from Br.IH(2) [of a k "Some a"] Br.prems o k obtain x where
      "lower_loop k cmp h (root_ptr r) val (Some a) False = Inr x" and
      x: "case x of None \<Rightarrow> \<forall>a \<in> set (inord r). key (rb_v (h a)) < key val
        | Some b \<Rightarrow> b \<in> set (inord r) \<and> key val \<le> key (rb_v (h b))" by auto
    then have "lower_loop fuel cmp h a val p False = Inr x"
      using Br.prems(1) k True cl by (simp add: rb_get_def)
    then show ?thesis using x lo True by (auto split: option.splits)
  next
    case False
    have "\<exists>x. lower_loop k cmp h (root_ptr l) val (Some a) True = Inr (Some x)
        \<and> (x = a \<or> x \<in> set (inord l) \<and> key val \<le> key (rb_v (h x)))"
      by (rule lower_loop_bigger [of _ a]) (use Br.prems o k in \<open>auto simp: ordered_def\<close>)
    then obtain x where x: "lower_loop k cmp h (root_ptr l) val (Some a) True = Inr (Some x)"
        "x = a \<or> x \<in> set (inord l) \<and> key val \<le> key (rb_v (h x))" by blast
    have "lower_loop fuel cmp h a val p False = Inr (Some x)"
      using Br.prems(1) k cl False x(1) by (simp add: rb_get_def)
    then show ?thesis using x(2) False by auto
  qed
qed

lemma lower_ok:
  assumes "rb_rep T h xs" and "ordered h xs" and "ok val"
  shows "\<exists>r. rbtree_lower cmp T h val = Inr r
    \<and> (case r of None \<Rightarrow> \<forall>a \<in> set xs. key (rb_v (h a)) < key val
        | Some b \<Rightarrow> b \<in> set xs \<and> key val \<le> key (rb_v (h b)))"
proof -
  obtain t where t: "linked T h t" "rbt t" "inord t = xs" "length (inord t) < 2 ^ 31"
    using assms(1) by (rule rb_repE)
  have tl: "tlinked h 0 t" and root: "rb_root T = root_ptr t" using t(1) by (simp_all add: cfg_def)
  have "theight t < rb_fuel" using rbt_height [OF t(2,4)] by (simp add: rb_fuel_def)
  from lower_loop_ok [OF tl _ assms(3) this] show ?thesis
    using assms(2) unfolding rbtree_lower_def root t(3) by blast
qed

end

section \<open>Properties\<close>

text \<open>A tree of three nodes: 2 at the root, 1 and 3 its red children.\<close>

definition three_nodes :: "(u16, nat) rb_heap" where
  "three_nodes = (\<lambda>p. \<lparr>rb_s = p, rb_p = if p = 2 then 0 else 2, rb_left = if p = 2 then 1 else 0,
     rb_right = if p = 2 then 3 else 0, rb_v = 10 * unat p, rb_color = if p = 2 then RB_BLACK else RB_RED\<rparr>)"

lemma three_nodes_rep: "rb_rep \<lparr>rb_root = 2, rb_size = 3\<rparr> three_nodes [1, 2, 3]"
  unfolding rb_rep_def
  by (intro conjI exI [of _ "Br Black (Br Red Lf 1 Lf) 2 (Br Red Lf 3 Lf)"])
     (simp_all add: cfg_def three_nodes_def rbt_def)

text \<open>C17: \<open>rbtree_insert\<close> of a node that is not in the tree always returns, within 64
  iterations of each loop; the result is a red-black tree that holds the old nodes in their order
  with the new node among them, its size is one more, and no other node is written. If the nodes
  smaller than the new one come first, it is put behind exactly these.\<close>

theorem rbtree_insert_correct:
  assumes "rb_rep T h xs" and "Suc (length xs) < 2 ^ 31" and "x \<noteq> 0" "x \<notin> set xs" "rb_s (h x) = x"
  shows "\<exists>T' h' ys zs. rbtree_insert cmp T h x = Inr (T', h') \<and> xs = ys @ zs
    \<and> rb_rep T' h' (ys @ x # zs) \<and> rb_same (insert x (set xs)) h h'
    \<and> (sorted_wrt (\<lambda>a b. cmp (rb_v (h b)) (rb_v (h x)) < 0 \<longrightarrow> cmp (rb_v (h a)) (rb_v (h x)) < 0) xs \<longrightarrow>
       ys = takeWhile (\<lambda>a. cmp (rb_v (h a)) (rb_v (h x)) < 0) xs \<and>
       zs = dropWhile (\<lambda>a. cmp (rb_v (h a)) (rb_v (h x)) < 0) xs)"
  using assms by (rule insert_rep)

theorem rbtree_insert_correct_witness:
  "\<exists>T' h'. rbtree_insert (\<lambda>a b. int a - int b) \<lparr>rb_root = 2, rb_size = 3\<rparr> three_nodes 7 = Inr (T', h')
    \<and> rb_rep T' h' [1, 2, 3, 7]"
  using rbtree_insert_correct [OF three_nodes_rep, of 7 "\<lambda>a b. int a - int b"]
  by (auto simp: three_nodes_def)

text \<open>C18: \<open>rbtree_delete\<close> of a node of the tree always returns; the result is a red-black
  tree that holds the other nodes in their order, with the size one less, and it writes to no
  other memory than the nodes and the sentinel on the stack.\<close>

theorem rbtree_delete_correct:
  assumes "rb_rep T h xs" and "a \<in> set xs"
  shows "\<exists>T' h'. rbtree_delete T h a = Inr (T', h') \<and> rb_rep T' h' (remove1 a xs)
    \<and> rb_size T' = rb_size T - 1 \<and> rb_same (insert 0 (set xs)) h h'"
proof -
  obtain T' h' where d: "rbtree_delete T h a = Inr (T', h')" "rb_rep T' h' (remove1 a xs)"
    "rb_same (insert 0 (set xs)) h h'" using delete_rep [OF assms] by blast
  have "rb_size T' = of_nat (length (remove1 a xs))" "rb_size T = of_nat (length xs)"
    using d(2) assms(1) unfolding rb_rep_def by blast+
  moreover obtain n where "length xs = Suc n" using assms(2) by (cases xs) auto
  ultimately have "rb_size T' = rb_size T - 1" using assms(2) by (simp add: length_remove1)
  with d show ?thesis by blast
qed

theorem rbtree_delete_correct_witness:
  "\<exists>T' h'. rbtree_delete \<lparr>rb_root = 2, rb_size = 3\<rparr> three_nodes 2 = Inr (T', h')
    \<and> rb_rep T' h' [1, 3] \<and> rb_size T' = 2"
  using rbtree_delete_correct [OF three_nodes_rep, of 2] by auto

text \<open>C27: the ends and the neighbours: \<open>rbtree_min\<close> and \<open>rbtree_max\<close> return the first
  and the last node, \<open>NULL\<close> for an empty tree; \<open>rbtree_next\<close> and \<open>rbtree_prev\<close>
  return the node after and before, \<open>NULL\<close> at the end.\<close>

theorem rbtree_walk_correct:
  assumes "rb_rep T h (ys @ a # zs)"
  shows "rbtree_min T h = Inr (Some (hd (ys @ [a]))) \<and> rbtree_max T h = Inr (Some (last (a # zs)))
    \<and> rbtree_next h a = Inr (case zs of [] \<Rightarrow> None | z # _ \<Rightarrow> Some z)
    \<and> rbtree_prev h a = Inr (if ys = [] then None else Some (last ys))"
proof -
  have "first (ys @ a # zs) = Some (hd (ys @ [a]))" by (cases ys) simp_all
  moreover have "first (rev (ys @ a # zs)) = Some (last (a # zs))"
    by (cases zs rule: rev_cases) simp_all
  moreover have "first (rev ys) = (if ys = [] then None else Some (last ys))"
    by (cases ys rule: rev_cases) simp_all
  ultimately show ?thesis
    using min_rep [OF assms] max_rep [OF assms] neighbours_rep [OF assms] by (simp add: first_def)
qed

theorem rbtree_walk_correct_witness:
  "rbtree_min \<lparr>rb_root = 2, rb_size = 3\<rparr> three_nodes = Inr (Some 1) \<and> rbtree_next three_nodes 2 = Inr (Some 3)"
proof -
  have "rb_rep \<lparr>rb_root = 2, rb_size = 3\<rparr> three_nodes ([1] @ 2 # [3])" using three_nodes_rep by simp
  from rbtree_walk_correct [OF this] show ?thesis by simp
qed

text \<open>C19: reading the tree node by node, from \<open>rbtree_min\<close> by \<open>rbtree_next\<close> or from
  \<open>rbtree_max\<close> by \<open>rbtree_prev\<close>, is the same as the in-order traversal that the
  abstract tree defines, and its reverse; the number of nodes met is the recorded size.\<close>

theorem rbtree_traversals:
  assumes "rb_rep T h xs"
  shows "rb_forward T h = Inr xs \<and> rb_backward T h = Inr (rev xs) \<and> unat (rb_size T) = length xs"
  using rb_forward_ok [OF assms] rb_backward_ok [OF assms] assms
  unfolding rb_rep_def by (auto intro: unat_of_nat_small)

theorem rbtree_traversals_witness:
  "rb_forward \<lparr>rb_root = 2, rb_size = 3\<rparr> three_nodes = Inr [1, 2, 3]
    \<and> rb_backward \<lparr>rb_root = 2, rb_size = 3\<rparr> three_nodes = Inr [3, 2, 1]"
  using rbtree_traversals [OF three_nodes_rep] by simp

text \<open>A tree of four nodes: 8 at the root, 4 and 9 its children, 6 to the right of 4.\<close>

definition four_nodes :: "(u16, nat) rb_heap" where
  "four_nodes = (\<lambda>p. \<lparr>rb_s = p, rb_p = if p = 8 then 0 else if p = 6 then 4 else 8, rb_left = if p = 8 then 4 else 0,
     rb_right = if p = 8 then 9 else if p = 4 then 6 else 0, rb_v = unat p,
     rb_color = if p = 6 then RB_RED else RB_BLACK\<rparr>)"

lemma four_nodes_rep: "rb_rep \<lparr>rb_root = 8, rb_size = 4\<rparr> four_nodes [4, 6, 8, 9]"
  unfolding rb_rep_def
  by (intro conjI exI [of _ "Br Black (Br Black Lf 4 (Br Red Lf 6 Lf)) 8 (Br Black Lf 9 Lf)"])
     (simp_all add: cfg_def four_nodes_def rbt_def)

text \<open>C38: \<open>rbtree_lower\<close> does not return the least node that is not below the value: in the
  tree of the values 4, 6, 8 and 9 the search for 5 stops at 4 and returns the node of 8, since the
  loop ends at the first node below the value once it has met one that is not.\<close>

theorem rbtree_lower_not_least:
  "rb_rep \<lparr>rb_root = 8, rb_size = 4\<rparr> four_nodes [4, 6, 8, 9]
    \<and> map (\<lambda>p. rb_v (four_nodes p)) [4, 6, 8, 9] = [4, 6, 8, 9]
    \<and> rbtree_lower (\<lambda>a b. int a - int b) \<lparr>rb_root = 8, rb_size = 4\<rparr> four_nodes 5 = Inr (Some 8)
    \<and> rbtree_find (\<lambda>a b. int a - int b) \<lparr>rb_root = 8, rb_size = 4\<rparr> four_nodes 6 = Inr (Some 6)"
proof -
  have fuel: "rb_fuel = Suc (Suc (Suc 61))" by (simp add: rb_fuel_def)
  have "lower_loop (Suc (Suc (Suc n))) (\<lambda>a b. int a - int b) four_nodes 8 5 None False = Inr (Some 8)"
    "find_loop (Suc (Suc (Suc n))) (\<lambda>a b. int a - int b) four_nodes 8 6 = Inr (Some 6)" for n
    by (simp_all add: rb_get_def four_nodes_def)
  from this [of 61, folded fuel]
  have "rbtree_lower (\<lambda>a b. int a - int b) \<lparr>rb_root = 8, rb_size = 4\<rparr> four_nodes 5 = Inr (Some 8)"
    "rbtree_find (\<lambda>a b. int a - int b) \<lparr>rb_root = 8, rb_size = 4\<rparr> four_nodes 6 = Inr (Some 6)"
    by (simp_all only: rbtree_lower_def rbtree_find_def rb_tree.select_convs)
  then show ?thesis using four_nodes_rep by (simp add: four_nodes_def)
qed

text \<open>A tree of \<open>n\<close> nodes is at most about twice as high as the logarithm of \<open>n\<close>, so below
  2 to the 31 nodes every loop over its levels ends within \<open>rb_fuel\<close> iterations.\<close>

lemma rb_rep_height:
  assumes "rb_rep T h xs"
  shows "\<exists>t. linked T h t \<and> inord t = xs \<and> 2 ^ (theight t div 2) \<le> Suc (length xs) \<and> theight t < rb_fuel"
proof -
  obtain t where t: "linked T h t" "rbt t" "inord t = xs" "length (inord t) < 2 ^ 31"
    using assms by (rule rb_repE)
  have i: "invc t" "invh t" "tcol t = Black" using t(2) by (auto simp: rbt_def)
  have "theight t div 2 \<le> bh t" using theight_bh [OF i(1,2)] i(3) by simp
  then have "(2 :: nat) ^ (theight t div 2) \<le> 2 ^ bh t" by (rule power_increasing) simp
  also have "\<dots> \<le> Suc (length xs)" using bh_size [OF i(2)] t(3) by simp
  finally show ?thesis using t rbt_height [OF t(2,4)] by (auto simp: rb_fuel_def)
qed

end
