(* ===== verification/ShmTree.thy ===== *)
theory ShmTree
  imports Prelude "HOL-Library.Tree_Multiset"
begin

text \<open>
  \<open>src/shm_tree.h\<close> and \<open>src/shm_tree.c\<close>: the leftist heap of runs with free blocks,
  ordered by position. The nodes are a total function from positions to nodes, position 0 is
  \<open>SHM_NULL\<close>; \<open>shm_tree_addr\<close> is a position with the address it translates to, and an
  access through the null address faults. The recursion of the merge has no bound in the code
  and is bounded by fuel here: \<open>merge_ok\<close> shows how much is enough for linked trees,
  \<open>shm_tree_repush_diverges\<close> that no amount is after a node was pushed twice.
\<close>

section \<open>The data and the operations\<close>

record shm_tree_node =
  tn_rank :: u32
  tn_root :: u64
  tn_left :: u64
  tn_right :: u64

record shm_pool =
  pool_root :: u64
  pool_size :: u32

record shm_tree_addr =
  sa_pos :: u64
  sa_addr :: "u64 option"

type_synonym tree_heap = "u64 \<Rightarrow> shm_tree_node"

definition shm_tree_getaddr :: "u64 \<Rightarrow> shm_tree_addr" where
  "shm_tree_getaddr p = \<lparr>sa_pos = p, sa_addr = (if p = 0 then None else Some p)\<rparr>"

text \<open>Reading and writing a node through its address.\<close>

definition tn_get :: "tree_heap \<Rightarrow> shm_tree_addr \<Rightarrow> shm_tree_node res" where
  "tn_get h a = (case sa_addr a of None \<Rightarrow> Inl NullDeref | Some p \<Rightarrow> Inr (h p))"

definition tn_put ::
  "tree_heap \<Rightarrow> shm_tree_addr \<Rightarrow> (shm_tree_node \<Rightarrow> shm_tree_node) \<Rightarrow> tree_heap res" where
  "tn_put h a f = (case sa_addr a of None \<Rightarrow> Inl NullDeref | Some p \<Rightarrow> Inr (h(p := f (h p))))"

text \<open>Lines 29 to 44 of \<open>shm_tree.c\<close>: the merged right child is attached, the two children
  are exchanged if the left one has the smaller rank.\<close>

definition merge_attach ::
  "tree_heap \<Rightarrow> shm_tree_addr \<Rightarrow> shm_tree_addr \<Rightarrow> (tree_heap \<times> shm_tree_addr) res" where
  "merge_attach h tr1 rnode =
     bind_r (tn_put h rnode (\<lambda>n. n\<lparr>tn_root := sa_pos tr1\<rparr>)) (\<lambda>h.
     bind_r (tn_put h tr1 (\<lambda>n. n\<lparr>tn_right := sa_pos rnode\<rparr>)) (\<lambda>h.
     bind_r (tn_get h tr1) (\<lambda>n1.
     if tn_left n1 = 0
     then bind_r (tn_put h tr1 (\<lambda>n. n\<lparr>tn_left := tn_right n, tn_right := 0\<rparr>)) (\<lambda>h. Inr (h, tr1))
     else bind_r (tn_get h (shm_tree_getaddr (tn_left n1))) (\<lambda>lnode.
          bind_r (tn_get h rnode) (\<lambda>rn.
          if tn_rank lnode < tn_rank rn
          then bind_r (tn_put h tr1 (\<lambda>n. n\<lparr>tn_left := tn_right n, tn_right := tn_left n,
                                            tn_rank := tn_rank lnode + 1\<rparr>)) (\<lambda>h. Inr (h, tr1))
          else bind_r (tn_put h tr1 (\<lambda>n. n\<lparr>tn_rank := tn_rank rn + 1\<rparr>)) (\<lambda>h. Inr (h, tr1)))))))"

primrec shm_tree_merge ::
  "nat \<Rightarrow> tree_heap \<Rightarrow> shm_tree_addr \<Rightarrow> shm_tree_addr \<Rightarrow> (tree_heap \<times> shm_tree_addr) res" where
  "shm_tree_merge 0 h tr1 tr2 = Inl OutOfFuel"
| "shm_tree_merge (Suc fuel) h tr1 tr2 =
     (if sa_pos tr1 = 0 then Inr (h, tr2)
      else if sa_pos tr2 = 0 then Inr (h, tr1)
      else let (tr1, tr2) = (if sa_pos tr1 > sa_pos tr2 then (tr2, tr1) else (tr1, tr2))
           in bind_r (tn_get h tr1) (\<lambda>n1.
              bind_r (shm_tree_merge fuel h (shm_tree_getaddr (tn_right n1)) tr2) (\<lambda>(h, rnode).
              merge_attach h tr1 rnode)))"

definition shm_tree_push ::
  "nat \<Rightarrow> shm_pool \<Rightarrow> tree_heap \<Rightarrow> u64 \<Rightarrow> (shm_pool \<times> tree_heap) res" where
  "shm_tree_push fuel pool h node =
     (let proot = shm_tree_getaddr (pool_root pool);
          pnode = shm_tree_getaddr node
      in bind_r (shm_tree_merge fuel h proot pnode) (\<lambda>(h, r).
         Inr (pool\<lparr>pool_root := sa_pos r, pool_size := pool_size pool + 1\<rparr>, h)))"

text \<open>The root of a merged subtree, if there is one, gets its new parent; the child link of a
  parent that led to \<open>node\<close> is set to \<open>r\<close>.\<close>

definition tn_reroot :: "tree_heap \<Rightarrow> shm_tree_addr \<Rightarrow> u64 \<Rightarrow> tree_heap res" where
  "tn_reroot h r q = (if sa_addr r \<noteq> None then tn_put h r (\<lambda>n. n\<lparr>tn_root := q\<rparr>) else Inr h)"

definition tn_relink :: "tree_heap \<Rightarrow> shm_tree_addr \<Rightarrow> u64 \<Rightarrow> u64 \<Rightarrow> tree_heap res" where
  "tn_relink h root node r =
     bind_r (tn_get h root) (\<lambda>n.
     if node = tn_left n then tn_put h root (\<lambda>n. n\<lparr>tn_left := r\<rparr>)
     else tn_put h root (\<lambda>n. n\<lparr>tn_right := r\<rparr>))"

definition shm_tree_pop :: "nat \<Rightarrow> shm_pool \<Rightarrow> tree_heap \<Rightarrow> (shm_pool \<times> tree_heap) res" where
  "shm_tree_pop fuel pool h =
     assert_r (pool_size pool > 0) (
     let proot = shm_tree_getaddr (pool_root pool)
     in bind_r (tn_get h proot) (\<lambda>n.
        let left = shm_tree_getaddr (tn_left n);
            right = shm_tree_getaddr (tn_right n)
        in bind_r (shm_tree_merge fuel h left right) (\<lambda>(h, r).
           bind_r (tn_reroot h r 0) (\<lambda>h.
           Inr (pool\<lparr>pool_root := sa_pos r, pool_size := pool_size pool - 1\<rparr>, h)))))"

definition shm_tree_remove ::
  "nat \<Rightarrow> shm_pool \<Rightarrow> tree_heap \<Rightarrow> u64 \<Rightarrow> (shm_pool \<times> tree_heap) res" where
  "shm_tree_remove fuel pool h node =
     (if pool_root pool = node then shm_tree_pop fuel pool h
      else let pnode = shm_tree_getaddr node
           in bind_r (tn_get h pnode) (\<lambda>n.
              let left = shm_tree_getaddr (tn_left n);
                  right = shm_tree_getaddr (tn_right n)
              in bind_r (shm_tree_merge fuel h left right) (\<lambda>(h, r).
                 bind_r (tn_get h pnode) (\<lambda>n.
                 let root = shm_tree_getaddr (tn_root n)
                 in bind_r (tn_reroot h r (sa_pos root)) (\<lambda>h.
                    bind_r (tn_relink h root node (sa_pos r)) (\<lambda>h.
                    Inr (pool\<lparr>pool_size := pool_size pool - 1\<rparr>, h)))))))"

lemma getaddr_simps [simp]:
  "sa_pos (shm_tree_getaddr p) = p" "sa_addr (shm_tree_getaddr p) = (if p = 0 then None else Some p)"
  by (simp_all add: shm_tree_getaddr_def)

lemma tn_get_getaddr [simp]: "p \<noteq> 0 \<Longrightarrow> tn_get h (shm_tree_getaddr p) = Inr (h p)"
  by (simp add: tn_get_def)

lemma tn_put_getaddr [simp]: "p \<noteq> 0 \<Longrightarrow> tn_put h (shm_tree_getaddr p) f = Inr (h(p := f (h p)))"
  by (simp add: tn_put_def)

section \<open>Linked trees\<close>

primrec rt :: "u64 tree \<Rightarrow> u64" where
  "rt \<langle>\<rangle> = 0"
| "rt \<langle>l, a, r\<rangle> = a"

primrec tlk :: "tree_heap \<Rightarrow> u64 \<Rightarrow> u64 tree \<Rightarrow> bool" where
  "tlk h par \<langle>\<rangle> = True"
| "tlk h par \<langle>l, a, r\<rangle> =
     (a \<noteq> 0 \<and> tn_root (h a) = par \<and> tn_left (h a) = rt l \<and> tn_right (h a) = rt r
      \<and> tlk h a l \<and> tlk h a r)"

lemma tlk_cong: "(\<And>q. q \<in> set_tree t \<Longrightarrow> h' q = h q) \<Longrightarrow> tlk h' par t = tlk h par t"
  by (induction t arbitrary: par) auto

lemma tlk_upd [simp]: "a \<notin> set_tree t \<Longrightarrow> tlk (h(a := n)) par t = tlk h par t"
  by (rule tlk_cong) auto

lemma tlk_root: "tlk h par t \<Longrightarrow> distinct (inorder t) \<Longrightarrow> t \<noteq> \<langle>\<rangle> \<Longrightarrow>
   tlk (h(rt t := (h (rt t))\<lparr>tn_root := q\<rparr>)) q t"
  by (cases t) auto

lemma tlk_nonzero: "tlk h par t \<Longrightarrow> 0 \<notin> set_tree t"
  by (induction t arbitrary: par) auto

lemma rt_in: "t \<noteq> \<langle>\<rangle> \<Longrightarrow> rt t \<in> set_tree t"
  by (cases t) auto

lemma rt_zero: "tlk h par t \<Longrightarrow> rt t = 0 \<longleftrightarrow> t = \<langle>\<rangle>"
  by (cases t) auto

section \<open>Merging\<close>

lemma merge_attach_ok:
  assumes l: "tlk h a l" and s: "tlk h p s" "s \<noteq> \<langle>\<rangle>" and n: "a \<noteq> 0" "tn_left (h a) = rt l"
    and d: "distinct (inorder l @ a # inorder s)"
  shows "\<exists>h' l' r'. merge_attach h (shm_tree_getaddr a) (shm_tree_getaddr (rt s))
      = Inr (h', shm_tree_getaddr a)
    \<and> tlk h' (tn_root (h a)) \<langle>l', a, r'\<rangle> \<and> (l' = l \<and> r' = s \<or> l' = s \<and> r' = l)
    \<and> (\<forall>q. q \<notin> insert a (set_tree s) \<longrightarrow> h' q = h q)"
proof -
  have s0: "rt s \<noteq> 0" "rt s \<in> set_tree s" using s rt_zero rt_in by auto
  have ds: "distinct (inorder s)" "a \<notin> set_tree s" "a \<notin> set_tree l" "rt s \<noteq> a" "rt s \<notin> set_tree l"
    using d s0 by auto
  define h1 where "h1 = h(rt s := (h (rt s))\<lparr>tn_root := a\<rparr>)"
  define h2 where "h2 = h1(a := (h1 a)\<lparr>tn_right := rt s\<rparr>)"
  have t: "tlk h2 a s" "tlk h2 a l"
    using tlk_root [OF s(1) ds(1) s(2), of a] l ds by (simp_all add: h2_def h1_def)
  have na: "tn_left (h2 a) = rt l" "tn_right (h2 a) = rt s" "tn_root (h2 a) = tn_root (h a)"
    using n ds by (simp_all add: h2_def h1_def)
  have fr: "\<forall>q. q \<notin> insert a (set_tree s) \<longrightarrow> h2 q = h q" using s0 by (auto simp: h2_def h1_def)
  have start: "merge_attach h (shm_tree_getaddr a) (shm_tree_getaddr (rt s)) =
     (if tn_left (h2 a) = 0
      then Inr (h2(a := (h2 a)\<lparr>tn_left := tn_right (h2 a), tn_right := 0\<rparr>), shm_tree_getaddr a)
      else if tn_rank (h2 (tn_left (h2 a))) < tn_rank (h2 (rt s))
      then Inr (h2(a := (h2 a)\<lparr>tn_left := tn_right (h2 a), tn_right := tn_left (h2 a),
             tn_rank := tn_rank (h2 (tn_left (h2 a))) + 1\<rparr>), shm_tree_getaddr a)
      else Inr (h2(a := (h2 a)\<lparr>tn_rank := tn_rank (h2 (rt s)) + 1\<rparr>), shm_tree_getaddr a))"
    using n s0 by (simp add: merge_attach_def h2_def h1_def)
  show ?thesis
  proof (cases "l = \<langle>\<rangle>")
    case True
    then show ?thesis
      unfolding start using t na n ds fr
      by (intro exI [of _ "h2(a := (h2 a)\<lparr>tn_left := tn_right (h2 a), tn_right := 0\<rparr>)"]
          exI [of _ s] exI [of _ l]) simp
  next
    case False
    then have l0: "rt l \<noteq> 0" using l rt_zero by blast
    show ?thesis
    proof (cases "tn_rank (h2 (rt l)) < tn_rank (h2 (rt s))")
      case True
      then show ?thesis
        unfolding start using t na n ds fr l0
        by (intro exI [of _ "h2(a := (h2 a)\<lparr>tn_left := tn_right (h2 a), tn_right := tn_left (h2 a),
             tn_rank := tn_rank (h2 (tn_left (h2 a))) + 1\<rparr>)"] exI [of _ s] exI [of _ l]) simp
    next
      case False
      then show ?thesis
        unfolding start using t na n ds fr l0
        by (intro exI [of _ "h2(a := (h2 a)\<lparr>tn_rank := tn_rank (h2 (rt s)) + 1\<rparr>)"]
            exI [of _ l] exI [of _ s]) simp
    qed
  qed
qed

definition merged ::
  "tree_heap \<Rightarrow> u64 tree \<Rightarrow> u64 tree \<Rightarrow> tree_heap \<Rightarrow> u64 tree \<Rightarrow> bool" where
  "merged h t1 t2 h' t' \<longleftrightarrow> (\<exists>p. tlk h' p t') \<and> mset_tree t' = mset_tree t1 + mset_tree t2
     \<and> (heap t1 \<longrightarrow> heap t2 \<longrightarrow> heap t')
     \<and> (\<forall>q. q \<notin> set_tree t1 \<union> set_tree t2 \<longrightarrow> h' q = h q)"

lemma distinct_mset_tree: "mset_tree t = mset xs \<Longrightarrow> distinct (inorder t) = distinct xs"
  by (metis mset_inorder mset_eq_imp_distinct_iff)

lemma set_mset_tree2: "mset_tree t' = mset_tree t1 + mset_tree t2 \<Longrightarrow>
   set_tree t' = set_tree t1 \<union> set_tree t2"
  by (metis set_mset_tree set_mset_union)

lemma merged_swap: "merged h t1 t2 h' t' = merged h t2 t1 h' t'"
  by (auto simp: merged_def union_commute)

lemma merge_step:
  assumes t1: "tlk h p1 \<langle>l, a, r\<rangle>" and t2: "t2 \<noteq> \<langle>\<rangle>" "a \<le> rt t2"
    and d: "distinct (inorder \<langle>l, a, r\<rangle> @ inorder t2)"
    and m: "shm_tree_merge fuel h (shm_tree_getaddr (rt r)) (shm_tree_getaddr (rt t2))
      = Inr (h1, shm_tree_getaddr (rt s))" "merged h r t2 h1 s"
  shows "\<exists>h' t'. merge_attach h1 (shm_tree_getaddr a) (shm_tree_getaddr (rt s))
      = Inr (h', shm_tree_getaddr (rt t')) \<and> merged h \<langle>l, a, r\<rangle> t2 h' t'"
proof -
  obtain p where s: "tlk h1 p s" and ms: "mset_tree s = mset_tree r + mset_tree t2"
    and hp: "heap r \<Longrightarrow> heap t2 \<Longrightarrow> heap s"
    and fr: "\<And>q. q \<notin> set_tree r \<union> set_tree t2 \<Longrightarrow> h1 q = h q"
    using m(2) unfolding merged_def by blast
  have ss: "set_tree s = set_tree r \<union> set_tree t2" using ms by (rule set_mset_tree2)
  have s0: "s \<noteq> \<langle>\<rangle>" using ms t2(1) by (cases t2) auto
  have "distinct (inorder s) = distinct (inorder r @ inorder t2)"
    by (rule distinct_mset_tree) (simp add: ms)
  then have ds: "distinct (inorder l @ a # inorder s)" using d ss by auto
  have l: "tlk h1 a l"
    using t1 tlk_cong [of l h1 h a] fr d by auto
  have ha: "h1 a = h a" using fr d by auto
  obtain h' l' r' where at: "merge_attach h1 (shm_tree_getaddr a) (shm_tree_getaddr (rt s))
      = Inr (h', shm_tree_getaddr a)" "tlk h' (tn_root (h1 a)) \<langle>l', a, r'\<rangle>"
      and lr: "l' = l \<and> r' = s \<or> l' = s \<and> r' = l"
      and fr': "\<forall>q. q \<notin> insert a (set_tree s) \<longrightarrow> h' q = h1 q"
    using merge_attach_ok [OF l s s0 _ _ ds] t1 ha by auto
  have "mset_tree \<langle>l', a, r'\<rangle> = mset_tree \<langle>l, a, r\<rangle> + mset_tree t2"
    using lr ms by (auto simp: ac_simps)
  moreover have "heap \<langle>l', a, r'\<rangle>" if "heap \<langle>l, a, r\<rangle>" "heap t2"
  proof -
    have "a \<le> x" if "x \<in> set_tree t2" for x
      using \<open>heap t2\<close> t2 that by (cases t2) (auto intro: order_trans)
    then show ?thesis using lr hp that ss by auto
  qed
  moreover have "\<forall>q. q \<notin> set_tree \<langle>l, a, r\<rangle> \<union> set_tree t2 \<longrightarrow> h' q = h q"
    using fr fr' ss by simp
  ultimately have "merged h \<langle>l, a, r\<rangle> t2 h' \<langle>l', a, r'\<rangle>"
    using at(2) unfolding merged_def by blast
  then show ?thesis using at(1) by (intro exI [of _ h'] exI [of _ "\<langle>l', a, r'\<rangle>"]) simp
qed

lemma merge_ok:
  assumes "tlk h p1 t1" and "tlk h p2 t2" and "distinct (inorder t1 @ inorder t2)"
    and "size t1 + size t2 < fuel"
  shows "\<exists>h' t'. shm_tree_merge fuel h (shm_tree_getaddr (rt t1)) (shm_tree_getaddr (rt t2))
      = Inr (h', shm_tree_getaddr (rt t')) \<and> merged h t1 t2 h' t'"
  using assms
proof (induction fuel arbitrary: p1 t1 p2 t2)
  case (Suc fuel)
  show ?case
  proof (cases "t1 = \<langle>\<rangle> \<or> t2 = \<langle>\<rangle>")
    case True
    then show ?thesis
    proof
      assume "t1 = \<langle>\<rangle>"
      with Suc.prems(2) show ?thesis
        by (intro exI [of _ h] exI [of _ t2]) (auto simp: merged_def)
    next
      assume "t2 = \<langle>\<rangle>"
      with Suc.prems(1) rt_zero [OF Suc.prems(1)] show ?thesis
        by (intro exI [of _ h] exI [of _ t1]) (auto simp: merged_def)
    qed
  next
    case False
    then obtain l1 a1 r1 l2 a2 r2 where t: "t1 = \<langle>l1, a1, r1\<rangle>" "t2 = \<langle>l2, a2, r2\<rangle>"
      by (cases t1; cases t2) auto
    have a0: "a1 \<noteq> 0" "a2 \<noteq> 0" using Suc.prems(1,2) t by auto
    show ?thesis
    proof (cases "a1 > a2")
      case False
      have "\<exists>h1 s. shm_tree_merge fuel h (shm_tree_getaddr (rt r1)) (shm_tree_getaddr (rt t2))
          = Inr (h1, shm_tree_getaddr (rt s)) \<and> merged h r1 t2 h1 s"
        by (rule Suc.IH [of a1 _ p2]) (use Suc.prems t in auto)
      then obtain h1 s where m: "shm_tree_merge fuel h (shm_tree_getaddr (rt r1))
          (shm_tree_getaddr (rt t2)) = Inr (h1, shm_tree_getaddr (rt s))" "merged h r1 t2 h1 s" by blast
      obtain h' t' where r: "merge_attach h1 (shm_tree_getaddr a1) (shm_tree_getaddr (rt s))
          = Inr (h', shm_tree_getaddr (rt t'))" "merged h t1 t2 h' t'"
        using merge_step [OF Suc.prems(1) [unfolded t(1)] _ _ Suc.prems(3) [unfolded t(1)] m]
          False t by (auto simp: not_less)
      have "shm_tree_merge (Suc fuel) h (shm_tree_getaddr (rt t1)) (shm_tree_getaddr (rt t2))
          = Inr (h', shm_tree_getaddr (rt t'))"
        using m(1) r(1) a0 False t Suc.prems(1) by simp
      with r(2) show ?thesis by blast
    next
      case True
      have "\<exists>h1 s. shm_tree_merge fuel h (shm_tree_getaddr (rt r2)) (shm_tree_getaddr (rt t1))
          = Inr (h1, shm_tree_getaddr (rt s)) \<and> merged h r2 t1 h1 s"
        by (rule Suc.IH [of a2 _ p1]) (use Suc.prems t in auto)
      then obtain h1 s where m: "shm_tree_merge fuel h (shm_tree_getaddr (rt r2))
          (shm_tree_getaddr (rt t1)) = Inr (h1, shm_tree_getaddr (rt s))" "merged h r2 t1 h1 s" by blast
      have d: "distinct (inorder t2 @ inorder t1)" using Suc.prems(3) by auto
      obtain h' t' where r: "merge_attach h1 (shm_tree_getaddr a2) (shm_tree_getaddr (rt s))
          = Inr (h', shm_tree_getaddr (rt t'))" "merged h t2 t1 h' t'"
        using merge_step [OF Suc.prems(2) [unfolded t(2)] _ _ d [unfolded t(2)] m]
          True t by (auto simp: less_imp_le)
      have "shm_tree_merge (Suc fuel) h (shm_tree_getaddr (rt t1)) (shm_tree_getaddr (rt t2))
          = Inr (h', shm_tree_getaddr (rt t'))"
        using m(1) r(1) a0 True t Suc.prems(2) by simp
      with r(2) merged_swap show ?thesis by blast
    qed
  qed
qed simp

section \<open>Pools of positions\<close>

text \<open>The pool holds the set \<open>A\<close>: a linked tree, ordered by position, and the size.\<close>

definition pool_rep :: "shm_pool \<Rightarrow> tree_heap \<Rightarrow> u64 set \<Rightarrow> bool" where
  "pool_rep pool h A \<longleftrightarrow> (\<exists>t p. pool_root pool = rt t \<and> tlk h p t \<and> heap t \<and> distinct (inorder t)
     \<and> set_tree t = A \<and> pool_size pool = of_nat (size t)) \<and> card A < 2 ^ 32"

lemma size_card: "distinct (inorder t) \<Longrightarrow> size t = card (set_tree t)"
  by (metis distinct_card length_inorder set_inorder)

lemma pool_repE:
  assumes "pool_rep pool h A"
  obtains t p where "pool_root pool = rt t" "tlk h p t" "heap t" "distinct (inorder t)"
    "set_tree t = A" "pool_size pool = of_nat (size t)" "size t = card A" "card A < 2 ^ 32"
  using assms size_card unfolding pool_rep_def by blast

lemma pool_repI:
  assumes "tlk h p t" "heap t" "distinct (inorder t)" "set_tree t = A"
    "pool_size pool = of_nat (card A)" "pool_root pool = rt t" "card A < 2 ^ 32"
  shows "pool_rep pool h A"
  unfolding pool_rep_def using assms size_card by metis

lemma pool_rep_empty: "pool_rep \<lparr>pool_root = 0, pool_size = 0\<rparr> h {}"
  by (rule pool_repI [of _ 0 "\<langle>\<rangle>"]) simp_all

lemma pool_rep_cong:
  assumes "pool_rep pool h A" and "\<And>q. q \<in> A \<Longrightarrow> h' q = h q"
  shows "pool_rep pool h' A"
  using assms(1) by (rule pool_repE) (rule pool_repI, auto simp: assms(2) cong: tlk_cong)

lemma pool_rep_finite: "pool_rep pool h A \<Longrightarrow> finite A"
  by (auto simp: pool_rep_def)

lemma pool_rep_nonzero: "pool_rep pool h A \<Longrightarrow> 0 \<notin> A"
  by (auto simp: pool_rep_def dest: tlk_nonzero)

lemma heap_Min: "heap t \<Longrightarrow> t \<noteq> \<langle>\<rangle> \<Longrightarrow> rt t = Min (set_tree t)"
  by (cases t) (auto intro!: Min_eqI [symmetric])

lemma pool_rep_root: "pool_rep pool h A \<Longrightarrow> pool_root pool = (if A = {} then 0 else Min A)"
proof -
  assume "pool_rep pool h A"
  then obtain t where t: "pool_root pool = rt t" "heap t" "set_tree t = A" by (rule pool_repE)
  show ?thesis
  proof (cases "t = \<langle>\<rangle>")
    case False
    then have "A \<noteq> {}" using t(3) by (cases t) auto
    then show ?thesis using heap_Min [OF t(2) False] t by simp
  qed (use t in auto)
qed

lemma distinct_merged:
  assumes "mset_tree t' = mset_tree t1 + mset_tree t2" "distinct (inorder t1 @ inorder t2)"
  shows "distinct (inorder t')"
  using assms distinct_mset_tree [of t' "inorder t1 @ inorder t2"] by simp

lemma push_rep:
  assumes "pool_rep pool h A" and x: "x \<noteq> 0" "x \<notin> A" "tn_left (h x) = 0" "tn_right (h x) = 0"
    and "Suc (card A) < 2 ^ 32" and "Suc (card A) < fuel"
  shows "\<exists>pool' h'. shm_tree_push fuel pool h x = Inr (pool', h') \<and> pool_rep pool' h' (insert x A)
    \<and> (\<forall>q. q \<notin> insert x A \<longrightarrow> h' q = h q)"
proof -
  obtain t p where t: "pool_root pool = rt t" "tlk h p t" "heap t" "distinct (inorder t)"
    "set_tree t = A" "pool_size pool = of_nat (size t)" "size t = card A"
    using assms(1) by (rule pool_repE)
  let ?x = "\<langle>\<langle>\<rangle>, x, \<langle>\<rangle>\<rangle>"
  have d: "distinct (inorder t @ inorder ?x)" using t x by simp
  obtain h' t' where m: "shm_tree_merge fuel h (shm_tree_getaddr (rt t)) (shm_tree_getaddr (rt ?x))
      = Inr (h', shm_tree_getaddr (rt t'))" "merged h t ?x h' t'"
    using merge_ok [OF t(2), of "tn_root (h x)" ?x fuel] d x t(7) assms(7) by auto
  have st: "set_tree t' = insert x A" using set_mset_tree2 [of t' t ?x] m(2) t(5) by (auto simp: merged_def)
  have "card (insert x A) = Suc (card A)" using pool_rep_finite [OF assms(1)] x by simp
  moreover have "distinct (inorder t')" using distinct_merged [OF _ d] m(2) unfolding merged_def by blast
  ultimately have "pool_rep (pool\<lparr>pool_root := rt t', pool_size := pool_size pool + 1\<rparr>) h' (insert x A)"
    using m(2) t st assms(6) unfolding merged_def by (auto intro!: pool_repI)
  then show ?thesis using m t(1,5) by (auto simp: shm_tree_push_def merged_def)
qed

text \<open>The root of the subtree left after a merge gets a new parent.\<close>

definition reroot :: "tree_heap \<Rightarrow> u64 \<Rightarrow> u64 \<Rightarrow> tree_heap" where
  "reroot h r q = (if r \<noteq> 0 then h(r := (h r)\<lparr>tn_root := q\<rparr>) else h)"

lemma tn_reroot [simp]: "tn_reroot h (shm_tree_getaddr r) q = Inr (reroot h r q)"
  by (simp add: tn_reroot_def reroot_def)

lemma reroot_tlk:
  assumes "tlk h p t" "distinct (inorder t)"
  shows "tlk (reroot h (rt t) q) q t" and "z \<notin> set_tree t \<Longrightarrow> reroot h (rt t) q z = h z"
  using tlk_root [OF assms, of q] rt_zero [OF assms(1)] rt_in [of t]
  by (cases "t = \<langle>\<rangle>"; auto simp: reroot_def)+

lemma pop_rep:
  assumes "pool_rep pool h A" and "A \<noteq> {}" and "card A \<le> fuel"
  shows "\<exists>pool' h'. shm_tree_pop fuel pool h = Inr (pool', h') \<and> pool_rep pool' h' (A - {Min A})
    \<and> (\<forall>q. q \<notin> A - {Min A} \<longrightarrow> h' q = h q)"
proof -
  obtain t p where t: "pool_root pool = rt t" "tlk h p t" "heap t" "distinct (inorder t)"
    "set_tree t = A" "pool_size pool = of_nat (size t)" "size t = card A" "card A < 2 ^ 32"
    using assms(1) by (rule pool_repE)
  obtain l a r where tt: "t = \<langle>l, a, r\<rangle>" using t(5) assms(2) by (cases t) auto
  have a: "a = Min A" using heap_Min [OF t(3)] t(5) tt by simp
  have d: "distinct (inorder l @ inorder r)" "a \<notin> set_tree l" "a \<notin> set_tree r" using t(4) tt by auto
  have lr: "tlk h a l" "tlk h a r" "a \<noteq> 0" "tn_left (h a) = rt l" "tn_right (h a) = rt r"
    using t(2) tt by simp_all
  have sz: "size l + size r < fuel" using t(7) tt assms(3) by simp
  obtain h1 s where m: "shm_tree_merge fuel h (shm_tree_getaddr (rt l)) (shm_tree_getaddr (rt r))
      = Inr (h1, shm_tree_getaddr (rt s))" "merged h l r h1 s"
    using merge_ok [OF lr(1,2) d(1) sz] by blast
  obtain p' where s: "tlk h1 p' s" "heap s" "mset_tree s = mset_tree l + mset_tree r"
      and fr: "\<forall>q. q \<notin> set_tree l \<union> set_tree r \<longrightarrow> h1 q = h q"
    using m(2) t(3) tt unfolding merged_def by auto
  have ds: "distinct (inorder s)" using distinct_merged [OF s(3) d(1)] .
  have ss: "set_tree s = A - {a}" using set_mset_tree2 [OF s(3)] t(5) tt d by auto
  let ?h = "reroot h1 (rt s) 0"
  have n: "size t = Suc (card (A - {a}))" using t(5,7) tt a card_Suc_Diff1 [of A a] by (simp, metis
    Un_iff finite_set_tree insertCI)
  have "pool_size pool > 0"
    using t(6-8) n by (simp add: word_greater_zero_iff word_of_nat_eq_0_iff nat_dvd_not_less)
  then have eq: "shm_tree_pop fuel pool h
      = Inr (pool\<lparr>pool_root := rt s, pool_size := pool_size pool - 1\<rparr>, ?h)"
    using m(1) lr t(1) tt by (simp add: shm_tree_pop_def)
  have "pool_rep (pool\<lparr>pool_root := rt s, pool_size := pool_size pool - 1\<rparr>) ?h (A - {a})"
    by (rule pool_repI [OF reroot_tlk(1) [OF s(1) ds]]) (use s ds ss n t in simp_all)
  moreover have "\<forall>q. q \<notin> A - {a} \<longrightarrow> ?h q = h q"
    using reroot_tlk(2) [OF s(1) ds] fr ss t(5) tt d(2,3) by auto
  ultimately show ?thesis using eq a by blast
qed

text \<open>A subtree below the root, and the tree with another subtree in its place.\<close>

definition relink :: "tree_heap \<Rightarrow> u64 \<Rightarrow> u64 \<Rightarrow> u64 \<Rightarrow> tree_heap" where
  "relink h q x y = h(q := if x = tn_left (h q) then (h q)\<lparr>tn_left := y\<rparr> else (h q)\<lparr>tn_right := y\<rparr>)"

definition fits :: "tree_heap \<Rightarrow> u64 \<Rightarrow> u64 tree \<Rightarrow> u64 tree \<Rightarrow> u64 \<Rightarrow> bool" where
  "fits h par t s q \<longleftrightarrow> (\<forall>s' h'. tlk h' q s' \<longrightarrow> (\<forall>z. z \<notin> set_tree s \<longrightarrow> h' z = h z)
     \<longrightarrow> set_tree s' \<subseteq> set_tree s \<longrightarrow> heap s' \<longrightarrow>
     (\<exists>t'. tlk (relink h' q (rt s) (rt s')) par t' \<and> rt t' = rt t \<and> heap t'
        \<and> mset_tree t' + mset_tree s = mset_tree t + mset_tree s'))"

lemma tn_relink [simp]: "q \<noteq> 0 \<Longrightarrow> tn_relink h (shm_tree_getaddr q) x y = Inr (relink h q x y)"
  by (simp add: tn_relink_def relink_def)

lemma relink_other: "z \<noteq> q \<Longrightarrow> relink h q x y z = h z"
  by (simp add: relink_def)

lemma fits_root:
  assumes t: "tlk h par t" "distinct (inorder t)" "heap t" and s: "s \<noteq> \<langle>\<rangle>"
  shows "t = \<langle>s, a, r\<rangle> \<Longrightarrow> fits h par t s a" and "t = \<langle>l, a, s\<rangle> \<Longrightarrow> fits h par t s a"
proof -
  assume tt: "t = \<langle>s, a, r\<rangle>"
  show "fits h par t s a"
    unfolding fits_def
  proof (intro allI impI)
    fix s' h'
    assume h': "tlk h' a s'" "\<forall>z. z \<notin> set_tree s \<longrightarrow> h' z = h z" "set_tree s' \<subseteq> set_tree s" "heap s'"
    have "tlk h' a r" using t tt h'(2) tlk_cong [of r h' h a] by auto
    moreover have "h' a = h a" "a \<notin> set_tree s'" using t tt h'(2,3) by auto
    ultimately have "tlk (relink h' a (rt s) (rt s')) par \<langle>s', a, r\<rangle>"
      using t tt h'(1) by (simp add: relink_def)
    moreover have "heap \<langle>s', a, r\<rangle>" using t(3) tt h'(3,4) by auto
    ultimately show "\<exists>t'. tlk (relink h' a (rt s) (rt s')) par t' \<and> rt t' = rt t \<and> heap t'
        \<and> mset_tree t' + mset_tree s = mset_tree t + mset_tree s'"
      using tt by (intro exI [of _ "\<langle>s', a, r\<rangle>"]) (simp add: ac_simps)
  qed
next
  assume tt: "t = \<langle>l, a, s\<rangle>"
  have "rt s \<noteq> rt l"
    using t tt s rt_in [of s] rt_in [of l] rt_zero [of h a s] by (cases l) auto
  then have lf: "rt s \<noteq> tn_left (h a)" using t(1) tt by simp
  show "fits h par t s a"
    unfolding fits_def
  proof (intro allI impI)
    fix s' h'
    assume h': "tlk h' a s'" "\<forall>z. z \<notin> set_tree s \<longrightarrow> h' z = h z" "set_tree s' \<subseteq> set_tree s" "heap s'"
    have "tlk h' a l" using t tt h'(2) tlk_cong [of l h' h a] by auto
    moreover have "h' a = h a" "a \<notin> set_tree s'" using t tt h'(2,3) by auto
    ultimately have "tlk (relink h' a (rt s) (rt s')) par \<langle>l, a, s'\<rangle>"
      using t tt h'(1) lf by (simp add: relink_def)
    moreover have "heap \<langle>l, a, s'\<rangle>" using t(3) tt h'(3,4) by auto
    ultimately show "\<exists>t'. tlk (relink h' a (rt s) (rt s')) par t' \<and> rt t' = rt t \<and> heap t'
        \<and> mset_tree t' + mset_tree s = mset_tree t + mset_tree s'"
      using tt by (intro exI [of _ "\<langle>l, a, s'\<rangle>"]) (simp add: ac_simps)
  qed
qed

lemma fits_sub:
  assumes t: "tlk h par t" "distinct (inorder t)" "heap t"
    and u: "fits h a u s q" "q \<in> set_tree u" "set_tree s \<subseteq> set_tree u"
  shows "t = \<langle>u, a, r\<rangle> \<or> t = \<langle>l, a, u\<rangle> \<Longrightarrow> fits h par t s q"
proof -
  assume tt: "t = \<langle>u, a, r\<rangle> \<or> t = \<langle>l, a, u\<rangle>"
  show "fits h par t s q"
    unfolding fits_def
  proof (intro allI impI)
    fix s' h'
    assume h': "tlk h' q s'" "\<forall>z. z \<notin> set_tree s \<longrightarrow> h' z = h z" "set_tree s' \<subseteq> set_tree s" "heap s'"
    let ?h = "relink h' q (rt s) (rt s')"
    obtain u' where u': "tlk ?h a u'" "rt u' = rt u" "heap u'"
        "mset_tree u' + mset_tree s = mset_tree u + mset_tree s'"
      using u(1) h' unfolding fits_def by blast
    have "set_tree u' \<subseteq> set_tree u \<union> set_tree s'"
      using u'(4) by (metis Un_upper1 set_mset_tree set_mset_union)
    then have su: "set_tree u' \<subseteq> set_tree u" using u(3) h'(3) by auto
    have out: "?h z = h z" if "z \<notin> set_tree u" for z
      using that u(2,3) h'(2) relink_other [of z q h'] by (metis subsetD)
    from tt show "\<exists>t'. tlk ?h par t' \<and> rt t' = rt t \<and> heap t'
        \<and> mset_tree t' + mset_tree s = mset_tree t + mset_tree s'"
    proof
      assume tt: "t = \<langle>u, a, r\<rangle>"
      have "tlk ?h a r" "?h a = h a" using t tt out tlk_cong [of r ?h h a] by auto
      then have "tlk ?h par \<langle>u', a, r\<rangle>" using t tt u' by simp
      moreover have "heap \<langle>u', a, r\<rangle>" using t(3) tt su u'(3) by auto
      ultimately show ?thesis using u'(4) tt by (intro exI [of _ "\<langle>u', a, r\<rangle>"]) (simp add: ac_simps)
    next
      assume tt: "t = \<langle>l, a, u\<rangle>"
      have "tlk ?h a l" "?h a = h a" using t tt out tlk_cong [of l ?h h a] by auto
      then have "tlk ?h par \<langle>l, a, u'\<rangle>" using t tt u' by simp
      moreover have "heap \<langle>l, a, u'\<rangle>" using t(3) tt su u'(3) by auto
      ultimately show ?thesis using u'(4) tt by (intro exI [of _ "\<langle>l, a, u'\<rangle>"]) (simp add: ac_simps)
    qed
  qed
qed

definition subtree_at :: "tree_heap \<Rightarrow> u64 \<Rightarrow> u64 tree \<Rightarrow> u64 tree \<Rightarrow> u64 \<Rightarrow> bool" where
  "subtree_at h par t s q \<longleftrightarrow> tlk h q s \<and> distinct (inorder s) \<and> heap s \<and> q \<noteq> 0
     \<and> q \<in> set_tree t \<and> q \<notin> set_tree s \<and> set_tree s \<subseteq> set_tree t \<and> size s < size t
     \<and> fits h par t s q"

lemma subtree_fits:
  assumes "tlk h par t" "distinct (inorder t)" "heap t" "x \<in> set_tree t" "x \<noteq> rt t"
  shows "\<exists>l r q. subtree_at h par t \<langle>l, x, r\<rangle> q"
  using assms
proof (induction t arbitrary: par)
  case (Node tl a tr)
  let ?t = "\<langle>tl, a, tr\<rangle>"
  note P = Node.prems(1-3)
  have step: "subtree_at h par ?t s q" if "subtree_at h a u s q" "u = tl \<or> u = tr" for u s q
  proof -
    have "fits h par ?t s q"
      by (rule fits_sub [OF P, of a u s q tr tl]) (use that in \<open>auto simp: subtree_at_def\<close>)
    moreover have "set_tree u \<subseteq> set_tree ?t" "size u < size ?t" using that(2) by auto
    ultimately show ?thesis using that(1) unfolding subtree_at_def by auto
  qed
  have top: "subtree_at h par ?t u a" if "u = tl \<or> u = tr" "u \<noteq> \<langle>\<rangle>" for u
    using P that fits_root(1) [OF P that(2), of a tr] fits_root(2) [OF P that(2), of tl a]
    unfolding subtree_at_def by auto
  have sub: "\<exists>l r q. subtree_at h par ?t \<langle>l, x, r\<rangle> q"
    if u: "u = tl \<or> u = tr" "x \<in> set_tree u"
      and ih: "x \<noteq> rt u \<Longrightarrow> \<exists>l r q. subtree_at h a u \<langle>l, x, r\<rangle> q" for u
  proof (cases "x = rt u")
    case True
    then obtain l r where "u = \<langle>l, x, r\<rangle>" using u(2) by (cases u) auto
    then show ?thesis using top [OF u(1)] by blast
  qed (use ih step u(1) in blast)
  have "x \<in> set_tree tl \<or> x \<in> set_tree tr" using Node.prems(4,5) by auto
  then show ?case
    using sub [of tl] sub [of tr] Node.IH(1) [of a] Node.IH(2) [of a] P by auto
qed simp

lemma remove_rep:
  assumes "pool_rep pool h A" and "x \<in> A" and "card A \<le> fuel"
  shows "\<exists>pool' h'. shm_tree_remove fuel pool h x = Inr (pool', h') \<and> pool_rep pool' h' (A - {x})
    \<and> (\<forall>q. q \<notin> A - {x} \<longrightarrow> h' q = h q)"
proof (cases "pool_root pool = x")
  case True
  then have "x = Min A" using pool_rep_root [OF assms(1)] assms(2) by auto
  then show ?thesis using pop_rep [OF assms(1) _ assms(3)] assms(2) True
    by (auto simp: shm_tree_remove_def)
next
  case False
  obtain t p where t: "pool_root pool = rt t" "tlk h p t" "heap t" "distinct (inorder t)"
    "set_tree t = A" "pool_size pool = of_nat (size t)" "size t = card A" "card A < 2 ^ 32"
    using assms(1) by (rule pool_repE)
  obtain l r q where sub: "subtree_at h p t \<langle>l, x, r\<rangle> q"
    using subtree_fits [OF t(2,4,3), of x] assms(2) t(1,5) False by auto
  let ?s = "\<langle>l, x, r\<rangle>"
  have s: "tlk h q ?s" "distinct (inorder ?s)" "heap ?s" "q \<noteq> 0" "q \<in> set_tree t" "q \<notin> set_tree ?s"
    "set_tree ?s \<subseteq> set_tree t" "size ?s < size t" "fits h p t ?s q"
    using sub by (auto simp: subtree_at_def)
  have d: "distinct (inorder l @ inorder r)" "x \<notin> set_tree l" "x \<notin> set_tree r" using s(2) by auto
  have lr: "tlk h x l" "tlk h x r" and sz: "size l + size r < fuel"
    using s(1,8) assms(3) t(7) by simp_all
  obtain h1 u where m: "shm_tree_merge fuel h (shm_tree_getaddr (rt l)) (shm_tree_getaddr (rt r))
      = Inr (h1, shm_tree_getaddr (rt u))" "merged h l r h1 u"
    using merge_ok [OF lr d(1) sz] by blast
  obtain p' where u: "tlk h1 p' u" "heap u" "mset_tree u = mset_tree l + mset_tree r"
      and fr: "\<forall>q. q \<notin> set_tree l \<union> set_tree r \<longrightarrow> h1 q = h q"
    using m(2) s(3) unfolding merged_def by auto
  have du: "distinct (inorder u)" using distinct_merged [OF u(3) d(1)] .
  have su: "set_tree u = set_tree l \<union> set_tree r" using set_mset_tree2 [OF u(3)] .
  let ?h = "reroot h1 (rt u) q"
  have out: "?h z = h z" if "z \<notin> set_tree l \<union> set_tree r" for z
    using reroot_tlk(2) [OF u(1) du, of z q] fr that su by simp
  have hx: "?h x = h x" "h1 x = h x" "?h q = h q" using out s(6) d fr by auto
  obtain t' where t': "tlk (relink ?h q x (rt u)) p t'" "rt t' = rt t" "heap t'"
      "mset_tree t' + mset_tree ?s = mset_tree t + mset_tree u"
    using s(9) [unfolded fits_def, rule_format, OF reroot_tlk(1) [OF u(1) du, of q] _ _ u(2)] out su
    by auto
  have mt: "mset_tree t = add_mset x (mset_tree t')" using t'(4) u(3) by simp
  then have dx: "x \<notin> set_tree t'" "distinct (inorder t')"
    using distinct_mset_tree [of t "x # inorder t'"] t(4) by simp_all
  have "set_tree t' = A - {x}"
    using dx(1) t(5) arg_cong [OF mt, of set_mset] by simp
  moreover have "card (A - {x}) = card A - 1" "card A \<noteq> 0"
    using assms(2) pool_rep_finite [OF assms(1)] by auto
  ultimately have "pool_rep (pool\<lparr>pool_size := pool_size pool - 1\<rparr>) (relink ?h q x (rt u)) (A - {x})"
    using t t' dx(2) by (intro pool_repI [of _ p t']) (simp_all, cases "card A", simp_all)
  moreover have "shm_tree_remove fuel pool h x
      = Inr (pool\<lparr>pool_size := pool_size pool - 1\<rparr>, relink ?h q x (rt u))"
  proof -
    have "x \<noteq> 0" "tn_left (h x) = rt l" "tn_right (h x) = rt r" "tn_root (h1 x) = q"
      using s(1) hx(2) by simp_all
    then show ?thesis using False m(1) s(4) by (simp add: shm_tree_remove_def Let_def)
  qed
  moreover have "relink ?h q x (rt u) z = h z" if z: "z \<notin> A - {x}" for z
  proof -
    have "z \<noteq> q" using z s(5,6) t(5) by auto
    moreover have "z \<notin> set_tree l \<union> set_tree r" using z s(7) t(5) d by auto
    ultimately show ?thesis using out by (simp add: relink_other)
  qed
  ultimately show ?thesis by blast
qed

section \<open>Properties\<close>

definition clean_node :: shm_tree_node where
  "clean_node = \<lparr>tn_rank = 0, tn_root = 0, tn_left = 0, tn_right = 0\<rparr>"

text \<open>A pool of two runs, the one at 8192 below the one at 4096.\<close>

definition two_runs :: tree_heap where
  "two_runs = (\<lambda>_. clean_node)(4096 := clean_node\<lparr>tn_left := 8192\<rparr>, 8192 := clean_node\<lparr>tn_root := 4096\<rparr>)"

lemma two_runs_rep: "pool_rep \<lparr>pool_root = 4096, pool_size = 2\<rparr> two_runs {4096, 8192}"
  by (rule pool_repI [of _ 0 "\<langle>\<langle>\<langle>\<rangle>, 8192, \<langle>\<rangle>\<rangle>, 4096, \<langle>\<rangle>\<rangle>"]) (simp_all add: two_runs_def clean_node_def)

subsection \<open>Draining a pool\<close>

primrec push_all :: "('s \<Rightarrow> 'p \<Rightarrow> 's res) \<Rightarrow> 'p list \<Rightarrow> 's \<Rightarrow> 's res" where
  "push_all push [] s = Inr s"
| "push_all push (x # xs) s = bind_r (push s x) (push_all push xs)"

primrec drain :: "('s \<Rightarrow> 'p) \<Rightarrow> ('s \<Rightarrow> 's res) \<Rightarrow> nat \<Rightarrow> 's \<Rightarrow> 'p list res" where
  "drain front pop 0 s = Inr []"
| "drain front pop (Suc n) s = bind_r (pop s) (\<lambda>s'. bind_r (drain front pop n s') (\<lambda>xs. Inr (front s # xs)))"

text \<open>What the small chunks ask of a pool: it holds a set of at most \<open>bound\<close> runs, shows the least,
  takes it away, and accepts a run that is \<open>fresh\<close>.\<close>

locale min_pool =
  fixes rep :: "'s \<Rightarrow> 'p::linorder set \<Rightarrow> bool" and front :: "'s \<Rightarrow> 'p" and pop :: "'s \<Rightarrow> 's res"
    and push :: "'s \<Rightarrow> 'p \<Rightarrow> 's res" and fresh :: "'s \<Rightarrow> 'p \<Rightarrow> bool" and bound :: nat
  assumes finite_rep: "rep s A \<Longrightarrow> finite A"
    and top_rep: "\<lbrakk>rep s A; A \<noteq> {}\<rbrakk> \<Longrightarrow> front s = Min A"
    and pop_rep: "\<lbrakk>rep s A; A \<noteq> {}; card A \<le> bound\<rbrakk> \<Longrightarrow> \<exists>s'. pop s = Inr s' \<and> rep s' (A - {Min A})"
    and push_rep: "\<lbrakk>rep s A; fresh s x; x \<notin> A; card A < bound\<rbrakk> \<Longrightarrow>
      \<exists>s'. push s x = Inr s' \<and> rep s' (insert x A) \<and> (\<forall>y. y \<notin> insert x A \<and> fresh s y \<longrightarrow> fresh s' y)"
begin

lemma drain_sorted:
  assumes "rep s A" and "card A \<le> bound"
  shows "drain front pop (card A) s = Inr (sorted_list_of_set A)"
  using assms
proof (induction "card A" arbitrary: A s)
  case 0
  then have "A = {}" using finite_rep by (metis card_0_eq)
  then show ?case by simp
next
  case (Suc n)
  have f: "finite A" "A \<noteq> {}" using finite_rep [OF Suc.prems(1)] Suc.hyps(2) by auto
  obtain s' where s': "pop s = Inr s'" "rep s' (A - {Min A})" using pop_rep [OF Suc.prems(1) f(2) Suc.prems(2)] by blast
  have n: "n = card (A - {Min A})" using Suc.hyps(2) f by simp
  have b: "card (A - {Min A}) \<le> bound" using n Suc.hyps(2) Suc.prems(2) by linarith
  from Suc.hyps(1) [OF n s'(2) b] n have "drain front pop n s' = Inr (sorted_list_of_set (A - {Min A}))" by simp
  then show ?case
    using s'(1) top_rep [OF Suc.prems(1) f(2)] sorted_list_of_set_nonempty [OF f]
    by (simp flip: Suc.hyps(2))
qed

lemma push_all_rep:
  assumes "rep s A" and "distinct xs" "set xs \<inter> A = {}" "\<forall>x \<in> set xs. fresh s x" and "card A + length xs \<le> bound"
  shows "\<exists>s'. push_all push xs s = Inr s' \<and> rep s' (set xs \<union> A)"
  using assms
proof (induction xs arbitrary: s A)
  case (Cons x xs)
  obtain s1 where s1: "push s x = Inr s1" "rep s1 (insert x A)" "\<forall>y. y \<notin> insert x A \<and> fresh s y \<longrightarrow> fresh s1 y"
    using push_rep [OF Cons.prems(1), of x] Cons.prems(3-5) by auto
  have "card (insert x A) = Suc (card A)" using finite_rep [OF Cons.prems(1)] Cons.prems(3) by simp
  moreover have "\<forall>y \<in> set xs. fresh s1 y" using s1(3) Cons.prems(2-4) by auto
  moreover have "set xs \<inter> insert x A = {}" using Cons.prems(2,3) by auto
  ultimately obtain s' where "push_all push xs s1 = Inr s'" "rep s' (set xs \<union> insert x A)"
    using Cons.IH [OF s1(2)] Cons.prems(2,5) by auto
  then show ?case using s1(1) by auto
qed simp

lemma push_drain:
  assumes "rep s {}" and "distinct xs" "\<forall>x \<in> set xs. fresh s x" and "length xs \<le> bound"
  shows "bind_r (push_all push xs s) (drain front pop (length xs)) = Inr (sort xs)"
proof -
  obtain s' where s': "push_all push xs s = Inr s'" "rep s' (set xs)"
    using push_all_rep [OF assms(1,2) _ assms(3)] assms(4) by auto
  have c: "card (set xs) = length xs" using assms(2) by (rule distinct_card)
  have "drain front pop (length xs) s' = Inr (sorted_list_of_set (set xs))"
    using drain_sorted [OF s'(2)] c assms(4) by simp
  then show ?thesis using s'(1) assms(2) by (simp add: sorted_list_of_set_sort_remdups distinct_remdups_id)
qed

end

text \<open>A node that was never in a pool, or whose links were cleared since.\<close>

definition fresh_node :: "tree_heap \<Rightarrow> u64 \<Rightarrow> bool" where
  "fresh_node h x \<longleftrightarrow> x \<noteq> 0 \<and> tn_left (h x) = 0 \<and> tn_right (h x) = 0"

interpretation tree_pool: min_pool "\<lambda>(pool, h). pool_rep pool h" "\<lambda>(pool, h). pool_root pool"
  "\<lambda>(pool, h). shm_tree_pop fuel pool h" "\<lambda>(pool, h). shm_tree_push fuel pool h"
  "\<lambda>(pool, h). fresh_node h" "min (fuel - 1) (2 ^ 32 - 1)" for fuel
proof
  fix s :: "shm_pool \<times> tree_heap" and A x
  obtain pool h where s: "s = (pool, h)" by (cases s)
  assume "(case s of (pool, h) \<Rightarrow> pool_rep pool h) A" and b: "card A < min (fuel - 1) (2 ^ 32 - 1)"
    and f: "(case s of (pool, h) \<Rightarrow> fresh_node h) x" "x \<notin> A"
  then have r: "pool_rep pool h A" "fresh_node h x" using s by simp_all
  have "Suc (card A) < 2 ^ 32" "Suc (card A) < fuel" using b by auto
  then obtain pool' h' where p: "shm_tree_push fuel pool h x = Inr (pool', h')" "pool_rep pool' h' (insert x A)"
    "\<forall>q. q \<notin> insert x A \<longrightarrow> h' q = h q" using push_rep [OF r(1), of x fuel] r(2) f(2) by (auto simp: fresh_node_def)
  then show "\<exists>s'. (case s of (pool, h) \<Rightarrow> shm_tree_push fuel pool h) x = Inr s'
      \<and> (case s' of (pool, h) \<Rightarrow> pool_rep pool h) (insert x A)
      \<and> (\<forall>y. y \<notin> insert x A \<and> (case s of (pool, h) \<Rightarrow> fresh_node h) y \<longrightarrow> (case s' of (pool, h) \<Rightarrow> fresh_node h) y)"
    unfolding s by (intro exI [of _ "(pool', h')"]) (auto simp: fresh_node_def)
next
  fix s :: "shm_pool \<times> tree_heap" and A
  assume "(case s of (pool, h) \<Rightarrow> pool_rep pool h) A" "A \<noteq> {}" "card A \<le> min (fuel - 1) (2 ^ 32 - 1)"
  then show "\<exists>s'. (case s of (pool, h) \<Rightarrow> shm_tree_pop fuel pool h) = Inr s'
      \<and> (case s' of (pool, h) \<Rightarrow> pool_rep pool h) (A - {Min A})"
    using pop_rep [of "fst s" "snd s" A fuel] by (cases s) force
qed (auto simp: pool_rep_finite pool_rep_root split: prod.splits)

text \<open>C23: a pool is a heap sort: pushing any distinct new runs into an empty pool and popping until
  it is empty returns their positions as the reference \<open>sort\<close> orders them, and never runs out of
  the bound on the recursion of the merges.\<close>

theorem shm_tree_sorts:
  assumes "distinct xs" and "\<forall>x \<in> set xs. fresh_node h x" and "length xs < fuel" "length xs < 2 ^ 32"
  shows "bind_r (push_all (\<lambda>(pool, h). shm_tree_push fuel pool h) xs (\<lparr>pool_root = 0, pool_size = 0\<rparr>, h))
    (drain (\<lambda>(pool, h). pool_root pool) (\<lambda>(pool, h). shm_tree_pop fuel pool h) (length xs)) = Inr (sort xs)"
  by (rule tree_pool.push_drain) (use assms pool_rep_empty in auto)

theorem shm_tree_sorts_witness:
  "bind_r (push_all (\<lambda>(pool, h). shm_tree_push 10 pool h) [8192, 4096, 12288] (\<lparr>pool_root = 0, pool_size = 0\<rparr>, \<lambda>_. clean_node))
    (drain (\<lambda>(pool, h). pool_root pool) (\<lambda>(pool, h). shm_tree_pop 10 pool h) 3) = Inr [4096, 8192, 12288]"
  using shm_tree_sorts [of "[8192, 4096, 12288]" "\<lambda>_. clean_node" 10]
  by (simp add: fresh_node_def clean_node_def numeral_3_eq_3)

text \<open>C24: \<open>shm_tree_push\<close> of a node that is not in the pool and has no children adds it: the
  pool then holds the old set and the node, its root is the least position, and no node outside
  is written.\<close>

theorem shm_tree_push_correct:
  assumes "pool_rep pool h A" and "x \<noteq> 0" "x \<notin> A" "tn_left (h x) = 0" "tn_right (h x) = 0"
    and "Suc (card A) < 2 ^ 32" and "Suc (card A) < fuel"
  shows "\<exists>pool' h'. shm_tree_push fuel pool h x = Inr (pool', h') \<and> pool_rep pool' h' (insert x A)
    \<and> pool_root pool' = Min (insert x A) \<and> (\<forall>q. q \<notin> insert x A \<longrightarrow> h' q = h q)"
proof -
  obtain pool' h' where p: "shm_tree_push fuel pool h x = Inr (pool', h')" "pool_rep pool' h' (insert x A)"
    "\<forall>q. q \<notin> insert x A \<longrightarrow> h' q = h q" using push_rep [OF assms] by blast
  then show ?thesis using pool_rep_root [OF p(2)] by auto
qed

theorem shm_tree_push_correct_witness:
  "\<exists>pool' h'. shm_tree_push 4 \<lparr>pool_root = 4096, pool_size = 2\<rparr> two_runs 1024 = Inr (pool', h')
    \<and> pool_rep pool' h' {1024, 4096, 8192}
    \<and> pool_root pool' = Min {1024, 4096, 8192} \<and> (\<forall>q. q \<notin> {1024, 4096, 8192} \<longrightarrow> h' q = two_runs q)"
  using shm_tree_push_correct [OF two_runs_rep, of 1024 4] by (simp add: two_runs_def clean_node_def)

text \<open>C25: \<open>shm_tree_pop\<close> takes the least position out of the pool: the root of the result is
  the least of the rest. The popped node itself is left as it was, its links included.\<close>

theorem shm_tree_pop_correct:
  assumes "pool_rep pool h A" and "A \<noteq> {}" and "card A \<le> fuel"
  shows "\<exists>pool' h'. shm_tree_pop fuel pool h = Inr (pool', h') \<and> pool_root pool = Min A
    \<and> pool_rep pool' h' (A - {Min A}) \<and> (\<forall>q. q \<notin> A - {Min A} \<longrightarrow> h' q = h q)"
  using pop_rep [OF assms] pool_rep_root [OF assms(1)] assms(2) by simp

theorem shm_tree_pop_correct_witness:
  "\<exists>pool' h'. shm_tree_pop 2 \<lparr>pool_root = 4096, pool_size = 2\<rparr> two_runs = Inr (pool', h')
    \<and> pool_root \<lparr>pool_root = 4096, pool_size = 2\<rparr> = Min {4096, 8192}
    \<and> pool_rep pool' h' ({4096, 8192} - {Min {4096, 8192}})
    \<and> (\<forall>q. q \<notin> {4096, 8192} - {Min {4096, 8192}} \<longrightarrow> h' q = two_runs q)"
  by (rule shm_tree_pop_correct [OF two_runs_rep]) simp_all

text \<open>C26: \<open>shm_tree_remove\<close> takes a node out of the pool wherever it is in the heap, through
  its parent link; the other nodes stay, in heap order.\<close>

theorem shm_tree_remove_correct:
  assumes "pool_rep pool h A" and "x \<in> A" and "card A \<le> fuel"
  shows "\<exists>pool' h'. shm_tree_remove fuel pool h x = Inr (pool', h') \<and> pool_rep pool' h' (A - {x})
    \<and> pool_root pool' = (if A = {x} then 0 else Min (A - {x}))
    \<and> (\<forall>q. q \<notin> A - {x} \<longrightarrow> h' q = h q)"
proof -
  obtain pool' h' where p: "shm_tree_remove fuel pool h x = Inr (pool', h')" "pool_rep pool' h' (A - {x})"
    "\<forall>q. q \<notin> A - {x} \<longrightarrow> h' q = h q" using remove_rep [OF assms] by blast
  then show ?thesis using pool_rep_root [OF p(2)] assms(2) by auto
qed

theorem shm_tree_remove_correct_witness:
  "\<exists>pool' h'. shm_tree_remove 2 \<lparr>pool_root = 4096, pool_size = 2\<rparr> two_runs 8192 = Inr (pool', h')
    \<and> pool_rep pool' h' ({4096, 8192} - {8192})
    \<and> pool_root pool' = (if {4096, 8192} = {8192 :: u64} then 0 else Min ({4096, 8192} - {8192}))
    \<and> (\<forall>q. q \<notin> {4096, 8192} - {8192} \<longrightarrow> h' q = two_runs q)"
  by (rule shm_tree_remove_correct [OF two_runs_rep]) simp_all

subsection \<open>Pushing a popped node again\<close>

datatype pool_op = Push u64 | Pop

fun pool_ops :: "nat \<Rightarrow> pool_op list \<Rightarrow> shm_pool \<times> tree_heap \<Rightarrow> (shm_pool \<times> tree_heap) res" where
  "pool_ops fuel [] s = Inr s"
| "pool_ops fuel (Push x # ops) s = bind_r (shm_tree_push fuel (fst s) (snd s) x) (pool_ops fuel ops)"
| "pool_ops fuel (Pop # ops) s = bind_r (shm_tree_pop fuel (fst s) (snd s)) (pool_ops fuel ops)"

lemma merge_self:
  assumes "b \<noteq> 0" and "tn_right (h b) = b"
  shows "shm_tree_merge fuel h (shm_tree_getaddr b) (shm_tree_getaddr b) = Inl OutOfFuel"
  by (induction fuel) (simp_all add: assms)

text \<open>C22: a run that is popped when full and pushed again when one of its blocks is freed keeps
  its old child links. With a second run in the pool, three such rounds leave the other run as
  its own right child: the pops and pushes before return, and the next pop never does, whatever
  depth the recursion is given.\<close>

theorem shm_tree_repush_diverges:
  "\<exists>pool h. pool_ops 4 [Push 4096, Pop, Push 8192, Push 4096, Pop, Push 4096, Pop, Push 4096]
      (\<lparr>pool_root = 0, pool_size = 0\<rparr>, \<lambda>_. clean_node) = Inr (pool, h)
    \<and> pool_root pool = 4096 \<and> pool_size pool = 2
    \<and> (\<forall>fuel. shm_tree_pop fuel pool h = Inl OutOfFuel)"
proof -
  let ?r = "pool_ops 4 [Push 4096, Pop, Push 8192, Push 4096, Pop, Push 4096, Pop, Push 4096]
      (\<lparr>pool_root = 0, pool_size = 0\<rparr>, \<lambda>_. clean_node)"
  have "case ?r of Inl _ \<Rightarrow> False
    | Inr (pool, h) \<Rightarrow> pool_root pool = 4096 \<and> pool_size pool = 2 \<and> tn_left (h 4096) = 8192
        \<and> tn_right (h 4096) = 8192 \<and> tn_right (h 8192) = 8192"
    by code_simp
  then obtain pool h where r: "?r = Inr (pool, h)" "pool_root pool = 4096" "pool_size pool = 2"
    and n: "tn_left (h 4096) = 8192" "tn_right (h 4096) = 8192" "tn_right (h 8192) = 8192"
    by (auto split: sum.splits prod.splits)
  have "shm_tree_pop fuel pool h = Inl OutOfFuel" for fuel
    using r n merge_self [of 8192 h fuel] by (simp add: shm_tree_pop_def)
  with r show ?thesis by blast
qed

end
