(* ===== verification/ShmType.thy ===== *)
theory ShmType
  imports Prelude
begin

text \<open>
  \<open>src/shm_type.h\<close>: the sizes of pages, chunks and arenas, and the positions that
  name an object of the shared memory: the arena's index in the high half of a 64-bit word, the
  offset in the arena in the low half. \<open>src/chunk_small.c\<close>, lines 17 to 73: the size
  classes of small blocks and the choice of a class for a size.
\<close>

section \<open>Sizes and positions\<close>

abbreviation (input) SHM_NULL :: u64 where "SHM_NULL \<equiv> 0"
abbreviation (input) SHM_PAGE_SIZE :: "'a::numeral" where "SHM_PAGE_SIZE \<equiv> 4096"
abbreviation (input) SHM_CHUNK_UNIT_SIZE :: "'a::numeral" where "SHM_CHUNK_UNIT_SIZE \<equiv> 1048576"
abbreviation (input) SHM_RUN_UNIT_SIZE :: "'a::numeral" where "SHM_RUN_UNIT_SIZE \<equiv> 4096"
abbreviation (input) SHM_ARENA_UNIT_SIZE :: "'a::numeral" where "SHM_ARENA_UNIT_SIZE \<equiv> 8388608"
abbreviation (input) SHM_ARENA_CHUNK_SIZE :: "'a::numeral" where "SHM_ARENA_CHUNK_SIZE \<equiv> 8"
abbreviation (input) SHM_ARENA_MAX :: "'a::numeral" where "SHM_ARENA_MAX \<equiv> 128"
abbreviation (input) CHUNK_SMALL_LIMIT :: "'a::numeral" where "CHUNK_SMALL_LIMIT \<equiv> 1920"
abbreviation (input) CHUNK_MEDIUM_LIMIT :: "'a::numeral" where "CHUNK_MEDIUM_LIMIT \<equiv> 1044480"
abbreviation (input) SHM_INIT_FLAG :: u32 where "SHM_INIT_FLAG \<equiv> 0x1020304a"

definition index2pos :: "u32 \<Rightarrow> u32 \<Rightarrow> u64" where
  "index2pos index offset = push_bit 32 (ucast index) OR ucast offset"

definition pos2index :: "u64 \<Rightarrow> u32" where
  "pos2index pos = ucast (drop_bit 32 pos)"

definition pos2offset :: "u64 \<Rightarrow> u32" where
  "pos2offset pos = ucast pos"

lemma pos2index_index2pos [simp]: "pos2index (index2pos i off) = i"
  by (rule bit_word_eqI) (auto simp: pos2index_def index2pos_def bit_simps dest: bit_imp_le_length)

lemma pos2offset_index2pos [simp]: "pos2offset (index2pos i off) = off"
  by (rule bit_word_eqI) (auto simp: pos2offset_def index2pos_def bit_simps)

lemma index2pos_pos2index [simp]: "index2pos (pos2index p) (pos2offset p) = p"
  by (rule bit_word_eqI)
     (auto simp: pos2offset_def pos2index_def index2pos_def bit_simps not_less)

lemma index2pos_inject [simp]: "index2pos i off = index2pos j off' \<longleftrightarrow> i = j \<and> off = off'"
  by (metis pos2index_index2pos pos2offset_index2pos)

lemma unat_index2pos: "unat (index2pos i off) = unat i * 2 ^ 32 + unat off"
proof -
  have "push_bit 32 (ucast i) AND ucast off = (0 :: u64)"
    by (rule bit_word_eqI) (auto simp: bit_simps dest: bit_imp_le_length)
  then have "index2pos i off = push_bit 32 (ucast i) + ucast off"
    by (simp add: index2pos_def disjunctive_add_eq_or)
  moreover have "unat i * 4294967296 + unat off < 18446744073709551616"
    using unat_less_u32 [of i] unat_less_u32 [of off] by simp
  ultimately show ?thesis
    by (simp add: push_bit_eq_mult unat_word_ariths unsigned_ucast_eq take_bit_nat_eq_self)
qed

section \<open>Size classes\<close>

record run_config =
  rc_index :: u32
  rc_elemsize :: u32

definition run_config_list :: "run_config list" where
  "run_config_list = map (\<lambda>(i, e). \<lparr>rc_index = i, rc_elemsize = e\<rparr>)
     [(0, 0), (1, 8), (2, 16), (3, 32), (4, 48), (5, 64), (6, 96),
      (7, 128), (8, 192), (9, 256), (10, 384), (11, 512),
      (12, 768), (13, 1280), (14, CHUNK_SMALL_LIMIT)]"

definition run_table8 :: "u32 list" where
  "run_table8 = [1, 2, 3, 3, 4, 4, 5, 5, 6, 6, 6, 6]"

definition run_table32 :: "u32 list" where
  "run_table32 = [7, 7, 7, 7, 8, 8, 9, 9, 10, 10, 10, 10, 11, 11, 11, 11]"

definition run_table128 :: "u32 list" where
  "run_table128 = [12, 12, 12, 12, 12, 12, 13, 13, 13, 13, 14, 14, 14, 14, 14, 14]"

definition find_run_config :: "u64 \<Rightarrow> u32 res" where
  "find_run_config sz = assert_r (sz > 0 \<and> sz \<le> CHUNK_SMALL_LIMIT)
     (Inr (if sz \<le> 96 then run_table8 ! unat ((sz - 1) div 8)
           else if sz \<le> 512 then run_table32 ! unat ((sz - 1) div 32)
           else run_table128 ! unat ((sz - 1) div 128)))"

definition elemsize_of :: "nat \<Rightarrow> nat" where
  "elemsize_of c = unat (rc_elemsize (run_config_list ! c))"

lemma elemsize_of_table:
  "map elemsize_of [0..<15] = [0, 8, 16, 32, 48, 64, 96, 128, 192, 256, 384, 512, 768, 1280, 1920]"
  by (simp add: elemsize_of_def run_config_list_def upt_rec)

text \<open>The class a table gives for the 8, 32 or 128 sizes that share an index.\<close>

lemma table8_class:
  assumes "0 < n" and "n \<le> 96"
  defines "c \<equiv> unat (run_table8 ! ((n - 1) div 8))"
  shows "1 \<le> c \<and> c \<le> 14 \<and> elemsize_of (c - 1) < n \<and> n \<le> elemsize_of c"
proof -
  have "(n - 1) div 8 < 12" using assms by simp
  then have "(n - 1) div 8 \<in> set [0..<12]" by simp
  then show ?thesis
    using assms
    by (auto simp: upt_rec run_table8_def elemsize_of_def run_config_list_def)
qed

lemma table32_class:
  assumes "96 < n" and "n \<le> 512"
  defines "c \<equiv> unat (run_table32 ! ((n - 1) div 32))"
  shows "1 \<le> c \<and> c \<le> 14 \<and> elemsize_of (c - 1) < n \<and> n \<le> elemsize_of c"
proof -
  have "3 \<le> (n - 1) div 32" "(n - 1) div 32 < 16" using assms by simp_all
  then have "(n - 1) div 32 \<in> set [3..<16]" by (simp only: set_upt atLeastLessThan_iff)
  then show ?thesis
    using assms
    by (auto simp: upt_rec run_table32_def elemsize_of_def run_config_list_def)
qed

lemma table128_class:
  assumes "512 < n" and "n \<le> 1920"
  defines "c \<equiv> unat (run_table128 ! ((n - 1) div 128))"
  shows "1 \<le> c \<and> c \<le> 14 \<and> elemsize_of (c - 1) < n \<and> n \<le> elemsize_of c"
proof -
  have "4 \<le> (n - 1) div 128" "(n - 1) div 128 < 15" using assms by simp_all
  then have "(n - 1) div 128 \<in> set [4..<15]" by (simp only: set_upt atLeastLessThan_iff)
  then show ?thesis
    using assms
    by (auto simp: upt_rec run_table128_def elemsize_of_def run_config_list_def)
qed

lemma find_run_config_class:
  assumes "0 < sz" and "sz \<le> CHUNK_SMALL_LIMIT"
  obtains c where "find_run_config sz = Inr c" and "1 \<le> unat c" and "unat c \<le> 14"
    and "elemsize_of (unat c - 1) < unat sz" and "unat sz \<le> elemsize_of (unat c)"
proof -
  have n: "0 < unat sz" "unat sz \<le> 1920"
    using assms by (simp_all add: word_less_nat_alt word_le_nat_alt)
  have m1: "unat (sz - 1) = unat sz - 1" using assms by (simp add: unat_minus_one)
  have k: "find_run_config sz = Inr
     (if unat sz \<le> 96 then run_table8 ! ((unat sz - 1) div 8)
      else if unat sz \<le> 512 then run_table32 ! ((unat sz - 1) div 32)
      else run_table128 ! ((unat sz - 1) div 128))"
    using assms by (simp add: find_run_config_def word_le_nat_alt unat_div_distrib m1)
  show ?thesis
    by (rule that [OF k])
       (use n table8_class [of "unat sz"] table32_class [of "unat sz"] table128_class [of "unat sz"]
        in auto)
qed

section \<open>Properties\<close>

text \<open>C33: A position and the pair of arena index and offset it packs determine each
  other: packing and unpacking are inverse, and the packed value is
  \<open>index * 2^32 + offset\<close>.\<close>

theorem position_roundtrip:
  "pos2index (index2pos i off) = i \<and> pos2offset (index2pos i off) = off
   \<and> index2pos (pos2index p) (pos2offset p) = p
   \<and> unat (index2pos i off) = unat i * 2 ^ 32 + unat off"
  by (simp add: unat_index2pos)

text \<open>C32: For every small size the class found holds the block and is the smallest class that
  does: its element size is at least the size and the class before it is too small. Sizes
  out of range stop at the assertion.\<close>

theorem find_run_config_best_fit:
  "(if 0 < sz \<and> sz \<le> CHUNK_SMALL_LIMIT
    then \<exists>c. find_run_config sz = Inr c \<and> 1 \<le> unat c \<and> unat c < length run_config_list
           \<and> elemsize_of (unat c - 1) < unat sz \<and> unat sz \<le> elemsize_of (unat c)
    else find_run_config sz = Inl AssertFail)"
proof (cases "0 < sz \<and> sz \<le> CHUNK_SMALL_LIMIT")
  case True
  then obtain c where c: "find_run_config sz = Inr c" "1 \<le> unat c" "unat c \<le> 14"
    "elemsize_of (unat c - 1) < unat sz" "unat sz \<le> elemsize_of (unat c)"
    by (blast elim: find_run_config_class)
  then have "unat c < length run_config_list" by (simp add: run_config_list_def)
  with True c show ?thesis by auto
qed (auto simp: find_run_config_def assert_r_def)

end
