(* ===== verification/Block_Heap.thy ===== *)
theory Block_Heap
  imports Prelude
begin

text \<open>
  The contract that every layer of the allocator has: a state with a set of blocks in use, each a
  place and a length, an allocation that adds a block, a release that takes one away. The locale
  \<open>block_heap\<close> states the laws once and proves what a client may conclude from them that knows
  its blocks only by the length it asked for. A run (Run), a chunk of pages (Medium_Refine) and the
  whole interface (Client) are interpretations.
\<close>

section \<open>What a client holds\<close>

text \<open>
  The client holds the blocks \<open>B\<close>, each with the request \<open>n\<close> it was made for: there is a block
  in use at that place, at least as long as \<open>need n\<close>.
\<close>

definition holds :: "('n \<Rightarrow> nat) \<Rightarrow> ('p \<times> nat) set \<Rightarrow> ('p \<times> 'n) set \<Rightarrow> bool" where
  "holds need A B \<longleftrightarrow> (\<forall>(p, n) \<in> B. 0 < need n \<and> (\<exists>m. need n \<le> m \<and> (p, m) \<in> A)) \<and> single_valued B"

lemma holds_empty [simp]: "holds need A {}"
  by (simp add: holds_def)

lemma holds_mono: "holds need A B \<Longrightarrow> A \<subseteq> A' \<Longrightarrow> holds need A' B"
  unfolding holds_def by blast

lemma holdsE:
  assumes "holds need A B" "(p, n) \<in> B"
  obtains m where "0 < need n" "need n \<le> m" "(p, m) \<in> A"
  using assms by (auto simp: holds_def)

section \<open>The contract\<close>

locale block_heap =
  fixes rep :: "'s \<Rightarrow> ('p \<times> nat) set \<Rightarrow> bool"
    and alloc :: "'s \<Rightarrow> 'n \<Rightarrow> ('s \<times> 'p) res"
    and release :: "'s \<Rightarrow> 'p \<Rightarrow> 's res"
    and null :: "'p \<Rightarrow> bool"
    and need :: "'n \<Rightarrow> nat"
    and fits :: "'s \<Rightarrow> 'n \<Rightarrow> bool"
    and may_free :: "'s \<Rightarrow> 'p \<Rightarrow> 'n \<Rightarrow> bool"
    and sep :: "'p \<times> nat \<Rightarrow> 'p \<times> nat \<Rightarrow> bool"
  assumes alloc_null: "\<lbrakk>rep s A; fits s n; alloc s n = Inr (s', p); null p\<rbrakk> \<Longrightarrow> rep s' A"
    and alloc_block: "\<lbrakk>rep s A; fits s n; alloc s n = Inr (s', p); \<not> null p\<rbrakk> \<Longrightarrow>
      0 < need n \<and> (\<exists>m. need n \<le> m \<and> (p, m) \<notin> A \<and> rep s' (insert (p, m) A))"
    and release_block: "\<lbrakk>rep s A; (p, m) \<in> A; need n \<le> m; may_free s p n\<rbrakk> \<Longrightarrow>
      \<exists>s'. release s p = Inr s' \<and> rep s' (A - {(p, m)})"
    and place: "\<lbrakk>rep s A; (p, m) \<in> A\<rbrakk> \<Longrightarrow> \<not> null p"
    and sep_blocks: "\<lbrakk>rep s A; a \<in> A; b \<in> A; a \<noteq> b\<rbrakk> \<Longrightarrow> sep a b"
    and sep_shrink: "\<lbrakk>sep (p, m) (q, k); m' \<le> m; k' \<le> k\<rbrakk> \<Longrightarrow> sep (p, m') (q, k')"
    and sep_irrefl: "\<lbrakk>sep (p, m) (p, k); 0 < m\<rbrakk> \<Longrightarrow> k = 0"
begin

definition held :: "'s \<Rightarrow> ('p \<times> 'n) set \<Rightarrow> bool" where
  "held s B \<longleftrightarrow> (\<exists>A. rep s A \<and> holds need A B)"

lemma heldI: "rep s A \<Longrightarrow> holds need A B \<Longrightarrow> held s B"
  unfolding held_def by blast

lemma heldE:
  assumes "held s B"
  obtains A where "rep s A" "holds need A B"
  using assms unfolding held_def by blast

lemma held_start: "rep s A \<Longrightarrow> held s {}"
  by (rule heldI) simp_all

lemma holds_insert:
  assumes r: "rep s (insert (p, m) A)" and h: "holds need A B" and n: "0 < need n" "need n \<le> m" "(p, m) \<notin> A"
  shows "holds need (insert (p, m) A) (insert (p, n) B)"
proof -
  have "(p, n') \<notin> B" for n'
  proof
    assume "(p, n') \<in> B"
    from h this obtain k where k: "0 < need n'" "need n' \<le> k" "(p, k) \<in> A" by (rule holdsE)
    have "sep (p, m) (p, k)" using sep_blocks [OF r] k(3) n(3) by blast
    then show False using sep_irrefl [of p m k] k(1,2) n(1,2) by simp
  qed
  then show ?thesis using h n(1,2) unfolding holds_def single_valued_def by blast
qed

text \<open>Another block that the client does not count on.\<close>

lemma held_more: "held s B \<Longrightarrow> (\<And>A. rep s A \<Longrightarrow> \<exists>A'. A \<subseteq> A' \<and> rep s' A') \<Longrightarrow> held s' B"
  unfolding held_def using holds_mono by blast

lemma holds_remove:
  assumes h: "holds need A B" and b: "(p, n) \<in> B"
  shows "holds need (A - {(p, m)}) (B - {(p, n)})"
proof -
  have sv: "single_valued B" using h by (simp add: holds_def)
  have "0 < need l \<and> (\<exists>k. need l \<le> k \<and> (q, k) \<in> A - {(p, m)})" if q: "(q, l) \<in> B" "(q, l) \<noteq> (p, n)" for q l
  proof -
    have "q \<noteq> p" using single_valuedD [OF sv q(1), of n] b q(2) by blast
    moreover from h q(1) obtain k where "0 < need l" "need l \<le> k" "(q, k) \<in> A" by (rule holdsE)
    ultimately show ?thesis by blast
  qed
  moreover have "single_valued (B - {(p, n)})" by (rule single_valued_subset [OF Diff_subset sv])
  ultimately show ?thesis unfolding holds_def by blast
qed

text \<open>A block is replaced by another one.\<close>

lemma held_swap:
  assumes r: "rep s' (insert (q, k) (A - {(p, m)}))" and h: "holds need A B" and b: "(p, n) \<in> B"
    and new: "0 < need l" "need l \<le> k" "(q, k) \<notin> A"
  shows "held s' (insert (q, l) (B - {(p, n)}))"
  by (rule heldI [OF r holds_insert [OF r holds_remove [OF h b] new(1,2)]]) (use new(3) in blast)

lemma held_take:
  assumes "held s B" and "fits s n" and "alloc s n = Inr (s', p)"
  shows "held s' (if null p then B else insert (p, n) B)"
proof -
  from assms(1) obtain A where A: "rep s A" "holds need A B" by (rule heldE)
  show ?thesis
  proof (cases "null p")
    case True
    then show ?thesis using alloc_null [OF A(1) assms(2,3)] A(2) heldI by simp
  next
    case False
    then obtain m where m: "0 < need n" "need n \<le> m" "(p, m) \<notin> A" "rep s' (insert (p, m) A)"
      using alloc_block [OF A(1) assms(2,3)] by blast
    from heldI [OF m(4) holds_insert [OF m(4) A(2) m(1-3)]] False show ?thesis by simp
  qed
qed

lemma held_give:
  assumes "held s B" and "(p, n) \<in> B" and "may_free s p n"
  shows "\<exists>s'. release s p = Inr s' \<and> held s' (B - {(p, n)})"
proof -
  from assms(1) obtain A where A: "rep s A" "holds need A B" by (rule heldE)
  from A(2) assms(2) obtain m where m: "need n \<le> m" "(p, m) \<in> A" by (rule holdsE)
  obtain s' where "release s p = Inr s'" "rep s' (A - {(p, m)})"
    using release_block [OF A(1) m(2,1) assms(3)] by blast
  then show ?thesis using heldI holds_remove [OF A(2) assms(2)] by blast
qed

text \<open>The blocks a client holds are not the null place and do not overlap.\<close>

lemma held_apart:
  assumes "held s B" and "(p, n) \<in> B" "(q, k) \<in> B" "(p, n) \<noteq> (q, k)"
  shows "\<not> null p \<and> sep (p, need n) (q, need k)"
proof -
  from assms(1) obtain A where A: "rep s A" "holds need A B" by (rule heldE)
  from A(2) assms(2) obtain m where m: "need n \<le> m" "(p, m) \<in> A" by (rule holdsE)
  from A(2) assms(3) obtain l where l: "need k \<le> l" "(q, l) \<in> A" by (rule holdsE)
  have "p \<noteq> q" using A(2) assms(2-4) unfolding holds_def single_valued_def by blast
  then have "sep (p, m) (q, l)" using sep_blocks [OF A(1) m(2) l(2)] by simp
  then show ?thesis using sep_shrink m(1) l(1) place [OF A(1) m(2)] by blast
qed

text \<open>Any sequence of requests and releases.\<close>

inductive uses :: "'s \<Rightarrow> 's \<Rightarrow> ('p \<times> 'n) set \<Rightarrow> bool" for s where
  begin_use: "uses s s {}"
| take_use: "uses s s' B \<Longrightarrow> fits s' n \<Longrightarrow> alloc s' n = Inr (s'', p) \<Longrightarrow> uses s s'' (if null p then B else insert (p, n) B)"
| give_use: "uses s s' B \<Longrightarrow> (p, n) \<in> B \<Longrightarrow> may_free s' p n \<Longrightarrow> release s' p = Inr s'' \<Longrightarrow> uses s s'' (B - {(p, n)})"

lemma uses_held:
  assumes "uses s s' B" and "rep s A"
  shows "held s' B"
  using assms(1)
proof (induction rule: uses.induct)
  case begin_use
  then show ?case by (rule held_start [OF assms(2)])
next
  case (take_use s' B n s'' p)
  from held_take [OF take_use.IH take_use.hyps(2,3)] show ?case .
next
  case (give_use s' B p n s'')
  from held_give [OF give_use.IH give_use.hyps(2,3)] show ?case using give_use.hyps(4) by auto
qed

lemmas uses_apart = held_apart [OF uses_held]
  and uses_give = held_give [OF uses_held]

end

end
