(* ===== verification/Run.thy ===== *)
theory Run
  imports ShmType Block_Heap
begin

text \<open>
  \<open>src/chunk_small.c\<close>, lines 86 to 115 and 142 to 157: a run, one page cut into blocks
  of one size class. The free blocks are chained through their first word; the header holds the
  offset of the first free one. \<open>rn_words\<close> is the page's content as far as the code reads
  it, the word at each byte offset. A block is named by its index here, \<open>boff\<close> is its
  offset. Freeing an offset that is no block of the run would overwrite the header or the middle
  of a block, which the code does not check; the model stops there with \<open>WildAccess\<close>.
\<close>

section \<open>The data and the operations\<close>

abbreviation (input) RUN_HEADER_SIZE :: "'a::numeral" where "RUN_HEADER_SIZE \<equiv> 64"
abbreviation (input) RUN_LIST_NULL :: u32 where "RUN_LIST_NULL \<equiv> 0xffffffff"

record run_header =
  rn_pos :: u64
  rn_conf_index :: u32
  rn_elemsize :: u32
  rn_total :: u32
  rn_used :: u32
  rn_free :: u32
  rn_words :: "u32 \<Rightarrow> u32"

definition malloc_run :: "run_header \<Rightarrow> (run_header \<times> u32) res" where
  "malloc_run run =
     (let offset = rn_free run
      in assert_r (offset \<noteq> RUN_LIST_NULL) (
         assert_r (rn_used run < rn_total run) (
         Inr (run\<lparr>rn_free := rn_words run offset, rn_used := rn_used run + 1\<rparr>, offset))))"

definition run_block :: "run_header \<Rightarrow> u32 \<Rightarrow> bool" where
  "run_block run offset \<longleftrightarrow> RUN_HEADER_SIZE \<le> offset
     \<and> (offset - RUN_HEADER_SIZE) mod rn_elemsize run = 0
     \<and> (offset - RUN_HEADER_SIZE) div rn_elemsize run < rn_total run"

definition free_run :: "run_header \<Rightarrow> u32 \<Rightarrow> run_header res" where
  "free_run run offset =
     assert_r (rn_used run > 0) (
     if run_block run offset
     then Inr (run\<lparr>rn_words := (rn_words run)(offset := rn_free run), rn_free := offset,
                   rn_used := rn_used run - 1\<rparr>)
     else Inl WildAccess)"

definition run_full :: "run_header \<Rightarrow> bool" where
  "run_full run \<longleftrightarrow> rn_used run = rn_total run"

definition run_empty :: "run_header \<Rightarrow> bool" where
  "run_empty run \<longleftrightarrow> rn_used run = 0"

text \<open>The loop that chains the blocks of a new run: \<open>i\<close> counts, \<open>blk\<close> walks.\<close>

function run_list_loop ::
  "u32 \<Rightarrow> u32 \<Rightarrow> u32 \<Rightarrow> u32 \<Rightarrow> (u32 \<Rightarrow> u32) \<Rightarrow> u32 \<times> (u32 \<Rightarrow> u32)" where
  "run_list_loop i cnt elemsize blk w =
     (if i < cnt
      then run_list_loop (i + 1) cnt elemsize (blk + elemsize)
             (w(blk := i * elemsize + RUN_HEADER_SIZE))
      else (blk, w))"
  by pat_completeness auto
termination
proof (relation "measure (\<lambda>(i, cnt, elemsize, blk, w). unat cnt - unat i)")
  fix i cnt :: u32
  assume "i < cnt"
  then have "unat (i + 1) = Suc (unat i)" "unat i < unat cnt"
    by (simp_all add: unat_inc word_less_nat_alt)
  then show "((i + 1, cnt, e, b + e, w'), i, cnt, e, b, w)
      \<in> measure (\<lambda>(i, cnt, elemsize, blk, w). unat cnt - unat i)" for e b :: u32 and w w' :: "u32 \<Rightarrow> u32"
    by simp
qed simp

declare run_list_loop.simps [simp del]

definition init_run :: "u64 \<Rightarrow> u32 \<Rightarrow> run_header" where
  "init_run pos type =
     (let elemsize = rc_elemsize (run_config_list ! unat type);
          cnt = (SHM_RUN_UNIT_SIZE - RUN_HEADER_SIZE) div elemsize;
          (blk, w) = run_list_loop 1 cnt elemsize RUN_HEADER_SIZE (\<lambda>_. 0)
      in \<lparr>rn_pos = pos, rn_conf_index = type, rn_elemsize = elemsize, rn_total = cnt,
          rn_used = 0, rn_free = RUN_HEADER_SIZE, rn_words = w(blk := RUN_LIST_NULL)\<rparr>)"

section \<open>The free list\<close>

definition boff :: "nat \<Rightarrow> nat \<Rightarrow> u32" where
  "boff e i = word_of_nat (RUN_HEADER_SIZE + i * e)"

primrec chain :: "(u32 \<Rightarrow> u32) \<Rightarrow> nat \<Rightarrow> u32 \<Rightarrow> nat list \<Rightarrow> bool" where
  "chain w e p [] = (p = RUN_LIST_NULL)"
| "chain w e p (i # is) = (p = boff e i \<and> chain w e (w p) is)"

text \<open>\<open>run_rep run is\<close>: the blocks \<open>is\<close> of the run are free, in the order of the list.\<close>

definition run_rep :: "run_header \<Rightarrow> nat list \<Rightarrow> bool" where
  "run_rep run is \<longleftrightarrow>
     (let e = unat (rn_elemsize run); t = unat (rn_total run)
      in 0 < e \<and> RUN_HEADER_SIZE + t * e \<le> SHM_RUN_UNIT_SIZE \<and> chain (rn_words run) e (rn_free run) is
         \<and> distinct is \<and> set is \<subseteq> {..<t} \<and> unat (rn_used run) + length is = t)"

lemma unat_boff: "RUN_HEADER_SIZE + i * e \<le> SHM_RUN_UNIT_SIZE \<Longrightarrow> unat (boff e i) = RUN_HEADER_SIZE + i * e"
  unfolding boff_def by (rule unat_of_nat_small) simp

lemma boff_bound:
  fixes e i t :: nat
  assumes "RUN_HEADER_SIZE + t * e \<le> SHM_RUN_UNIT_SIZE" and "i \<le> t"
  shows "RUN_HEADER_SIZE + i * e \<le> SHM_RUN_UNIT_SIZE"
  using mult_le_mono1 [OF assms(2), of e] assms(1) by linarith

lemma boff_inj:
  fixes e i j t :: nat
  assumes "RUN_HEADER_SIZE + t * e \<le> SHM_RUN_UNIT_SIZE" and "i \<le> t" "j \<le> t" "0 < e"
  shows "boff e i = boff e j \<longleftrightarrow> i = j"
  using unat_boff [OF boff_bound [OF assms(1,2)]] unat_boff [OF boff_bound [OF assms(1,3)]] assms(4)
  by (metis add_left_cancel mult_cancel2 neq0_conv)

lemma boff_not_null:
  fixes e i :: nat
  assumes "RUN_HEADER_SIZE + i * e \<le> SHM_RUN_UNIT_SIZE"
  shows "boff e i \<noteq> RUN_LIST_NULL"
proof
  assume "boff e i = RUN_LIST_NULL"
  then have "unat (boff e i) = 4294967295" by simp
  with unat_boff [OF assms] assms show False by simp
qed

lemma chain_upd:
  fixes e t :: nat
  assumes "RUN_HEADER_SIZE + t * e \<le> SHM_RUN_UNIT_SIZE" "0 < e" "set is \<subseteq> {..<t}" "k < t" "k \<notin> set is"
  shows "chain (w(boff e k := x)) e p is = chain w e p is"
  using assms(3,5)
proof (induction "is" arbitrary: p)
  case (Cons i "is")
  then have "i < t" "i \<noteq> k" by auto
  then have "boff e i \<noteq> boff e k" using boff_inj [OF assms(1), of i k] assms(2,4) by simp
  then show ?case using Cons by auto
qed simp

lemma run_block_boff:
  assumes "run_rep run is" and "i < unat (rn_total run)"
  shows "run_block run (boff (unat (rn_elemsize run)) i)"
proof -
  let ?e = "unat (rn_elemsize run)"
  have b: "unat (boff ?e i) = 64 + i * ?e" and e: "0 < ?e"
    using assms boff_bound [of "unat (rn_total run)" ?e i] unat_boff by (auto simp: run_rep_def Let_def)
  have le: "64 \<le> boff ?e i" using b by (simp add: word_le_nat_alt)
  have "unat (boff ?e i - 64) = i * ?e" using unat_sub [OF le] b by simp
  then have "unat ((boff ?e i - 64) mod rn_elemsize run) = 0"
    "unat ((boff ?e i - 64) div rn_elemsize run) = i" using e by (simp_all add: unat_mod unat_div)
  then show ?thesis
    using le assms(2) by (simp add: run_block_def word_less_nat_alt unat_eq_zero)
qed

lemma run_blockD:
  assumes "run_rep run is" and "run_block run off"
  shows "\<exists>i < unat (rn_total run). off = boff (unat (rn_elemsize run)) i"
proof -
  let ?e = "unat (rn_elemsize run)" and ?o = "unat off - 64"
  have le: "64 \<le> off" using assms(2) by (simp add: run_block_def)
  have s: "unat (off - 64) = ?o" using unat_sub [OF le] by simp
  have "unat ((off - 64) mod rn_elemsize run) = 0"
    "unat ((off - 64) div rn_elemsize run) < unat (rn_total run)"
    using assms(2) by (simp_all add: run_block_def word_less_nat_alt)
  then have m: "?o mod ?e = 0" "?o div ?e < unat (rn_total run)" by (simp_all add: unat_mod unat_div s)
  have "64 \<le> unat off" using le by (simp add: word_le_nat_alt)
  then have "unat off = 64 + (?o div ?e) * ?e" using m(1) by (metis le_add_diff_inverse mod_0_imp_dvd dvd_div_mult_self)
  then have "off = boff ?e (?o div ?e)" by (metis boff_def word_of_nat_unat)
  with m(2) show ?thesis by blast
qed

section \<open>The operations on the free list\<close>

lemma malloc_run_rep:
  assumes "run_rep run (i # is)"
  shows "\<exists>run'. malloc_run run = Inr (run', boff (unat (rn_elemsize run)) i) \<and> run_rep run' is
    \<and> rn_elemsize run' = rn_elemsize run \<and> rn_total run' = rn_total run
    \<and> rn_pos run' = rn_pos run \<and> rn_conf_index run' = rn_conf_index run
    \<and> unat (rn_used run') = Suc (unat (rn_used run))"
proof -
  let ?e = "unat (rn_elemsize run)" and ?t = "unat (rn_total run)"
  have r: "0 < ?e" "64 + ?t * ?e \<le> 4096" "rn_free run = boff ?e i"
    "chain (rn_words run) ?e (rn_words run (rn_free run)) is" "distinct (i # is)" "i < ?t"
    "set is \<subseteq> {..<?t}" "unat (rn_used run) + Suc (length is) = ?t"
    using assms by (auto simp: run_rep_def Let_def)
  have nn: "rn_free run \<noteq> RUN_LIST_NULL"
    using boff_not_null [OF boff_bound [OF r(2)], of i] r(3,6) by simp
  have u: "rn_used run < rn_total run" using r(8) by (simp add: word_less_nat_alt)
  then have s: "unat (rn_used run + 1) = Suc (unat (rn_used run))" by (rule unat_inc)
  show ?thesis using r nn u s by (simp add: malloc_run_def Let_def run_rep_def)
qed

lemma malloc_run_full: "run_rep run [] \<Longrightarrow> malloc_run run = Inl AssertFail"
  by (simp add: run_rep_def malloc_run_def Let_def)

lemma run_full_rep: "run_rep run is \<Longrightarrow> run_full run \<longleftrightarrow> is = []"
  by (auto simp: run_rep_def run_full_def Let_def word_unat_eq_iff)

lemma run_empty_rep: "run_rep run is \<Longrightarrow> run_empty run \<longleftrightarrow> length is = unat (rn_total run)"
  by (auto simp: run_rep_def run_empty_def Let_def unat_eq_zero)

lemma free_run_rep:
  assumes "run_rep run is" and "i < unat (rn_total run)" "i \<notin> set is"
  shows "\<exists>run'. free_run run (boff (unat (rn_elemsize run)) i) = Inr run' \<and> run_rep run' (i # is)
    \<and> rn_elemsize run' = rn_elemsize run \<and> rn_total run' = rn_total run
    \<and> rn_pos run' = rn_pos run \<and> rn_conf_index run' = rn_conf_index run
    \<and> Suc (unat (rn_used run')) = unat (rn_used run)"
proof -
  let ?e = "unat (rn_elemsize run)" and ?t = "unat (rn_total run)"
  have r: "0 < ?e" "64 + ?t * ?e \<le> 4096" "chain (rn_words run) ?e (rn_free run) is" "distinct is"
    "set is \<subseteq> {..<?t}" "unat (rn_used run) + length is = ?t"
    using assms by (auto simp: run_rep_def Let_def)
  have "card (insert i (set is)) \<le> card {..<?t}" using r(5) assms(2) by (intro card_mono) auto
  then have "length is < ?t" using assms(3) r(4) by (simp add: distinct_card)
  then have u: "rn_used run \<noteq> 0" using r(6) by auto
  then have s: "unat (rn_used run - 1) = unat (rn_used run) - 1" "0 < unat (rn_used run)"
    by (simp_all add: unat_minus_one unat_gt_0)
  have "chain ((rn_words run)(boff ?e i := rn_free run)) ?e (rn_free run) is"
    using chain_upd [OF r(2,1,5) assms(2,3)] r(3) by simp
  then show ?thesis
    using run_block_boff [OF assms(1,2)] r u s assms
    by (simp add: free_run_def word_neq_0_conv run_rep_def Let_def)
qed

lemma run_list_loop_chain:
  fixes e t k :: nat
  assumes "0 < e" "64 + t * e \<le> 4096" "k < t"
  shows "\<exists>w'. run_list_loop (word_of_nat (Suc k)) (word_of_nat t) (word_of_nat e) (boff e k) w
      = (boff e (t - 1), w')
    \<and> (\<forall>j. k \<le> j \<and> Suc j < t \<longrightarrow> w' (boff e j) = boff e (Suc j))
    \<and> (\<forall>j < k. w' (boff e j) = w (boff e j))"
  using assms(3)
proof (induction "t - k" arbitrary: k w)
  case (Suc n)
  have "t \<le> t * e" using assms(1) by (cases e) simp_all
  also have "\<dots> \<le> 4032" using assms(2) by simp
  finally have b: "t < 2 ^ 32" by simp
  have lt: "(word_of_nat (Suc k) :: u32) < word_of_nat t \<longleftrightarrow> Suc k < t"
    using b Suc.prems by (simp add: word_less_nat_alt unat_of_nat_small del: of_nat_Suc)
  show ?case
  proof (cases "Suc k < t")
    case False
    then have "k = t - 1" using Suc.prems by simp
    moreover have "\<not> (word_of_nat (Suc k) :: u32) < word_of_nat t" using False lt by blast
    ultimately show ?thesis
      by (subst run_list_loop.simps) auto
  next
    case True
    let ?w = "w(boff e k := boff e (Suc k))"
    have n: "n = t - Suc k" using Suc.hyps(2) by simp
    obtain w' where w': "run_list_loop (word_of_nat (Suc (Suc k))) (word_of_nat t) (word_of_nat e)
        (boff e (Suc k)) ?w = (boff e (t - 1), w')"
      "\<forall>j. Suc k \<le> j \<and> Suc j < t \<longrightarrow> w' (boff e j) = boff e (Suc j)"
      "\<forall>j < Suc k. w' (boff e j) = ?w (boff e j)"
      using Suc.hyps(1) [OF n True, of ?w] by blast
    have v: "(word_of_nat (Suc k) :: u32) * word_of_nat e + 64 = boff e (Suc k)"
      "boff e k + word_of_nat e = boff e (Suc k)"
      "(word_of_nat (Suc k) :: u32) + 1 = word_of_nat (Suc (Suc k))"
      by (simp_all add: boff_def algebra_simps)
    have "run_list_loop (word_of_nat (Suc k)) (word_of_nat t) (word_of_nat e) (boff e k) w
        = (boff e (t - 1), w')"
      using w'(1) lt True v by (subst run_list_loop.simps) (simp del: of_nat_Suc)
    moreover have "w' (boff e j) = boff e (Suc j)" if "k \<le> j" "Suc j < t" for j
      using w'(2,3) that by (cases "j = k") auto
    moreover have "w' (boff e j) = w (boff e j)" if "j < k" for j
      using w'(3) that boff_inj [OF assms(2), of j k] assms(1) Suc.prems by simp
    ultimately show ?thesis by blast
  qed
qed simp

lemma chain_upt:
  assumes "\<And>j. k \<le> j \<Longrightarrow> Suc j < t \<Longrightarrow> w (boff e j) = boff e (Suc j)" "w (boff e (t - 1)) = RUN_LIST_NULL"
    and "k < t"
  shows "chain w e (boff e k) [k..<t]"
  using assms(1,3)
proof (induction "t - k" arbitrary: k)
  case (Suc n)
  show ?case
  proof (cases "Suc k < t")
    case True
    have "chain w e (boff e (Suc k)) [Suc k..<t]"
      by (rule Suc.hyps(1)) (use Suc True in auto)
    then show ?thesis using Suc.prems True by (simp add: upt_conv_Cons)
  next
    case False
    then have "k = t - 1" "[k..<t] = [k]" using Suc.prems by (auto simp: upt_conv_Cons)
    then show ?thesis using assms(2) by simp
  qed
qed simp

definition run_count :: "nat \<Rightarrow> nat" where
  "run_count c = (SHM_RUN_UNIT_SIZE - RUN_HEADER_SIZE) div elemsize_of c"

lemma elemsize_of_class:
  assumes "1 \<le> c" "c \<le> 14"
  shows "8 \<le> elemsize_of c \<and> elemsize_of c \<le> 1920 \<and> 8 dvd elemsize_of c"
proof -
  have "c \<in> set [1..<15]" using assms by auto
  then show ?thesis by (auto simp: upt_rec elemsize_of_def run_config_list_def)
qed

lemma init_run_rep:
  assumes "1 \<le> unat c" and "unat c \<le> 14"
  shows "run_rep (init_run pos c) [0..<run_count (unat c)]"
    and "unat (rn_elemsize (init_run pos c)) = elemsize_of (unat c)"
    and "unat (rn_total (init_run pos c)) = run_count (unat c)"
    and "rn_pos (init_run pos c) = pos" "rn_conf_index (init_run pos c) = c" "rn_used (init_run pos c) = 0"
proof -
  let ?e = "elemsize_of (unat c)" and ?t = "run_count (unat c)"
  have e: "8 \<le> ?e" "?e \<le> 1920" using elemsize_of_class [OF assms] by auto
  have t: "64 + ?t * ?e \<le> 4096" "0 < ?t"
  proof -
    have "?t * ?e \<le> 4032" by (simp add: run_count_def)
    then show "64 + ?t * ?e \<le> 4096" by simp
    show "0 < ?t" using e by (simp add: run_count_def div_greater_zero_iff)
  qed
  let ?E = "rc_elemsize (run_config_list ! unat c)"
  have E: "unat ?E = ?e" "?E = word_of_nat ?e" by (simp_all add: elemsize_of_def)
  have T: "(4032 :: u32) div ?E = word_of_nat ?t" "unat ((4032 :: u32) div ?E) = ?t"
  proof -
    show u: "unat ((4032 :: u32) div ?E) = ?t" by (simp add: unat_div E(1) run_count_def)
    then show "(4032 :: u32) div ?E = word_of_nat ?t" by (metis word_of_nat_unat)
  qed
  have b0: "boff ?e 0 = 64" by (simp add: boff_def)
  obtain w where w: "run_list_loop 1 (word_of_nat ?t) (word_of_nat ?e) 64 (\<lambda>_. 0) = (boff ?e (?t - 1), w)"
    "\<forall>j. Suc j < ?t \<longrightarrow> w (boff ?e j) = boff ?e (Suc j)"
    using run_list_loop_chain [of ?e ?t 0 "\<lambda>_. 0"] e t b0 by auto
  have i: "init_run pos c = \<lparr>rn_pos = pos, rn_conf_index = c, rn_elemsize = ?E, rn_total = word_of_nat ?t,
      rn_used = 0, rn_free = 64, rn_words = w(boff ?e (?t - 1) := RUN_LIST_NULL)\<rparr>"
    using w(1) T(1) E(2) by (simp add: init_run_def Let_def)
  have "chain (w(boff ?e (?t - 1) := RUN_LIST_NULL)) ?e (boff ?e 0) [0..<?t]"
  proof (rule chain_upt)
    fix j assume "0 \<le> j" "Suc j < ?t"
    then show "(w(boff ?e (?t - 1) := RUN_LIST_NULL)) (boff ?e j) = boff ?e (Suc j)"
      using w(2) boff_inj [OF t(1), of j "?t - 1"] e by (auto simp del: One_nat_def)
  qed (use t in simp_all)
  then show "run_rep (init_run pos c) [0..<?t]" "unat (rn_elemsize (init_run pos c)) = ?e"
    "unat (rn_total (init_run pos c)) = ?t" "rn_pos (init_run pos c) = pos"
    "rn_conf_index (init_run pos c) = c" "rn_used (init_run pos c) = 0"
    using e t b0 E T(2) [unfolded T(1)] unfolding i run_rep_def by (auto simp: Let_def)
qed

section \<open>The blocks in use\<close>

definition run_live :: "run_header \<Rightarrow> nat list \<Rightarrow> u32 set" where
  "run_live run is = boff (unat (rn_elemsize run)) ` ({..<unat (rn_total run)} - set is)"

lemma boff_inj_on:
  assumes "run_rep run is"
  shows "inj_on (boff (unat (rn_elemsize run))) {..<unat (rn_total run)}"
  using assms boff_inj [of "unat (rn_total run)" "unat (rn_elemsize run)"]
  by (auto simp: inj_on_def run_rep_def Let_def)

lemma malloc_run_live:
  assumes m: "malloc_run run = Inr (run', off)" and r: "run_rep run is"
  shows "\<exists>is'. run_rep run' is' \<and> off \<notin> run_live run is \<and> run_live run' is' = insert off (run_live run is)
    \<and> rn_elemsize run' = rn_elemsize run \<and> rn_total run' = rn_total run"
proof (cases "is")
  case Nil
  then show ?thesis using malloc_run_full r m by simp
next
  case (Cons i js)
  let ?e = "unat (rn_elemsize run)" and ?t = "unat (rn_total run)"
  have i: "i < ?t" "i \<notin> set js" using r Cons by (auto simp: run_rep_def Let_def)
  obtain run2 where n: "malloc_run run = Inr (run2, boff ?e i)" "run_rep run2 js"
      "rn_elemsize run2 = rn_elemsize run" "rn_total run2 = rn_total run"
    using malloc_run_rep r Cons by blast
  have "insert i ({..<?t} - set is) = {..<?t} - set js" using i Cons by auto
  then have "insert (boff ?e i) (run_live run is) = boff ?e ` ({..<?t} - set js)"
    unfolding run_live_def by (simp flip: image_insert)
  moreover have "boff ?e i \<notin> run_live run is"
    using i(1) Cons boff_inj_on [OF r] by (auto simp: run_live_def inj_on_def)
  moreover have "run2 = run'" "off = boff ?e i" using n(1) m by simp_all
  ultimately show ?thesis using n by (intro exI [of _ js]) (simp add: run_live_def)
qed

lemma free_run_live:
  assumes r: "run_rep run is" and off: "off \<in> run_live run is"
  shows "\<exists>run' is'. free_run run off = Inr run' \<and> run_rep run' is' \<and> run_live run' is' = run_live run is - {off}
    \<and> rn_elemsize run' = rn_elemsize run \<and> rn_total run' = rn_total run"
proof -
  let ?e = "unat (rn_elemsize run)" and ?t = "unat (rn_total run)"
  obtain i where i: "i < ?t" "i \<notin> set is" "off = boff ?e i" using off by (auto simp: run_live_def)
  have "{..<?t} - set (i # is) = ({..<?t} - set is) - {i}" by auto
  moreover have "boff ?e ` (({..<?t} - set is) - {i}) = run_live run is - {off}"
    using i boff_inj_on [OF r] unfolding run_live_def
    by (subst inj_on_image_set_diff [of _ "{..<?t}"]) auto
  moreover obtain run' where "free_run run (boff ?e i) = Inr run'" "run_rep run' (i # is)"
      "rn_elemsize run' = rn_elemsize run" "rn_total run' = rn_total run"
    using free_run_rep [OF r i(1,2)] by blast
  ultimately show ?thesis using i(3) by (intro exI [of _ run'] exI [of _ "i # is"]) (simp add: run_live_def)
qed

text \<open>The blocks are behind the header, inside the page, and do not overlap.\<close>

lemma run_live_place:
  assumes r: "run_rep run is" and o: "o1 \<in> run_live run is"
  shows "RUN_HEADER_SIZE \<le> unat o1 \<and> unat o1 + unat (rn_elemsize run) \<le> SHM_RUN_UNIT_SIZE"
    and "o2 \<in> run_live run is \<Longrightarrow> o1 \<noteq> o2 \<Longrightarrow> unat o1 + unat (rn_elemsize run) \<le> unat o2
      \<or> unat o2 + unat (rn_elemsize run) \<le> unat o1"
proof -
  let ?e = "unat (rn_elemsize run)" and ?t = "unat (rn_total run)"
  have te: "64 + ?t * ?e \<le> 4096" and e: "0 < ?e" using r by (simp_all add: run_rep_def Let_def)
  have b: "unat (boff ?e i) = 64 + i * ?e \<and> 64 + i * ?e + ?e \<le> 4096" if "i < ?t" for i
  proof -
    have "Suc i \<le> ?t" using that by simp
    then have "64 + i * ?e + ?e \<le> 4096" using boff_bound [OF te, of "Suc i"] by simp
    then show ?thesis using unat_boff [of i ?e] by simp
  qed
  obtain i where i: "i < ?t" "o1 = boff ?e i" using o by (auto simp: run_live_def)
  then show "64 \<le> unat o1 \<and> unat o1 + ?e \<le> 4096" using b by simp
  assume "o2 \<in> run_live run is" "o1 \<noteq> o2"
  then obtain j where j: "j < ?t" "o2 = boff ?e j" "i \<noteq> j" using i(2) by (auto simp: run_live_def)
  then have "Suc i \<le> j \<or> Suc j \<le> i" by linarith
  then have "Suc i * ?e \<le> j * ?e \<or> Suc j * ?e \<le> i * ?e" using mult_le_mono1 by blast
  then show "unat o1 + ?e \<le> unat o2 \<or> unat o2 + ?e \<le> unat o1" using b i j by auto
qed

lemma card_run_live:
  assumes "run_rep run is"
  shows "card (run_live run is) = unat (rn_used run)"
proof -
  have "card (run_live run is) = card ({..<unat (rn_total run)} - set is)"
    unfolding run_live_def by (rule card_image) (rule inj_on_subset [OF boff_inj_on [OF assms]], blast)
  also have "\<dots> = unat (rn_total run) - length is"
    using assms by (subst card_Diff_subset) (auto simp: run_rep_def Let_def distinct_card)
  finally show ?thesis using assms by (auto simp: run_rep_def Let_def)
qed

section \<open>A run as a heap of blocks\<close>

text \<open>A run implements the contract of \<open>Block_Heap\<close>: every request up to the size of its class
  is served by one block, whose place is its offset.\<close>

definition run_blocks :: "run_header \<Rightarrow> (u32 \<times> nat) set \<Rightarrow> bool" where
  "run_blocks run A \<longleftrightarrow> (\<exists>is. run_rep run is \<and> A = (\<lambda>off. (off, unat (rn_elemsize run))) ` run_live run is)"

definition off_apart :: "u32 \<times> nat \<Rightarrow> u32 \<times> nat \<Rightarrow> bool" where
  "off_apart a b \<longleftrightarrow> unat (fst a) + snd a \<le> unat (fst b) \<or> unat (fst b) + snd b \<le> unat (fst a)"

interpretation run_heap: block_heap run_blocks "\<lambda>run n. malloc_run run" free_run "\<lambda>off. False"
  "\<lambda>n :: nat. n" "\<lambda>run n. 0 < n \<and> n \<le> unat (rn_elemsize run)" "\<lambda>run off n. True" off_apart
proof
  fix run A n run' off
  assume "run_blocks run A" and n: "0 < n \<and> n \<le> unat (rn_elemsize run)" and m: "malloc_run run = Inr (run', off)"
  then obtain "is" where r: "run_rep run is" "A = (\<lambda>off. (off, unat (rn_elemsize run))) ` run_live run is"
    by (auto simp: run_blocks_def)
  obtain is' where i: "run_rep run' is'" "off \<notin> run_live run is" "run_live run' is' = insert off (run_live run is)"
    "rn_elemsize run' = rn_elemsize run" using malloc_run_live [OF m r(1)] by blast
  have "run_blocks run' (insert (off, unat (rn_elemsize run)) A)"
    unfolding run_blocks_def using i r(2) by (intro exI [of _ is']) simp
  then show "0 < n \<and> (\<exists>m\<ge>n. (off, m) \<notin> A \<and> run_blocks run' (insert (off, m) A))"
    using n i(2) r(2) by blast
next
  fix run A off m n
  assume "run_blocks run A" and o: "(off, m) \<in> A"
  then obtain "is" where r: "run_rep run is" "A = (\<lambda>off. (off, unat (rn_elemsize run))) ` run_live run is"
    by (auto simp: run_blocks_def)
  have o': "off \<in> run_live run is" "m = unat (rn_elemsize run)" using o r(2) by auto
  obtain run' is' where f: "free_run run off = Inr run'" "run_rep run' is'" "run_live run' is' = run_live run is - {off}"
    "rn_elemsize run' = rn_elemsize run" using free_run_live [OF r(1) o'(1)] by blast
  have "A - {(off, m)} = (\<lambda>off. (off, unat (rn_elemsize run))) ` (run_live run is - {off})" using r(2) o'(2) by auto
  then have "run_blocks run' (A - {(off, m)})" unfolding run_blocks_def using f by (intro exI [of _ is']) simp
  then show "\<exists>run'. free_run run off = Inr run' \<and> run_blocks run' (A - {(off, m)})" using f(1) by blast
next
  fix run A a b
  assume "run_blocks run A" "a \<in> A" "b \<in> A" "a \<noteq> b"
  then show "off_apart a b" using run_live_place(2) by (fastforce simp: run_blocks_def off_apart_def)
qed (auto simp: off_apart_def)

section \<open>A run in use\<close>

text \<open>
  A run with the set of the offsets its users hold: they get a block from \<open>malloc_run\<close> and
  give back one they hold.
\<close>

inductive run_step :: "run_header \<times> u32 set \<Rightarrow> run_header \<times> u32 set \<Rightarrow> bool" where
  alloc: "malloc_run run = Inr (run', off) \<Longrightarrow> run_step (run, L) (run', insert off L)"
| release: "off \<in> L \<Longrightarrow> free_run run off = Inr run' \<Longrightarrow> run_step (run, L) (run', L - {off})"

inductive_cases run_stepE: "run_step (run, L) s'"

lemma run_reach:
  assumes "run_step\<^sup>*\<^sup>* (init_run pos c, {}) (run, L)" and "1 \<le> unat c" "unat c \<le> 14"
  shows "\<exists>is. run_rep run is \<and> L = run_live run is \<and> unat (rn_elemsize run) = elemsize_of (unat c)
    \<and> unat (rn_total run) = run_count (unat c)"
  using assms(1)
proof (induction "(run, L)" arbitrary: run L rule: rtranclp_induct)
  case base
  then show ?case
    using init_run_rep [OF assms(2,3), of pos]
    by (intro exI [of _ "[0..<run_count (unat c)]"]) (auto simp: run_live_def)
next
  case (step s)
  obtain run1 L1 where s: "s = (run1, L1)" by (cases s)
  then obtain "is" where i: "run_rep run1 is" "L1 = run_live run1 is"
      "unat (rn_elemsize run1) = elemsize_of (unat c)" "unat (rn_total run1) = run_count (unat c)"
    using step.hyps(3) by blast
  from step.hyps(2) [unfolded s] show ?case
  proof (rule run_stepE)
    fix run2 off assume "(run, L) = (run2, insert off L1)" "malloc_run run1 = Inr (run2, off)"
    then show ?thesis using malloc_run_live [OF _ i(1), of run2 off] i(2-4) by auto
  next
    fix off run2 assume "(run, L) = (run2, L1 - {off})" "off \<in> L1" "free_run run1 off = Inr run2"
    then show ?thesis using free_run_live [OF i(1), of off] i(2-4) by auto
  qed
qed

section \<open>Properties\<close>

text \<open>C28: a new run of a size class is all free: its blocks are chained in ascending order, they
  fill the page behind the header, each is inside the page, aligned to 8 bytes and as large as
  the class says.\<close>

theorem init_run_correct:
  assumes "1 \<le> unat c" and "unat c \<le> 14"
  shows "run_rep (init_run pos c) [0..<run_count (unat c)]
    \<and> unat (rn_elemsize (init_run pos c)) = elemsize_of (unat c)
    \<and> unat (rn_total (init_run pos c)) = run_count (unat c) \<and> rn_used (init_run pos c) = 0
    \<and> (\<forall>i < run_count (unat c). RUN_HEADER_SIZE \<le> unat (boff (elemsize_of (unat c)) i)
        \<and> unat (boff (elemsize_of (unat c)) i) + elemsize_of (unat c) \<le> SHM_RUN_UNIT_SIZE
        \<and> 8 dvd unat (boff (elemsize_of (unat c)) i))"
proof -
  let ?e = "elemsize_of (unat c)" and ?t = "run_count (unat c)"
  note r = init_run_rep [OF assms, of pos]
  have te: "64 + ?t * ?e \<le> 4096" using r(1-3) by (simp add: run_rep_def Let_def)
  have "64 + i * ?e + ?e \<le> 4096" "unat (boff ?e i) = 64 + i * ?e" if "i < ?t" for i
  proof -
    have "Suc i \<le> ?t" using that by simp
    then show "64 + i * ?e + ?e \<le> 4096" using boff_bound [OF te, of "Suc i"] by simp
    then show "unat (boff ?e i) = 64 + i * ?e" by (intro unat_boff) simp
  qed
  moreover have "8 dvd 64 + i * ?e" for i using elemsize_of_class [OF assms] by simp
  ultimately show ?thesis using r by auto
qed

theorem init_run_correct_witness:
  "run_rep (init_run 4096 14) [0..<2] \<and> unat (rn_elemsize (init_run 4096 14)) = 1920
    \<and> unat (rn_total (init_run 4096 14)) = 2"
  using init_run_correct [of 14 4096] by (simp add: run_count_def elemsize_of_def run_config_list_def)

text \<open>C29: \<open>free_run\<close> of a block in use puts it at the head of the free list, and the next
  \<open>malloc_run\<close> returns that very block and restores the run's free list and count.\<close>

theorem free_run_malloc_run:
  assumes "run_rep run is" and "i < unat (rn_total run)" "i \<notin> set is"
  shows "\<exists>run' run''. free_run run (boff (unat (rn_elemsize run)) i) = Inr run' \<and> run_rep run' (i # is)
    \<and> malloc_run run' = Inr (run'', boff (unat (rn_elemsize run)) i) \<and> run_rep run'' is
    \<and> rn_used run'' = rn_used run"
proof -
  obtain run' where f: "free_run run (boff (unat (rn_elemsize run)) i) = Inr run'" "run_rep run' (i # is)"
      "rn_elemsize run' = rn_elemsize run" "Suc (unat (rn_used run')) = unat (rn_used run)"
    using free_run_rep [OF assms] by blast
  obtain run'' where "malloc_run run' = Inr (run'', boff (unat (rn_elemsize run')) i)" "run_rep run'' is"
      "unat (rn_used run'') = Suc (unat (rn_used run'))"
    using malloc_run_rep [OF f(2)] by blast
  then show ?thesis using f by (auto simp: word_unat_eq_iff)
qed

lemma one_used_rep:
  obtains run where "malloc_run (init_run 4096 14) = Inr (run, 64)" "run_rep run [1]"
    "unat (rn_total run) = 2" "unat (rn_elemsize run) = 1920"
proof -
  have c: "run_count (unat (14 :: u32)) = 2" "elemsize_of (unat (14 :: u32)) = 1920"
    by (simp_all add: run_count_def elemsize_of_def run_config_list_def)
  note r = init_run_rep [of 14 4096, unfolded c]
  have "[0..<2] = [0, 1 :: nat]" by (simp add: upt_rec)
  then show ?thesis
    using malloc_run_rep [of "init_run 4096 14" 0 "[1]"] r that by (auto simp: boff_def)
qed

theorem free_run_malloc_run_witness:
  "\<exists>run run' run''. free_run run (boff 1920 0) = Inr run' \<and> run_rep run' [0, 1]
    \<and> malloc_run run' = Inr (run'', boff 1920 0) \<and> run_rep run'' [1]"
proof -
  obtain run where "run_rep run [1]" "unat (rn_total run) = 2" "unat (rn_elemsize run) = 1920"
    by (rule one_used_rep)
  then show ?thesis using free_run_malloc_run [of run "[1]" 0] by auto
qed

text \<open>C21: whatever blocks are taken from a run and given back, in any order: the run counts
  exactly the blocks in use, these are inside the page behind the header and do not overlap,
  \<open>malloc_run\<close> returns a block that is not in use if one is left and stops at its assertion
  if none is, and every block in use can be given back.\<close>

theorem run_blocks_safe:
  assumes "run_step\<^sup>*\<^sup>* (init_run pos c, {}) (run, L)" and "1 \<le> unat c" "unat c \<le> 14"
  shows "card L = unat (rn_used run) \<and> unat (rn_used run) \<le> run_count (unat c)
    \<and> (\<forall>o1 \<in> L. RUN_HEADER_SIZE \<le> unat o1 \<and> unat o1 + elemsize_of (unat c) \<le> SHM_RUN_UNIT_SIZE)
    \<and> (\<forall>o1 \<in> L. \<forall>o2 \<in> L. o1 \<noteq> o2 \<longrightarrow> unat o1 + elemsize_of (unat c) \<le> unat o2
         \<or> unat o2 + elemsize_of (unat c) \<le> unat o1)
    \<and> (if card L < run_count (unat c) then \<exists>run' o1. malloc_run run = Inr (run', o1) \<and> o1 \<notin> L
       else malloc_run run = Inl AssertFail)
    \<and> (\<forall>o1 \<in> L. \<exists>run'. free_run run o1 = Inr run')"
proof -
  obtain "is" where r: "run_rep run is" "L = run_live run is"
      "unat (rn_elemsize run) = elemsize_of (unat c)" "unat (rn_total run) = run_count (unat c)"
    using run_reach [OF assms] by blast
  have len: "unat (rn_used run) + length is = run_count (unat c)"
    using r by (simp add: run_rep_def Let_def)
  have card: "card L = unat (rn_used run)" using card_run_live [OF r(1)] r(2) by simp
  have "if card L < run_count (unat c) then \<exists>run' o1. malloc_run run = Inr (run', o1) \<and> o1 \<notin> L
      else malloc_run run = Inl AssertFail"
  proof (cases "is")
    case (Cons i js)
    then obtain run' o1 where m: "malloc_run run = Inr (run', o1)" using malloc_run_rep r(1) by blast
    then show ?thesis using malloc_run_live [OF m r(1)] r(2) Cons len card by auto
  qed (use malloc_run_full r(1) len card in simp)
  moreover have "\<exists>run'. free_run run o1 = Inr run'" if "o1 \<in> L" for o1
    using free_run_live [OF r(1)] that r(2) by blast
  ultimately show ?thesis using card len run_live_place [OF r(1), folded r(2), unfolded r(3)] by simp
qed

theorem run_blocks_safe_witness:
  "\<exists>run. run_step\<^sup>*\<^sup>* (init_run 4096 14, {}) (run, {64}) \<and> card {64 :: u32} = unat (rn_used run)
    \<and> (\<exists>run' o1. malloc_run run = Inr (run', o1) \<and> o1 \<notin> {64})"
proof -
  have c: "run_count (unat (14 :: u32)) = 2" by (simp add: run_count_def elemsize_of_def run_config_list_def)
  obtain run where "malloc_run (init_run 4096 14) = Inr (run, 64)" by (rule one_used_rep)
  then have st: "run_step\<^sup>*\<^sup>* (init_run 4096 14, {}) (run, {64})" by (intro r_into_rtranclp run_step.alloc)
  have a: "1 \<le> unat (14 :: u32)" "unat (14 :: u32) \<le> 14" by simp_all
  have "card {64 :: u32} = unat (rn_used run)"
    and "if card {64 :: u32} < 2 then \<exists>run' o1. malloc_run run = Inr (run', o1) \<and> o1 \<notin> {64}
      else malloc_run run = Inl AssertFail"
    using run_blocks_safe [OF st a, unfolded c] by blast+
  then show ?thesis using st by auto
qed

end
