(* ===== verification/Bitmap.thy ===== *)
theory Bitmap
  imports Prelude
begin

text \<open>
  \<open>src/shm_util.h\<close>: the bitmaps that record which pages of a chunk are in use, the
  search for the first set or unset bit, and \<open>align_size\<close>. A bitmap is the list of its
  64-bit words. Reading or writing past the end of the list is the fault \<open>WildAccess\<close>.
\<close>

section \<open>The code\<close>

definition BITMAP_BITS2GROUPS :: "u32 \<Rightarrow> u32" where
  "BITMAP_BITS2GROUPS nbits = drop_bit 6 (nbits + 63)"

definition bm_word :: "u64 list \<Rightarrow> nat \<Rightarrow> u64 res" where
  "bm_word bitmap w = (if w < length bitmap then Inr (bitmap ! w) else Inl WildAccess)"

definition bitmap_set :: "u64 list \<Rightarrow> u32 \<Rightarrow> u64 list res" where
  "bitmap_set bitmap n =
     (let w = unat (drop_bit 6 n :: u32); position = unat (n AND 63)
      in bind_r (bm_word bitmap w) (\<lambda>g. Inr (bitmap[w := g OR push_bit position 1])))"

definition bitmap_get :: "u64 list \<Rightarrow> u32 \<Rightarrow> bool res" where
  "bitmap_get bitmap n =
     (let w = unat (drop_bit 6 n :: u32); position = unat (n AND 63)
      in bind_r (bm_word bitmap w) (\<lambda>g. Inr (drop_bit position g AND 1 \<noteq> 0)))"

definition bitmap_clear :: "u64 list \<Rightarrow> u32 \<Rightarrow> u64 list res" where
  "bitmap_clear bitmap n =
     (let w = unat (drop_bit 6 n :: u32); position = unat (n AND 63)
      in bind_r (bm_word bitmap w) (\<lambda>g. Inr (bitmap[w := g AND NOT (push_bit position 1)])))"

text \<open>\<open>ffs_u64\<close>: one plus the index of the least significant set bit, 0 if there is none.\<close>

definition ffs_u64 :: "u64 \<Rightarrow> nat" where
  "ffs_u64 g = (case List.find (bit g) [0..<64] of None \<Rightarrow> 0 | Some i \<Rightarrow> Suc i)"

text \<open>
  The two counting loops differ in the word they search (\<open>bitmap[i]\<close> or its complement),
  the parameter \<open>f\<close>; the list holds the values the loop variable still takes.
\<close>

primrec bitmap_scan :: "(u64 \<Rightarrow> u64) \<Rightarrow> u64 list \<Rightarrow> u32 \<Rightarrow> nat list \<Rightarrow> u32 res" where
  "bitmap_scan f bitmap b [] = Inr b"
| "bitmap_scan f bitmap b (i # is) =
     bind_r (bm_word bitmap i) (\<lambda>g.
       let bt = ffs_u64 (f g)
       in if bt \<noteq> 0 then Inr (push_bit 6 (word_of_nat i) + word_of_nat (bt - 1))
          else bitmap_scan f bitmap b is)"

definition bitmap_ffu :: "u64 list \<Rightarrow> u32 \<Rightarrow> u32 res" where
  "bitmap_ffu bitmap b = bitmap_scan (\<lambda>g. NOT g) bitmap b [0..<unat (BITMAP_BITS2GROUPS b)]"

definition bitmap_ffs :: "u64 list \<Rightarrow> u32 \<Rightarrow> u32 res" where
  "bitmap_ffs bitmap b = bitmap_scan (\<lambda>g. g) bitmap b [0..<unat (BITMAP_BITS2GROUPS b)]"

text \<open>
  The loop of \<open>bitmap_ffsp\<close> reads \<open>bitmap[i]\<close> before it tests \<open>i < l\<close>, so it
  may read the word just past the bitmap. Callers pass the words from the bitmap's address
  on, those of the object that follows included.
\<close>

function bitmap_ffsp_loop :: "u64 list \<Rightarrow> u32 \<Rightarrow> nat \<Rightarrow> nat \<Rightarrow> u64 \<Rightarrow> u32 res" where
  "bitmap_ffsp_loop bitmap b l i g =
     (let bt = ffs_u64 g
      in if bt \<noteq> 0 then Inr (push_bit 6 (word_of_nat i) + word_of_nat (bt - 1))
         else bind_r (bm_word bitmap (Suc i)) (\<lambda>g'.
           if Suc i < l then bitmap_ffsp_loop bitmap b l (Suc i) g' else Inr b))"
  by pat_completeness auto
termination
  by (relation "measure (\<lambda>(bitmap, b, l, i, g). l - i)") auto

declare bitmap_ffsp_loop.simps [simp del]

definition bitmap_ffsp :: "u64 list \<Rightarrow> u32 \<Rightarrow> u32 \<Rightarrow> u32 res" where
  "bitmap_ffsp bitmap n b =
     assert_r (n < b)
       (let l = unat (BITMAP_BITS2GROUPS b); i = unat (drop_bit 6 n :: u32)
        in bind_r (bm_word bitmap i) (\<lambda>w.
             bitmap_ffsp_loop bitmap b l i (w AND NOT (push_bit (unat (n AND 63)) 1 - 1))))"

definition bitmap_sfu :: "u64 list \<Rightarrow> u32 \<Rightarrow> (u32 \<times> u64 list) res" where
  "bitmap_sfu bitmap b =
     bind_r (bitmap_ffu bitmap b) (\<lambda>r.
       if r < b then bind_r (bitmap_set bitmap r) (\<lambda>bitmap'. Inr (r, bitmap'))
       else Inr (r, bitmap))"

definition align_size :: "u64 \<Rightarrow> u64 \<Rightarrow> u64" where
  "align_size sz align = align * ((sz + (align - 1)) div align)"

section \<open>Bits of a bitmap\<close>

definition bm_bit :: "u64 list \<Rightarrow> nat \<Rightarrow> bool" where
  "bm_bit bm i = bit (bm ! (i div 64)) (i mod 64)"

definition bm_put :: "u64 list \<Rightarrow> nat \<Rightarrow> bool \<Rightarrow> u64 list" where
  "bm_put bm i b = bm[i div 64 := (if b then bm ! (i div 64) OR push_bit (i mod 64) 1
                                   else bm ! (i div 64) AND NOT (push_bit (i mod 64) 1))]"

lemma length_bm_put [simp]: "length (bm_put bm i b) = length bm"
  by (simp add: bm_put_def)

lemma bit_two_power: "k < 64 \<Longrightarrow> bit (2 ^ k :: u64) j \<longleftrightarrow> j = k"
  by (auto simp: bit_simps)

lemma bm_bit_put:
  assumes "i < 64 * length bm" and "j < 64 * length bm"
  shows "bm_bit (bm_put bm i b) j = (if j = i then b else bm_bit bm j)"
proof (cases "j div 64 = i div 64")
  case True
  have lt: "i div 64 < length bm" using assms by (simp add: less_mult_imp_div_less mult.commute)
  have eq: "j mod 64 = i mod 64 \<longleftrightarrow> j = i"
    using True by (metis mod_div_mult_eq)
  have "bit (x :: u64) (j mod 64) \<Longrightarrow> j mod 64 < 64" for x by simp
  with True lt eq show ?thesis
    by (auto simp: bm_bit_def bm_put_def bit_or_iff bit_and_iff bit_not_iff bit_two_power)
next
  case False
  then show ?thesis by (auto simp: bm_bit_def bm_put_def)
qed

lemma word_index_less: "unat n < 64 * L \<Longrightarrow> unat (drop_bit 6 (n :: u32)) < L"
  by (simp add: unat_drop_bit less_mult_imp_div_less mult.commute)

lemma bitmap_set_ok [simp]:
  "unat n < 64 * length bm \<Longrightarrow> bitmap_set bm n = Inr (bm_put bm (unat n) True)"
  by (frule word_index_less)
     (simp add: bitmap_set_def bm_word_def bm_put_def unat_drop_bit unat_and_mask6 Let_def)

lemma bitmap_clear_ok [simp]:
  "unat n < 64 * length bm \<Longrightarrow> bitmap_clear bm n = Inr (bm_put bm (unat n) False)"
  by (frule word_index_less)
     (simp add: bitmap_clear_def bm_word_def bm_put_def unat_drop_bit unat_and_mask6 Let_def)

lemma drop_bit_and_one: "drop_bit k (g :: u64) AND 1 \<noteq> 0 \<longleftrightarrow> bit g k"
  by (simp add: and_one_eq odd_iff_mod_2_eq_one bit_iff_odd_drop_bit flip: odd_iff_mod_2_eq_one)

lemma bitmap_get_ok [simp]:
  "unat n < 64 * length bm \<Longrightarrow> bitmap_get bm n = Inr (bm_bit bm (unat n))"
  by (frule word_index_less)
     (simp add: bitmap_get_def bm_word_def bm_bit_def drop_bit_and_one unat_drop_bit
        unat_and_mask6)

section \<open>Searching\<close>

text \<open>The reference for every search: the first index of a range that satisfies \<open>P\<close>.\<close>

definition bm_first :: "(nat \<Rightarrow> bool) \<Rightarrow> nat \<Rightarrow> nat \<Rightarrow> nat option" where
  "bm_first P lo hi = List.find P [lo..<hi]"

lemma bm_first_None: "bm_first P lo hi = None \<longleftrightarrow> (\<forall>i. lo \<le> i \<and> i < hi \<longrightarrow> \<not> P i)"
  by (auto simp: bm_first_def find_None_iff)

lemma bm_first_Some:
  "bm_first P lo hi = Some i \<longleftrightarrow> lo \<le> i \<and> i < hi \<and> P i \<and> (\<forall>j. lo \<le> j \<and> j < i \<longrightarrow> \<not> P j)"
proof
  assume "bm_first P lo hi = Some i"
  then obtain k where k: "k < hi - lo" "P (lo + k)" "i = lo + k"
    and before: "\<forall>j<k. \<not> P (lo + j)"
    by (auto simp: bm_first_def find_Some_iff)
  have "\<not> P j" if "lo \<le> j" "j < i" for j
    using before [rule_format, of "j - lo"] that k by simp
  with k show "lo \<le> i \<and> i < hi \<and> P i \<and> (\<forall>j. lo \<le> j \<and> j < i \<longrightarrow> \<not> P j)" by auto
next
  assume "lo \<le> i \<and> i < hi \<and> P i \<and> (\<forall>j. lo \<le> j \<and> j < i \<longrightarrow> \<not> P j)"
  then show "bm_first P lo hi = Some i"
    unfolding bm_first_def find_Some_iff by (intro exI [of _ "i - lo"]) auto
qed

lemma bm_first_eqI:
  assumes "\<And>i. lo \<le> i \<Longrightarrow> i < hi \<Longrightarrow> P i = Q i"
  shows "bm_first P lo hi = bm_first Q lo hi"
proof (cases "bm_first P lo hi")
  case None
  then show ?thesis using assms by (metis bm_first_None)
next
  case (Some i)
  then have "bm_first Q lo hi = Some i"
    using assms by (auto simp: bm_first_Some)
  with Some show ?thesis by simp
qed

lemma bm_first_split:
  assumes "lo \<le> mid" and "mid \<le> hi"
  shows "bm_first P lo hi =
    (case bm_first P lo mid of None \<Rightarrow> bm_first P mid hi | Some i \<Rightarrow> Some i)"
proof (cases "bm_first P lo mid")
  case None
  then have no: "\<forall>i. lo \<le> i \<and> i < mid \<longrightarrow> \<not> P i" by (simp add: bm_first_None)
  show ?thesis
  proof (cases "bm_first P mid hi")
    case N: None
    with no have "bm_first P lo hi = None"
      unfolding bm_first_None by (metis not_le)
    with None N show ?thesis by simp
  next
    case (Some i)
    with no assms have "bm_first P lo hi = Some i"
      unfolding bm_first_Some by (metis le_trans not_le)
    with None Some show ?thesis by simp
  qed
next
  case (Some i)
  with assms have "bm_first P lo hi = Some i" by (auto simp: bm_first_Some)
  with Some show ?thesis by simp
qed

lemma ffs_u64_first: "ffs_u64 g = (case bm_first (bit g) 0 64 of None \<Rightarrow> 0 | Some i \<Rightarrow> Suc i)"
  by (simp add: ffs_u64_def bm_first_def)

lemma bm_first_shift:
  "bm_first P (a + lo) (a + hi) = map_option (\<lambda>i. a + i) (bm_first (\<lambda>i. P (a + i)) lo hi)"
proof (cases "bm_first (\<lambda>i. P (a + i)) lo hi")
  case None
  then have "bm_first P (a + lo) (a + hi) = None"
    unfolding bm_first_None
    by (metis add_le_cancel_left le_add_diff_inverse nat_add_left_cancel_less le_trans le_add1)
  with None show ?thesis by simp
next
  case (Some i)
  then have i: "lo \<le> i" "i < hi" "P (a + i)" and b: "\<And>j. lo \<le> j \<Longrightarrow> j < i \<Longrightarrow> \<not> P (a + j)"
    by (auto simp: bm_first_Some)
  have "\<not> P j" if "a + lo \<le> j" "j < a + i" for j
    using b [of "j - a"] that by simp
  then have "bm_first P (a + lo) (a + hi) = Some (a + i)"
    using i by (simp add: bm_first_Some)
  with Some show ?thesis by simp
qed

lemma first_in_word:
  "bm_first (\<lambda>i. bit (f (bm ! (i div 64))) (i mod 64)) (64 * k) (64 * Suc k)
     = (if ffs_u64 (f (bm ! k)) = 0 then None else Some (64 * k + (ffs_u64 (f (bm ! k)) - 1)))"
proof -
  have "bm_first (\<lambda>i. bit (f (bm ! (i div 64))) (i mod 64)) (64 * k + 0) (64 * k + 64)
      = map_option (\<lambda>i. 64 * k + i)
          (bm_first (\<lambda>i. bit (f (bm ! ((64 * k + i) div 64))) ((64 * k + i) mod 64)) 0 64)"
    by (rule bm_first_shift)
  also have "bm_first (\<lambda>i. bit (f (bm ! ((64 * k + i) div 64))) ((64 * k + i) mod 64)) 0 64
      = bm_first (bit (f (bm ! k))) 0 64"
    by (rule bm_first_eqI) simp
  finally show ?thesis
    by (simp add: ffs_u64_first add.commute split: option.split)
qed

lemma index_of_parts: "push_bit 6 (word_of_nat i) + word_of_nat j = (word_of_nat (64 * i + j) :: u32)"
  by (simp add: push_bit_eq_mult)

lemma bitmap_scan_first:
  assumes "k \<le> l" and "l \<le> length bm"
  shows "bitmap_scan f bm b [k..<l] =
    Inr (case bm_first (\<lambda>i. bit (f (bm ! (i div 64))) (i mod 64)) (64 * k) (64 * l) of
           None \<Rightarrow> b | Some i \<Rightarrow> word_of_nat i)"
  using assms
proof (induction "l - k" arbitrary: k)
  case 0
  then show ?case by (simp add: bm_first_def)
next
  case (Suc d)
  from Suc.hyps(2) have lt: "k < l" by simp
  have IH: "bitmap_scan f bm b [Suc k..<l] =
    Inr (case bm_first (\<lambda>i. bit (f (bm ! (i div 64))) (i mod 64)) (64 * Suc k) (64 * l) of
           None \<Rightarrow> b | Some i \<Rightarrow> word_of_nat i)"
    by (rule Suc.hyps(1)) (use Suc in auto)
  have "64 * k \<le> 64 * Suc k" "64 * Suc k \<le> 64 * l" using lt by auto
  note split = bm_first_split [OF this, of "\<lambda>i. bit (f (bm ! (i div 64))) (i mod 64)"]
  have kl: "k < length bm" using lt Suc.prems by simp
  have upt: "[k..<l] = k # [Suc k..<l]" using lt by (rule upt_conv_Cons)
  show ?case
    unfolding upt split first_in_word
    using kl IH by (simp add: bm_word_def Let_def push_bit_eq_mult)
qed

lemma bit_from: "p < 64 \<Longrightarrow>
  bit (w AND NOT (2 ^ p - 1) :: u64) j \<longleftrightarrow> bit w j \<and> p \<le> j"
  by (auto simp: bit_and_iff bit_not_iff bit_mask_iff simp flip: mask_eq_exp_minus_1
      dest: bit_imp_le_length)

lemma bitmap_ffsp_loop_first:
  assumes "i < l" and "l < length bm"
  shows "bitmap_ffsp_loop bm b l i g =
    Inr (if ffs_u64 g \<noteq> 0 then word_of_nat (64 * i + (ffs_u64 g - 1))
         else case bm_first (bm_bit bm) (64 * Suc i) (64 * l) of
                None \<Rightarrow> b | Some j \<Rightarrow> word_of_nat j)"
  using assms
proof (induction "l - i" arbitrary: i g)
  case 0
  then show ?case by simp
next
  case (Suc d)
  show ?case
  proof (cases "ffs_u64 g = 0 \<and> Suc i < l")
    case False
    with Suc.prems show ?thesis
      by (subst bitmap_ffsp_loop.simps)
         (auto simp: Let_def bm_word_def bm_first_def push_bit_eq_mult)
  next
    case True
    have "64 * Suc i \<le> 64 * Suc (Suc i)" "64 * Suc (Suc i) \<le> 64 * l" using True by auto
    note split = bm_first_split [OF this, of "bm_bit bm"]
    have word: "bm_first (bm_bit bm) (64 * Suc i) (64 * Suc (Suc i)) =
      (if ffs_u64 (bm ! Suc i) = 0 then None
       else Some (64 * Suc i + (ffs_u64 (bm ! Suc i) - 1)))"
      using first_in_word [of "\<lambda>g. g" bm "Suc i"] by (simp add: bm_bit_def [abs_def])
    have IH: "bitmap_ffsp_loop bm b l (Suc i) (bm ! Suc i) =
      Inr (if ffs_u64 (bm ! Suc i) \<noteq> 0
           then word_of_nat (64 * Suc i + (ffs_u64 (bm ! Suc i) - 1))
           else case bm_first (bm_bit bm) (64 * Suc (Suc i)) (64 * l) of
                  None \<Rightarrow> b | Some j \<Rightarrow> word_of_nat j)"
      by (rule Suc.hyps(1)) (use Suc True in auto)
    have "Suc i < length bm" using True Suc.prems by simp
    with True show ?thesis
      by (subst bitmap_ffsp_loop.simps) (simp add: Let_def bm_word_def IH split word del: mult_Suc_right)
  qed
qed

lemma groups_of_multiple:
  assumes "64 dvd unat b"
  shows "unat (BITMAP_BITS2GROUPS b) = unat b div 64"
proof -
  obtain m where m: "unat b = 64 * m" using assms by blast
  have "unat b < 2 ^ 32" using unat_less_u32 [of b] by simp
  with m have "unat b + 63 < 2 ^ 32" by simp
  then have "unat (b + 63) = unat b + 63" by (simp add: unat_word_ariths)
  with m show ?thesis by (simp add: BITMAP_BITS2GROUPS_def unat_drop_bit)
qed

lemma bitmap_ffu_first:
  assumes "64 dvd unat b" and "unat b \<le> 64 * length bm"
  shows "bitmap_ffu bm b =
    Inr (case bm_first (\<lambda>i. \<not> bm_bit bm i) 0 (unat b) of None \<Rightarrow> b | Some i \<Rightarrow> word_of_nat i)"
proof -
  let ?l = "unat b div 64"
  have l: "64 * ?l = unat b" using assms by simp
  have "?l \<le> length bm" using assms by simp
  note scan = bitmap_scan_first [OF le0 this, of "\<lambda>g. NOT g" b]
  have "bm_first (\<lambda>i. bit (NOT (bm ! (i div 64))) (i mod 64)) 0 (unat b) =
        bm_first (\<lambda>i. \<not> bm_bit bm i) 0 (unat b)"
    by (rule bm_first_eqI) (simp add: bm_bit_def bit_not_iff)
  with scan l show ?thesis
    by (simp add: bitmap_ffu_def groups_of_multiple assms)
qed

lemma bitmap_ffs_first:
  assumes "64 dvd unat b" and "unat b \<le> 64 * length bm"
  shows "bitmap_ffs bm b =
    Inr (case bm_first (bm_bit bm) 0 (unat b) of None \<Rightarrow> b | Some i \<Rightarrow> word_of_nat i)"
proof -
  let ?l = "unat b div 64"
  have l: "64 * ?l = unat b" using assms by simp
  have "?l \<le> length bm" using assms by simp
  note scan = bitmap_scan_first [OF le0 this, of "\<lambda>g. g" b]
  with l show ?thesis
    by (simp add: bitmap_ffs_def groups_of_multiple assms bm_bit_def [abs_def])
qed

lemma first_in_first_word:
  fixes n i :: nat and bm :: "u64 list"
  defines "i \<equiv> n div 64"
  defines "g \<equiv> bm ! i AND NOT (push_bit (n mod 64) 1 - 1)"
  shows "bm_first (bm_bit bm) n (64 * Suc i) =
    (if ffs_u64 g = 0 then None else Some (64 * i + (ffs_u64 g - 1)))"
proof -
  have "bm_first (bm_bit bm) (64 * i + n mod 64) (64 * i + 64) =
    map_option (\<lambda>k. 64 * i + k) (bm_first (\<lambda>k. bm_bit bm (64 * i + k)) (n mod 64) 64)"
    by (rule bm_first_shift)
  moreover have "bm_first (\<lambda>k. bm_bit bm (64 * i + k)) (n mod 64) 64 =
    bm_first (bit (bm ! i)) (n mod 64) 64"
    by (rule bm_first_eqI) (simp add: bm_bit_def)
  moreover have "bm_first (bit (bm ! i)) (n mod 64) 64 = bm_first (bit g) 0 64"
  proof -
    have "bm_first (bit g) 0 (n mod 64) = None"
      by (simp add: bm_first_None g_def bit_from)
    then have "bm_first (bit g) 0 64 = bm_first (bit g) (n mod 64) 64"
      by (subst bm_first_split [of 0 "n mod 64" 64]) simp_all
    also have "\<dots> = bm_first (bit (bm ! i)) (n mod 64) 64"
      by (rule bm_first_eqI) (simp add: g_def bit_from)
    finally show ?thesis by simp
  qed
  ultimately show ?thesis
    by (simp add: ffs_u64_first i_def add.commute split: option.split)
qed

lemma bitmap_ffsp_first:
  assumes "64 dvd unat b" and "n < b" and "unat b < 64 * length bm"
  shows "bitmap_ffsp bm n b =
    Inr (case bm_first (bm_bit bm) (unat n) (unat b) of None \<Rightarrow> b | Some i \<Rightarrow> word_of_nat i)"
proof -
  let ?l = "unat b div 64" and ?i = "unat n div 64"
  let ?g = "bm ! ?i AND NOT (push_bit (unat n mod 64) 1 - 1)"
  have l: "64 * ?l = unat b" using assms by simp
  have nb: "unat n < unat b" using assms by (simp add: word_less_nat_alt)
  have il: "?i < ?l" using nb l by (simp add: div_less_iff_less_mult)
  have ll: "?l < length bm" using assms(3) l by linarith
  have "unat n \<le> 64 * Suc ?i" by simp
  moreover have "64 * Suc ?i \<le> unat b" using il l mult_le_mono2 [of "Suc ?i" ?l 64] by simp
  ultimately have split: "bm_first (bm_bit bm) (unat n) (unat b) =
    (case bm_first (bm_bit bm) (unat n) (64 * Suc ?i) of
       None \<Rightarrow> bm_first (bm_bit bm) (64 * Suc ?i) (unat b) | Some i \<Rightarrow> Some i)"
    by (rule bm_first_split)
  have "bitmap_ffsp bm n b = bitmap_ffsp_loop bm b ?l ?i ?g"
    using assms il ll
    by (simp add: bitmap_ffsp_def groups_of_multiple unat_drop_bit unat_and_mask6 bm_word_def
        Let_def)
  also have "\<dots> = Inr (case bm_first (bm_bit bm) (unat n) (unat b) of
      None \<Rightarrow> b | Some i \<Rightarrow> word_of_nat i)"
    unfolding bitmap_ffsp_loop_first [OF il ll] split first_in_first_word l by simp
  finally show ?thesis .
qed

lemma bitmap_sfu_first:
  assumes "64 dvd unat b" and "unat b = 64 * length bm"
  shows "bitmap_sfu bm b =
    Inr (case bm_first (\<lambda>i. \<not> bm_bit bm i) 0 (unat b) of
           None \<Rightarrow> (b, bm) | Some i \<Rightarrow> (word_of_nat i, bm_put bm i True))"
proof (cases "bm_first (\<lambda>i. \<not> bm_bit bm i) 0 (unat b)")
  case None
  with assms show ?thesis by (simp add: bitmap_sfu_def bitmap_ffu_first)
next
  case (Some i)
  then have i: "i < unat b" by (simp add: bm_first_Some)
  then have "unat (word_of_nat i :: u32) = i"
    using unat_less_u32 [of b] by (simp add: unat_of_nat_small)
  with Some i assms show ?thesis
    by (simp add: bitmap_sfu_def bitmap_ffu_first word_less_nat_alt)
qed

lemma bitmap_ffsp_loop_overread:
  assumes "i < length bm" and "ffs_u64 g = 0"
    and "bm_first (bm_bit bm) (64 * Suc i) (64 * length bm) = None"
  shows "bitmap_ffsp_loop bm b (length bm) i g = Inl WildAccess"
  using assms
proof (induction "length bm - i" arbitrary: i g)
  case 0
  then show ?case by simp
next
  case (Suc d)
  show ?case
  proof (cases "Suc i < length bm")
    case False
    with Suc.prems show ?thesis
      by (subst bitmap_ffsp_loop.simps) (simp add: bm_word_def)
  next
    case True
    have "64 * Suc i \<le> 64 * Suc (Suc i)" "64 * Suc (Suc i) \<le> 64 * length bm"
      using True by auto
    from Suc.prems(3) bm_first_split [OF this, of "bm_bit bm"]
    have none: "bm_first (bm_bit bm) (64 * Suc i) (64 * Suc (Suc i)) = None"
      and rest: "bm_first (bm_bit bm) (64 * Suc (Suc i)) (64 * length bm) = None"
      by (simp_all split: option.splits)
    have "ffs_u64 (bm ! Suc i) = 0"
      using first_in_word [of "\<lambda>g. g" bm "Suc i"] none
      by (simp add: bm_bit_def [abs_def] split: if_splits)
    then have "bitmap_ffsp_loop bm b (length bm) (Suc i) (bm ! Suc i) = Inl WildAccess"
      using Suc.hyps(1) [of "Suc i"] Suc.hyps(2) True rest by simp
    with True Suc.prems(2) show ?thesis
      by (subst bitmap_ffsp_loop.simps) (simp add: bm_word_def)
  qed
qed

lemma align_size_nat:
  assumes "align \<noteq> 0" and "unat sz + unat align \<le> 2 ^ 64"
  shows "unat (align_size sz align) = unat align * ((unat sz + (unat align - 1)) div unat align)"
proof -
  let ?a = "unat align" and ?s = "unat sz"
  have a: "0 < ?a" using assms(1) by (simp add: unat_gt_0)
  have a1: "unat (align - 1) = ?a - 1" using assms(1) by (simp add: unat_minus_one)
  have lt: "?s + (?a - 1) < 2 ^ 64" using a assms(2) by linarith
  then have sum: "unat (sz + (align - 1)) = ?s + (?a - 1)"
    by (simp add: unat_word_ariths a1)
  have "?a * ((?s + (?a - 1)) div ?a) \<le> ?s + (?a - 1)" by simp
  with lt have "?a * ((?s + (?a - 1)) div ?a) < 2 ^ 64" by linarith
  then show ?thesis
    by (simp add: align_size_def unat_word_ariths(2) unat_div_distrib sum)
qed

section \<open>Properties\<close>

text \<open>C30: Given a readable word after the bitmap, \<open>bitmap_ffsp\<close> returns the first set bit at
  or after \<open>n\<close> (the bit \<open>n\<close> itself included), and \<open>b\<close> when there is none; what the words
  past the bitmap hold does not matter.\<close>

theorem bitmap_ffsp_correct:
  assumes "64 dvd unat b" and "n < b" and "unat b < 64 * length bm"
  shows "\<exists>r. bitmap_ffsp bm n b = Inr r \<and> n \<le> r \<and> r \<le> b
    \<and> (r < b \<longrightarrow> bm_bit bm (unat r)) \<and> (\<forall>j. unat n \<le> j \<and> j < unat r \<longrightarrow> \<not> bm_bit bm j)"
proof (cases "bm_first (bm_bit bm) (unat n) (unat b)")
  case None
  then have "bitmap_ffsp bm n b = Inr b" using assms by (simp add: bitmap_ffsp_first)
  with None assms(2) show ?thesis by (auto simp: bm_first_None)
next
  case (Some i)
  then have i: "unat n \<le> i" "i < unat b" "bm_bit bm i" "\<forall>j. unat n \<le> j \<and> j < i \<longrightarrow> \<not> bm_bit bm j"
    by (auto simp: bm_first_Some)
  then have "unat (word_of_nat i :: u32) = i"
    using unat_less_u32 [of b] by (simp add: unat_of_nat_small)
  with i Some assms show ?thesis
    by (auto simp: bitmap_ffsp_first word_le_nat_alt word_less_nat_alt)
qed

theorem bitmap_ffsp_correct_witness:
  "\<exists>r. bitmap_ffsp [0, 16, 5] 3 128 = Inr r \<and> 3 \<le> r \<and> r \<le> 128
    \<and> (r < 128 \<longrightarrow> bm_bit [0, 16, 5] (unat r))
    \<and> (\<forall>j. unat (3 :: u32) \<le> j \<and> j < unat r \<longrightarrow> \<not> bm_bit [0, 16, 5] j)"
  by (rule bitmap_ffsp_correct) simp_all

text \<open>C34: When the bitmap has no set bit at or after \<open>n\<close> and nothing may be read after it,
  the search reads the word one past its end.\<close>

theorem bitmap_ffsp_overread:
  assumes "unat b = 64 * length bm" and "n < b"
    and "\<forall>j. unat n \<le> j \<and> j < unat b \<longrightarrow> \<not> bm_bit bm j"
  shows "bitmap_ffsp bm n b = Inl WildAccess"
proof -
  let ?i = "unat n div 64"
  let ?g = "bm ! ?i AND NOT (push_bit (unat n mod 64) 1 - 1)"
  have nb: "unat n < 64 * length bm" using assms(1,2) by (simp add: word_less_nat_alt)
  then have il: "?i < length bm" by (simp add: div_less_iff_less_mult mult.commute)
  have b: "unat b = 64 * length bm" "64 dvd unat b" using assms(1) by simp_all
  have "bm_first (bm_bit bm) (unat n) (64 * length bm) = None"
    using assms(1,3) by (simp add: bm_first_None)
  moreover have "unat n \<le> 64 * Suc ?i" "64 * Suc ?i \<le> 64 * length bm"
    using il by (simp, metis Suc_leI mult_le_mono2)
  ultimately have first: "bm_first (bm_bit bm) (unat n) (64 * Suc ?i) = None"
    and rest: "bm_first (bm_bit bm) (64 * Suc ?i) (64 * length bm) = None"
    using bm_first_split [of "unat n" "64 * Suc ?i" "64 * length bm" "bm_bit bm"]
    by (auto split: option.splits)
  have "ffs_u64 ?g = 0"
    using first unfolding first_in_first_word by (simp split: if_splits)
  then have "bitmap_ffsp_loop bm b (length bm) ?i ?g = Inl WildAccess"
    using il rest by (intro bitmap_ffsp_loop_overread)
  then show ?thesis
    using assms(2) il b
    by (simp add: bitmap_ffsp_def groups_of_multiple unat_drop_bit unat_and_mask6 bm_word_def Let_def)
qed

theorem bitmap_ffsp_overread_witness: "bitmap_ffsp [0, 0] 0 128 = Inl WildAccess"
proof (rule bitmap_ffsp_overread)
  show "\<forall>j. unat (0 :: u32) \<le> j \<and> j < unat (128 :: u32) \<longrightarrow> \<not> bm_bit [0, 0] j"
    by (auto simp: bm_bit_def nth_Cons split: nat.split)
qed simp_all

text \<open>C31: \<open>bitmap_sfu\<close> over a whole bitmap takes the first clear bit: it returns its index
  and sets that bit and no other, or returns \<open>b\<close> and changes nothing when every bit is set.\<close>

theorem bitmap_sfu_correct:
  assumes "unat b = 64 * length bm"
  shows "\<exists>r bm'. bitmap_sfu bm b = Inr (r, bm') \<and> length bm' = length bm
    \<and> (if r < b
       then \<not> bm_bit bm (unat r) \<and> (\<forall>j<unat r. bm_bit bm j)
            \<and> (\<forall>j<unat b. bm_bit bm' j = (j = unat r \<or> bm_bit bm j))
       else r = b \<and> bm' = bm \<and> (\<forall>j<unat b. bm_bit bm j))"
proof -
  have b: "64 dvd unat b" using assms by simp
  show ?thesis
  proof (cases "bm_first (\<lambda>i. \<not> bm_bit bm i) 0 (unat b)")
    case None
    then have "bitmap_sfu bm b = Inr (b, bm)" using assms b by (simp add: bitmap_sfu_first)
    with None show ?thesis by (auto simp: bm_first_None)
  next
    case (Some i)
    then have i: "i < unat b" "\<not> bm_bit bm i" "\<forall>j<i. bm_bit bm j"
      by (auto simp: bm_first_Some)
    then have "unat (word_of_nat i :: u32) = i"
      using unat_less_u32 [of b] by (simp add: unat_of_nat_small)
    with i Some assms b show ?thesis
      by (auto simp: bitmap_sfu_first word_less_nat_alt bm_bit_put)
  qed
qed

theorem bitmap_sfu_correct_witness:
  "\<exists>r bm'. bitmap_sfu [NOT 0, 5] 128 = Inr (r, bm') \<and> length bm' = length [NOT 0, 5 :: u64]
    \<and> (if r < 128
       then \<not> bm_bit [NOT 0, 5] (unat r) \<and> (\<forall>j<unat r. bm_bit [NOT 0, 5] j)
            \<and> (\<forall>j<unat (128 :: u32). bm_bit bm' j = (j = unat r \<or> bm_bit [NOT 0, 5] j))
       else r = 128 \<and> bm' = [NOT 0, 5] \<and> (\<forall>j<unat (128 :: u32). bm_bit [NOT 0, 5] j))"
  by (rule bitmap_sfu_correct) simp

text \<open>C40: \<open>align_size\<close> rounds up to the least multiple of the alignment, when the
  sum does not wrap around; for sizes within an alignment of the top of the range it wraps, to 0
  for the largest one.\<close>

theorem align_size_correct:
  "(align \<noteq> 0 \<and> unat sz + unat align \<le> 2 ^ 64 \<longrightarrow>
     unat align dvd unat (align_size sz align) \<and> unat sz \<le> unat (align_size sz align)
     \<and> unat (align_size sz align) < unat sz + unat align)
   \<and> align_size (NOT 0) 1048576 = 0"
proof (intro conjI impI)
  assume a: "align \<noteq> 0 \<and> unat sz + unat align \<le> 2 ^ 64"
  let ?a = "unat align" and ?m = "unat sz + (unat align - 1)"
  have e: "unat (align_size sz align) = ?a * (?m div ?a)" using align_size_nat a by blast
  have p: "0 < ?a" using a by (simp add: unat_gt_0)
  have "?a * (?m div ?a) + ?m mod ?a = ?m" "?m mod ?a < ?a" using p by simp_all
  then have "unat sz \<le> ?a * (?m div ?a)" "?a * (?m div ?a) < unat sz + ?a" using p by linarith+
  then show "?a dvd unat (align_size sz align)" "unat sz \<le> unat (align_size sz align)"
    "unat (align_size sz align) < unat sz + ?a" unfolding e by (simp_all only: dvd_triv_left)
next
  show "align_size (NOT 0) 1048576 = 0" by (simp add: align_size_def)
qed

theorem align_size_correct_witness:
  "4096 dvd unat (align_size 5000 4096) \<and> unat (align_size 5000 4096) < 5000 + 4096"
  using align_size_correct [of 4096 5000] by simp

end
