(* ===== verification/ShmState.thy ===== *)
theory ShmState
  imports RBTree_Query ShmTree Run
begin

text \<open>
  The structures of \<open>src/shm_type.h\<close> and of the chunk headers, and the state they live
  in. The shared memory is seen as its objects, each in a map by its position: the nodes of the
  two chunk trees and the chunk headers (both at the start of a chunk), the nodes of the run
  pools and the run headers with their blocks (both at the start of a run's page), and in a
  medium chunk the nodes at the start of its free pages. A pointer to an object is its position,
  which the code turns into an address with \<open>get_or_update_addr\<close>. The holders with raw
  bytes (\<open>chunk_node_holder\<close>, \<open>chunk_detial_holder\<close>, \<open>context_chunk_holder\<close>)
  are the structures the code casts them to.
\<close>

section \<open>Chunks\<close>

abbreviation (input) CHUNK_TYPE_EMPTY :: u32 where "CHUNK_TYPE_EMPTY \<equiv> 0"
abbreviation (input) CHUNK_TYPE_SMALL :: u32 where "CHUNK_TYPE_SMALL \<equiv> 1"
abbreviation (input) CHUNK_TYPE_MEDIUM :: u32 where "CHUNK_TYPE_MEDIUM \<equiv> 2"

record chunk_tree_value =
  cv_index :: u32
  cv_maxsize :: u32

record medium_tree_value =
  mv_size :: u16
  mv_index :: u16

record chunk_small_detial =
  sd_used :: u32
  sd_bitmap :: "u64 list"

record chunk_medium_detial =
  md_max_size :: u16
  md_free_size :: u16
  md_tree :: "u16 rb_tree"
  md_type :: "u64 list"
  md_up :: "u64 list"
  md_down :: "u64 list"

type_synonym page_heap = "(u16, medium_tree_value) rb_heap"

record chunk_header =
  ch_type :: u32
  ch_pos :: u64
  ch_small :: chunk_small_detial
  ch_medium :: chunk_medium_detial
  ch_pages :: page_heap

section \<open>Arenas and the shared context\<close>

abbreviation (input) ARENA_TYPE_EMPTY :: u32 where "ARENA_TYPE_EMPTY \<equiv> 0"
abbreviation (input) ARENA_TYPE_CONTEXT :: u32 where "ARENA_TYPE_CONTEXT \<equiv> 1"
abbreviation (input) ARENA_TYPE_CHUNK :: u32 where "ARENA_TYPE_CHUNK \<equiv> 2"
abbreviation (input) ARENA_TYPE_LARGE :: u32 where "ARENA_TYPE_LARGE \<equiv> 3"

record shm_arena =
  ar_type :: u32
  ar_shmid :: int
  ar_index :: u32
  ar_size :: u64
  ar_used :: u32
  ar_chunks :: "u64 list"

definition zero_arena :: shm_arena where
  "zero_arena = \<lparr>ar_type = ARENA_TYPE_EMPTY, ar_shmid = 0, ar_index = 0, ar_size = 0, ar_used = 0,
     ar_chunks = replicate SHM_ARENA_CHUNK_SIZE 0\<rparr>"

definition get_arena_chunk :: "shm_arena \<Rightarrow> u32 \<Rightarrow> u64 res" where
  "get_arena_chunk arena offset =
     (if ucast offset \<ge> ar_size arena then Inr 0
      else let i = unat offset div SHM_CHUNK_UNIT_SIZE
           in if i < length (ar_chunks arena) then Inr (ar_chunks arena ! i) else Inl WildAccess)"

record shm_shared_context =
  sc_init_flag :: u32
  sc_key :: int
  sc_count :: u32
  sc_user_data :: u64
  sc_arenas :: "shm_arena list"
  sc_run_pool :: "shm_pool list"
  sc_small_pool :: "u64 rb_tree"
  sc_medium_pool :: "u64 rb_tree"

text \<open>The context and the memory it manages; \<open>user_bytes\<close> is what the client wrote into its
  blocks.\<close>

record shm_state = shm_shared_context +
  chunk_nodes :: "(u64, chunk_tree_value) rb_heap"
  chunks :: "u64 \<Rightarrow> chunk_header"
  run_nodes :: tree_heap
  runs :: "u64 \<Rightarrow> run_header"
  user_bytes :: "u64 \<Rightarrow> u8"

text \<open>
  \<open>init_shm_shared_field\<close> of \<open>src/shm_context.c\<close>, without the mutex: the context is
  cleared, the first arena belongs to the context itself and its first chunk is never handed out.
\<close>

definition shared_fields :: "shm_state \<Rightarrow> int \<Rightarrow> int \<Rightarrow> shm_state" where
  "shared_fields s key shmid = s\<lparr>sc_init_flag := SHM_INIT_FLAG, sc_key := key, sc_count := 0,
     sc_user_data := 0,
     sc_arenas := (replicate SHM_ARENA_MAX zero_arena)[0 := \<lparr>ar_type = ARENA_TYPE_CONTEXT,
       ar_shmid = shmid, ar_index = 0, ar_size = SHM_ARENA_UNIT_SIZE, ar_used = 1,
       ar_chunks = (ar_chunks zero_arena)[0 := index2pos 0 1]\<rparr>],
     sc_run_pool := replicate 15 \<lparr>pool_root = 0, pool_size = 0\<rparr>,
     sc_small_pool := \<lparr>rb_root = 0, rb_size = 0\<rparr>, sc_medium_pool := \<lparr>rb_root = 0, rb_size = 0\<rparr>\<rparr>"

section \<open>The pools of chunks\<close>

text \<open>
  \<open>src/shm_chunk.c\<close>: the comparison of two chunks in the pools. The differences of the
  unsigned fields are converted to \<open>int\<close>.
\<close>

definition chunk_tree_compare :: "chunk_tree_value \<Rightarrow> chunk_tree_value \<Rightarrow> int" where
  "chunk_tree_compare a b =
     (if cv_maxsize a = cv_maxsize b then sint (cv_index a - cv_index b)
      else sint (cv_maxsize a - cv_maxsize b))"

definition chunk_pool :: "shm_state \<Rightarrow> u32 \<Rightarrow> u64 rb_tree" where
  "chunk_pool s type = (if type = CHUNK_TYPE_SMALL then sc_small_pool s else sc_medium_pool s)"

definition set_chunk_pool :: "u32 \<Rightarrow> u64 rb_tree \<Rightarrow> shm_state \<Rightarrow> shm_state" where
  "set_chunk_pool type T s =
     (if type = CHUNK_TYPE_SMALL then s\<lparr>sc_small_pool := T\<rparr> else s\<lparr>sc_medium_pool := T\<rparr>)"

definition update_chunk_pool :: "shm_state \<Rightarrow> u64 \<Rightarrow> u32 \<Rightarrow> shm_state res" where
  "update_chunk_pool s chunk new_max =
     (let type = ch_type (chunks s chunk)
      in bind_r (rbtree_delete (chunk_pool s type) (chunk_nodes s) chunk) (\<lambda>(T, h).
         let h = h(chunk := (h chunk)\<lparr>rb_v := (rb_v (h chunk))\<lparr>cv_maxsize := new_max\<rparr>\<rparr>)
         in bind_r (rbtree_insert chunk_tree_compare T h chunk) (\<lambda>(T, h).
            Inr (set_chunk_pool type T (s\<lparr>chunk_nodes := h\<rparr>)))))"

text \<open>The order of the pools: by free size, then by the index of the arena, as long as both
  stay below \<open>2 ^ 31\<close>.\<close>

definition chunk_key :: "chunk_tree_value \<Rightarrow> nat" where
  "chunk_key v = unat (cv_maxsize v) * 2 ^ 32 + unat (cv_index v)"

definition chunk_key_ok :: "chunk_tree_value \<Rightarrow> bool" where
  "chunk_key_ok v \<longleftrightarrow> cv_maxsize v < 2 ^ 31 \<and> cv_index v < 2 ^ 31"

lemma sint_diff:
  fixes a b :: u32
  assumes "a < 2 ^ 31" and "b < 2 ^ 31"
  shows "sint (a - b) = uint a - uint b"
proof -
  have u: "0 \<le> uint a" "uint a < 2 ^ 31" "0 \<le> uint b" "uint b < 2 ^ 31"
    using assms by (simp_all add: word_less_def)
  have st: "signed_take_bit 31 k = k" if "0 \<le> k" "k < 2 ^ 31" for k :: int
    by (rule signed_take_bit_int_eq_self) (use that in auto)
  have "sint a = uint a" "sint b = uint b"
    using st [OF u(1,2)] st [OF u(3,4)] by (simp_all add: sint_uint)
  then have "sint (a - b) = signed_take_bit 31 (uint a - uint b)" by (simp add: sint_word_ariths)
  also have "\<dots> = uint a - uint b" by (rule signed_take_bit_int_eq_self) (use u in linarith)+
  finally show ?thesis .
qed

lemma sint_diff_sign:
  fixes a b :: u32
  assumes "a < 2 ^ 31" and "b < 2 ^ 31"
  shows "sint (a - b) < 0 \<longleftrightarrow> unat a < unat b" "0 < sint (a - b) \<longleftrightarrow> unat b < unat a"
  using word_less_def [of a b] word_less_nat_alt [of a b] word_less_def [of b a]
    word_less_nat_alt [of b a] unfolding sint_diff [OF assms] by simp_all

interpretation chunk_order: rb_order chunk_tree_compare chunk_key chunk_key_ok
proof
  fix a b assume ab: "chunk_key_ok a" "chunk_key_ok b"
  note d = sint_diff_sign [of "cv_index a" "cv_index b"] sint_diff_sign [of "cv_maxsize a" "cv_maxsize b"]
  have l: "unat (cv_index a) < 2 ^ 32" "unat (cv_index b) < 2 ^ 32" using unat_less_u32 by simp_all
  have *: "x * 2 ^ 32 + u < y * 2 ^ 32 + v \<longleftrightarrow> x < y \<or> x = y \<and> u < v"
    if "u < 2 ^ 32" "v < 2 ^ 32" for x y u v :: nat
    using that by auto
  show "chunk_tree_compare a b < 0 \<longleftrightarrow> chunk_key a < chunk_key b"
    using ab d unfolding chunk_key_def * [OF l]
    by (auto simp: chunk_tree_compare_def chunk_key_ok_def word_unat_eq_iff)
  show "0 < chunk_tree_compare a b \<longleftrightarrow> chunk_key b < chunk_key a"
    using ab d unfolding chunk_key_def * [OF l(2,1)]
    by (auto simp: chunk_tree_compare_def chunk_key_ok_def word_unat_eq_iff)
qed

subsection \<open>Both pools\<close>

text \<open>
  The two pools share the map of nodes. \<open>cpools s P\<close>: the pool of small chunks holds
  \<open>P True\<close>, the pool of medium chunks \<open>P False\<close>, each in search order, and no
  chunk is in both.
\<close>

abbreviation cpool :: "shm_state \<Rightarrow> bool \<Rightarrow> u64 rb_tree" where
  "cpool s b \<equiv> (if b then sc_small_pool s else sc_medium_pool s)"

definition cpools :: "shm_state \<Rightarrow> (bool \<Rightarrow> u64 list) \<Rightarrow> bool" where
  "cpools s P \<longleftrightarrow> (\<forall>b. rb_rep (cpool s b) (chunk_nodes s) (P b) \<and> chunk_order.ordered (chunk_nodes s) (P b))
     \<and> set (P True) \<inter> set (P False) = {}"

lemma cpoolsD:
  assumes "cpools s P"
  shows "rb_rep (cpool s b) (chunk_nodes s) (P b)" "chunk_order.ordered (chunk_nodes s) (P b)"
    "set (P b) \<inter> set (P (\<not> b)) = {}" "x \<in> set (P b) \<Longrightarrow> x \<noteq> 0 \<and> rb_s (chunk_nodes s x) = x"
    "x \<in> set (P b) \<Longrightarrow> chunk_key_ok (rb_v (chunk_nodes s x))"
proof -
  show r: "rb_rep (cpool s b) (chunk_nodes s) (P b)" "chunk_order.ordered (chunk_nodes s) (P b)"
    using assms unfolding cpools_def by blast+
  show "set (P b) \<inter> set (P (\<not> b)) = {}" using assms by (cases b) (auto simp: cpools_def)
  show "x \<in> set (P b) \<Longrightarrow> x \<noteq> 0 \<and> rb_s (chunk_nodes s x) = x" using rb_rep_node [OF r(1)] by blast
  show "x \<in> set (P b) \<Longrightarrow> chunk_key_ok (rb_v (chunk_nodes s x))"
    using r(2) by (simp add: chunk_order.ordered_def)
qed

lemma cpools_cong:
  "chunk_nodes s' = chunk_nodes s \<Longrightarrow> sc_small_pool s' = sc_small_pool s \<Longrightarrow>
   sc_medium_pool s' = sc_medium_pool s \<Longrightarrow> cpools s' P = cpools s P"
  by (simp add: cpools_def)

lemma cpool_of_type:
  "chunk_pool s type = cpool s (type = CHUNK_TYPE_SMALL)"
  "cpool (set_chunk_pool type T s) b = (if b = (type = CHUNK_TYPE_SMALL) then T else cpool s b)"
  "chunk_nodes (set_chunk_pool type T s) = chunk_nodes s"
  by (auto simp: chunk_pool_def set_chunk_pool_def)

text \<open>The state with one pool and the nodes replaced, and the pools it then has.\<close>

lemma cpools_put:
  assumes P: "cpools s P" and T: "rb_rep T h xs" "chunk_order.ordered h xs"
    and h: "\<And>q. q \<noteq> 0 \<Longrightarrow> q \<in> set (P (type \<noteq> CHUNK_TYPE_SMALL)) \<Longrightarrow> h q = chunk_nodes s q"
    and d: "set xs \<inter> set (P (type \<noteq> CHUNK_TYPE_SMALL)) = {}"
  shows "cpools (set_chunk_pool type T (s\<lparr>chunk_nodes := h\<rparr>)) (P(type = CHUNK_TYPE_SMALL := xs))"
proof -
  let ?b = "type = CHUNK_TYPE_SMALL"
  have eq: "h q = chunk_nodes s q" if "q \<in> set (P (\<not> ?b))" for q
    using h that cpoolsD(4) [OF P that] by simp
  have "rb_rep (cpool s (\<not> ?b)) h (P (\<not> ?b))"
    by (rule rb_rep_cong [OF cpoolsD(1) [OF P]]) (rule eq)
  moreover have "chunk_order.ordered h (P (\<not> ?b))"
    using cpoolsD(2) [OF P, of "\<not> ?b"] eq by (simp add: chunk_order.ordered_def cong: map_cong)
  ultimately show ?thesis
    using T d unfolding cpools_def set_chunk_pool_def by (cases ?b) auto
qed

lemma update_chunk_pool_ok:
  assumes P: "cpools s P" and c: "chunk \<in> set (P (ch_type (chunks s chunk) = CHUNK_TYPE_SMALL))"
    and m: "new_max < 2 ^ 31"
  shows "\<exists>T h xs. update_chunk_pool s chunk new_max
      = Inr (set_chunk_pool (ch_type (chunks s chunk)) T (s\<lparr>chunk_nodes := h\<rparr>))
    \<and> cpools (set_chunk_pool (ch_type (chunks s chunk)) T (s\<lparr>chunk_nodes := h\<rparr>))
         (P(ch_type (chunks s chunk) = CHUNK_TYPE_SMALL := xs))
    \<and> mset xs = mset (P (ch_type (chunks s chunk) = CHUNK_TYPE_SMALL))
    \<and> (\<forall>q. rb_v (h q) = (rb_v (chunk_nodes s q))\<lparr>cv_maxsize :=
          if q = chunk then new_max else cv_maxsize (rb_v (chunk_nodes s q))\<rparr>)"
proof -
  let ?ty = "ch_type (chunks s chunk)"
  let ?b = "?ty = CHUNK_TYPE_SMALL" and ?h = "chunk_nodes s"
  note D = cpoolsD [OF P]
  let ?xs = "remove1 chunk (P ?b)"
  have dx: "distinct (P ?b)" using rb_rep_distinct [OF D(1)] .
  obtain T1 h1 where d1: "rbtree_delete (chunk_pool s ?ty) ?h chunk = Inr (T1, h1)"
      "rb_rep T1 h1 ?xs" and s1: "rb_same (insert 0 (set (P ?b))) ?h h1"
    using delete_rep [OF D(1) c] unfolding cpool_of_type(1) by blast
  define h2 where "h2 = h1(chunk := (h1 chunk)\<lparr>rb_v := (rb_v (h1 chunk))\<lparr>cv_maxsize := new_max\<rparr>\<rparr>)"
  have nc: "chunk \<notin> set ?xs" using dx by simp
  have r2: "rb_rep T1 h2 ?xs" by (rule rb_rep_cong [OF d1(2)]) (use nc in \<open>auto simp: h2_def\<close>)
  have "chunk_order.ordered ?h ?xs" using chunk_order.ordered_remove1 [OF D(2)] .
  then have "chunk_order.ordered h1 ?xs" using chunk_order.ordered_same [OF s1] by blast
  moreover have "chunk_order.ordered h2 ?xs = chunk_order.ordered h1 ?xs"
  proof -
    have "h2 q = h1 q" if "q \<in> set ?xs" for q using that nc by (auto simp: h2_def)
    then have "map (\<lambda>a. chunk_key (rb_v (h2 a))) ?xs = map (\<lambda>a. chunk_key (rb_v (h1 a))) ?xs"
      "(\<forall>q \<in> set ?xs. chunk_key_ok (rb_v (h2 q))) = (\<forall>q \<in> set ?xs. chunk_key_ok (rb_v (h1 q)))"
      by simp_all
    then show ?thesis by (simp only: chunk_order.ordered_def)
  qed
  ultimately have o2: "chunk_order.ordered h2 ?xs" by blast
  have "length ?xs < length (P ?b)" using c length_pos_if_in_set [OF c] by (simp add: length_remove1)
  then have len: "Suc (length ?xs) < 2 ^ 31" using D(1) [of ?b] by (auto simp: rb_rep_def)
  have "rb_s (h1 chunk) = chunk" using s1 D(4) [OF c] unfolding rb_same_def by auto
  then have s2: "rb_s (h2 chunk) = chunk" by (simp add: h2_def)
  have v1: "rb_v (h1 q) = rb_v (?h q)" for q using s1 by (simp add: rb_same_def)
  have ok: "chunk_key_ok (rb_v (h2 chunk))"
    using D(5) [OF c] m v1 by (simp add: h2_def chunk_key_ok_def)
  have c0: "chunk \<noteq> 0" using D(4) [OF c] by simp
  obtain T' h' xs' where i: "rbtree_insert chunk_tree_compare T1 h2 chunk = Inr (T', h')"
      "rb_rep T' h' xs'" "chunk_order.ordered h' xs'" "mset xs' = add_mset chunk (mset ?xs)"
      and s3: "rb_same (insert chunk (set ?xs)) h2 h'"
    using chunk_order.insert_ordered [OF r2 len c0 nc s2 o2 ok] by blast
  have ms: "mset xs' = mset (P ?b)" using i(4) c by simp
  then have sx: "set xs' = set (P ?b)" by (rule mset_eq_setD)
  have un: "h' q = ?h q" if "q \<noteq> 0" "q \<in> set (P (\<not> ?b))" for q
  proof -
    have n: "q \<notin> set (P ?b)" using that(2) D(3) [of ?b] by blast
    then have "q \<noteq> chunk" "q \<notin> insert chunk (set ?xs)" using c set_remove1_subset [of chunk "P ?b"] by auto
    then show ?thesis using n that(1) s1 s3 by (simp add: rb_same_def h2_def)
  qed
  have "update_chunk_pool s chunk new_max = Inr (set_chunk_pool ?ty T' (s\<lparr>chunk_nodes := h'\<rparr>))"
    using d1(1) i(1) by (simp add: update_chunk_pool_def Let_def h2_def)
  moreover have "cpools (set_chunk_pool ?ty T' (s\<lparr>chunk_nodes := h'\<rparr>)) (P(?b := xs'))"
    by (rule cpools_put [OF P i(2,3) un]) (use sx D(3) [of ?b] in auto)
  moreover have "rb_v (h' q) = (rb_v (?h q))\<lparr>cv_maxsize :=
      if q = chunk then new_max else cv_maxsize (rb_v (?h q))\<rparr>" for q
    using s3 v1 by (simp add: rb_same_def h2_def)
  ultimately show ?thesis using ms by blast
qed

text \<open>The effect of the update on the rest of the state.\<close>

lemma update_pool:
  assumes P: "cpools s P" and c: "c \<in> set (P (ch_type (chunks s c) = CHUNK_TYPE_SMALL))" and m: "m < 2 ^ 31"
  shows "\<exists>s' xs. update_chunk_pool s c m = Inr s'
    \<and> cpools s' (P(ch_type (chunks s c) = CHUNK_TYPE_SMALL := xs))
    \<and> mset xs = mset (P (ch_type (chunks s c) = CHUNK_TYPE_SMALL))
    \<and> chunks s' = chunks s \<and> runs s' = runs s \<and> run_nodes s' = run_nodes s
    \<and> sc_run_pool s' = sc_run_pool s \<and> sc_arenas s' = sc_arenas s
    \<and> cv_maxsize (rb_v (chunk_nodes s' c)) = m
    \<and> (\<forall>q. q \<noteq> c \<longrightarrow> rb_v (chunk_nodes s' q) = rb_v (chunk_nodes s q))
    \<and> (\<forall>q. cv_index (rb_v (chunk_nodes s' q)) = cv_index (rb_v (chunk_nodes s q)))"
proof -
  let ?ty = "ch_type (chunks s c)"
  obtain T h xs where u: "update_chunk_pool s c m = Inr (set_chunk_pool ?ty T (s\<lparr>chunk_nodes := h\<rparr>))"
    "cpools (set_chunk_pool ?ty T (s\<lparr>chunk_nodes := h\<rparr>)) (P(?ty = CHUNK_TYPE_SMALL := xs))"
    "mset xs = mset (P (?ty = CHUNK_TYPE_SMALL))"
    and v: "\<forall>q. rb_v (h q) = (rb_v (chunk_nodes s q))\<lparr>cv_maxsize :=
          if q = c then m else cv_maxsize (rb_v (chunk_nodes s q))\<rparr>"
    using update_chunk_pool_ok [OF P c m] by blast
  have "rb_v (h q) = rb_v (chunk_nodes s q)" if "q \<noteq> c" for q using v that by simp
  moreover have "cv_maxsize (rb_v (h c)) = m" "\<forall>q. cv_index (rb_v (h q)) = cv_index (rb_v (chunk_nodes s q))"
    using v by simp_all
  ultimately show ?thesis using u
    by (intro exI [of _ "set_chunk_pool ?ty T (s\<lparr>chunk_nodes := h\<rparr>)"] exI [of _ xs])
       (simp add: set_chunk_pool_def)
qed

section \<open>Pages of a chunk\<close>

definition page :: "u64 \<Rightarrow> nat \<Rightarrow> u64" where
  "page c i = c + word_of_nat (i * SHM_PAGE_SIZE)"

definition chunk_aligned :: "u64 \<Rightarrow> bool" where
  "chunk_aligned c \<longleftrightarrow> c \<noteq> 0 \<and> SHM_CHUNK_UNIT_SIZE dvd unat c"

lemma chunk_aligned_bound:
  assumes "chunk_aligned c" and "n < SHM_CHUNK_UNIT_SIZE"
  shows "unat c + n < 2 ^ 64" and "unat (c + word_of_nat n) = unat c + n"
proof -
  obtain m where m: "unat c = 1048576 * m" using assms(1) by (auto simp: chunk_aligned_def)
  have "1048576 * m < 1048576 * 2 ^ 44" using unat_less_u64 [of c] m by simp
  then have "m < 2 ^ 44" by simp
  then have "1048576 * m + 1048576 \<le> 2 ^ 64" by simp
  then show b: "unat c + n < 2 ^ 64" using m assms(2) by simp
  have "unat (word_of_nat n :: u64) = n" using b by (intro unat_of_nat_small) simp
  then show "unat (c + word_of_nat n) = unat c + n" using b by (simp add: unat_word_ariths)
qed

lemma unat_page: "chunk_aligned c \<Longrightarrow> i < 256 \<Longrightarrow> unat (page c i) = unat c + i * SHM_PAGE_SIZE"
  unfolding page_def by (rule chunk_aligned_bound) simp_all

lemma page_0 [simp]: "page c 0 = c"
  by (simp add: page_def)

lemma page_inject:
  assumes "chunk_aligned c" "chunk_aligned d" "i < 256" "j < 256"
  shows "page c i = page d j \<longleftrightarrow> c = d \<and> i = j"
proof
  assume "page c i = page d j"
  then have eq: "unat c + i * 4096 = unat d + j * 4096"
    using unat_page [OF assms(1,3)] unat_page [OF assms(2,4)] by simp
  obtain m n where mn: "unat c = 1048576 * m" "unat d = 1048576 * n"
    using assms(1,2) unfolding chunk_aligned_def by blast
  then have e: "256 * m + i = 256 * n + j" using eq by simp
  have q: "(256 * k + l) div 256 = k" if "l < 256" for k l :: nat using that by simp
  have mn': "m = n" using q [OF assms(3), of m] q [OF assms(4), of n] e by simp
  then have "i = j" using e by simp
  then show "c = d \<and> i = j" using mn mn' by (simp add: word_unat_eq_iff)
qed simp

lemma page_nonzero: "chunk_aligned c \<Longrightarrow> i < 256 \<Longrightarrow> page c i \<noteq> 0"
  using unat_page [of c i] by (auto simp: chunk_aligned_def unat_eq_zero dest: arg_cong [of _ _ unat])

lemma ucast_of_nat: "n < 2 ^ 32 \<Longrightarrow> (ucast (word_of_nat n :: u32) :: u64) = word_of_nat n"
  by (simp add: word_unat_eq_iff unat_of_nat_small unsigned_ucast_eq take_bit_nat_eq_self)

text \<open>The page an offset in the chunk falls into, and the offset in the page.\<close>

lemma offset_page:
  assumes "i < 256" and "n < SHM_PAGE_SIZE"
  shows "(word_of_nat (i * SHM_PAGE_SIZE + n) :: u32) div SHM_PAGE_SIZE = word_of_nat i"
proof -
  have "unat (word_of_nat (i * 4096 + n) :: u32) = i * 4096 + n" using assms by (intro unat_of_nat_small) simp
  moreover have "unat (word_of_nat i :: u32) = i" using assms by (intro unat_of_nat_small) simp
  ultimately show ?thesis using assms(2) by (simp add: word_unat_eq_iff unat_div)
qed

end
