(* ===== verification/ChunkSmall.thy ===== *)
theory ChunkSmall
  imports ShmState Bitmap
begin

text \<open>
  \<open>src/chunk_small.c\<close>: chunks cut into runs. A bitmap records which pages of the chunk
  hold a run (page 0 is the header), the run pools of the context hold, per size class, the runs
  with a free block. A run's address is its page's position. The recursion of the run pool is
  bounded by the argument \<open>fuel\<close>.
\<close>

section \<open>The operations\<close>

definition put_small :: "shm_state \<Rightarrow> u64 \<Rightarrow> chunk_small_detial \<Rightarrow> shm_state" where
  "put_small s chunk d = s\<lparr>chunks := (chunks s)(chunk := (chunks s chunk)\<lparr>ch_small := d\<rparr>)\<rparr>"

definition put_run :: "shm_state \<Rightarrow> u64 \<Rightarrow> run_header \<Rightarrow> shm_state" where
  "put_run s run r = s\<lparr>runs := (runs s)(run := r)\<rparr>"

text \<open>The pool of a size class, \<open>context->run_pool + type\<close>, and the three operations on it.\<close>

definition run_pool_at :: "shm_state \<Rightarrow> u32 \<Rightarrow> shm_pool res" where
  "run_pool_at s type = (if unat type < length (sc_run_pool s) then Inr (sc_run_pool s ! unat type)
     else Inl WildAccess)"

definition set_run_pool :: "u32 \<Rightarrow> shm_pool \<times> tree_heap \<Rightarrow> shm_state \<Rightarrow> shm_state" where
  "set_run_pool type ph s =
     s\<lparr>sc_run_pool := (sc_run_pool s)[unat type := fst ph], run_nodes := snd ph\<rparr>"

definition run_pool_push :: "nat \<Rightarrow> shm_state \<Rightarrow> u32 \<Rightarrow> u64 \<Rightarrow> shm_state res" where
  "run_pool_push fuel s type pos =
     bind_r (run_pool_at s type) (\<lambda>pool.
     bind_r (shm_tree_push fuel pool (run_nodes s) pos) (\<lambda>ph. Inr (set_run_pool type ph s)))"

definition run_pool_pop :: "nat \<Rightarrow> shm_state \<Rightarrow> u32 \<Rightarrow> shm_state res" where
  "run_pool_pop fuel s type =
     bind_r (run_pool_at s type) (\<lambda>pool.
     bind_r (shm_tree_pop fuel pool (run_nodes s)) (\<lambda>ph. Inr (set_run_pool type ph s)))"

definition run_pool_remove :: "nat \<Rightarrow> shm_state \<Rightarrow> u32 \<Rightarrow> u64 \<Rightarrow> shm_state res" where
  "run_pool_remove fuel s type pos =
     bind_r (run_pool_at s type) (\<lambda>pool.
     bind_r (shm_tree_remove fuel pool (run_nodes s) pos) (\<lambda>ph. Inr (set_run_pool type ph s)))"

definition find_run :: "shm_state \<Rightarrow> u64 \<Rightarrow> u32 \<Rightarrow> u64 option res" where
  "find_run s chunk offset =
     assert_r (ch_type (chunks s chunk) = CHUNK_TYPE_SMALL) (
     let runidx = offset div SHM_RUN_UNIT_SIZE
     in if runidx \<ge> 256 then Inr None
        else bind_r (bitmap_get (sd_bitmap (ch_small (chunks s chunk))) runidx) (\<lambda>used.
             Inr (if used then Some (chunk + ucast (runidx * SHM_RUN_UNIT_SIZE)) else None)))"

definition init_chunk_small :: "shm_state \<Rightarrow> u64 \<Rightarrow> shm_state res" where
  "init_chunk_small s chunk =
     (let d = ch_small (chunks s chunk)
      in bind_r (bitmap_set (sd_bitmap d) 0) (\<lambda>bm.
         Inr (put_small s chunk (d\<lparr>sd_used := 1, sd_bitmap := bm\<rparr>))))"

definition new_chunk_run :: "nat \<Rightarrow> shm_state \<Rightarrow> u64 \<Rightarrow> u32 \<Rightarrow> (shm_state \<times> u64) res" where
  "new_chunk_run fuel s chunk type =
     (let d = ch_small (chunks s chunk)
      in assert_r (ch_type (chunks s chunk) = CHUNK_TYPE_SMALL) (
         assert_r (sd_used d < 256) (
         bind_r (bitmap_sfu (sd_bitmap d) 256) (\<lambda>(idx, bm).
         assert_r (idx < 256) (
         let d = d\<lparr>sd_used := sd_used d + 1, sd_bitmap := bm\<rparr>;
             s = put_small s chunk d;
             offset = idx * SHM_RUN_UNIT_SIZE;
             run = chunk + ucast offset;
             pos = ch_pos (chunks s chunk) + ucast offset;
             s = put_run (s\<lparr>run_nodes := (run_nodes s)(run := clean_node)\<rparr>) run (init_run pos type)
         in bind_r (run_pool_push fuel s type pos) (\<lambda>s.
            bind_r (if sd_used d = 256 then update_chunk_pool s chunk 0 else Inr s) (\<lambda>s.
            Inr (s, run))))))))"

definition malloc_chunk_run :: "nat \<Rightarrow> shm_state \<Rightarrow> u64 \<Rightarrow> (shm_state \<times> u64) res" where
  "malloc_chunk_run fuel s run =
     bind_r (malloc_run (runs s run)) (\<lambda>(r, offset).
     let s = put_run s run r; pos = rn_pos r + ucast offset
     in bind_r (if run_full r then run_pool_pop fuel s (rn_conf_index r) else Inr s) (\<lambda>s.
        Inr (s, pos)))"

definition free_chunk_run :: "shm_state \<Rightarrow> u64 \<Rightarrow> u64 \<Rightarrow> shm_state res" where
  "free_chunk_run s chunk pos =
     (let d = ch_small (chunks s chunk);
          d = d\<lparr>sd_used := sd_used d - 1\<rparr>;
          idx = ucast ((pos - ch_pos (chunks s chunk)) div SHM_RUN_UNIT_SIZE)
      in bind_r (bitmap_get (sd_bitmap d) idx) (\<lambda>b.
         assert_r b (
         bind_r (bitmap_clear (sd_bitmap d) idx) (\<lambda>bm.
         Inr (put_small s chunk (d\<lparr>sd_bitmap := bm\<rparr>))))))"

text \<open>Lines 203 to 215: the run that became empty is given back, unless it is the last of its
  pool.\<close>

definition release_run :: "nat \<Rightarrow> shm_state \<Rightarrow> u64 \<Rightarrow> run_header \<Rightarrow> (shm_state \<times> bool) res" where
  "release_run fuel s chunk r =
     bind_r (run_pool_at s (rn_conf_index r)) (\<lambda>pool.
     if pool_size pool > 1
     then bind_r (run_pool_remove fuel s (rn_conf_index r) (rn_pos r)) (\<lambda>s.
          bind_r (if sd_used (ch_small (chunks s chunk)) = 256 then update_chunk_pool s chunk 1
                  else Inr s) (\<lambda>s.
          bind_r (free_chunk_run s chunk (rn_pos r)) (\<lambda>s.
          Inr (s, sd_used (ch_small (chunks s chunk)) = 1))))
     else Inr (s, False))"

text \<open>An offset in page 0 makes the chunk header the run; the model stops there.\<close>

definition free_chunk_small :: "nat \<Rightarrow> shm_state \<Rightarrow> u64 \<Rightarrow> u32 \<Rightarrow> (shm_state \<times> bool) res" where
  "free_chunk_small fuel s chunk offset =
     bind_r (find_run s chunk offset) (\<lambda>found.
     case found of None \<Rightarrow> Inr (s, False)
     | Some run \<Rightarrow>
         if run = chunk then Inl WildAccess
         else let full = run_full (runs s run);
                  run_offset = ucast ((ch_pos (chunks s chunk) + ucast offset) - rn_pos (runs s run))
              in bind_r (free_run (runs s run) run_offset) (\<lambda>r.
                 let s = put_run s run r
                 in bind_r (if full then run_pool_push fuel s (rn_conf_index r) (rn_pos r)
                            else Inr s) (\<lambda>s.
                    if run_empty r then release_run fuel s chunk r else Inr (s, False))))"

text \<open>Here too: the code would read the size from the bytes of the chunk header.\<close>

definition check_chunk_small :: "shm_state \<Rightarrow> u64 \<Rightarrow> u32 \<Rightarrow> u64 res" where
  "check_chunk_small s chunk offset =
     bind_r (find_run s chunk offset) (\<lambda>found.
     case found of None \<Rightarrow> Inr 0
     | Some run \<Rightarrow> if run = chunk then Inl WildAccess else Inr (ucast (rn_elemsize (runs s run))))"

section \<open>The invariant of the small blocks\<close>

abbreviation sbm :: "shm_state \<Rightarrow> u64 \<Rightarrow> u64 list" where
  "sbm s c \<equiv> sd_bitmap (ch_small (chunks s c))"

definition small_ok :: "shm_state \<Rightarrow> u64 \<Rightarrow> bool" where
  "small_ok s c \<longleftrightarrow> ch_type (chunks s c) = CHUNK_TYPE_SMALL \<and> ch_pos (chunks s c) = c \<and> chunk_aligned c
     \<and> length (sbm s c) = 4 \<and> bm_bit (sbm s c) 0
     \<and> unat (sd_used (ch_small (chunks s c))) = card {i. i < 256 \<and> bm_bit (sbm s c) i}
     \<and> cv_maxsize (rb_v (chunk_nodes s c)) = (if sd_used (ch_small (chunks s c)) = 256 then 0 else 1)"

definition run_pages :: "shm_state \<Rightarrow> u64 set \<Rightarrow> u64 set" where
  "run_pages s C = {page c i | c i. c \<in> C \<and> 1 \<le> i \<and> i < 256 \<and> bm_bit (sbm s c) i}"

definition run_ok :: "shm_state \<Rightarrow> u64 \<Rightarrow> nat list \<Rightarrow> bool" where
  "run_ok s x is \<longleftrightarrow> (let r = runs s x; c = unat (rn_conf_index r)
     in rn_pos r = x \<and> 1 \<le> c \<and> c \<le> 14 \<and> unat (rn_elemsize r) = elemsize_of c
        \<and> unat (rn_total r) = run_count c \<and> run_rep r is)"

text \<open>
  The chunks of small blocks are those of the pool \<open>P True\<close>, the run pool of class
  \<open>k\<close> holds exactly the runs \<open>R k\<close> of this class that have a free block, \<open>F x\<close> is
  the free list of the run at \<open>x\<close>.
\<close>

definition small_inv ::
  "shm_state \<Rightarrow> (bool \<Rightarrow> u64 list) \<Rightarrow> (nat \<Rightarrow> u64 set) \<Rightarrow> (u64 \<Rightarrow> nat list) \<Rightarrow> bool" where
  "small_inv s P R F \<longleftrightarrow> cpools s P \<and> (\<forall>c \<in> set (P True). small_ok s c)
     \<and> length (sc_run_pool s) = 15
     \<and> (\<forall>k. 1 \<le> k \<and> k \<le> 14 \<longrightarrow> pool_rep (sc_run_pool s ! k) (run_nodes s) (R k))
     \<and> (\<forall>x \<in> run_pages s (set (P True)). run_ok s x (F x))
     \<and> (\<forall>k. 1 \<le> k \<and> k \<le> 14 \<longrightarrow>
          R k = {x \<in> run_pages s (set (P True)). unat (rn_conf_index (runs s x)) = k \<and> F x \<noteq> []})"

text \<open>What the operations on small blocks leave alone: the arenas, the medium pool, the headers
  of the other chunks and the keys of the chunk trees except the chunk's own.\<close>

definition small_frame :: "shm_state \<Rightarrow> shm_state \<Rightarrow> u64 \<Rightarrow> bool" where
  "small_frame s s' c \<longleftrightarrow> sc_arenas s' = sc_arenas s \<and> (\<forall>q. q \<noteq> c \<longrightarrow> chunks s' q = chunks s q)
     \<and> ch_medium (chunks s' c) = ch_medium (chunks s c) \<and> ch_pages (chunks s' c) = ch_pages (chunks s c)
     \<and> (\<forall>q. q \<noteq> c \<longrightarrow> rb_v (chunk_nodes s' q) = rb_v (chunk_nodes s q))"

lemma small_ok_cong:
  "chunks s' c = chunks s c \<Longrightarrow> rb_v (chunk_nodes s' c) = rb_v (chunk_nodes s c) \<Longrightarrow>
   small_ok s' c = small_ok s c"
  by (simp add: small_ok_def)

lemma run_pages_cong: "(\<And>c. c \<in> C \<Longrightarrow> sbm s' c = sbm s c) \<Longrightarrow> run_pages s' C = run_pages s C"
  by (fastforce simp: run_pages_def)

lemma run_pages_finite: "finite C \<Longrightarrow> finite (run_pages s C)"
proof -
  assume "finite C"
  then have "finite ((\<lambda>(c, i). page c i) ` (C \<times> {..<256}))" by simp
  moreover have "run_pages s C \<subseteq> (\<lambda>(c, i). page c i) ` (C \<times> {..<256})"
    by (auto simp: run_pages_def)
  ultimately show ?thesis by (rule rev_finite_subset)
qed

lemma run_pages_put:
  assumes C: "\<And>d. d \<in> C \<Longrightarrow> chunk_aligned d" and c: "c \<in> C" "length (sbm s c) = 4"
    and i: "1 \<le> i" "i < 256"
    and b: "sbm s' c = bm_put (sbm s c) i b" "\<And>d. d \<in> C \<Longrightarrow> d \<noteq> c \<Longrightarrow> sbm s' d = sbm s d"
  shows "run_pages s' C = (if b then insert (page c i) (run_pages s C) else run_pages s C - {page c i})"
proof -
  have bit: "bm_bit (sbm s' d) j \<longleftrightarrow> (if d = c \<and> j = i then b else bm_bit (sbm s d) j)"
    if "d \<in> C" "j < 256" for d j
    using that b i c(2) bm_bit_put [of i "sbm s c" j b] by (cases "d = c") auto
  have "x \<in> run_pages s' C \<longleftrightarrow> (if b then x = page c i \<or> x \<in> run_pages s C
      else x \<in> run_pages s C \<and> x \<noteq> page c i)" for x
  proof (cases "\<exists>d j. d \<in> C \<and> 1 \<le> j \<and> j < 256 \<and> x = page d j")
    case True
    then obtain d j where x: "d \<in> C" "1 \<le> j" "j < 256" "x = page d j" by blast
    have m: "x \<in> run_pages u C \<longleftrightarrow> bm_bit (sbm u d) j" for u
    proof
      assume "x \<in> run_pages u C"
      then obtain d' j' where y: "x = page d' j'" "d' \<in> C" "j' < 256" "bm_bit (sbm u d') j'"
        unfolding run_pages_def by blast
      then have "d = d'" "j = j'" using page_inject [OF C C, of d d' j j'] x by simp_all
      with y show "bm_bit (sbm u d) j" by simp
    next
      assume "bm_bit (sbm u d) j"
      with x show "x \<in> run_pages u C" unfolding run_pages_def by blast
    qed
    have "x = page c i \<longleftrightarrow> d = c \<and> j = i"
      unfolding x(4) by (rule page_inject) (use x C c i in auto)
    moreover have "bm_bit (sbm s' d) j \<longleftrightarrow> (if d = c \<and> j = i then b else bm_bit (sbm s d) j)"
      by (rule bit [OF x(1,3)])
    ultimately show ?thesis unfolding m by (cases "d = c \<and> j = i") simp_all
  next
    case False
    then have "x \<noteq> page c i" "x \<notin> run_pages s C" "x \<notin> run_pages s' C"
      using c(1) i unfolding run_pages_def by blast+
    then show ?thesis by simp
  qed
  then show ?thesis by (cases b) (simp_all add: set_eq_iff)
qed

lemma bits_put:
  assumes "length bm = 4" and "i < 256"
  shows "{j. j < 256 \<and> bm_bit (bm_put bm i b) j}
    = (if b then insert i {j. j < 256 \<and> bm_bit bm j} else {j. j < 256 \<and> bm_bit bm j} - {i})"
  using assms bm_bit_put [of i bm _ b] by (auto split: if_splits)

lemma small_invD:
  assumes "small_inv s P R F"
  shows "cpools s P" "\<And>c. c \<in> set (P True) \<Longrightarrow> small_ok s c" "length (sc_run_pool s) = 15"
    "\<And>k. 1 \<le> k \<Longrightarrow> k \<le> 14 \<Longrightarrow> pool_rep (sc_run_pool s ! k) (run_nodes s) (R k)"
    "\<And>x. x \<in> run_pages s (set (P True)) \<Longrightarrow> run_ok s x (F x)"
    "\<And>k. 1 \<le> k \<Longrightarrow> k \<le> 14 \<Longrightarrow>
       R k = {x \<in> run_pages s (set (P True)). unat (rn_conf_index (runs s x)) = k \<and> F x \<noteq> []}"
    "\<And>c. c \<in> set (P True) \<Longrightarrow> chunk_aligned c"
  using assms unfolding small_inv_def small_ok_def by blast+

lemma run_pool_push_ok:
  assumes "length (sc_run_pool s) = 15" and "unat type \<le> 14"
    and "pool_rep (sc_run_pool s ! unat type) (run_nodes s) A"
    and "x \<noteq> 0" "x \<notin> A" "tn_left (run_nodes s x) = 0" "tn_right (run_nodes s x) = 0"
    and "Suc (card A) < 2 ^ 32" and "Suc (card A) < fuel"
  shows "\<exists>pool h. run_pool_push fuel s type x = Inr (set_run_pool type (pool, h) s)
    \<and> pool_rep pool h (insert x A) \<and> (\<forall>q. q \<notin> insert x A \<longrightarrow> h q = run_nodes s q)"
proof -
  obtain pool h where "shm_tree_push fuel (sc_run_pool s ! unat type) (run_nodes s) x = Inr (pool, h)"
    "pool_rep pool h (insert x A)" "\<forall>q. q \<notin> insert x A \<longrightarrow> h q = run_nodes s q"
    using push_rep [OF assms(3-9)] by blast
  then show ?thesis using assms(1,2) by (auto simp: run_pool_push_def run_pool_at_def)
qed

lemma run_pool_pop_ok:
  assumes "length (sc_run_pool s) = 15" and "unat type \<le> 14"
    and "pool_rep (sc_run_pool s ! unat type) (run_nodes s) A" and "A \<noteq> {}" "card A \<le> fuel"
  shows "\<exists>pool h. run_pool_pop fuel s type = Inr (set_run_pool type (pool, h) s)
    \<and> pool_rep pool h (A - {Min A}) \<and> (\<forall>q. q \<notin> A - {Min A} \<longrightarrow> h q = run_nodes s q)"
proof -
  obtain pool h where "shm_tree_pop fuel (sc_run_pool s ! unat type) (run_nodes s) = Inr (pool, h)"
    "pool_rep pool h (A - {Min A})" "\<forall>q. q \<notin> A - {Min A} \<longrightarrow> h q = run_nodes s q"
    using pop_rep [OF assms(3-5)] by blast
  then show ?thesis using assms(1,2) by (auto simp: run_pool_pop_def run_pool_at_def)
qed

lemma run_pool_remove_ok:
  assumes "length (sc_run_pool s) = 15" and "unat type \<le> 14"
    and "pool_rep (sc_run_pool s ! unat type) (run_nodes s) A" and "x \<in> A" "card A \<le> fuel"
  shows "\<exists>pool h. run_pool_remove fuel s type x = Inr (set_run_pool type (pool, h) s)
    \<and> pool_rep pool h (A - {x}) \<and> (\<forall>q. q \<notin> A - {x} \<longrightarrow> h q = run_nodes s q)"
proof -
  obtain pool h where "shm_tree_remove fuel (sc_run_pool s ! unat type) (run_nodes s) x = Inr (pool, h)"
    "pool_rep pool h (A - {x})" "\<forall>q. q \<notin> A - {x} \<longrightarrow> h q = run_nodes s q"
    using remove_rep [OF assms(3-5)] by blast
  then show ?thesis using assms(1,2) by (auto simp: run_pool_remove_def run_pool_at_def)
qed

text \<open>The run pools of all size classes; what an operation on a pool leaves alone.\<close>

definition class_pools :: "shm_state \<Rightarrow> (nat \<Rightarrow> u64 set) \<Rightarrow> bool" where
  "class_pools s R \<longleftrightarrow> length (sc_run_pool s) = 15
     \<and> (\<forall>k. 1 \<le> k \<and> k \<le> 14 \<longrightarrow> pool_rep (sc_run_pool s ! k) (run_nodes s) (R k))
     \<and> (\<forall>j k. 1 \<le> j \<and> j \<le> 14 \<and> 1 \<le> k \<and> k \<le> 14 \<and> j \<noteq> k \<longrightarrow> R j \<inter> R k = {})"

definition same_rest :: "shm_state \<Rightarrow> shm_state \<Rightarrow> bool" where
  "same_rest s s' \<longleftrightarrow> chunks s' = chunks s \<and> chunk_nodes s' = chunk_nodes s \<and> runs s' = runs s
     \<and> sc_arenas s' = sc_arenas s \<and> sc_small_pool s' = sc_small_pool s \<and> sc_medium_pool s' = sc_medium_pool s"

lemma same_restD:
  assumes "same_rest s s'"
  shows "chunks s' = chunks s" "chunk_nodes s' = chunk_nodes s" "runs s' = runs s"
    "sc_arenas s' = sc_arenas s" "sc_small_pool s' = sc_small_pool s" "sc_medium_pool s' = sc_medium_pool s"
  using assms by (simp_all add: same_rest_def)

lemma same_rest_refl: "same_rest s s"
  by (simp add: same_rest_def)

lemma class_poolsD:
  assumes "class_pools s R" and "1 \<le> k" "k \<le> 14"
  shows "length (sc_run_pool s) = 15" "pool_rep (sc_run_pool s ! k) (run_nodes s) (R k)"
    "\<And>j. 1 \<le> j \<Longrightarrow> j \<le> 14 \<Longrightarrow> j \<noteq> k \<Longrightarrow> R j \<inter> R k = {}"
  using assms unfolding class_pools_def by blast+

lemma class_pools_cong:
  assumes "class_pools s R" and "sc_run_pool s' = sc_run_pool s"
    and "\<And>k q. 1 \<le> k \<Longrightarrow> k \<le> 14 \<Longrightarrow> q \<in> R k \<Longrightarrow> run_nodes s' q = run_nodes s q"
  shows "class_pools s' R"
proof -
  have "pool_rep (sc_run_pool s' ! k) (run_nodes s') (R k)" if "1 \<le> k" "k \<le> 14" for k
    unfolding assms(2) by (rule pool_rep_cong [OF class_poolsD(2) [OF assms(1) that]]) (rule assms(3) [OF that])
  then show ?thesis using assms(1,2) by (simp add: class_pools_def)
qed

lemma class_pools_set:
  assumes cp: "class_pools s R" and k: "1 \<le> unat type" "unat type \<le> 14"
    and pool: "pool_rep pool h A" "\<forall>q. q \<notin> A \<longrightarrow> h q = run_nodes s q"
    and new: "\<And>j. 1 \<le> j \<Longrightarrow> j \<le> 14 \<Longrightarrow> j \<noteq> unat type \<Longrightarrow> R j \<inter> A = {}"
  shows "class_pools (set_run_pool type (pool, h) s) (R(unat type := A))"
    and "same_rest s (set_run_pool type (pool, h) s)"
proof -
  let ?s = "set_run_pool type (pool, h) s"
  have len: "length (sc_run_pool s) = 15" using class_poolsD(1) [OF cp k] .
  have "pool_rep (sc_run_pool ?s ! j) (run_nodes ?s) ((R(unat type := A)) j)" if j: "1 \<le> j" "j \<le> 14" for j
  proof (cases "j = unat type")
    case True
    then show ?thesis using len k pool(1) by (simp add: set_run_pool_def)
  next
    case False
    have "pool_rep (sc_run_pool s ! j) h (R j)"
      by (rule pool_rep_cong [OF class_poolsD(2) [OF cp j]]) (use pool(2) new [OF j False] in blast)
    with False show ?thesis by (simp add: set_run_pool_def)
  qed
  moreover have "(R(unat type := A)) i \<inter> (R(unat type := A)) j = {}"
    if "1 \<le> i" "i \<le> 14" "1 \<le> j" "j \<le> 14" "i \<noteq> j" for i j
    using class_poolsD(3) [OF cp that(3,4,1,2,5)] new [OF that(1,2)] new [OF that(3,4)] that(5)
    by (cases "i = unat type"; cases "j = unat type") auto
  ultimately show "class_pools ?s (R(unat type := A))"
    using len unfolding class_pools_def by (simp add: set_run_pool_def)
  show "same_rest s ?s" by (simp add: same_rest_def set_run_pool_def)
qed

text \<open>A run enters its pool, the first run leaves it, a given run leaves it.\<close>

lemma push_class:
  assumes cp: "class_pools s R" and k: "1 \<le> unat type" "unat type \<le> 14"
    and x: "x \<noteq> 0" "\<And>j. 1 \<le> j \<Longrightarrow> j \<le> 14 \<Longrightarrow> x \<notin> R j" "tn_left (run_nodes s x) = 0" "tn_right (run_nodes s x) = 0"
    and card: "Suc (card (R (unat type))) < fuel" "fuel \<le> 2 ^ 32"
  shows "\<exists>s'. run_pool_push fuel s type x = Inr s' \<and> same_rest s s'
    \<and> class_pools s' (R(unat type := insert x (R (unat type))))"
proof -
  note C = class_poolsD [OF cp k]
  have c32: "Suc (card (R (unat type))) < 2 ^ 32" using card by linarith
  obtain pool h where p: "run_pool_push fuel s type x = Inr (set_run_pool type (pool, h) s)"
    "pool_rep pool h (insert x (R (unat type)))" "\<forall>q. q \<notin> insert x (R (unat type)) \<longrightarrow> h q = run_nodes s q"
    using run_pool_push_ok [OF C(1) k(2) C(2) x(1) x(2) [OF k] x(3,4) c32 card(1)] by blast
  have "R j \<inter> insert x (R (unat type)) = {}" if "1 \<le> j" "j \<le> 14" "j \<noteq> unat type" for j
    using C(3) [OF that] x(2) [OF that(1,2)] by simp
  with p show ?thesis using class_pools_set [OF cp k p(2,3)] by blast
qed

lemma drop_class:
  assumes cp: "class_pools s R" and k: "1 \<le> unat type" "unat type \<le> 14"
    and p: "pool_rep pool h (R (unat type) - {x})" "\<forall>q. q \<notin> R (unat type) - {x} \<longrightarrow> h q = run_nodes s q"
  shows "same_rest s (set_run_pool type (pool, h) s)
    \<and> class_pools (set_run_pool type (pool, h) s) (R(unat type := R (unat type) - {x}))"
proof -
  have "R j \<inter> (R (unat type) - {x}) = {}" if "1 \<le> j" "j \<le> 14" "j \<noteq> unat type" for j
    using class_poolsD(3) [OF cp k that] by blast
  then show ?thesis using class_pools_set [OF cp k p] by blast
qed

lemma pop_class:
  assumes cp: "class_pools s R" and k: "1 \<le> unat type" "unat type \<le> 14"
    and R: "R (unat type) \<noteq> {}" "card (R (unat type)) \<le> fuel"
  shows "\<exists>s'. run_pool_pop fuel s type = Inr s' \<and> same_rest s s'
    \<and> class_pools s' (R(unat type := R (unat type) - {Min (R (unat type))}))"
  using run_pool_pop_ok [OF class_poolsD(1) [OF cp k] k(2) class_poolsD(2) [OF cp k] R] drop_class [OF cp k]
  by blast

lemma remove_class:
  assumes cp: "class_pools s R" and k: "1 \<le> unat type" "unat type \<le> 14"
    and R: "x \<in> R (unat type)" "card (R (unat type)) \<le> fuel"
  shows "\<exists>s'. run_pool_remove fuel s type x = Inr s' \<and> same_rest s s'
    \<and> class_pools s' (R(unat type := R (unat type) - {x}))"
  using run_pool_remove_ok [OF class_poolsD(1) [OF cp k] k(2) class_poolsD(2) [OF cp k] R] drop_class [OF cp k]
  by blast

lemma small_inv_pools:
  assumes "small_inv s P R F"
  shows "class_pools s R" "\<And>j. 1 \<le> j \<Longrightarrow> j \<le> 14 \<Longrightarrow> R j \<subseteq> run_pages s (set (P True))"
    "\<And>j. 1 \<le> j \<Longrightarrow> j \<le> 14 \<Longrightarrow> card (R j) \<le> card (run_pages s (set (P True)))"
proof -
  note D = small_invD [OF assms]
  show sub: "R j \<subseteq> run_pages s (set (P True))" if "1 \<le> j" "j \<le> 14" for j using D(6) [OF that] by blast
  have fin: "finite (run_pages s (set (P True)))" by (rule run_pages_finite) simp
  show "card (R j) \<le> card (run_pages s (set (P True)))" if "1 \<le> j" "j \<le> 14" for j
    using card_mono [OF fin sub [OF that]] .
  have "R j \<inter> R k = {}" if "1 \<le> j" "j \<le> 14" "1 \<le> k" "k \<le> 14" "j \<noteq> k" for j k
    using D(6) [OF that(1,2)] D(6) [OF that(3,4)] that(5) by auto
  then show "class_pools s R" using D(3,4) by (simp add: class_pools_def)
qed

section \<open>Making a run\<close>

lemma free_page:
  assumes "small_ok s c" and "sd_used (ch_small (chunks s c)) \<noteq> 256"
  obtains i where "1 \<le> i" "i < 256" "\<not> bm_bit (sbm s c) i"
    "bitmap_sfu (sbm s c) 256 = Inr (word_of_nat i, bm_put (sbm s c) i True)"
    "unat (sd_used (ch_small (chunks s c))) < 256"
proof -
  let ?S = "{i. i < 256 \<and> bm_bit (sbm s c) i}"
  have o: "length (sbm s c) = 4" "bm_bit (sbm s c) 0" "unat (sd_used (ch_small (chunks s c))) = card ?S"
    using assms(1) by (simp_all add: small_ok_def)
  have le: "card ?S \<le> card {..<256 :: nat}" by (intro card_mono) auto
  moreover have "card ?S \<noteq> 256" using o(3) assms(2) by (auto simp: word_unat_eq_iff)
  ultimately have lt: "card ?S < 256" by simp
  have "\<exists>i < 256. \<not> bm_bit (sbm s c) i"
  proof (rule ccontr)
    assume "\<not> ?thesis"
    then have "?S = {..<256}" by auto
    with lt show False by simp
  qed
  then have "bm_first (\<lambda>i. \<not> bm_bit (sbm s c) i) 0 256 \<noteq> None" unfolding bm_first_None by simp
  then obtain i where i: "bm_first (\<lambda>i. \<not> bm_bit (sbm s c) i) 0 256 = Some i" by blast
  then have "i < 256" "\<not> bm_bit (sbm s c) i" unfolding bm_first_Some by simp_all
  moreover have "1 \<le> i" using calculation(2) o(2) by (cases i) auto
  moreover have "bitmap_sfu (sbm s c) 256 = Inr (word_of_nat i, bm_put (sbm s c) i True)"
    using bitmap_sfu_first [of 256 "sbm s c"] o(1) i by simp
  ultimately show ?thesis using that lt o(3) by simp
qed

lemma page_word:
  assumes "i < 256"
  shows "c + ucast ((word_of_nat i :: u32) * 4096) = page c i" "(word_of_nat i :: u32) < 256"
proof -
  have "(word_of_nat i :: u32) * 4096 = word_of_nat (i * 4096)" by simp
  moreover have "(ucast (word_of_nat (i * 4096) :: u32) :: u64) = word_of_nat (i * 4096)"
    by (rule ucast_of_nat) (use assms in simp)
  ultimately show "c + ucast ((word_of_nat i :: u32) * 4096) = page c i" unfolding page_def by simp
  show "(word_of_nat i :: u32) < 256" using assms by (simp add: word_less_nat_alt unat_of_nat_small)
qed

text \<open>When the chunk's last page was taken or its first page is given back, its entry in the
  pool follows.\<close>

lemma update_flag:
  assumes P: "cpools s P" and c: "c \<in> set (P True)" and ty: "ch_type (chunks s c) = CHUNK_TYPE_SMALL"
    and m: "m < 2 ^ 31"
  shows "\<exists>s' xs. update_chunk_pool s c m = Inr s' \<and> cpools s' (P(True := xs)) \<and> mset xs = mset (P True)
    \<and> chunks s' = chunks s \<and> runs s' = runs s \<and> run_nodes s' = run_nodes s
    \<and> sc_run_pool s' = sc_run_pool s \<and> sc_arenas s' = sc_arenas s
    \<and> cv_maxsize (rb_v (chunk_nodes s' c)) = m
    \<and> (\<forall>q. q \<noteq> c \<longrightarrow> rb_v (chunk_nodes s' q) = rb_v (chunk_nodes s q))"
  using update_pool [OF P, of c m] assms by auto

lemma set_flag:
  assumes P: "cpools s P" and c: "c \<in> set (P True)" and ty: "ch_type (chunks s c) = CHUNK_TYPE_SMALL"
    and m: "m < 2 ^ 31" and same: "\<not> b \<Longrightarrow> cv_maxsize (rb_v (chunk_nodes s c)) = m"
  obtains s' xs where "(if b then update_chunk_pool s c m else Inr s) = Inr s'" "cpools s' (P(True := xs))"
    "mset xs = mset (P True)" "chunks s' = chunks s" "runs s' = runs s" "run_nodes s' = run_nodes s"
    "sc_run_pool s' = sc_run_pool s" "sc_arenas s' = sc_arenas s" "cv_maxsize (rb_v (chunk_nodes s' c)) = m"
    "\<And>q. q \<noteq> c \<Longrightarrow> rb_v (chunk_nodes s' q) = rb_v (chunk_nodes s q)"
proof (cases b)
  case True
  obtain s' xs where "update_chunk_pool s c m = Inr s'" "cpools s' (P(True := xs))"
    "mset xs = mset (P True)" "chunks s' = chunks s" "runs s' = runs s" "run_nodes s' = run_nodes s"
    "sc_run_pool s' = sc_run_pool s" "sc_arenas s' = sc_arenas s" "cv_maxsize (rb_v (chunk_nodes s' c)) = m"
    "\<forall>q. q \<noteq> c \<longrightarrow> rb_v (chunk_nodes s' q) = rb_v (chunk_nodes s q)"
    using update_flag [OF P c ty m] by blast
  then show thesis using True by (intro that [of s' xs]) simp_all
next
  case False
  then show thesis using P same by (intro that [of s "P True"]) simp_all
qed

text \<open>The chunk's bitmap and count after a page was taken.\<close>

lemma small_ok_taken:
  assumes ok: "small_ok s c" and i: "1 \<le> i" "i < 256" "\<not> bm_bit (sbm s c) i"
    and u: "unat (sd_used (ch_small (chunks s c))) < 256"
  defines "d \<equiv> (ch_small (chunks s c))\<lparr>sd_used := sd_used (ch_small (chunks s c)) + 1, sd_bitmap := bm_put (sbm s c) i True\<rparr>"
  assumes "chunks s' c = (chunks s c)\<lparr>ch_small := d\<rparr>"
    and "cv_maxsize (rb_v (chunk_nodes s' c)) = (if sd_used d = 256 then 0 else 1)"
  shows "small_ok s' c"
proof -
  let ?u = "sd_used (ch_small (chunks s c))"
  have o: "length (sbm s c) = 4" "bm_bit (sbm s c) 0" "unat ?u = card {i. i < 256 \<and> bm_bit (sbm s c) i}"
    using ok by (simp_all add: small_ok_def)
  have "unat (?u + 1) = Suc (unat ?u)" by (rule unat_inc [of _ 256]) (use u in \<open>simp add: word_less_nat_alt\<close>)
  moreover have "card (insert i {i. i < 256 \<and> bm_bit (sbm s c) i}) = Suc (unat ?u)" using i(2,3) o(3) by simp
  ultimately have "unat (sd_used d) = card {j. j < 256 \<and> bm_bit (sd_bitmap d) j}"
    using bits_put [OF o(1) i(2), of True] by (simp add: d_def)
  moreover have "bm_bit (sd_bitmap d) 0"
    using bm_bit_put [of i "sbm s c" 0 True] o(1,2) i(1,2) by (simp add: d_def)
  ultimately show ?thesis using ok o assms(7,8) by (simp add: small_ok_def) (simp add: d_def)
qed

text \<open>A run that is not yet in the heap is made in the page \<open>x\<close> and put into the pool of its class.\<close>

lemma add_run:
  assumes inv: "small_inv s P R F" and k: "1 \<le> unat type" "unat type \<le> 14"
    and x: "x \<noteq> 0" "x \<notin> run_pages s (set (P True))"
    and fuel: "Suc (card (run_pages s (set (P True)))) < fuel" "fuel \<le> 2 ^ 32"
  shows "\<exists>s'. run_pool_push fuel (put_run ((put_small s c d)\<lparr>run_nodes := (run_nodes s)(x := clean_node)\<rparr>) x
        (init_run x type)) type x = Inr s'
    \<and> class_pools s' (R(unat type := insert x (R (unat type)))) \<and> runs s' = (runs s)(x := init_run x type)
    \<and> chunks s' = (chunks s)(c := (chunks s c)\<lparr>ch_small := d\<rparr>) \<and> chunk_nodes s' = chunk_nodes s
    \<and> sc_small_pool s' = sc_small_pool s \<and> sc_medium_pool s' = sc_medium_pool s \<and> sc_arenas s' = sc_arenas s"
proof -
  let ?s2 = "put_run ((put_small s c d)\<lparr>run_nodes := (run_nodes s)(x := clean_node)\<rparr>) x (init_run x type)"
  note S = small_inv_pools [OF inv]
  have xR: "x \<notin> R j" if "1 \<le> j" "j \<le> 14" for j using S(2) [OF that] x(2) by blast
  have cp: "class_pools ?s2 R"
    by (rule class_pools_cong [OF S(1)]) (use xR in \<open>auto simp: put_run_def put_small_def\<close>)
  have clean: "tn_left (run_nodes ?s2 x) = 0" "tn_right (run_nodes ?s2 x) = 0"
    by (simp_all add: put_run_def put_small_def clean_node_def)
  have card: "Suc (card (R (unat type))) < fuel" using S(3) [OF k] fuel by linarith
  obtain s' where "run_pool_push fuel ?s2 type x = Inr s'" "same_rest ?s2 s'"
    "class_pools s' (R(unat type := insert x (R (unat type))))"
    using push_class [OF cp k x(1) xR clean card fuel(2)] by blast
  then show ?thesis using same_restD [of ?s2 s']
    by (intro exI [of _ s']) (simp add: put_run_def put_small_def)
qed

lemma small_invI:
  assumes "cpools s P" and "\<And>c. c \<in> set (P True) \<Longrightarrow> small_ok s c" and "class_pools s R"
    and "\<And>x. x \<in> run_pages s (set (P True)) \<Longrightarrow> run_ok s x (F x)"
    and "\<And>k. 1 \<le> k \<Longrightarrow> k \<le> 14 \<Longrightarrow>
      R k = {x \<in> run_pages s (set (P True)). unat (rn_conf_index (runs s x)) = k \<and> F x \<noteq> []}"
  shows "small_inv s P R F"
  unfolding small_inv_def using assms(1,2,4,5) assms(3) [unfolded class_pools_def] by blast

lemma new_chunk_run_inv:
  assumes inv: "small_inv s P R F" and c: "c \<in> set (P True)"
    and u: "sd_used (ch_small (chunks s c)) \<noteq> 256" and k: "1 \<le> unat type" "unat type \<le> 14"
    and fuel: "Suc (card (run_pages s (set (P True)))) < fuel" "fuel \<le> 2 ^ 32"
  shows "\<exists>s' x xs. new_chunk_run fuel s c type = Inr (s', x) \<and> x \<notin> run_pages s (set (P True))
    \<and> mset xs = mset (P True)
    \<and> small_inv s' (P(True := xs)) (R(unat type := insert x (R (unat type))))
         (F(x := [0..<run_count (unat type)]))
    \<and> run_pages s' (set (P True)) = insert x (run_pages s (set (P True)))
    \<and> unat (rn_conf_index (runs s' x)) = unat type \<and> (\<forall>y. y \<noteq> x \<longrightarrow> runs s' y = runs s y)
    \<and> small_frame s s' c"
proof -
  let ?C = "set (P True)" and ?k = "unat type"
  let ?G = "run_pages s ?C"
  note D = small_invD [OF inv]
  have ok: "small_ok s c" using D(2) [OF c] .
  have cc: "ch_type (chunks s c) = 1" "ch_pos (chunks s c) = c" "chunk_aligned c" "length (sbm s c) = 4"
    using ok by (simp_all add: small_ok_def)
  obtain i where i: "1 \<le> i" "i < 256" "\<not> bm_bit (sbm s c) i"
    "bitmap_sfu (sbm s c) 256 = Inr (word_of_nat i, bm_put (sbm s c) i True)"
    "unat (sd_used (ch_small (chunks s c))) < 256"
    using free_page [OF ok u] .
  let ?x = "page c i" and ?u = "sd_used (ch_small (chunks s c))"
  have "?x \<noteq> page d j" if "d \<in> ?C" "j < 256" "bm_bit (sbm s d) j" for d j
    using page_inject [OF cc(3) D(7) [OF that(1)] i(2) that(2)] i(3) that(3) by blast
  then have xG: "?x \<notin> ?G" unfolding run_pages_def by blast
  define d where "d = (ch_small (chunks s c))\<lparr>sd_used := ?u + 1, sd_bitmap := bm_put (sbm s c) i True\<rparr>"
  obtain s3 where push: "run_pool_push fuel (put_run ((put_small s c d)\<lparr>run_nodes := (run_nodes s)(?x := clean_node)\<rparr>) ?x
      (init_run ?x type)) type ?x = Inr s3" "class_pools s3 (R(?k := insert ?x (R ?k)))" and
    f3: "runs s3 = (runs s)(?x := init_run ?x type)" "chunks s3 = (chunks s)(c := (chunks s c)\<lparr>ch_small := d\<rparr>)"
      "chunk_nodes s3 = chunk_nodes s" "sc_small_pool s3 = sc_small_pool s" "sc_medium_pool s3 = sc_medium_pool s"
      "sc_arenas s3 = sc_arenas s"
    using add_run [OF inv k page_nonzero [OF cc(3) i(2)] xG fuel] by blast
  have P3: "cpools s3 P" using D(1) f3 cpools_cong by blast
  have m: "(if sd_used d = 256 then 0 else 1 :: u32) < 2 ^ 31" by simp
  have flag: "cv_maxsize (rb_v (chunk_nodes s3 c)) = (if sd_used d = 256 then 0 else 1)" if "sd_used d \<noteq> 256"
    using that ok u f3(3) by (simp add: small_ok_def)
  have ty: "ch_type (chunks s3 c) = CHUNK_TYPE_SMALL" using cc(1) f3(2) by simp
  obtain s' xs where fin: "(if sd_used d = 256 then update_chunk_pool s3 c (if sd_used d = 256 then 0 else 1) else Inr s3) = Inr s'"
      "cpools s' (P(True := xs))" "mset xs = mset (P True)" and
    f4: "chunks s' = chunks s3" "runs s' = runs s3" "run_nodes s' = run_nodes s3" "sc_run_pool s' = sc_run_pool s3"
      "sc_arenas s' = sc_arenas s3" "cv_maxsize (rb_v (chunk_nodes s' c)) = (if sd_used d = 256 then 0 else 1)"
      "\<And>q. q \<noteq> c \<Longrightarrow> rb_v (chunk_nodes s' q) = rb_v (chunk_nodes s3 q)"
    using set_flag [OF P3 c ty m flag] by blast
  have sx: "set xs = ?C" using mset_eq_setD [OF fin(3)] .
  have G': "run_pages s' ?C = insert ?x ?G"
    using run_pages_put [of ?C c s i s' True] D(7) c cc(4) i(1,2) f4(1) f3(2) by (simp add: d_def)
  have "?u < 256" using i(5) by (simp add: word_less_nat_alt)
  moreover have "ch_pos (chunks (put_small s c d) c) = c" "run_nodes (put_small s c d) = run_nodes s"
    using cc(2) by (simp_all add: put_small_def)
  moreover have "(if sd_used d = 256 then update_chunk_pool s3 c 0 else Inr s3) = Inr s'"
    using fin(1) by (simp split: if_splits)
  ultimately have eq: "new_chunk_run fuel s c type = Inr (s', ?x)"
    using cc(1) i(4) page_word [OF i(2)] push(1) unfolding new_chunk_run_def Let_def d_def by simp
  have oks: "small_ok s' e" if "e \<in> ?C" for e
    using small_ok_taken [OF ok i(1-3,5), folded d_def, of s'] D(2) [OF that] f4(1,6,7) f3(2,3) small_ok_cong [of s' e s]
    by (cases "e = c") simp_all
  have runs': "run_ok s' y ((F(?x := [0..<run_count ?k])) y)" if "y \<in> insert ?x ?G" for y
    using init_run_rep [OF k, of ?x] k f4(2) f3(1) that D(5) [of y]
    by (cases "y = ?x") (simp_all add: run_ok_def Let_def)
  have conf: "unat (rn_conf_index (runs s' ?x)) = ?k" using f4(2) f3(1) init_run_rep [OF k, of ?x] by simp
  have Rk: "(R(?k := insert ?x (R ?k))) j = {y \<in> insert ?x ?G. unat (rn_conf_index (runs s' y)) = j
      \<and> (F(?x := [0..<run_count ?k])) y \<noteq> []}" if j: "1 \<le> j" "j \<le> 14" for j
  proof -
    have "0 < run_count ?k" using elemsize_of_class [OF k] by (simp add: run_count_def div_greater_zero_iff)
    moreover have "runs s' y = runs s y" "y \<noteq> ?x" if "y \<in> ?G" for y using that xG f4(2) f3(1) by auto
    ultimately show ?thesis using D(6) [OF j] xG conf by auto
  qed
  have cp: "class_pools s' (R(?k := insert ?x (R ?k)))" by (rule class_pools_cong [OF push(2)]) (simp_all add: f4)
  have "small_inv s' (P(True := xs)) (R(?k := insert ?x (R ?k))) (F(?x := [0..<run_count ?k]))"
    by (rule small_invI [OF fin(2) _ cp]) (use oks sx runs' Rk G' in simp_all)
  moreover have "small_frame s s' c" using f4 f3 by (simp add: small_frame_def d_def)
  ultimately show ?thesis
    using eq xG fin(3) G' f4(2) f3(1) conf by (intro exI [of _ s'] exI [of _ ?x] exI [of _ xs]) simp
qed

section \<open>Taking a block\<close>

lemma run_okD:
  assumes "run_ok s x is"
  shows "rn_pos (runs s x) = x" "1 \<le> unat (rn_conf_index (runs s x))" "unat (rn_conf_index (runs s x)) \<le> 14"
    "unat (rn_elemsize (runs s x)) = elemsize_of (unat (rn_conf_index (runs s x)))"
    "unat (rn_total (runs s x)) = run_count (unat (rn_conf_index (runs s x)))" "run_rep (runs s x) is"
  using assms by (simp_all add: run_ok_def Let_def)

text \<open>A run's header was replaced by one of the same class with the free list \<open>is\<close>.\<close>

lemma run_ok_put:
  assumes "run_ok s x js" and "run_rep r is" and "rn_elemsize r = rn_elemsize (runs s x)"
    "rn_total r = rn_total (runs s x)" "rn_pos r = rn_pos (runs s x)"
    "rn_conf_index r = rn_conf_index (runs s x)" and "runs s' x = r"
  shows "run_ok s' x is"
  using assms by (simp add: run_ok_def Let_def)

text \<open>The runs of a class with a free block, after the free list of one run changed.\<close>

lemma pool_set_upd:
  assumes "R = {y \<in> G. cf y = j \<and> F y \<noteq> []}" and "x \<in> G" and "\<And>y. y \<in> G \<Longrightarrow> cf' y = cf y"
  shows "{y \<in> G. cf' y = j \<and> (F(x := is)) y \<noteq> []}
    = (if cf x \<noteq> j then R else if is = [] then R - {x} else insert x R)"
  unfolding assms(1) using assms(2,3) by auto

text \<open>One run's header and free list changed, and its place in the pool of its class with it.\<close>

lemma run_changed:
  assumes inv: "small_inv s P R F" and x: "x \<in> run_pages s (set (P True))"
    and k: "unat (rn_conf_index (runs s x)) = k"
    and r: "run_rep r is" "rn_elemsize r = rn_elemsize (runs s x)" "rn_total r = rn_total (runs s x)"
      "rn_pos r = rn_pos (runs s x)" "rn_conf_index r = rn_conf_index (runs s x)"
    and s': "same_rest (put_run s x r) s'"
      "class_pools s' (R(k := if is = [] then R k - {x} else insert x (R k)))"
  shows "small_inv s' P (R(k := if is = [] then R k - {x} else insert x (R k))) (F(x := is))"
    and "run_pages s' (set (P True)) = run_pages s (set (P True))"
proof -
  let ?R = "R(k := if is = [] then R k - {x} else insert x (R k))"
  note D = small_invD [OF inv]
  have f: "chunks s' = chunks s" "chunk_nodes s' = chunk_nodes s" "runs s' = (runs s)(x := r)"
    "sc_small_pool s' = sc_small_pool s" "sc_medium_pool s' = sc_medium_pool s" "sc_arenas s' = sc_arenas s"
    using same_restD [OF s'(1)] by (simp_all add: put_run_def)
  show G: "run_pages s' (set (P True)) = run_pages s (set (P True))" by (rule run_pages_cong) (simp add: f)
  have "run_ok s' x is" by (rule run_ok_put [OF D(5) [OF x] r]) (simp add: f)
  then have ro: "run_ok s' y ((F(x := is)) y)" if "y \<in> run_pages s (set (P True))" for y
    using D(5) [OF that] f(3) by (cases "y = x") (simp_all add: run_ok_def)
  have conf: "unat (rn_conf_index (runs s' y)) = unat (rn_conf_index (runs s y))" for y using f(3) r(5) by simp
  have Rj: "?R j = {y \<in> run_pages s (set (P True)). unat (rn_conf_index (runs s' y)) = j \<and> (F(x := is)) y \<noteq> []}"
    if j: "1 \<le> j" "j \<le> 14" for j
    using pool_set_upd [OF D(6) [OF j] x, of "\<lambda>y. unat (rn_conf_index (runs s' y))" "is"] conf k by auto
  have P: "cpools s' P" using D(1) f cpools_cong by blast
  show "small_inv s' P ?R (F(x := is))"
    by (rule small_invI [OF P _ s'(2)]) (use D(2) ro Rj G f small_ok_cong [of s' _ s] in simp_all)
qed

lemma malloc_chunk_run_inv:
  assumes inv: "small_inv s P R F" and k: "1 \<le> k" "k \<le> 14" and x: "R k \<noteq> {}" "x = Min (R k)"
    and fuel: "card (run_pages s (set (P True))) \<le> fuel"
  shows "\<exists>s' i is. F x = i # is
    \<and> malloc_chunk_run fuel s x = Inr (s', x + ucast (boff (elemsize_of k) i))
    \<and> small_inv s' P (R(k := if is = [] then R k - {x} else R k)) (F(x := is))
    \<and> run_pages s' (set (P True)) = run_pages s (set (P True))
    \<and> rn_conf_index (runs s' x) = rn_conf_index (runs s x)
    \<and> (\<forall>y. y \<noteq> x \<longrightarrow> runs s' y = runs s y)
    \<and> chunks s' = chunks s \<and> chunk_nodes s' = chunk_nodes s \<and> sc_arenas s' = sc_arenas s"
proof -
  let ?C = "set (P True)"
  note D = small_invD [OF inv] and S = small_inv_pools [OF inv]
  have "finite (R k)" by (rule finite_subset [OF S(2) [OF k] run_pages_finite]) simp
  then have xR: "x \<in> R k" using x Min_in by simp
  then have xG: "x \<in> run_pages s ?C" and conf: "unat (rn_conf_index (runs s x)) = k" and Fx: "F x \<noteq> []"
    using D(6) [OF k] by blast+
  note O = run_okD [OF D(5) [OF xG]]
  obtain i "is" where F: "F x = i # is" using Fx by (cases "F x") auto
  obtain r where m: "malloc_run (runs s x) = Inr (r, boff (elemsize_of k) i)" "run_rep r is"
      "rn_elemsize r = rn_elemsize (runs s x)" "rn_total r = rn_total (runs s x)"
      "rn_pos r = rn_pos (runs s x)" "rn_conf_index r = rn_conf_index (runs s x)"
    using malloc_run_rep [of "runs s x" i "is"] O F conf by auto
  let ?R = "if is = [] then R k - {x} else R k"
  have ck: "unat (rn_conf_index r) = k" using m(6) conf by simp
  have cp: "class_pools (put_run s x r) R" by (rule class_pools_cong [OF S(1)]) (simp_all add: put_run_def)
  have "\<exists>s'. (if run_full r then run_pool_pop fuel (put_run s x r) (rn_conf_index r) else Inr (put_run s x r)) = Inr s'
    \<and> same_rest (put_run s x r) s' \<and> class_pools s' (R(k := ?R))"
  proof (cases "is = []")
    case True
    have "1 \<le> unat (rn_conf_index r)" "unat (rn_conf_index r) \<le> 14" "R (unat (rn_conf_index r)) \<noteq> {}"
      "card (R (unat (rn_conf_index r))) \<le> fuel" unfolding ck using k x(1) S(3) [OF k] fuel by linarith+
    from pop_class [OF cp this] show ?thesis using True run_full_rep [OF m(2)] x(2) unfolding ck by simp
  qed (use run_full_rep [OF m(2)] cp same_rest_refl in simp)
  then obtain s' where s': "(if run_full r then run_pool_pop fuel (put_run s x r) (rn_conf_index r)
      else Inr (put_run s x r)) = Inr s'" "same_rest (put_run s x r) s'" "class_pools s' (R(k := ?R))" by blast
  have f: "chunks s' = chunks s" "chunk_nodes s' = chunk_nodes s" "runs s' = (runs s)(x := r)"
    "sc_arenas s' = sc_arenas s" using same_restD [OF s'(2)] by (simp_all add: put_run_def)
  have ins: "insert x (R k) = R k" using xR by blast
  have eq: "malloc_chunk_run fuel s x = Inr (s', x + ucast (boff (elemsize_of k) i))"
    using m(1,5) O(1) s'(1) by (cases "run_full r") (simp_all add: malloc_chunk_run_def Let_def)
  note new = run_changed [OF inv xG conf m(2-6) s'(2), unfolded ins, OF s'(3)]
  show ?thesis using eq F new f m(6) by (intro exI [of _ s'] exI [of _ i] exI [of _ "is"]) simp
qed

section \<open>Giving a block back\<close>

lemma find_run_ok:
  assumes "small_ok s c" and "i < 256" and "n < SHM_PAGE_SIZE"
  shows "find_run s c (word_of_nat (i * SHM_PAGE_SIZE + n))
    = Inr (if bm_bit (sbm s c) i then Some (page c i) else None)"
proof -
  have c: "ch_type (chunks s c) = 1" "length (sbm s c) = 4" using assms(1) by (simp_all add: small_ok_def)
  note d = offset_page [OF assms(2,3)]
  have u: "unat (word_of_nat i :: u32) = i" using assms(2) by (simp add: unat_of_nat_small)
  then have "bitmap_get (sbm s c) (word_of_nat i) = Inr (bm_bit (sbm s c) i)" using c(2) assms(2) by simp
  moreover have "\<not> (256 :: u32) \<le> word_of_nat i" using page_word(2) [OF assms(2)] by (simp add: not_le)
  ultimately show ?thesis
    unfolding find_run_def d Let_def using c(1) page_word(1) [OF assms(2)] by simp
qed

lemma find_run_far: "unat offset \<ge> SHM_CHUNK_UNIT_SIZE \<Longrightarrow> ch_type (chunks s c) = 1 \<Longrightarrow>
  find_run s c offset = Inr None"
proof -
  assume o: "unat offset \<ge> SHM_CHUNK_UNIT_SIZE" and t: "ch_type (chunks s c) = 1"
  have "256 \<le> unat offset div 4096" using div_le_mono [OF o, of 4096] by simp
  then have "256 \<le> offset div 4096" by (simp add: word_le_nat_alt unat_div)
  then show ?thesis using t by (simp add: find_run_def Let_def)
qed

lemma ucast_low: "ucast (word_of_nat n :: u64) = (word_of_nat n :: u32)"
  by transfer simp

lemma page_offset:
  assumes "i < 256" and "n < SHM_PAGE_SIZE"
  shows "ucast ((c + ucast (word_of_nat (i * SHM_PAGE_SIZE + n) :: u32)) - page c i) = (word_of_nat n :: u32)"
proof -
  have "(ucast (word_of_nat (i * 4096 + n) :: u32) :: u64) = word_of_nat (i * 4096 + n)"
    by (rule ucast_of_nat) (use assms in simp)
  then have "(c + ucast (word_of_nat (i * 4096 + n) :: u32)) - page c i = word_of_nat n"
    unfolding page_def by (simp add: algebra_simps)
  then show ?thesis by (simp only: ucast_low)
qed

lemma page_index:
  assumes "i < 256"
  shows "ucast ((page c i - c) div 4096) = (word_of_nat i :: u32)"
proof -
  have a: "page c i - c = word_of_nat (i * 4096)" by (simp add: page_def)
  have b: "(word_of_nat (i * 4096) :: u64) div 4096 = word_of_nat i"
    using assms by (simp add: word_unat_eq_iff unat_div unat_of_nat_small del: of_nat_mult)
  show ?thesis unfolding a b by (rule ucast_low)
qed

lemma pool_rep_size: "pool_rep pool h A \<Longrightarrow> unat (pool_size pool) = card A"
  by (erule pool_repE) (simp add: unat_of_nat_small)

lemma free_chunk_run_ok:
  assumes c: "length (sbm s c) = 4" "ch_pos (chunks s c) = c"
    and "1 \<le> i" "i < 256" "bm_bit (sbm s c) i"
  shows "free_chunk_run s c (page c i) = Inr (put_small s c ((ch_small (chunks s c))
    \<lparr>sd_used := sd_used (ch_small (chunks s c)) - 1, sd_bitmap := bm_put (sbm s c) i False\<rparr>))"
proof -
  have u: "unat (word_of_nat i :: u32) = i" using assms(4) by (simp add: unat_of_nat_small)
  show ?thesis
    using assms page_index [OF assms(4), of c] u by (simp add: free_chunk_run_def Let_def)
qed

lemma small_ok_used:
  assumes "small_ok s c" and "1 \<le> i" "i < 256" "bm_bit (sbm s c) i"
  defines "u \<equiv> sd_used (ch_small (chunks s c)) - 1" and "bm \<equiv> bm_put (sbm s c) i False"
  shows "unat u = card {j. j < 256 \<and> bm_bit bm j}" "bm_bit bm 0" "length bm = 4" "u \<noteq> 256"
    "u = 1 \<longleftrightarrow> (\<forall>j. 1 \<le> j \<and> j < 256 \<longrightarrow> \<not> bm_bit bm j)"
proof -
  let ?S = "{j. j < 256 \<and> bm_bit (sbm s c) j}" and ?T = "{j. j < 256 \<and> bm_bit bm j}"
  have o: "length (sbm s c) = 4" "bm_bit (sbm s c) 0" "unat (sd_used (ch_small (chunks s c))) = card ?S"
    using assms(1) by (simp_all add: small_ok_def)
  have T: "?T = ?S - {i}" using bits_put [OF o(1) assms(3), of False] by (simp add: bm_def)
  have iS: "i \<in> ?S" using assms(3,4) by simp
  then have "0 < card ?S" by (auto simp: card_gt_0_iff)
  then have "sd_used (ch_small (chunks s c)) \<noteq> 0" using o(3) by (metis unat_0 less_irrefl)
  then have "unat u = card ?S - 1" using o(3) by (simp add: u_def unat_minus_one)
  then show u: "unat u = card ?T" unfolding T using iS by simp
  show "length bm = 4" using o(1) by (simp add: bm_def)
  show b0: "bm_bit bm 0" using bm_bit_put [of i "sbm s c" 0 False] o assms(2,3) by (simp add: bm_def)
  have "card ?S \<le> card {..<256 :: nat}" by (intro card_mono) auto
  then have "unat u < 256" using \<open>unat u = card ?S - 1\<close> \<open>0 < card ?S\<close> by simp
  then show "u \<noteq> 256" by auto
  have "?T = insert 0 {j. 1 \<le> j \<and> j < 256 \<and> bm_bit bm j}" using b0 by (auto simp: Suc_le_eq)
  moreover have "finite {j. 1 \<le> j \<and> j < 256 \<and> bm_bit bm j}" by simp
  ultimately have "card ?T = Suc (card {j. 1 \<le> j \<and> j < 256 \<and> bm_bit bm j})" by simp
  then show "u = 1 \<longleftrightarrow> (\<forall>j. 1 \<le> j \<and> j < 256 \<longrightarrow> \<not> bm_bit bm j)"
    using u by (auto simp: word_unat_eq_iff)
qed

lemma card_gt_one: "finite A \<Longrightarrow> x \<in> A \<Longrightarrow> 1 < card A \<longleftrightarrow> A \<noteq> {x}"
proof -
  assume A: "finite A" "x \<in> A"
  then have "1 < card A \<longleftrightarrow> 0 < card (A - {x})" by simp
  also have "\<dots> \<longleftrightarrow> A - {x} \<noteq> {}" using A(1) by (simp add: card_gt_0_iff)
  also have "\<dots> \<longleftrightarrow> A \<noteq> {x}" using A(2) by auto
  finally show ?thesis .
qed

text \<open>The run that lost its last block leaves its pool and its chunk.\<close>

lemma release_run_fields:
  assumes inv: "small_inv s P R F" and c: "c \<in> set (P True)"
    and i: "1 \<le> i" "i < 256" "bm_bit (sbm s c) i"
    and s1: "same_rest s s1" "class_pools s1 R'"
  obtains s2 s3 xs where
    "(if sd_used (ch_small (chunks s1 c)) = 256 then update_chunk_pool s1 c 1 else Inr s1) = Inr s2"
    "free_chunk_run s2 c (page c i) = Inr s3" "cpools s3 (P(True := xs))" "mset xs = mset (P True)"
    "small_ok s3 c" "\<And>e. e \<noteq> c \<Longrightarrow> small_ok s3 e = small_ok s e" "class_pools s3 R'" "runs s3 = runs s"
    "run_pages s3 (set (P True)) = run_pages s (set (P True)) - {page c i}"
    "run_pages s3 {c} = {} \<longleftrightarrow> sd_used (ch_small (chunks s3 c)) = 1" "small_frame s s3 c"
proof -
  let ?u = "sd_used (ch_small (chunks s c))"
  note D = small_invD [OF inv] and f1 = same_restD [OF s1(1)]
  have ok: "small_ok s c" using D(2) [OF c] .
  have cc: "ch_type (chunks s1 c) = CHUNK_TYPE_SMALL" "ch_pos (chunks s c) = c" "length (sbm s c) = 4"
    using ok f1(1) by (simp_all add: small_ok_def)
  have P1: "cpools s1 P" using D(1) f1 cpools_cong by blast
  have m: "(1 :: u32) < 2 ^ 31" by simp
  have flag: "cv_maxsize (rb_v (chunk_nodes s1 c)) = 1" if "?u \<noteq> 256" using that ok f1(2) by (simp add: small_ok_def)
  obtain s2 xs where up: "(if ?u = 256 then update_chunk_pool s1 c 1 else Inr s1) = Inr s2"
      "cpools s2 (P(True := xs))" "mset xs = mset (P True)" and
    f2: "chunks s2 = chunks s1" "runs s2 = runs s1" "run_nodes s2 = run_nodes s1" "sc_run_pool s2 = sc_run_pool s1"
      "sc_arenas s2 = sc_arenas s1" "cv_maxsize (rb_v (chunk_nodes s2 c)) = 1"
      "\<And>q. q \<noteq> c \<Longrightarrow> rb_v (chunk_nodes s2 q) = rb_v (chunk_nodes s1 q)"
    using set_flag [OF P1 c cc(1) m flag] by blast
  let ?d = "(ch_small (chunks s c))\<lparr>sd_used := ?u - 1, sd_bitmap := bm_put (sbm s c) i False\<rparr>"
  define s3 where "s3 = put_small s2 c ?d"
  have f3: "chunks s3 = (chunks s)(c := (chunks s c)\<lparr>ch_small := ?d\<rparr>)" "runs s3 = runs s"
    "run_nodes s3 = run_nodes s1" "sc_run_pool s3 = sc_run_pool s1" "sc_arenas s3 = sc_arenas s"
    "chunk_nodes s3 = chunk_nodes s2" "sc_small_pool s3 = sc_small_pool s2" "sc_medium_pool s3 = sc_medium_pool s2"
    using f2 f1 by (simp_all add: s3_def put_small_def)
  note U = small_ok_used [OF ok i]
  show thesis
  proof (rule that)
    show "(if sd_used (ch_small (chunks s1 c)) = 256 then update_chunk_pool s1 c 1 else Inr s1) = Inr s2"
      using up(1) f1(1) by simp
    show "free_chunk_run s2 c (page c i) = Inr s3"
      using free_chunk_run_ok [of s2 c i] cc(2,3) i f2(1) f1(1) by (simp add: s3_def)
    show "cpools s3 (P(True := xs))" using up(2) f3 cpools_cong by blast
    show "small_ok s3 c" using U ok f3(1,6) f2(6) by (simp add: small_ok_def)
    show "small_ok s3 e = small_ok s e" if "e \<noteq> c" for e
      using small_ok_cong [of s3 e s] that f2(7) f1(2) f3(1,6) by simp
    show "class_pools s3 R'" by (rule class_pools_cong [OF s1(2)]) (simp_all add: f3)
    show "run_pages s3 (set (P True)) = run_pages s (set (P True)) - {page c i}"
      using run_pages_put [of "set (P True)" c s i s3 False] D(7) c cc(3) i(1,2) f3(1) by simp
    show "run_pages s3 {c} = {} \<longleftrightarrow> sd_used (ch_small (chunks s3 c)) = 1"
      using U(5) f3(1) by (auto simp: run_pages_def)
    show "small_frame s s3 c" using f3 f2 f1 by (simp add: small_frame_def)
  qed (use up(3) f3(2) in simp_all)
qed

lemma release_run_inv:
  assumes inv: "small_inv s P R F" and c: "c \<in> set (P True)"
    and i: "1 \<le> i" "i < 256" "bm_bit (sbm s c) i"
    and k: "k = unat (rn_conf_index (runs s (page c i)))" and xR: "page c i \<in> R k"
    and fuel: "card (run_pages s (set (P True))) \<le> fuel"
  shows "if R k = {page c i} then release_run fuel s c (runs s (page c i)) = Inr (s, False)
    else \<exists>s' xs b. release_run fuel s c (runs s (page c i)) = Inr (s', b)
      \<and> mset xs = mset (P True) \<and> small_inv s' (P(True := xs)) (R(k := R k - {page c i})) F
      \<and> run_pages s' (set (P True)) = run_pages s (set (P True)) - {page c i}
      \<and> (b \<longleftrightarrow> run_pages s' {c} = {}) \<and> runs s' = runs s \<and> small_frame s s' c"
proof -
  let ?C = "set (P True)" and ?x = "page c i"
  let ?G = "run_pages s ?C" and ?r = "runs s ?x"
  note D = small_invD [OF inv] and S = small_inv_pools [OF inv]
  have xG: "?x \<in> ?G" using c i unfolding run_pages_def by blast
  note O = run_okD [OF D(5) [OF xG]]
  have k14: "1 \<le> k" "k \<le> 14" using O(2,3) k by simp_all
  have finR: "finite (R k)" by (rule finite_subset [OF S(2) [OF k14] run_pages_finite]) simp
  have at: "run_pool_at s (rn_conf_index ?r) = Inr (sc_run_pool s ! k)"
    using D(3) k14 k by (simp add: run_pool_at_def)
  have sz: "pool_size (sc_run_pool s ! k) > 1 \<longleftrightarrow> R k \<noteq> {?x}"
    using pool_rep_size [OF D(4) [OF k14]] card_gt_one [OF finR xR] by (simp add: word_less_nat_alt)
  show ?thesis
  proof (cases "R k = {?x}")
    case True
    then show ?thesis using at sz by (simp add: release_run_def)
  next
    case False
    have kr: "1 \<le> unat (rn_conf_index ?r)" "unat (rn_conf_index ?r) \<le> 14" "?x \<in> R (unat (rn_conf_index ?r))"
      "card (R (unat (rn_conf_index ?r))) \<le> fuel"
      unfolding k [symmetric] using k14 xR S(3) [OF k14] fuel by linarith+
    obtain s1 where rm: "run_pool_remove fuel s (rn_conf_index ?r) ?x = Inr s1" "same_rest s s1"
      "class_pools s1 (R(k := R k - {?x}))"
      using remove_class [OF S(1) kr] unfolding k [symmetric] by blast
    obtain s2 s3 xs where
      up: "(if sd_used (ch_small (chunks s1 c)) = 256 then update_chunk_pool s1 c 1 else Inr s1) = Inr s2"
        "free_chunk_run s2 c ?x = Inr s3" and
      f: "cpools s3 (P(True := xs))" "mset xs = mset (P True)" "small_ok s3 c"
        "\<And>e. e \<noteq> c \<Longrightarrow> small_ok s3 e = small_ok s e" "class_pools s3 (R(k := R k - {?x}))" "runs s3 = runs s"
        "run_pages s3 ?C = ?G - {?x}" "run_pages s3 {c} = {} \<longleftrightarrow> sd_used (ch_small (chunks s3 c)) = 1"
        "small_frame s s3 c"
      using release_run_fields [OF inv c i rm(2,3)] by blast
    have eq: "release_run fuel s c ?r = Inr (s3, sd_used (ch_small (chunks s3 c)) = 1)"
      using at sz False rm(1) up O(1) by (simp add: release_run_def)
    have sx: "set xs = ?C" using mset_eq_setD [OF f(2)] .
    have Rj: "(R(k := R k - {?x})) j = {y \<in> ?G - {?x}. unat (rn_conf_index (runs s3 y)) = j \<and> F y \<noteq> []}"
      if j: "1 \<le> j" "j \<le> 14" for j
      using D(6) [OF j] D(6) [OF k14] f(6) k by (cases "j = k") auto
    have oks: "small_ok s3 e" if "e \<in> ?C" for e using f(3,4) D(2) [OF that] by (cases "e = c") simp_all
    have "small_inv s3 (P(True := xs)) (R(k := R k - {?x})) F"
      by (rule small_invI [OF f(1) _ f(5)]) (use oks sx Rj f(6,7) D(5) in \<open>simp_all add: run_ok_def\<close>)
    then show ?thesis using False eq f
      by (simp only: if_False) (intro exI [of _ s3] exI [of _ xs] exI [of _ "sd_used (ch_small (chunks s3 c)) = 1"], simp)
  qed
qed

text \<open>A block of a run was put on its free list and a full run went back into its pool.\<close>

lemma free_block_inv:
  assumes inv: "small_inv s P R F" and x: "x \<in> run_pages s (set (P True))"
    and k: "k = unat (rn_conf_index (runs s x))" and j: "j < run_count k" "j \<notin> set (F x)"
    and clean: "F x = [] \<Longrightarrow> tn_left (run_nodes s x) = 0 \<and> tn_right (run_nodes s x) = 0"
    and fuel: "Suc (card (run_pages s (set (P True)))) < fuel" "fuel \<le> 2 ^ 32"
  shows "\<exists>r s'. free_run (runs s x) (boff (elemsize_of k) j) = Inr r
    \<and> rn_conf_index r = rn_conf_index (runs s x) \<and> rn_pos r = x
    \<and> (run_empty r \<longleftrightarrow> Suc (length (F x)) = run_count k)
    \<and> (if run_full (runs s x) then run_pool_push fuel (put_run s x r) (rn_conf_index r) (rn_pos r)
       else Inr (put_run s x r)) = Inr s'
    \<and> small_inv s' P (R(k := insert x (R k))) (F(x := j # F x))
    \<and> run_pages s' (set (P True)) = run_pages s (set (P True)) \<and> runs s' = (runs s)(x := r)
    \<and> chunks s' = chunks s \<and> chunk_nodes s' = chunk_nodes s \<and> sc_arenas s' = sc_arenas s"
proof -
  note D = small_invD [OF inv] and S = small_inv_pools [OF inv]
  note O = run_okD [OF D(5) [OF x]]
  have k14: "1 \<le> k" "k \<le> 14" using O(2,3) k by simp_all
  obtain r where r: "free_run (runs s x) (boff (elemsize_of k) j) = Inr r" "run_rep r (j # F x)"
      "rn_elemsize r = rn_elemsize (runs s x)" "rn_total r = rn_total (runs s x)"
      "rn_pos r = rn_pos (runs s x)" "rn_conf_index r = rn_conf_index (runs s x)"
    using free_run_rep [OF O(6), of j] O(4,5) j k by auto
  have emp: "run_empty r \<longleftrightarrow> Suc (length (F x)) = run_count k"
    using run_empty_rep [OF r(2)] r(4) O(5) k by simp
  have full: "run_full (runs s x) \<longleftrightarrow> F x = []" using run_full_rep [OF O(6)] .
  have ck: "unat (rn_conf_index r) = k" using r(6) k by simp
  have cp: "class_pools (put_run s x r) R" by (rule class_pools_cong [OF S(1)]) (simp_all add: put_run_def)
  have "\<exists>s'. (if run_full (runs s x) then run_pool_push fuel (put_run s x r) (rn_conf_index r) (rn_pos r)
      else Inr (put_run s x r)) = Inr s' \<and> same_rest (put_run s x r) s' \<and> class_pools s' (R(k := insert x (R k)))"
  proof (cases "F x = []")
    case False
    then have "insert x (R k) = R k" using D(6) [OF k14] x k by blast
    then show ?thesis using False full cp same_rest_refl by simp
  next
    case True
    obtain d l where "x = page d l" "d \<in> set (P True)" "l < 256" using x unfolding run_pages_def by blast
    then have x0: "x \<noteq> 0" using page_nonzero [OF D(7)] by simp
    have xR: "x \<notin> R j" if "1 \<le> j" "j \<le> 14" for j using D(6) [OF that] True by simp
    have cl: "tn_left (run_nodes (put_run s x r) x) = 0" "tn_right (run_nodes (put_run s x r) x) = 0"
      using clean [OF True] by (simp_all add: put_run_def)
    have "1 \<le> unat (rn_conf_index r)" "unat (rn_conf_index r) \<le> 14" "Suc (card (R (unat (rn_conf_index r)))) < fuel"
      unfolding ck using k14 S(3) [OF k14] fuel by linarith+
    from push_class [OF cp this(1,2) x0 xR cl this(3) fuel(2)]
    show ?thesis using full True r(5) O(1) unfolding ck by simp
  qed
  then obtain s' where s': "(if run_full (runs s x) then run_pool_push fuel (put_run s x r) (rn_conf_index r) (rn_pos r)
        else Inr (put_run s x r)) = Inr s'" "same_rest (put_run s x r) s'" "class_pools s' (R(k := insert x (R k)))"
    by blast
  have f: "chunks s' = chunks s" "chunk_nodes s' = chunk_nodes s" "runs s' = (runs s)(x := r)"
    "sc_arenas s' = sc_arenas s" using same_restD [OF s'(2)] by (simp_all add: put_run_def)
  have "small_inv s' P (R(k := insert x (R k))) (F(x := j # F x))"
    "run_pages s' (set (P True)) = run_pages s (set (P True))"
    using run_changed [OF inv x k [symmetric] r(2-6) s'(2)] s'(3) by simp_all
  then show ?thesis using r(1,5,6) emp s'(1) f O(1) by (intro exI [of _ r] exI [of _ s']) simp
qed

text \<open>The block \<open>j\<close> of the run in page \<open>i\<close>, as an offset in the chunk.\<close>

definition block_offset :: "nat \<Rightarrow> nat \<Rightarrow> nat \<Rightarrow> u32" where
  "block_offset i k j = word_of_nat (i * SHM_PAGE_SIZE + (RUN_HEADER_SIZE + j * elemsize_of k))"

lemma block_in_page:
  assumes "1 \<le> k" "k \<le> 14" "j < run_count k"
  shows "RUN_HEADER_SIZE + j * elemsize_of k + elemsize_of k \<le> SHM_PAGE_SIZE"
proof -
  have "Suc j * elemsize_of k \<le> run_count k * elemsize_of k" using assms(3) by (intro mult_le_mono1) simp
  also have "\<dots> \<le> 4032" by (simp add: run_count_def div_times_less_eq_dividend)
  finally show ?thesis by simp
qed

lemma free_chunk_small_inv:
  assumes inv: "small_inv s P R F" and c: "c \<in> set (P True)"
    and i: "1 \<le> i" "i < 256" "bm_bit (sbm s c) i"
    and k: "k = unat (rn_conf_index (runs s (page c i)))" and j: "j < run_count k" "j \<notin> set (F (page c i))"
    and clean: "F (page c i) = [] \<Longrightarrow> tn_left (run_nodes s (page c i)) = 0 \<and> tn_right (run_nodes s (page c i)) = 0"
    and fuel: "Suc (card (run_pages s (set (P True)))) < fuel" "fuel \<le> 2 ^ 32"
  defines "freed \<equiv> Suc (length (F (page c i))) = run_count k \<and> R k - {page c i} \<noteq> {}"
  shows "\<exists>s' xs b. free_chunk_small fuel s c (block_offset i k j) = Inr (s', b)
    \<and> mset xs = mset (P True)
    \<and> small_inv s' (P(True := xs)) (R(k := if freed then R k - {page c i} else insert (page c i) (R k)))
         (F(page c i := j # F (page c i)))
    \<and> run_pages s' (set (P True)) = run_pages s (set (P True)) - (if freed then {page c i} else {})
    \<and> (b \<longleftrightarrow> run_pages s' {c} = {}) \<and> small_frame s s' c
    \<and> (\<forall>y. rn_conf_index (runs s' y) = rn_conf_index (runs s y))
    \<and> (\<forall>y. y \<noteq> page c i \<longrightarrow> runs s' y = runs s y)"
proof -
  let ?C = "set (P True)" and ?x = "page c i"
  note D = small_invD [OF inv]
  have ok: "small_ok s c" using D(2) [OF c] .
  have pos: "ch_pos (chunks s c) = c" and ca: "chunk_aligned c" using ok by (simp_all add: small_ok_def)
  have xG: "?x \<in> run_pages s ?C" using c i unfolding run_pages_def by blast
  note O = run_okD [OF D(5) [OF xG]]
  have k14: "1 \<le> k" "k \<le> 14" using O(2,3) k by simp_all
  have bp: "64 + j * elemsize_of k < 4096"
    using block_in_page [OF k14 j(1)] elemsize_of_class [OF k14] by linarith
  have xc: "?x \<noteq> c" using page_inject [OF ca ca, of i 0] i by simp
  note fr = find_run_ok [OF ok i(2) bp, folded block_offset_def]
  obtain r s1 where r: "free_run (runs s ?x) (boff (elemsize_of k) j) = Inr r"
    "rn_conf_index r = rn_conf_index (runs s ?x)" "rn_pos r = ?x"
    "run_empty r \<longleftrightarrow> Suc (length (F ?x)) = run_count k"
    and s1: "(if run_full (runs s ?x) then run_pool_push fuel (put_run s ?x r) (rn_conf_index r) (rn_pos r)
       else Inr (put_run s ?x r)) = Inr s1"
    "small_inv s1 P (R(k := insert ?x (R k))) (F(?x := j # F ?x))"
    "run_pages s1 ?C = run_pages s ?C" "runs s1 = (runs s)(?x := r)"
    "chunks s1 = chunks s" "chunk_nodes s1 = chunk_nodes s" "sc_arenas s1 = sc_arenas s"
    using free_block_inv [OF inv xG k j clean fuel] by blast
  have ro: "ucast (ch_pos (chunks s c) + ucast (block_offset i k j) - rn_pos (runs s ?x)) = boff (elemsize_of k) j"
    unfolding pos O(1) boff_def block_offset_def by (rule page_offset [OF i(2) bp])
  have eq: "free_chunk_small fuel s c (block_offset i k j)
      = (if run_empty r then release_run fuel s1 c r else Inr (s1, False))"
    unfolding free_chunk_small_def fr Let_def using xc i(3) r(1) s1(1) ro by simp
  have conf: "rn_conf_index (runs s1 y) = rn_conf_index (runs s y)" for y using s1(4) r(2) by simp
  have frm: "small_frame s s1 c" using s1 by (simp add: small_frame_def)
  have ne: "run_pages s1 {c} \<noteq> {}" using i s1(5) unfolding run_pages_def by auto
  have bit1: "bm_bit (sbm s1 c) i" and k1: "k = unat (rn_conf_index (runs s1 ?x))"
    and xR1: "?x \<in> (R(k := insert ?x (R k))) k" and fuel1: "card (run_pages s1 ?C) \<le> fuel"
    using i(3) s1(3,5) k conf fuel(1) by simp_all
  note rel = release_run_inv [OF s1(2) c i(1,2) bit1 k1 xR1 fuel1]
  show ?thesis
  proof (cases freed)
    case False
    have "(if run_empty r then release_run fuel s1 c r else Inr (s1, False)) = Inr (s1, False)"
    proof (cases "run_empty r")
      case True
      then have Rk: "(R(k := insert ?x (R k))) k = {?x}" using False r(4) by (auto simp: freed_def)
      then have "release_run fuel s1 c (runs s1 ?x) = Inr (s1, False)"
        using rel by (simp only: if_True refl)
      then show ?thesis using True s1(4) by simp
    qed simp
    then show ?thesis using eq False s1 frm ne conf
      by (intro exI [of _ s1] exI [of _ "P True"] exI [of _ False]) simp
  next
    case True
    then have e: "run_empty r" and Rk: "(R(k := insert ?x (R k))) k \<noteq> {?x}"
      using r(4) by (auto simp: freed_def)
    have "\<exists>s' xs b. release_run fuel s1 c (runs s1 ?x) = Inr (s', b)
      \<and> mset xs = mset (P True)
      \<and> small_inv s' (P(True := xs)) ((R(k := insert ?x (R k)))(k := (R(k := insert ?x (R k))) k - {?x}))
          (F(?x := j # F ?x))
      \<and> run_pages s' ?C = run_pages s1 ?C - {?x}
      \<and> (b \<longleftrightarrow> run_pages s' {c} = {}) \<and> runs s' = runs s1 \<and> small_frame s1 s' c"
      using rel Rk by (simp only: if_False)
    then obtain s' xs b where s': "release_run fuel s1 c r = Inr (s', b)" "mset xs = mset (P True)"
      "small_inv s' (P(True := xs)) (R(k := R k - {?x})) (F(?x := j # F ?x))"
      "run_pages s' ?C = run_pages s ?C - {?x}" "b \<longleftrightarrow> run_pages s' {c} = {}" "runs s' = runs s1"
      "small_frame s1 s' c"
      using s1(3,4) by auto
    have "small_frame s s' c" using s'(7) s1(5-7) by (simp add: small_frame_def)
    then show ?thesis using eq e True s' conf s1(4)
      by (intro exI [of _ s'] exI [of _ xs] exI [of _ b]) simp
  qed
qed

end
