(* ===== verification/ChunkMedium.thy ===== *)
theory ChunkMedium
  imports ShmState Bitmap
begin

text \<open>
  \<open>src/chunk_medium.c\<close>: chunks cut into extents of whole pages. Two bitmaps, one in each
  direction, mark the first page of every extent, a third one those that are in use; the free
  extents are the nodes of a red-black tree, each node at the start of its extent. The global
  \<open>medium_chunk_base\<close>, which every operation sets before it uses the tree, is the argument
  \<open>chunk\<close>; the nodes of a chunk are its \<open>ch_pages\<close>.
\<close>

section \<open>The operations\<close>

abbreviation (input) CHUNK_MEDIUM_UNITS :: "'a::numeral" where "CHUNK_MEDIUM_UNITS \<equiv> 256"

text \<open>The difference of the sizes is stored in an unsigned variable, so it is never negative.\<close>

definition medium_tree_compare :: "medium_tree_value \<Rightarrow> medium_tree_value \<Rightarrow> int" where
  "medium_tree_compare a b =
     (let r = mv_size a - mv_size b
      in if r \<noteq> 0 then uint r else uint (mv_index a) - uint (mv_index b))"

definition set_medium_unit :: "chunk_medium_detial \<Rightarrow> u16 \<Rightarrow> chunk_medium_detial res" where
  "set_medium_unit d p =
     (let q = (CHUNK_MEDIUM_UNITS - 1) - p
      in bind_r (bitmap_get (md_up d) (ucast p)) (\<lambda>b. assert_r (\<not> b) (
         bind_r (bitmap_get (md_down d) (ucast q)) (\<lambda>b. assert_r (\<not> b) (
         bind_r (bitmap_set (md_up d) (ucast p)) (\<lambda>up.
         bind_r (bitmap_set (md_down d) (ucast q)) (\<lambda>down.
         Inr (d\<lparr>md_up := up, md_down := down\<rparr>))))))))"

definition get_medium_unit :: "chunk_medium_detial \<Rightarrow> u16 \<Rightarrow> bool res" where
  "get_medium_unit d p =
     bind_r (bitmap_get (md_up d) (ucast p)) (\<lambda>r.
     bind_r (bitmap_get (md_down d) (ucast ((CHUNK_MEDIUM_UNITS - 1) - p))) (\<lambda>b.
     assert_r (r = b) (Inr r)))"

definition clear_medium_unit :: "chunk_medium_detial \<Rightarrow> u16 \<Rightarrow> chunk_medium_detial res" where
  "clear_medium_unit d p =
     (let q = (CHUNK_MEDIUM_UNITS - 1) - p
      in bind_r (bitmap_get (md_up d) (ucast p)) (\<lambda>b. assert_r b (
         bind_r (bitmap_get (md_down d) (ucast q)) (\<lambda>b. assert_r b (
         bind_r (bitmap_clear (md_up d) (ucast p)) (\<lambda>up.
         bind_r (bitmap_clear (md_down d) (ucast q)) (\<lambda>down.
         Inr (d\<lparr>md_up := up, md_down := down\<rparr>))))))))"

text \<open>
  The search reads the word behind a bitmap: behind \<open>bitmap_up\<close> that is \<open>bitmap_down\<close>,
  behind \<open>bitmap_down\<close> the unused rest of \<open>chunk_detial_holder\<close>, which \<open>init_chunk\<close>
  cleared.
\<close>

definition find_next_medium_unit :: "chunk_medium_detial \<Rightarrow> u16 \<Rightarrow> u16 res" where
  "find_next_medium_unit d p =
     bind_r (bitmap_ffsp (md_up d @ md_down d) (ucast p) CHUNK_MEDIUM_UNITS) (\<lambda>r. Inr (ucast r))"

definition find_prev_medium_unit :: "chunk_medium_detial \<Rightarrow> u16 \<Rightarrow> u16 res" where
  "find_prev_medium_unit d p =
     (let q = (CHUNK_MEDIUM_UNITS - 1) - p
      in bind_r (bitmap_ffsp (md_down d @ [0, 0]) (ucast q) CHUNK_MEDIUM_UNITS) (\<lambda>r.
         let q = ucast r
         in Inr (if q \<noteq> CHUNK_MEDIUM_UNITS then (CHUNK_MEDIUM_UNITS - 1) - q else CHUNK_MEDIUM_UNITS)))"

definition put_medium :: "shm_state \<Rightarrow> u64 \<Rightarrow> chunk_medium_detial \<times> page_heap \<Rightarrow> shm_state" where
  "put_medium s chunk dh = s\<lparr>chunks := (chunks s)(chunk :=
     (chunks s chunk)\<lparr>ch_medium := fst dh, ch_pages := snd dh\<rparr>)\<rparr>"

definition medium_of :: "shm_state \<Rightarrow> u64 \<Rightarrow> chunk_medium_detial \<times> page_heap" where
  "medium_of s chunk = (ch_medium (chunks s chunk), ch_pages (chunks s chunk))"

definition get_medium_max_size :: "shm_state \<Rightarrow> u64 \<Rightarrow> u32" where
  "get_medium_max_size s chunk = ucast (md_max_size (ch_medium (chunks s chunk))) * SHM_PAGE_SIZE"

text \<open>Writing a node's value and its own index, and inserting it.\<close>

definition page_node :: "page_heap \<Rightarrow> u16 \<Rightarrow> u16 \<Rightarrow> page_heap" where
  "page_node h p sz = h(p := (h p)\<lparr>rb_v := \<lparr>mv_size = sz, mv_index = p\<rparr>, rb_s := p\<rparr>)"

definition clear_page_node :: "page_heap \<Rightarrow> u16 \<Rightarrow> page_heap" where
  "clear_page_node h p = h(p := (h p)\<lparr>rb_v := \<lparr>mv_size = 0, mv_index = 0\<rparr>, rb_s := 0\<rparr>)"

definition add_free_unit ::
  "chunk_medium_detial \<times> page_heap \<Rightarrow> u16 \<Rightarrow> u16 \<Rightarrow> (chunk_medium_detial \<times> page_heap) res" where
  "add_free_unit dh p sz = (case dh of (d, h) \<Rightarrow>
     bind_r (rbtree_insert medium_tree_compare (md_tree d) (page_node h p sz) p) (\<lambda>(T, h).
     bind_r (set_medium_unit (d\<lparr>md_tree := T\<rparr>) p) (\<lambda>d. Inr (d, h))))"

definition init_chunk_medium :: "shm_state \<Rightarrow> u64 \<Rightarrow> shm_state res" where
  "init_chunk_medium s chunk =
     (let (d, h) = medium_of s chunk;
          d = d\<lparr>md_max_size := CHUNK_MEDIUM_UNITS - 1, md_free_size := CHUNK_MEDIUM_UNITS - 1,
                md_tree := rbtree_init\<rparr>
      in bind_r (add_free_unit (d, h) 1 (CHUNK_MEDIUM_UNITS - 1)) (\<lambda>dh.
         Inr (put_medium s chunk dh)))"

definition check_chunk_medium_max :: "shm_state \<Rightarrow> u64 \<Rightarrow> u16 \<Rightarrow> shm_state res" where
  "check_chunk_medium_max s chunk sz =
     (let (d, h) = medium_of s chunk
      in bind_r (if sz = 0
                 then bind_r (rbtree_max (md_tree d) h) (\<lambda>n.
                      Inr (case n of None \<Rightarrow> 0 | Some n \<Rightarrow> mv_size (rb_v (h n))))
                 else Inr sz) (\<lambda>sz.
         if md_max_size d \<noteq> sz
         then bind_r (update_chunk_pool s chunk (ucast sz * SHM_PAGE_SIZE)) (\<lambda>s.
              Inr (put_medium s chunk (d\<lparr>md_max_size := sz\<rparr>, h)))
         else Inr s))"

text \<open>Lines 128 to 152: the first node of the search is split if it is longer than needed and
  taken out of the tree.\<close>

definition take_unit ::
  "chunk_medium_detial \<times> page_heap \<Rightarrow> u16 \<Rightarrow> ((chunk_medium_detial \<times> page_heap) \<times> u16) res" where
  "take_unit dh sz = (case dh of (d, h) \<Rightarrow>
     bind_r (rbtree_lower medium_tree_compare (md_tree d) h \<lparr>mv_size = sz, mv_index = 0\<rparr>) (\<lambda>found.
     case found of None \<Rightarrow> Inl AssertFail
     | Some n \<Rightarrow>
         assert_r (mv_size (rb_v (h n)) \<ge> sz \<and> mv_index (rb_v (h n)) = rb_s (h n)) (
         bind_r (if mv_size (rb_v (h n)) > sz
                 then let next_index = mv_index (rb_v (h n)) + sz;
                          next_size = mv_size (rb_v (h n)) - sz
                      in assert_r (unat next_index + unat next_size \<le> CHUNK_MEDIUM_UNITS)
                           (add_free_unit (d, h) next_index next_size)
                 else Inr (d, h)) (\<lambda>(d, h).
         bind_r (rbtree_delete (md_tree d) h n) (\<lambda>(T, h).
         bind_r (bitmap_set (md_type d) (ucast (rb_s (h n)))) (\<lambda>ty.
         Inr ((d\<lparr>md_tree := T, md_type := ty, md_free_size := md_free_size d - sz\<rparr>, h), n)))))))"

definition malloc_chunk_medium :: "shm_state \<Rightarrow> u64 \<Rightarrow> u64 \<Rightarrow> (shm_state \<times> u64) res" where
  "malloc_chunk_medium s chunk len =
     assert_r (ch_type (chunks s chunk) = CHUNK_TYPE_MEDIUM) (
     let size = ucast (align_size len SHM_PAGE_SIZE div SHM_PAGE_SIZE)
     in bind_r (take_unit (medium_of s chunk) size) (\<lambda>((d, h), n).
        let s = put_medium s chunk (d, h);
            ret = ch_pos (chunks s chunk) + ucast (rb_s (h n)) * SHM_PAGE_SIZE
        in bind_r (if mv_size (rb_v (h n)) \<ge> md_max_size d then check_chunk_medium_max s chunk 0
                   else Inr s) (\<lambda>s.
           let (d, h) = medium_of s chunk
           in Inr (put_medium s chunk (d, clear_page_node h n), ret))))"

text \<open>Lines 192 to 200 and 206 to 215: a free neighbour leaves the tree; its size is the result.\<close>

definition absorb_unit ::
  "chunk_medium_detial \<times> page_heap \<Rightarrow> u16 \<Rightarrow> ((chunk_medium_detial \<times> page_heap) \<times> u16) res" where
  "absorb_unit dh p = (case dh of (d, h) \<Rightarrow>
     assert_r (rb_s (h p) = p \<and> mv_size (rb_v (h p)) \<noteq> 0) (
     let size = mv_size (rb_v (h p))
     in bind_r (rbtree_delete (md_tree d) h p) (\<lambda>(T, h).
        bind_r (clear_medium_unit (d\<lparr>md_tree := T\<rparr>) p) (\<lambda>d.
        Inr ((d, clear_page_node h p), size)))))"

definition unit_free :: "chunk_medium_detial \<Rightarrow> u16 \<Rightarrow> bool res" where
  "unit_free d p =
     (if p \<noteq> CHUNK_MEDIUM_UNITS then bind_r (bitmap_get (md_type d) (ucast p)) (\<lambda>b. Inr (\<not> b))
      else Inr False)"

text \<open>Lines 183 to 226, from the search for the next extent on: the pages that were given back
  are merged with their free neighbours. The results are the page and the size of the new free
  extent.\<close>

definition merge_unit ::
  "chunk_medium_detial \<times> page_heap \<Rightarrow> u16 \<Rightarrow> ((chunk_medium_detial \<times> page_heap) \<times> u16 \<times> u16) res" where
  "merge_unit dh curr_index = (case dh of (d, h) \<Rightarrow>
     bind_r (find_next_medium_unit d curr_index) (\<lambda>next_index.
     let curr_size = next_index - curr_index
     in bind_r (unit_free d next_index) (\<lambda>b.
        bind_r (if b then bind_r (absorb_unit (d, h) next_index) (\<lambda>((d, h), size).
                          Inr ((d, h), curr_size + size))
                else Inr ((d, h), curr_size)) (\<lambda>((d, h), isize).
        bind_r (find_prev_medium_unit d curr_index) (\<lambda>prev_index.
        bind_r (unit_free d prev_index) (\<lambda>b.
        bind_r (if b then bind_r (absorb_unit (d, h) prev_index) (\<lambda>((d, h), size).
                          Inr ((d, h), prev_index, isize + size))
                else Inr ((d, h), curr_index, isize)) (\<lambda>((d, h), index, isize).
        bind_r (add_free_unit (d, h) index isize) (\<lambda>(d, h).
        Inr ((d\<lparr>md_free_size := md_free_size d + curr_size\<rparr>, h), index, isize)))))))))"

text \<open>Lines 179 to 226.\<close>
definition release_unit ::
  "chunk_medium_detial \<times> page_heap \<Rightarrow> u16 \<Rightarrow> ((chunk_medium_detial \<times> page_heap) \<times> u16 \<times> u16) res" where
  "release_unit dh curr_index = (case dh of (d, h) \<Rightarrow>
     bind_r (get_medium_unit d curr_index) (\<lambda>b. assert_r b (
     bind_r (clear_medium_unit d curr_index) (\<lambda>d.
     bind_r (bitmap_clear (md_type d) (ucast curr_index)) (\<lambda>ty.
     merge_unit (d\<lparr>md_type := ty\<rparr>, h) curr_index)))))"

definition free_chunk_medium :: "shm_state \<Rightarrow> u64 \<Rightarrow> u32 \<Rightarrow> (shm_state \<times> bool) res" where
  "free_chunk_medium s chunk offset =
     assert_r (ch_type (chunks s chunk) = CHUNK_TYPE_MEDIUM) (
     let curr_index = ucast (offset div SHM_PAGE_SIZE) :: u16
     in if curr_index \<ge> CHUNK_MEDIUM_UNITS \<or> offset mod SHM_PAGE_SIZE \<noteq> 0 then Inr (s, False)
        else bind_r (bitmap_get (md_type (ch_medium (chunks s chunk))) (ucast curr_index)) (\<lambda>used.
        if \<not> used then Inr (s, False)
        else bind_r (release_unit (medium_of s chunk) curr_index) (\<lambda>((d, h), curr, size).
             let s = put_medium s chunk (d, h)
             in bind_r (if size \<ge> md_max_size d then check_chunk_medium_max s chunk size
                        else Inr s) (\<lambda>s.
                Inr (s, md_free_size (ch_medium (chunks s chunk)) = CHUNK_MEDIUM_UNITS - 1)))))"

definition check_chunk_medium :: "shm_state \<Rightarrow> u64 \<Rightarrow> u32 \<Rightarrow> u64 res" where
  "check_chunk_medium s chunk offset =
     assert_r (ch_type (chunks s chunk) = CHUNK_TYPE_MEDIUM) (
     let curr_index = ucast (offset div SHM_PAGE_SIZE) :: u16; d = ch_medium (chunks s chunk)
     in if curr_index \<ge> CHUNK_MEDIUM_UNITS \<or> offset mod SHM_PAGE_SIZE \<noteq> 0 then Inr 0
        else bind_r (bitmap_get (md_type d) (ucast curr_index)) (\<lambda>used.
        if \<not> used then Inr 0
        else bind_r (get_medium_unit d curr_index) (\<lambda>b. assert_r b (
             bind_r (find_next_medium_unit d curr_index) (\<lambda>next_index.
             Inr (ucast (next_index - curr_index) * SHM_PAGE_SIZE)))))
     )"

section \<open>The unit bitmaps\<close>

text \<open>\<open>unit_bits d S\<close>: the extents start at the pages \<open>S\<close>, in both bitmaps.\<close>

definition unit_bits :: "chunk_medium_detial \<Rightarrow> nat set \<Rightarrow> bool" where
  "unit_bits d S \<longleftrightarrow> length (md_up d) = 4 \<and> length (md_down d) = 4
     \<and> (\<forall>i < 256. bm_bit (md_up d) i \<longleftrightarrow> i \<in> S) \<and> (\<forall>i < 256. bm_bit (md_down d) (255 - i) \<longleftrightarrow> i \<in> S)"

lemma mirror_word: "unat (p :: u16) < 256 \<Longrightarrow> unat (255 - p) = 255 - unat p"
  by (subst unat_sub) (simp_all add: word_le_nat_alt)

lemma ucast_u16_u32: "unat (ucast (p :: u16) :: u32) = unat p"
  using unat_less_u16 [of p] by (simp add: unsigned_ucast_eq take_bit_nat_eq_self)

lemma unit_bits_get:
  assumes "unit_bits d S" and "unat (p :: u16) < 256"
  shows "bitmap_get (md_up d) (ucast p) = Inr (unat p \<in> S)"
    and "bitmap_get (md_down d) (ucast (255 - p)) = Inr (unat p \<in> S)"
proof -
  have l: "length (md_up d) = 4" "length (md_down d) = 4"
    "bm_bit (md_up d) (unat p) \<longleftrightarrow> unat p \<in> S" "bm_bit (md_down d) (255 - unat p) \<longleftrightarrow> unat p \<in> S"
    using assms by (simp_all add: unit_bits_def)
  show "bitmap_get (md_up d) (ucast p) = Inr (unat p \<in> S)"
    using bitmap_get_ok [of "ucast p" "md_up d"] l(1,3) assms(2) by (simp add: ucast_u16_u32)
  show "bitmap_get (md_down d) (ucast (255 - p)) = Inr (unat p \<in> S)"
    using bitmap_get_ok [of "ucast (255 - p)" "md_down d"] l(2,4) mirror_word [OF assms(2)]
    by (simp add: ucast_u16_u32)
qed

lemma get_medium_unit_ok: "unit_bits d S \<Longrightarrow> unat p < 256 \<Longrightarrow> get_medium_unit d p = Inr (unat p \<in> S)"
  by (simp add: get_medium_unit_def unit_bits_get)

lemma unit_bits_put:
  assumes "unit_bits d S" and p: "p < 256"
  shows "unit_bits (d\<lparr>md_up := bm_put (md_up d) p b, md_down := bm_put (md_down d) (255 - p) b\<rparr>)
    (if b then insert p S else S - {p})"
proof -
  have l: "length (md_up d) = 4" "length (md_down d) = 4"
    and S: "\<And>i. i < 256 \<Longrightarrow> bm_bit (md_up d) i \<longleftrightarrow> i \<in> S"
      "\<And>i. i < 256 \<Longrightarrow> bm_bit (md_down d) (255 - i) \<longleftrightarrow> i \<in> S"
    using assms by (simp_all add: unit_bits_def)
  have u: "bm_bit (bm_put (md_up d) p b) i \<longleftrightarrow> (if i = p then b else i \<in> S)" if "i < 256" for i
    using bm_bit_put [of p "md_up d" i b] l S(1) p that by simp
  have dn: "bm_bit (bm_put (md_down d) (255 - p) b) (255 - i) \<longleftrightarrow> (if i = p then b else i \<in> S)" if "i < 256" for i
  proof -
    have "255 - i = 255 - p \<longleftrightarrow> i = p" using p that by linarith
    then show ?thesis using bm_bit_put [of "255 - p" "md_down d" "255 - i" b] l S(2) p that by simp
  qed
  show ?thesis using l u dn by (auto simp: unit_bits_def)
qed

lemma set_medium_unit_ok:
  assumes "unit_bits d S" and "unat p < 256" "unat p \<notin> S"
  shows "\<exists>up down. set_medium_unit d p = Inr (d\<lparr>md_up := up, md_down := down\<rparr>)
    \<and> unit_bits (d\<lparr>md_up := up, md_down := down\<rparr>) (insert (unat p) S)"
proof -
  have l: "length (md_up d) = 4" "length (md_down d) = 4" using assms by (simp_all add: unit_bits_def)
  show ?thesis
    using unit_bits_put [OF assms(1,2), of True] unit_bits_get [OF assms(1,2)] assms(2,3) l
    by (simp add: set_medium_unit_def Let_def ucast_u16_u32 mirror_word) blast
qed

lemma clear_medium_unit_ok:
  assumes "unit_bits d S" and "unat p < 256" "unat p \<in> S"
  shows "\<exists>up down. clear_medium_unit d p = Inr (d\<lparr>md_up := up, md_down := down\<rparr>)
    \<and> unit_bits (d\<lparr>md_up := up, md_down := down\<rparr>) (S - {unat p})"
proof -
  have l: "length (md_up d) = 4" "length (md_down d) = 4" using assms by (simp_all add: unit_bits_def)
  show ?thesis
    using unit_bits_put [OF assms(1,2), of False] unit_bits_get [OF assms(1,2)] assms(2,3) l
    by (simp add: clear_medium_unit_def Let_def ucast_u16_u32 mirror_word) blast
qed

text \<open>The searches for the next and for the previous start of an extent.\<close>

lemma bm_bit_append: "i < 64 * length bm \<Longrightarrow> bm_bit (bm @ ws) i = bm_bit bm i"
  by (simp add: bm_bit_def nth_append less_mult_imp_div_less mult.commute)

lemma bm_first_cong: "(\<And>i. lo \<le> i \<Longrightarrow> i < hi \<Longrightarrow> P i = Q i) \<Longrightarrow> bm_first P lo hi = bm_first Q lo hi"
  unfolding bm_first_def by (rule find_cong) auto

lemma ffsp_units:
  assumes "length bm = 4" and "unat (p :: u16) < 256" and "0 < length ws"
  shows "bitmap_ffsp (bm @ ws) (ucast p) 256
    = Inr (case bm_first (bm_bit bm) (unat p) 256 of None \<Rightarrow> 256 | Some i \<Rightarrow> word_of_nat i)"
proof -
  have lt: "(ucast p :: u32) < 256" using assms(2) by (simp add: word_less_nat_alt ucast_u16_u32)
  have "bm_first (bm_bit (bm @ ws)) (unat p) 256 = bm_first (bm_bit bm) (unat p) 256"
    by (rule bm_first_cong) (simp add: bm_bit_append assms(1))
  then show ?thesis
    using bitmap_ffsp_first [of 256 "ucast p" "bm @ ws"] lt assms(1,3) by (simp add: ucast_u16_u32)
qed

lemma ucast_of_nat16: "n < 65536 \<Longrightarrow> (ucast (word_of_nat n :: u32) :: u16) = word_of_nat n"
  by (simp add: word_unat_eq_iff unat_of_nat_small unsigned_ucast_eq take_bit_nat_eq_self)

lemma find_next_ok:
  assumes "unit_bits d S" and "unat p < 256" and "unat p \<le> m" "m \<le> 256"
    and "\<And>i. unat p \<le> i \<Longrightarrow> i < m \<Longrightarrow> i \<notin> S" and "m < 256 \<Longrightarrow> m \<in> S"
  shows "find_next_medium_unit d p = Inr (word_of_nat m)"
proof -
  have l: "length (md_up d) = 4" "length (md_down d) = 4"
    and S: "\<And>i. i < 256 \<Longrightarrow> bm_bit (md_up d) i \<longleftrightarrow> i \<in> S"
    using assms(1) by (simp_all add: unit_bits_def)
  have "bm_first (bm_bit (md_up d)) (unat p) 256 = (if m = 256 then None else Some m)"
  proof (cases "m = 256")
    case True
    then show ?thesis using S assms(5) by (simp add: bm_first_None)
  next
    case False
    then show ?thesis using S assms(3-6) by (simp add: bm_first_Some)
  qed
  then show ?thesis using ffsp_units [OF l(1) assms(2), of "md_down d"] l(2) assms(4)
    by (cases "m = 256") (simp_all add: find_next_medium_unit_def ucast_of_nat16)
qed

lemma find_prev_ok:
  assumes "unit_bits d S" and "unat p < 256" and "\<And>i. m < i \<Longrightarrow> i \<le> unat p \<Longrightarrow> i \<notin> S"
    and "m \<le> unat p" "m \<in> S"
  shows "find_prev_medium_unit d p = Inr (word_of_nat m)"
proof -
  have l: "length (md_down d) = 4" and S: "\<And>i. i < 256 \<Longrightarrow> bm_bit (md_down d) (255 - i) \<longleftrightarrow> i \<in> S"
    using assms(1) by (simp_all add: unit_bits_def)
  have S': "bm_bit (md_down d) j \<longleftrightarrow> 255 - j \<in> S" if "j < 256" for j
    using S [of "255 - j"] that by simp
  have "bm_first (bm_bit (md_down d)) (255 - unat p) 256 = Some (255 - m)"
    unfolding bm_first_Some using S' assms(2-5) by auto
  moreover have "(ucast (word_of_nat (255 - m) :: u32) :: u16) = word_of_nat (255 - m)"
    by (rule ucast_of_nat16) simp
  moreover have "(word_of_nat (255 - m) :: u16) \<noteq> 256"
  proof
    assume "(word_of_nat (255 - m) :: u16) = 256"
    then have "unat (word_of_nat (255 - m) :: u16) = 256" by simp
    then show False by (simp add: unat_of_nat_small del: of_nat_diff)
  qed
  moreover have "(255 :: u16) - word_of_nat (255 - m) = word_of_nat m"
  proof -
    have "(word_of_nat (255 - m) :: u16) = 255 - word_of_nat m" using assms(2,4) by (simp add: of_nat_diff)
    then show ?thesis by simp
  qed
  ultimately show ?thesis
    using ffsp_units [OF l, of "255 - p" "[0, 0]"] mirror_word [OF assms(2)] assms(2)
    by (simp add: find_prev_medium_unit_def Let_def del: of_nat_diff)
qed

lemma find_prev_none:
  assumes "unit_bits d S" and "unat p < 256" and "\<And>i. i \<le> unat p \<Longrightarrow> i \<notin> S"
  shows "find_prev_medium_unit d p = Inr 256"
proof -
  have l: "length (md_down d) = 4" and S: "\<And>i. i < 256 \<Longrightarrow> bm_bit (md_down d) (255 - i) \<longleftrightarrow> i \<in> S"
    using assms(1) by (simp_all add: unit_bits_def)
  have "bm_first (bm_bit (md_down d)) (255 - unat p) 256 = None"
    unfolding bm_first_None
  proof (intro allI impI)
    fix j assume "255 - unat p \<le> j \<and> j < 256"
    then have "255 - j \<le> unat p" "255 - j < 256" "255 - (255 - j) = j" using assms(2) by auto
    then show "\<not> bm_bit (md_down d) j" using S [of "255 - j"] assms(3) [of "255 - j"] by simp
  qed
  then show ?thesis
    using ffsp_units [OF l, of "255 - p" "[0, 0]"] mirror_word [OF assms(2)] assms(2)
    by (simp add: find_prev_medium_unit_def Let_def)
qed

section \<open>Adding and absorbing a free extent\<close>

lemma pages_bound: "distinct (xs :: u16 list) \<Longrightarrow> Suc (length xs) < 2 ^ 31"
proof -
  assume "distinct xs"
  then have "length xs = card (set xs)" by (simp add: distinct_card)
  also have "\<dots> \<le> card (UNIV :: u16 set)" by (rule card_mono) simp_all
  also have "\<dots> = 65536" by (simp add: card_word)
  finally show ?thesis by simp
qed

lemma add_free_unit_ok:
  assumes r: "rb_rep (md_tree d) h xs" and x: "x \<noteq> 0" "x \<notin> set xs" "unat x < 256" "unat x \<notin> S"
    and b: "unit_bits d S"
  shows "\<exists>T up down h' xs'. add_free_unit (d, h) x sz = Inr (d\<lparr>md_tree := T, md_up := up, md_down := down\<rparr>, h')
    \<and> unit_bits (d\<lparr>md_tree := T, md_up := up, md_down := down\<rparr>) (insert (unat x) S)
    \<and> rb_rep T h' xs' \<and> mset xs' = add_mset x (mset xs)
    \<and> ((\<forall>y \<in> set xs. mv_size (rb_v (h y)) \<noteq> sz) \<longrightarrow> xs' = x # xs)
    \<and> (\<forall>y. rb_v (h' y) = (if y = x then \<lparr>mv_size = sz, mv_index = x\<rparr> else rb_v (h y)))"
proof -
  let ?h = "page_node h x sz"
  have r1: "rb_rep (md_tree d) ?h xs"
    by (rule rb_rep_cong [OF r]) (use x(2) in \<open>auto simp: page_node_def\<close>)
  have sx: "rb_s (?h x) = x" by (simp add: page_node_def)
  let ?g = "\<lambda>a. medium_tree_compare (rb_v (?h a)) (rb_v (?h x)) < 0"
  obtain T h' ys zs where i: "rbtree_insert medium_tree_compare (md_tree d) ?h x = Inr (T, h')"
      "xs = ys @ zs" "rb_rep T h' (ys @ x # zs)" "rb_same (insert x (set xs)) ?h h'"
      "sorted_wrt (\<lambda>a b. ?g b \<longrightarrow> ?g a) xs \<longrightarrow> ys = takeWhile ?g xs \<and> zs = dropWhile ?g xs"
    using insert_rep [OF r1 pages_bound [OF rb_rep_distinct [OF r]] x(1,2) sx] by blast
  have front: "ys @ x # zs = x # xs" if sizes: "\<forall>y \<in> set xs. mv_size (rb_v (h y)) \<noteq> sz"
  proof -
    have g: "\<not> ?g a" if a: "a \<in> set xs" for a
    proof -
      have "mv_size (rb_v (?h a)) \<noteq> mv_size (rb_v (?h x))" using a sizes x(2) by (auto simp: page_node_def)
      then show ?thesis by (simp add: medium_tree_compare_def Let_def not_less)
    qed
    then have "sorted_wrt (\<lambda>a b. ?g b \<longrightarrow> ?g a) xs" by (induction xs) auto
    moreover have "takeWhile ?g xs = []" "dropWhile ?g xs = xs" using g by (cases xs; simp)+
    ultimately show ?thesis using i(5) by simp
  qed
  have "unit_bits (d\<lparr>md_tree := T\<rparr>) S" using b by (simp add: unit_bits_def)
  from set_medium_unit_ok [OF this x(3,4)] obtain up down where
    u: "set_medium_unit (d\<lparr>md_tree := T\<rparr>) x = Inr (d\<lparr>md_tree := T, md_up := up, md_down := down\<rparr>)"
    "unit_bits (d\<lparr>md_tree := T, md_up := up, md_down := down\<rparr>) (insert (unat x) S)" by auto
  have "rb_v (h' y) = (if y = x then \<lparr>mv_size = sz, mv_index = x\<rparr> else rb_v (h y))" for y
    using i(4) by (auto simp: rb_same_def page_node_def)
  moreover have "mset (ys @ x # zs) = add_mset x (mset xs)" using i(2) by simp
  ultimately show ?thesis using i(1,3) u front
    by (intro exI [of _ T] exI [of _ up] exI [of _ down] exI [of _ h'] exI [of _ "ys @ x # zs"])
       (simp add: add_free_unit_def)
qed

lemma absorb_unit_ok:
  assumes r: "rb_rep (md_tree d) h xs" and x: "x \<in> set xs" "unat x < 256" "unat x \<in> S"
    "mv_size (rb_v (h x)) \<noteq> 0"
    and b: "unit_bits d S"
  shows "\<exists>T up down h'. absorb_unit (d, h) x
      = Inr ((d\<lparr>md_tree := T, md_up := up, md_down := down\<rparr>, h'), mv_size (rb_v (h x)))
    \<and> unit_bits (d\<lparr>md_tree := T, md_up := up, md_down := down\<rparr>) (S - {unat x})
    \<and> rb_rep T h' (remove1 x xs) \<and> (\<forall>y. y \<noteq> x \<longrightarrow> rb_v (h' y) = rb_v (h y))"
proof -
  obtain T h' where d: "rbtree_delete (md_tree d) h x = Inr (T, h')" "rb_rep T h' (remove1 x xs)"
    "rb_same (insert 0 (set xs)) h h'" using delete_rep [OF r x(1)] by blast
  have "unit_bits (d\<lparr>md_tree := T\<rparr>) S" using b by (simp add: unit_bits_def)
  from clear_medium_unit_ok [OF this x(2,3)] obtain up down where
    u: "clear_medium_unit (d\<lparr>md_tree := T\<rparr>) x = Inr (d\<lparr>md_tree := T, md_up := up, md_down := down\<rparr>)"
    "unit_bits (d\<lparr>md_tree := T, md_up := up, md_down := down\<rparr>) (S - {unat x})" by auto
  have "rb_rep T (clear_page_node h' x) (remove1 x xs)"
    by (rule rb_rep_cong [OF d(2)]) (use rb_rep_distinct [OF r] in \<open>auto simp: clear_page_node_def\<close>)
  moreover have "rb_v (clear_page_node h' x y) = rb_v (h y)" if "y \<noteq> x" for y
    using d(3) that by (simp add: clear_page_node_def rb_same_def)
  ultimately show ?thesis using d(1) u rb_rep_node [OF r x(1)] x(4)
    by (intro exI [of _ T] exI [of _ up] exI [of _ down] exI [of _ "clear_page_node h' x"])
       (simp add: absorb_unit_def Let_def)
qed

section \<open>A chunk as the list of its extents\<close>

text \<open>
  The abstract state of a chunk: its extents from page 1 on, each with its length in pages and
  whether it is in use. \<open>heads Q p es\<close> are the pages where the extents that satisfy \<open>Q\<close>
  start, \<open>frees p es\<close> the free ones with their lengths.
\<close>

type_synonym extent = "nat \<times> bool"

abbreviation page_sum :: "extent list \<Rightarrow> nat" where
  "page_sum es \<equiv> sum_list (map fst es)"

definition free_sum :: "extent list \<Rightarrow> nat" where
  "free_sum es = page_sum (filter (\<lambda>e. \<not> snd e) es)"

primrec heads :: "(bool \<Rightarrow> bool) \<Rightarrow> nat \<Rightarrow> extent list \<Rightarrow> nat set" where
  "heads Q p [] = {}"
| "heads Q p (e # es) = (if Q (snd e) then {p} else {}) \<union> heads Q (p + fst e) es"

primrec frees :: "nat \<Rightarrow> extent list \<Rightarrow> (nat \<times> nat) set" where
  "frees p [] = {}"
| "frees p (e # es) = (if snd e then {} else {(p, fst e)}) \<union> frees (p + fst e) es"

definition proper :: "extent list \<Rightarrow> bool" where
  "proper es \<longleftrightarrow> (\<forall>e \<in> set es. 0 < fst e)"

lemma proper_simps [simp]:
  "proper []" "proper (e # es) \<longleftrightarrow> 0 < fst e \<and> proper es" "proper (as @ bs) \<longleftrightarrow> proper as \<and> proper bs"
  by (auto simp: proper_def)

lemma free_sum_simps [simp]:
  "free_sum [] = 0" "free_sum (e # es) = (if snd e then 0 else fst e) + free_sum es"
  "free_sum (as @ bs) = free_sum as + free_sum bs"
  by (simp_all add: free_sum_def)

lemma free_sum_le: "free_sum es \<le> page_sum es"
  by (induction es) auto

lemma heads_append [simp]: "heads Q p (as @ bs) = heads Q p as \<union> heads Q (p + page_sum as) bs"
  by (induction as arbitrary: p) (simp_all add: add.assoc)

lemma frees_append [simp]: "frees p (as @ bs) = frees p as \<union> frees (p + page_sum as) bs"
  by (induction as arbitrary: p) (simp_all add: add.assoc)

lemma heads_range: "proper es \<Longrightarrow> q \<in> heads Q p es \<Longrightarrow> p \<le> q \<and> q < p + page_sum es"
  by (induction es arbitrary: p) (fastforce split: if_splits)+

lemma frees_heads: "(q, n) \<in> frees p es \<Longrightarrow> q \<in> heads (\<lambda>_. True) p es"
  by (induction es arbitrary: p) (auto split: if_splits)

lemma frees_range: "proper es \<Longrightarrow> (q, n) \<in> frees p es \<Longrightarrow> 0 < n \<and> p \<le> q \<and> q + n \<le> p + page_sum es"
  by (induction es arbitrary: p) (fastforce split: if_splits)+

lemma heads_mono: "q \<in> heads Q p es \<Longrightarrow> q \<in> heads (\<lambda>_. True) p es"
  by (induction es arbitrary: p) (auto split: if_splits)

lemma frees_split: "(q, n) \<in> frees p es \<Longrightarrow> \<exists>as bs. es = as @ (n, False) # bs \<and> q = p + page_sum as"
proof (induction es arbitrary: p)
  case (Cons e es)
  show ?case
  proof (cases "(q, n) \<in> frees (p + fst e) es")
    case True
    then obtain as bs where "es = as @ (n, False) # bs" "q = p + fst e + page_sum as" using Cons.IH by blast
    then show ?thesis by (intro exI [of _ "e # as"] exI [of _ bs]) simp
  next
    case False
    then have "e = (n, False)" "q = p" using Cons.prems by (cases e, auto split: if_splits)+
    then show ?thesis by (intro exI [of _ "[]"] exI [of _ es]) simp
  qed
qed simp

lemma used_split: "q \<in> heads (\<lambda>u. u) p es \<Longrightarrow> \<exists>as n bs. es = as @ (n, True) # bs \<and> q = p + page_sum as"
proof (induction es arbitrary: p)
  case (Cons e es)
  show ?case
  proof (cases "q \<in> heads (\<lambda>u. u) (p + fst e) es")
    case True
    then obtain as n bs where "es = as @ (n, True) # bs" "q = p + fst e + page_sum as" using Cons.IH by blast
    then show ?thesis by (intro exI [of _ "e # as"] exI [of _ n] exI [of _ bs]) simp
  next
    case False
    then have "snd e" "q = p" using Cons.prems by (auto split: if_splits)
    then show ?thesis by (intro exI [of _ "[]"] exI [of _ "fst e"] exI [of _ es]) (cases e, simp)
  qed
qed simp

text \<open>What the operations do to the list.\<close>

definition take_extent :: "extent list \<Rightarrow> nat \<Rightarrow> nat \<Rightarrow> extent list \<Rightarrow> extent list" where
  "take_extent as n k bs = as @ (k, True) # (if k < n then [(n - k, False)] else []) @ bs"

definition last_free :: "extent list \<Rightarrow> nat" where
  "last_free as = (if as \<noteq> [] \<and> \<not> snd (last as) then fst (last as) else 0)"
definition drop_last_free :: "extent list \<Rightarrow> extent list" where
  "drop_last_free as = (if as \<noteq> [] \<and> \<not> snd (last as) then butlast as else as)"
definition hd_free :: "extent list \<Rightarrow> nat" where
  "hd_free bs = (if bs \<noteq> [] \<and> \<not> snd (hd bs) then fst (hd bs) else 0)"
definition drop_hd_free :: "extent list \<Rightarrow> extent list" where
  "drop_hd_free bs = (if bs \<noteq> [] \<and> \<not> snd (hd bs) then tl bs else bs)"

definition free_extent :: "extent list \<Rightarrow> nat \<Rightarrow> extent list \<Rightarrow> extent list" where
  "free_extent as n bs = drop_last_free as @ (last_free as + n + hd_free bs, False) # drop_hd_free bs"

text \<open>
  The order in which the tree keeps the free extents, by their first pages. The comparison is
  negative only between extents of the same size, so an extent whose size no other has enters at
  the front; the first one is always taken.
\<close>

definition take_order :: "nat \<Rightarrow> u16 \<Rightarrow> u16 \<Rightarrow> u16 list \<Rightarrow> u16 list" where
  "take_order n sz x xs = (if unat sz < n then (x + sz) # xs else xs)"

definition free_order :: "extent list \<Rightarrow> nat \<Rightarrow> extent list \<Rightarrow> u16 list \<Rightarrow> u16 list" where
  "free_order as n bs xs = word_of_nat (Suc (page_sum (drop_last_free as))) #
     (let ys = (if bs \<noteq> [] \<and> \<not> snd (hd bs) then remove1 (word_of_nat (Suc (page_sum as) + n)) xs else xs)
      in if as \<noteq> [] \<and> \<not> snd (last as) then remove1 (word_of_nat (Suc (page_sum (butlast as)))) ys else ys)"

text \<open>No two free extents are neighbours.\<close>

definition coalesced :: "extent list \<Rightarrow> bool" where
  "coalesced es \<longleftrightarrow> successively (\<lambda>a b. snd a \<or> snd b) es"

lemma coalesced_Cons: "coalesced (e # es) \<longleftrightarrow> (es \<noteq> [] \<longrightarrow> snd e \<or> snd (hd es)) \<and> coalesced es"
  unfolding coalesced_def by (cases es) auto

lemma coalesced_append: "coalesced (as @ bs) \<longleftrightarrow>
    coalesced as \<and> coalesced bs \<and> (as \<noteq> [] \<and> bs \<noteq> [] \<longrightarrow> snd (last as) \<or> snd (hd bs))"
  unfolding coalesced_def by (auto simp: successively_append_iff)

lemma coalesced_Nil [simp]: "coalesced []"
  by (simp add: coalesced_def)

lemma coalesced_take: "coalesced (as @ (n, False) # bs) \<Longrightarrow> coalesced (take_extent as n k bs)"
  by (auto simp: take_extent_def coalesced_append coalesced_Cons)

lemma coalesced_free:
  assumes "coalesced (as @ (n, True) # bs)"
  shows "coalesced (free_extent as n bs)"
proof -
  have as: "coalesced as" and bs: "coalesced bs" using assms by (auto simp: coalesced_append coalesced_Cons)
  have l: "coalesced (drop_last_free as) \<and> (drop_last_free as \<noteq> [] \<longrightarrow> snd (last (drop_last_free as)))"
    by (cases as rule: rev_cases) (use as in \<open>auto simp: drop_last_free_def coalesced_append\<close>)
  have r: "coalesced (drop_hd_free bs) \<and> (drop_hd_free bs \<noteq> [] \<longrightarrow> snd (hd (drop_hd_free bs)))"
    using bs by (cases bs) (auto simp: drop_hd_free_def coalesced_Cons)
  show ?thesis using l r by (auto simp: free_extent_def coalesced_append coalesced_Cons)
qed

lemma page_sum_take: "k \<le> n \<Longrightarrow> page_sum (take_extent as n k bs) = page_sum (as @ (n, False) # bs)"
  by (simp add: take_extent_def)

lemma last_free_sum:
  "page_sum (drop_last_free as) + last_free as = page_sum as"
  "free_sum (drop_last_free as) + last_free as = free_sum as"
  by (cases as rule: rev_cases; simp add: drop_last_free_def last_free_def)+

lemma hd_free_sum:
  "hd_free bs + page_sum (drop_hd_free bs) = page_sum bs"
  "hd_free bs + free_sum (drop_hd_free bs) = free_sum bs"
  by (cases bs; simp add: drop_hd_free_def hd_free_def)+

lemma sums_free:
  "page_sum (free_extent as n bs) = page_sum (as @ (n, True) # bs)"
  "free_sum (free_extent as n bs) = free_sum (as @ (n, True) # bs) + n"
  using last_free_sum [of as] hd_free_sum [of bs] by (simp_all add: free_extent_def)

lemma proper_free: "proper as \<Longrightarrow> proper bs \<Longrightarrow> 0 < n \<Longrightarrow> proper (free_extent as n bs)"
  by (cases as rule: rev_cases; cases bs)
     (auto simp: free_extent_def drop_last_free_def drop_hd_free_def)

text \<open>A coalesced chunk whose pages are all free is one free extent.\<close>

lemma all_free:
  assumes "coalesced es" "proper es" "es \<noteq> []"
  shows "free_sum es = page_sum es \<longleftrightarrow> (\<exists>n. es = [(n, False)])"
proof
  assume a: "free_sum es = page_sum es"
  have nu: "\<forall>e \<in> set es. \<not> snd e"
    using a assms(2)
  proof (induction es)
    case (Cons e es)
    then show ?case using free_sum_le [of es] by (cases "snd e") auto
  qed simp
  obtain e es' where e: "es = e # es'" using assms(3) by (cases es) auto
  then have "es' = []" using assms(1) nu by (cases es') (auto simp: coalesced_Cons)
  then show "\<exists>n. es = [(n, False)]" using e nu by (cases e) simp
next
  assume "\<exists>n. es = [(n, False)]"
  then obtain n where "es = [(n, False)]" ..
  then show "free_sum es = page_sum es" by simp
qed

section \<open>The representation\<close>

text \<open>The nodes \<open>A\<close> stand for the free extents \<open>N\<close>.\<close>

definition free_nodes :: "page_heap \<Rightarrow> u16 set \<Rightarrow> (nat \<times> nat) set \<Rightarrow> bool" where
  "free_nodes h A N \<longleftrightarrow> (\<lambda>x. (unat x, unat (mv_size (rb_v (h x))))) ` A = N
     \<and> (\<forall>x \<in> A. mv_index (rb_v (h x)) = x)"

lemma free_nodesD:
  assumes "free_nodes h A N" and "x \<in> A"
  shows "(unat x, unat (mv_size (rb_v (h x)))) \<in> N" "mv_index (rb_v (h x)) = x"
  using assms by (auto simp: free_nodes_def)

lemma free_nodes_sizes:
  "free_nodes h A N \<Longrightarrow> \<forall>(q, m) \<in> N. m \<noteq> unat sz \<Longrightarrow> y \<in> A \<Longrightarrow> mv_size (rb_v (h y)) \<noteq> sz"
  by (auto simp: free_nodes_def)

lemma free_nodes_find:
  assumes "free_nodes h A N" and "(p, n) \<in> N"
  shows "word_of_nat p \<in> A" "unat (word_of_nat p :: u16) = p" "unat (mv_size (rb_v (h (word_of_nat p)))) = n"
proof -
  obtain x where "x \<in> A" "p = unat x" "n = unat (mv_size (rb_v (h x)))"
    using assms by (auto simp: free_nodes_def)
  then show "word_of_nat p \<in> A" "unat (word_of_nat p :: u16) = p"
    "unat (mv_size (rb_v (h (word_of_nat p)))) = n" by simp_all
qed

lemma free_nodes_remove:
  assumes "free_nodes h A N" and "x \<in> A" and "\<And>y. y \<noteq> x \<Longrightarrow> rb_v (h' y) = rb_v (h y)"
    and "\<And>n. (unat x, n) \<notin> M" and "N = insert (unat x, unat (mv_size (rb_v (h x)))) M"
  shows "free_nodes h' (A - {x}) M"
proof -
  let ?f = "\<lambda>h x. (unat x, unat (mv_size (rb_v (h x))))"
  have "?f h' ` (A - {x}) = ?f h ` (A - {x})" using assms(3) by (intro image_cong) auto
  also have "\<dots> = ?f h ` A - {?f h x}" by (auto dest: unsigned_word_eqI)
  also have "\<dots> = M" using assms(1,4,5) by (auto simp: free_nodes_def)
  finally show ?thesis using assms(1,3) by (auto simp: free_nodes_def)
qed

lemma free_nodes_insert:
  assumes "free_nodes h A N" and "x \<notin> A"
    and "\<And>y. rb_v (h' y) = (if y = x then \<lparr>mv_size = sz, mv_index = x\<rparr> else rb_v (h y))"
  shows "free_nodes h' (insert x A) (insert (unat x, unat sz) N)"
proof -
  let ?f = "\<lambda>h x. (unat x, unat (mv_size (rb_v (h x))))"
  have "?f h' ` A = ?f h ` A" using assms(2,3) by (intro image_cong) auto
  then show ?thesis using assms by (auto simp: free_nodes_def)
qed

definition medium_rep :: "chunk_medium_detial \<times> page_heap \<Rightarrow> extent list \<Rightarrow> u16 list \<Rightarrow> bool" where
  "medium_rep dh es xs \<longleftrightarrow> (case dh of (d, h) \<Rightarrow>
     proper es \<and> page_sum es = 255 \<and> unit_bits d (heads (\<lambda>_. True) 1 es) \<and> length (md_type d) = 4
     \<and> (\<forall>i < 256. bm_bit (md_type d) i \<longleftrightarrow> i \<in> heads (\<lambda>u. u) 1 es)
     \<and> rb_rep (md_tree d) h xs \<and> free_nodes h (set xs) (frees 1 es)
     \<and> unat (md_free_size d) = free_sum es)"

text \<open>
  The state between the two ends of \<open>free_chunk_medium\<close>: the \<open>n\<close> pages between the
  extents \<open>as\<close> and \<open>bs\<close> belong to no extent.
\<close>

definition gap_rep ::
  "chunk_medium_detial \<Rightarrow> page_heap \<Rightarrow> extent list \<Rightarrow> nat \<Rightarrow> extent list \<Rightarrow> u16 list \<Rightarrow> bool" where
  "gap_rep d h as n bs xs \<longleftrightarrow> proper as \<and> proper bs \<and> 0 < n \<and> page_sum as + n + page_sum bs = 255
     \<and> unit_bits d (heads (\<lambda>_. True) 1 as \<union> heads (\<lambda>_. True) (Suc (page_sum as) + n) bs)
     \<and> length (md_type d) = 4
     \<and> (\<forall>i < 256. bm_bit (md_type d) i \<longleftrightarrow>
          i \<in> heads (\<lambda>u. u) 1 as \<union> heads (\<lambda>u. u) (Suc (page_sum as) + n) bs)
     \<and> rb_rep (md_tree d) h xs
     \<and> free_nodes h (set xs) (frees 1 as \<union> frees (Suc (page_sum as) + n) bs)"

lemma gap_repD:
  assumes "gap_rep d h as n bs xs"
  shows "proper as" "proper bs" "0 < n" "page_sum as + n + page_sum bs = 255"
    "unit_bits d (heads (\<lambda>_. True) 1 as \<union> heads (\<lambda>_. True) (Suc (page_sum as) + n) bs)"
    "length (md_type d) = 4"
    "\<And>i. i < 256 \<Longrightarrow> bm_bit (md_type d) i \<longleftrightarrow>
       i \<in> heads (\<lambda>u. u) 1 as \<union> heads (\<lambda>u. u) (Suc (page_sum as) + n) bs"
    "rb_rep (md_tree d) h xs"
    "free_nodes h (set xs) (frees 1 as \<union> frees (Suc (page_sum as) + n) bs)"
  using assms unfolding gap_rep_def by blast+

lemma heads_below: "proper as \<Longrightarrow> q \<in> heads Q 1 as \<Longrightarrow> q \<noteq> 0 \<and> q < Suc (page_sum as)"
  using heads_range [of as q Q 1] by auto

lemma heads_above: "proper bs \<Longrightarrow> q \<in> heads Q p bs \<Longrightarrow> p \<le> q"
  using heads_range by blast

lemma frees_below: "proper as \<Longrightarrow> (q, m) \<in> frees 1 as \<Longrightarrow> q < Suc (page_sum as)"
  using frees_range [of as q m 1] by auto

lemma frees_above: "proper bs \<Longrightarrow> (q, m) \<in> frees p bs \<Longrightarrow> p \<le> q"
  using frees_range by blast

lemma gap_next:
  assumes g: "gap_rep d h as n ((m, False) # bs) xs"
  defines "x \<equiv> word_of_nat (Suc (page_sum as) + n)"
  shows "\<exists>T up down h'. absorb_unit (d, h) x
      = Inr ((d\<lparr>md_tree := T, md_up := up, md_down := down\<rparr>, h'), word_of_nat m)
    \<and> gap_rep (d\<lparr>md_tree := T, md_up := up, md_down := down\<rparr>) h' as (n + m) bs (remove1 x xs)"
proof -
  let ?p = "Suc (page_sum as) + n"
  let ?H = "heads (\<lambda>_. True) 1 as \<union> heads (\<lambda>_. True) (?p + m) bs"
  let ?N = "frees 1 as \<union> frees (?p + m) bs"
  note G = gap_repD [OF g]
  have pr: "proper bs" "0 < m" using G(2) by simp_all
  have fr: "free_nodes h (set xs) (insert (?p, m) ?N)" using G(9) by simp
  have x: "x \<in> set xs" "unat x = ?p" "unat (mv_size (rb_v (h x))) = m"
    unfolding x_def using free_nodes_find [OF fr, of ?p m] by simp_all
  have lt: "unat x < 256" using x(2) G(4) pr by simp
  have ub: "unit_bits d (insert ?p ?H)" using G(5) by simp
  have xin: "unat x \<in> insert ?p ?H" using x(2) by simp
  have nz: "mv_size (rb_v (h x)) \<noteq> 0" using x(3) pr(2) by auto
  obtain T up down h' where a: "absorb_unit (d, h) x
      = Inr ((d\<lparr>md_tree := T, md_up := up, md_down := down\<rparr>, h'), mv_size (rb_v (h x)))"
    "unit_bits (d\<lparr>md_tree := T, md_up := up, md_down := down\<rparr>) (insert ?p ?H - {unat x})"
    "rb_rep T h' (remove1 x xs)" "\<forall>y. y \<noteq> x \<longrightarrow> rb_v (h' y) = rb_v (h y)"
    using absorb_unit_ok [OF G(8) x(1) lt xin nz ub] by blast
  have nH: "?p \<notin> ?H" using heads_below [OF G(1)] heads_above [OF pr(1)] pr(2) by fastforce
  have nN: "(?p, k) \<notin> ?N" for k using frees_below [OF G(1)] frees_above [OF pr(1)] pr(2) by fastforce
  have "insert ?p ?H - {unat x} = ?H" using nH x(2) by simp
  moreover have "free_nodes h' (set xs - {x}) ?N"
    by (rule free_nodes_remove [OF fr x(1)]) (use a(4) nN x(2,3) in auto)
  moreover have "set (remove1 x xs) = set xs - {x}" using rb_rep_distinct [OF G(8)] by simp
  moreover have "mv_size (rb_v (h x)) = word_of_nat m" using x(3) by (metis word_of_nat_unat)
  ultimately show ?thesis
    using a G(1,3,4,6,7) pr
    by (intro exI [of _ T] exI [of _ up] exI [of _ down] exI [of _ h'])
       (simp add: gap_rep_def add.assoc)
qed

lemma gap_prev:
  assumes g: "gap_rep d h (as @ [(m, False)]) n bs xs"
  defines "x \<equiv> word_of_nat (Suc (page_sum as))"
  shows "\<exists>T up down h'. absorb_unit (d, h) x
      = Inr ((d\<lparr>md_tree := T, md_up := up, md_down := down\<rparr>, h'), word_of_nat m)
    \<and> gap_rep (d\<lparr>md_tree := T, md_up := up, md_down := down\<rparr>) h' as (m + n) bs (remove1 x xs)"
proof -
  let ?p = "Suc (page_sum as)"
  let ?H = "heads (\<lambda>_. True) 1 as \<union> heads (\<lambda>_. True) (?p + (m + n)) bs"
  let ?N = "frees 1 as \<union> frees (?p + (m + n)) bs"
  note G = gap_repD [OF g]
  have pr: "proper as" "0 < m" using G(1) by simp_all
  have fr: "free_nodes h (set xs) (insert (?p, m) ?N)" using G(9) by (simp add: add.assoc)
  have x: "x \<in> set xs" "unat x = ?p" "unat (mv_size (rb_v (h x))) = m"
    unfolding x_def using free_nodes_find [OF fr, of ?p m] by simp_all
  have lt: "unat x < 256" using x(2) G(3,4) pr by simp
  have ub: "unit_bits d (insert ?p ?H)" using G(5) by (simp add: add.assoc)
  have xin: "unat x \<in> insert ?p ?H" using x(2) by simp
  have nz: "mv_size (rb_v (h x)) \<noteq> 0" using x(3) pr(2) by auto
  obtain T up down h' where a: "absorb_unit (d, h) x
      = Inr ((d\<lparr>md_tree := T, md_up := up, md_down := down\<rparr>, h'), mv_size (rb_v (h x)))"
    "unit_bits (d\<lparr>md_tree := T, md_up := up, md_down := down\<rparr>) (insert ?p ?H - {unat x})"
    "rb_rep T h' (remove1 x xs)" "\<forall>y. y \<noteq> x \<longrightarrow> rb_v (h' y) = rb_v (h y)"
    using absorb_unit_ok [OF G(8) x(1) lt xin nz ub] by blast
  have nH: "?p \<notin> ?H" using heads_below [OF pr(1)] heads_above [OF G(2)] pr(2) by fastforce
  have nN: "(?p, k) \<notin> ?N" for k using frees_below [OF pr(1)] frees_above [OF G(2)] pr(2) by fastforce
  have "insert ?p ?H - {unat x} = ?H" using nH x(2) by simp
  moreover have "free_nodes h' (set xs - {x}) ?N"
    by (rule free_nodes_remove [OF fr x(1)]) (use a(4) nN x(2,3) in auto)
  moreover have "set (remove1 x xs) = set xs - {x}" using rb_rep_distinct [OF G(8)] by simp
  moreover have "mv_size (rb_v (h x)) = word_of_nat m" using x(3) by (metis word_of_nat_unat)
  ultimately show ?thesis
    using a G(2,3,4,6,7) pr
    by (intro exI [of _ T] exI [of _ up] exI [of _ down] exI [of _ h'])
       (simp add: gap_rep_def add.assoc)
qed

lemma gap_close:
  assumes g: "gap_rep d h as n bs xs" and n: "unat sz = n" and x: "unat x = Suc (page_sum as)"
  shows "\<exists>T up down h' xs'. add_free_unit (d, h) x sz = Inr (d\<lparr>md_tree := T, md_up := up, md_down := down\<rparr>, h')
    \<and> (unat k = free_sum (as @ (n, False) # bs) \<longrightarrow>
        medium_rep (d\<lparr>md_tree := T, md_up := up, md_down := down, md_free_size := k\<rparr>, h') (as @ (n, False) # bs) xs')
    \<and> ((\<forall>(q, m) \<in> frees 1 as \<union> frees (Suc (page_sum as) + n) bs. m \<noteq> n) \<longrightarrow> xs' = x # xs)"
proof -
  let ?p = "Suc (page_sum as)"
  let ?H = "heads (\<lambda>_. True) 1 as \<union> heads (\<lambda>_. True) (?p + n) bs"
  note G = gap_repD [OF g]
  have nH: "?p \<notin> ?H" using heads_below [OF G(1)] heads_above [OF G(2)] G(3) by fastforce
  have xn: "x \<notin> set xs"
  proof
    assume "x \<in> set xs"
    then have "(?p, unat (mv_size (rb_v (h x)))) \<in> frees 1 as \<union> frees (?p + n) bs"
      using free_nodesD(1) [OF G(9) \<open>x \<in> set xs\<close>] unfolding x by blast
    then show False using frees_heads nH by blast
  qed
  have x0: "x \<noteq> 0" "unat x < 256" "unat x \<notin> ?H" using x G(3,4) nH by auto
  obtain T up down h' xs' where
    a: "add_free_unit (d, h) x sz = Inr (d\<lparr>md_tree := T, md_up := up, md_down := down\<rparr>, h')"
    "unit_bits (d\<lparr>md_tree := T, md_up := up, md_down := down\<rparr>) (insert (unat x) ?H)"
    "rb_rep T h' xs'" "mset xs' = add_mset x (mset xs)"
    "(\<forall>y \<in> set xs. mv_size (rb_v (h y)) \<noteq> sz) \<longrightarrow> xs' = x # xs"
    "\<forall>y. rb_v (h' y) = (if y = x then \<lparr>mv_size = sz, mv_index = x\<rparr> else rb_v (h y))"
    using add_free_unit_ok [OF G(8) x0(1) xn x0(2,3) G(5), of sz] by blast
  have "set xs' = insert x (set xs)" using a(4) by (metis set_mset_add_mset_insert set_mset_mset)
  moreover have "xs' = x # xs" if no: "\<forall>(q, m) \<in> frees 1 as \<union> frees (?p + n) bs. m \<noteq> n"
    using a(5) free_nodes_sizes [OF G(9)] no n by blast
  moreover have "free_nodes h' (insert x (set xs)) (insert (unat x, unat sz) (frees 1 as \<union> frees (?p + n) bs))"
    by (rule free_nodes_insert [OF G(9) \<open>x \<notin> set xs\<close>]) (use a(6) in auto)
  moreover have "unit_bits (d\<lparr>md_tree := T, md_up := up, md_down := down, md_free_size := k\<rparr>) (insert ?p ?H)"
    using a(2) x by (simp add: unit_bits_def)
  ultimately show ?thesis
    using a(1,3) G(1-4,6,7) n x
    by (intro exI [of _ T] exI [of _ up] exI [of _ down] exI [of _ h'] exI [of _ xs'])
       (simp add: medium_rep_def add.assoc)
qed

lemma unit_free_next:
  assumes g: "gap_rep d h as n bs xs"
  shows "unit_free d (word_of_nat (Suc (page_sum as) + n)) = Inr (bs \<noteq> [] \<and> \<not> snd (hd bs))"
proof -
  let ?p = "Suc (page_sum as) + n"
  note G = gap_repD [OF g]
  have u: "unat (word_of_nat ?p :: u16) = ?p" using G(4) by (intro unat_of_nat_small) simp
  have ne: "(word_of_nat ?p :: u16) = 256 \<longleftrightarrow> ?p = 256"
  proof
    assume "(word_of_nat ?p :: u16) = 256"
    then have "unat (word_of_nat ?p :: u16) = 256" by simp
    then show "?p = 256" using u by simp
  qed simp
  show ?thesis
  proof (cases bs)
    case Nil
    then show ?thesis using G(4) by (simp add: unit_free_def)
  next
    case (Cons e bs')
    have lt: "?p < 256" using G(2,4) Cons by simp
    have na: "?p \<notin> heads (\<lambda>u. u) 1 as" using heads_below [OF G(1)] G(3) by fastforce
    have nb: "?p \<notin> heads (\<lambda>u. u) (?p + fst e) bs'" using heads_above [of bs' ?p] G(2) Cons by fastforce
    have "bm_bit (md_type d) ?p = snd e" using G(7) [OF lt] na nb Cons by simp
    then show ?thesis using ne lt u G(6) Cons by (simp add: unit_free_def ucast_u16_u32 del: of_nat_add of_nat_Suc)
  qed
qed

lemma absorb_next:
  assumes g: "gap_rep d h as n bs xs"
  shows "\<exists>T up down h'. (if bs \<noteq> [] \<and> \<not> snd (hd bs)
      then bind_r (absorb_unit (d, h) (word_of_nat (Suc (page_sum as) + n))) (\<lambda>((d, h), size).
             Inr ((d, h), word_of_nat n + size))
      else Inr ((d, h), word_of_nat n))
      = Inr ((d\<lparr>md_tree := T, md_up := up, md_down := down\<rparr>, h'), word_of_nat (n + hd_free bs))
    \<and> gap_rep (d\<lparr>md_tree := T, md_up := up, md_down := down\<rparr>) h' as (n + hd_free bs) (drop_hd_free bs)
        (if bs \<noteq> [] \<and> \<not> snd (hd bs) then remove1 (word_of_nat (Suc (page_sum as) + n)) xs else xs)"
proof (cases "bs \<noteq> [] \<and> \<not> snd (hd bs)")
  case False
  then have "hd_free bs = 0" "drop_hd_free bs = bs" by (auto simp: hd_free_def drop_hd_free_def)
  with False g show ?thesis
    by (intro exI [of _ "md_tree d"] exI [of _ "md_up d"] exI [of _ "md_down d"] exI [of _ h]) auto
next
  case True
  then obtain m bs' where b: "bs = (m, False) # bs'" by (cases bs) (auto simp: prod_eq_iff)
  let ?y = "word_of_nat (Suc (page_sum as) + n)"
  obtain T up down h' where a: "absorb_unit (d, h) ?y
      = Inr ((d\<lparr>md_tree := T, md_up := up, md_down := down\<rparr>, h'), word_of_nat m)"
    "gap_rep (d\<lparr>md_tree := T, md_up := up, md_down := down\<rparr>) h' as (n + m) bs' (remove1 ?y xs)"
    using gap_next [OF g [unfolded b]] by blast
  have "hd_free bs = m" "drop_hd_free bs = bs'" using b by (simp_all add: hd_free_def drop_hd_free_def)
  then show ?thesis using a b
    by (intro exI [of _ T] exI [of _ up] exI [of _ down] exI [of _ h'])
       (simp del: of_nat_add of_nat_Suc add: of_nat_add [symmetric])
qed

lemma find_prev_gap:
  assumes g: "gap_rep d h as n bs xs" and x: "unat x = Suc (page_sum as)"
  shows "find_prev_medium_unit d x
    = Inr (if as = [] then 256 else word_of_nat (Suc (page_sum (butlast as))))"
proof -
  note G = gap_repD [OF g]
  have lt: "unat x < 256" using x G(3,4) by simp
  show ?thesis
  proof (cases as rule: rev_cases)
    case Nil
    have "i \<notin> heads (\<lambda>_. True) 1 as \<union> heads (\<lambda>_. True) (Suc (page_sum as) + n) bs" if "i \<le> unat x" for i
      using heads_above [OF G(2), of i] that x G(3) Nil by fastforce
    from find_prev_none [OF G(5) lt this] show ?thesis using Nil by simp
  next
    case (snoc as' e)
    let ?m = "Suc (page_sum as')"
    have pr: "proper as'" "0 < fst e" using G(1) snoc by simp_all
    have "find_prev_medium_unit d x = Inr (word_of_nat ?m)"
    proof (rule find_prev_ok [OF G(5) lt])
      fix i assume i: "?m < i" "i \<le> unat x"
      have "i \<notin> heads (\<lambda>_. True) 1 as'" using heads_below [OF pr(1)] i by fastforce
      moreover have "i \<notin> heads (\<lambda>_. True) (Suc (page_sum as) + n) bs"
        using heads_above [OF G(2), of i] i x G(3) by fastforce
      ultimately show "i \<notin> heads (\<lambda>_. True) 1 as \<union> heads (\<lambda>_. True) (Suc (page_sum as) + n) bs"
        using i snoc by simp
    qed (use x snoc in simp_all)
    then show ?thesis using snoc by simp
  qed
qed

lemma unit_free_prev:
  assumes g: "gap_rep d h as n bs xs" and "as \<noteq> []"
  shows "unit_free d (word_of_nat (Suc (page_sum (butlast as)))) = Inr (\<not> snd (last as))"
proof -
  note G = gap_repD [OF g]
  obtain as' e where as: "as = as' @ [e]" using assms(2) by (cases as rule: rev_cases) auto
  let ?p = "Suc (page_sum as')"
  have lt: "?p < 256" using G(1,3,4) as by simp
  have u: "unat (word_of_nat ?p :: u16) = ?p" using lt by (intro unat_of_nat_small) simp
  have ne: "(word_of_nat ?p :: u16) \<noteq> 256"
  proof
    assume "(word_of_nat ?p :: u16) = 256"
    then have "unat (word_of_nat ?p :: u16) = 256" by simp
    then show False using u lt by simp
  qed
  have na: "?p \<notin> heads (\<lambda>u. u) 1 as'" using heads_below [of as'] G(1) as by fastforce
  have nb: "?p \<notin> heads (\<lambda>u. u) (Suc (page_sum as) + n) bs"
    using heads_above [OF G(2), of ?p] G(3) as by fastforce
  have "bm_bit (md_type d) ?p = snd e" using G(7) [OF lt] na nb as by simp
  then show ?thesis using ne lt u G(6) as by (simp add: unit_free_def ucast_u16_u32 del: of_nat_add of_nat_Suc)
qed

lemma absorb_prev:
  assumes g: "gap_rep d h as n bs xs" and x: "unat x = Suc (page_sum as)"
  shows "\<exists>prev b T up down h' index. find_prev_medium_unit d x = Inr prev \<and> unit_free d prev = Inr b
    \<and> (if b then bind_r (absorb_unit (d, h) prev) (\<lambda>((d, h), size). Inr ((d, h), prev, word_of_nat n + size))
       else Inr ((d, h), x, word_of_nat n))
      = Inr ((d\<lparr>md_tree := T, md_up := up, md_down := down\<rparr>, h'), index, word_of_nat (last_free as + n))
    \<and> unat index = Suc (page_sum (drop_last_free as))
    \<and> gap_rep (d\<lparr>md_tree := T, md_up := up, md_down := down\<rparr>) h' (drop_last_free as) (last_free as + n) bs
        (if as \<noteq> [] \<and> \<not> snd (last as) then remove1 (word_of_nat (Suc (page_sum (butlast as)))) xs else xs)"
proof (cases "as \<noteq> [] \<and> \<not> snd (last as)")
  case False
  then have l: "last_free as = 0" "drop_last_free as = as" by (auto simp: last_free_def drop_last_free_def)
  obtain prev where "find_prev_medium_unit d x = Inr prev" "unit_free d prev = Inr False"
    using False find_prev_gap [OF g x] unit_free_prev [OF g] by (cases "as = []") (auto simp: unit_free_def)
  then show ?thesis using l g x
    by (intro exI [of _ prev] exI [of _ False] exI [of _ "md_tree d"] exI [of _ "md_up d"]
        exI [of _ "md_down d"] exI [of _ h] exI [of _ x]) (simp only: False if_False, simp)
next
  case True
  then obtain m as' where a: "as = as' @ [(m, False)]" by (cases as rule: rev_cases) (auto simp: prod_eq_iff)
  note G = gap_repD [OF g]
  let ?y = "word_of_nat (Suc (page_sum as'))"
  obtain T up down h' where b: "absorb_unit (d, h) ?y
      = Inr ((d\<lparr>md_tree := T, md_up := up, md_down := down\<rparr>, h'), word_of_nat m)"
    "gap_rep (d\<lparr>md_tree := T, md_up := up, md_down := down\<rparr>) h' as' (m + n) bs (remove1 ?y xs)"
    using gap_prev [OF g [unfolded a]] by blast
  have "unat (?y :: u16) = Suc (page_sum as')" by (rule unat_of_nat_small) (use G(3,4) a in simp)
  moreover have "find_prev_medium_unit d x = Inr ?y" "unit_free d ?y = Inr True"
    using find_prev_gap [OF g x] unit_free_prev [OF g] a by simp_all
  moreover have "last_free as = m" "drop_last_free as = as'"
    using a by (simp_all add: last_free_def drop_last_free_def)
  moreover have "(if as \<noteq> [] \<and> \<not> snd (last as) then remove1 (word_of_nat (Suc (page_sum (butlast as)))) xs
      else xs) = remove1 ?y xs"
    using a by simp
  ultimately show ?thesis using b
    by (intro exI [of _ ?y] exI [of _ True] exI [of _ T] exI [of _ up]
        exI [of _ down] exI [of _ h'] exI [of _ ?y]) (simp only: if_True bind_r.simps prod.case simp_thms add.commute of_nat_add)
qed

lemma medium_repD:
  assumes "medium_rep (d, h) es xs"
  shows "proper es" "page_sum es = 255" "unit_bits d (heads (\<lambda>_. True) 1 es)" "length (md_type d) = 4"
    "\<And>i. i < 256 \<Longrightarrow> bm_bit (md_type d) i \<longleftrightarrow> i \<in> heads (\<lambda>u. u) 1 es" "rb_rep (md_tree d) h xs"
    "free_nodes h (set xs) (frees 1 es)" "unat (md_free_size d) = free_sum es"
  using assms unfolding medium_rep_def by simp_all

lemma open_gap:
  assumes m: "medium_rep (d, h) (as @ (n, True) # bs) xs" and x: "unat x = Suc (page_sum as)"
  shows "\<exists>up down. get_medium_unit d x = Inr True
    \<and> clear_medium_unit d x = Inr (d\<lparr>md_up := up, md_down := down\<rparr>)
    \<and> bitmap_clear (md_type d) (ucast x) = Inr (bm_put (md_type d) (unat x) False)
    \<and> gap_rep (d\<lparr>md_up := up, md_down := down, md_type := bm_put (md_type d) (unat x) False\<rparr>) h as n bs xs"
proof -
  note M = medium_repD [OF m]
  let ?p = "Suc (page_sum as)"
  let ?H = "\<lambda>Q. heads Q 1 as \<union> heads Q (?p + n) bs"
  have pr: "proper as" "proper bs" "0 < n" and sum: "page_sum as + n + page_sum bs = 255" using M(1,2) by simp_all
  have lt: "unat x < 256" using x sum pr(3) by simp
  have h: "heads Q 1 (as @ (n, True) # bs) = ?H Q \<union> (if Q True then {?p} else {})" for Q by auto
  have nH: "?p \<notin> ?H Q" for Q
    using heads_below [OF pr(1), of ?p Q] heads_above [OF pr(2), of ?p Q "?p + n"] pr(3) by auto
  have ub: "unit_bits d (insert ?p (?H (\<lambda>_. True)))" using M(3) unfolding h by simp
  have xin: "unat x \<in> insert ?p (?H (\<lambda>_. True))" using x by simp
  obtain up down where c: "clear_medium_unit d x = Inr (d\<lparr>md_up := up, md_down := down\<rparr>)"
    "unit_bits (d\<lparr>md_up := up, md_down := down\<rparr>) (insert ?p (?H (\<lambda>_. True)) - {unat x})"
    using clear_medium_unit_ok [OF ub lt xin] by blast
  have "unit_bits (d\<lparr>md_up := up, md_down := down, md_type := bm_put (md_type d) (unat x) False\<rparr>) (?H (\<lambda>_. True))"
  proof -
    have "insert ?p (?H (\<lambda>_. True)) - {unat x} = ?H (\<lambda>_. True)" using nH [of "\<lambda>_. True"] x by auto
    then show ?thesis using c(2) unfolding unit_bits_def by simp
  qed
  moreover have "bm_bit (bm_put (md_type d) (unat x) False) i \<longleftrightarrow> i \<in> ?H (\<lambda>u. u)" if "i < 256" for i
  proof -
    have "bm_bit (md_type d) i \<longleftrightarrow> i \<in> ?H (\<lambda>u. u) \<union> {?p}" using M(5) [OF that] unfolding h by simp
    moreover have "bm_bit (bm_put (md_type d) (unat x) False) i \<longleftrightarrow> i \<noteq> unat x \<and> bm_bit (md_type d) i"
      using bm_bit_put [of "unat x" "md_type d" i False] M(4) lt that by simp
    ultimately show ?thesis using nH [of "\<lambda>u. u"] x by auto
  qed
  ultimately have "gap_rep (d\<lparr>md_up := up, md_down := down, md_type := bm_put (md_type d) (unat x) False\<rparr>) h as n bs xs"
    using M(4,6,7) pr sum by (simp add: gap_rep_def)
  moreover have "get_medium_unit d x = Inr True" using get_medium_unit_ok [OF ub lt] x by simp
  moreover have "bitmap_clear (md_type d) (ucast x) = Inr (bm_put (md_type d) (unat x) False)"
    using lt M(4) by (simp add: ucast_u16_u32)
  ultimately show ?thesis using c(1) by blast
qed

lemma next_unit_gap:
  assumes g: "gap_rep d h as n bs xs" and x: "unat x = Suc (page_sum as)"
  shows "find_next_medium_unit d x = Inr (word_of_nat (Suc (page_sum as) + n))"
    and "word_of_nat (Suc (page_sum as) + n) - x = word_of_nat n"
proof -
  let ?p = "Suc (page_sum as)"
  note G = gap_repD [OF g]
  have lt: "unat x < 256" using x G(3,4) by simp
  show "find_next_medium_unit d x = Inr (word_of_nat (?p + n))"
  proof (rule find_next_ok [OF G(5) lt])
    fix i assume i: "unat x \<le> i" "i < ?p + n"
    then show "i \<notin> heads (\<lambda>_. True) 1 as \<union> heads (\<lambda>_. True) (?p + n) bs"
      using heads_below [OF G(1), of i] heads_above [OF G(2), of i] x by fastforce
  next
    assume "?p + n < 256"
    then have "bs \<noteq> []" using G(4) by auto
    then show "?p + n \<in> heads (\<lambda>_. True) 1 as \<union> heads (\<lambda>_. True) (?p + n) bs" by (cases bs) auto
  qed (use x G(4) in simp_all)
  have "x = word_of_nat ?p" using x by (metis word_of_nat_unat)
  then show "word_of_nat (?p + n) - x = word_of_nat n" by simp
qed

lemma frees_drop:
  "frees 1 (drop_last_free as) \<subseteq> frees 1 (as @ (n, True) # bs)"
  "frees (Suc (page_sum (drop_last_free as)) + (last_free as + (n + hd_free bs))) (drop_hd_free bs)
    \<subseteq> frees 1 (as @ (n, True) # bs)"
proof -
  have "page_sum (drop_last_free as) + last_free as = page_sum as" using last_free_sum [of as] by simp
  then have e: "Suc (page_sum (drop_last_free as)) + (last_free as + (n + hd_free bs)) = 1 + page_sum as + n + hd_free bs" by simp
  show "frees 1 (drop_last_free as) \<subseteq> frees 1 (as @ (n, True) # bs)"
    by (cases as rule: rev_cases) (auto simp: drop_last_free_def)
  show "frees (Suc (page_sum (drop_last_free as)) + (last_free as + (n + hd_free bs))) (drop_hd_free bs)
    \<subseteq> frees 1 (as @ (n, True) # bs)"
    unfolding e by (cases bs) (auto simp: hd_free_def drop_hd_free_def)
qed

lemma release_unit_ok:
  assumes m: "medium_rep (d, h) (as @ (n, True) # bs) xs" and x: "unat x = Suc (page_sum as)"
  shows "\<exists>d' h' xs' index isize. release_unit (d, h) x = Inr ((d', h'), index, isize)
    \<and> unat index = Suc (page_sum (drop_last_free as)) \<and> unat isize = last_free as + n + hd_free bs
    \<and> medium_rep (d', h') (free_extent as n bs) xs'
    \<and> ((\<forall>(q, m) \<in> frees 1 (as @ (n, True) # bs). m \<noteq> last_free as + n + hd_free bs) \<longrightarrow> xs' = free_order as n bs xs) \<and> md_max_size d' = md_max_size d"
proof -
  note M = medium_repD [OF m]
  obtain up down where o: "get_medium_unit d x = Inr True"
    "clear_medium_unit d x = Inr (d\<lparr>md_up := up, md_down := down\<rparr>)"
    "bitmap_clear (md_type d) (ucast x) = Inr (bm_put (md_type d) (unat x) False)"
    and g0: "gap_rep (d\<lparr>md_up := up, md_down := down, md_type := bm_put (md_type d) (unat x) False\<rparr>) h as n bs xs"
    using open_gap [OF m x] by blast
  define d1 where "d1 = d\<lparr>md_up := up, md_down := down, md_type := bm_put (md_type d) (unat x) False\<rparr>"
  have g1: "gap_rep d1 h as n bs xs" using g0 by (simp add: d1_def)
  have k1: "md_max_size d1 = md_max_size d" "md_free_size d1 = md_free_size d" by (simp_all add: d1_def)
  let ?nx = "word_of_nat (Suc (page_sum as) + n) :: u16"
  note nx = next_unit_gap [OF g1 x] unit_free_next [OF g1]
  define xs2 where "xs2 = (if bs \<noteq> [] \<and> \<not> snd (hd bs) then remove1 (word_of_nat (Suc (page_sum as) + n)) xs else xs)"
  obtain T2 up2 down2 h2 where a2: "(if bs \<noteq> [] \<and> \<not> snd (hd bs)
      then bind_r (absorb_unit (d1, h) ?nx) (\<lambda>((d, h), size). Inr ((d, h), word_of_nat n + size))
      else Inr ((d1, h), word_of_nat n))
      = Inr ((d1\<lparr>md_tree := T2, md_up := up2, md_down := down2\<rparr>, h2), word_of_nat (n + hd_free bs))"
    "gap_rep (d1\<lparr>md_tree := T2, md_up := up2, md_down := down2\<rparr>) h2 as (n + hd_free bs) (drop_hd_free bs) xs2"
    using absorb_next [OF g1] unfolding xs2_def by blast
  define d2 where "d2 = d1\<lparr>md_tree := T2, md_up := up2, md_down := down2\<rparr>"
  note a2' = a2 [folded d2_def]
  have k2: "md_max_size d2 = md_max_size d" "md_free_size d2 = md_free_size d" using k1 by (simp_all add: d2_def)
  define xs3 where "xs3 = (if as \<noteq> [] \<and> \<not> snd (last as) then remove1 (word_of_nat (Suc (page_sum (butlast as)))) xs2 else xs2)"
  obtain prev b T3 up3 down3 h3 index where a3: "find_prev_medium_unit d2 x = Inr prev" "unit_free d2 prev = Inr b"
    "(if b then bind_r (absorb_unit (d2, h2) prev) (\<lambda>((d, h), size). Inr ((d, h), prev, word_of_nat (n + hd_free bs) + size))
       else Inr ((d2, h2), x, word_of_nat (n + hd_free bs)))
      = Inr ((d2\<lparr>md_tree := T3, md_up := up3, md_down := down3\<rparr>, h3), index,
             word_of_nat (last_free as + (n + hd_free bs)))"
    "unat index = Suc (page_sum (drop_last_free as))"
    "gap_rep (d2\<lparr>md_tree := T3, md_up := up3, md_down := down3\<rparr>) h3 (drop_last_free as)
       (last_free as + (n + hd_free bs)) (drop_hd_free bs) xs3"
    using absorb_prev [OF a2'(2) x] unfolding xs3_def by blast
  define d3 where "d3 = d2\<lparr>md_tree := T3, md_up := up3, md_down := down3\<rparr>"
  note a3' = a3 [folded d3_def]
  have k3: "md_max_size d3 = md_max_size d" "md_free_size d3 = md_free_size d" using k2 by (simp_all add: d3_def)
  let ?sz = "word_of_nat (last_free as + (n + hd_free bs)) :: u16"
  have sz: "unat ?sz = last_free as + (n + hd_free bs)"
    by (rule unat_of_nat_small) (use gap_repD(4) [OF a3'(5)] in simp)
  have fs: "unat (md_free_size d3 + word_of_nat n) = free_sum (free_extent as n bs)"
  proof -
    have "free_sum (free_extent as n bs) \<le> 255"
      using free_sum_le [of "free_extent as n bs"] sums_free(1) [of as n bs] M(2) by simp
    then have le: "free_sum (as @ (n, True) # bs) + n \<le> 255" unfolding sums_free(2) .
    have un: "unat (word_of_nat n :: u16) = n" by (rule unat_of_nat_small) (use le in simp)
    show ?thesis unfolding sums_free(2) k3 using le M(8) un by (simp add: unat_word_ariths)
  qed
  have fs': "unat (md_free_size d3 + word_of_nat n)
      = free_sum (drop_last_free as @ (last_free as + (n + hd_free bs), False) # drop_hd_free bs)"
    using fs by (simp add: free_extent_def add.assoc)
  obtain T4 up4 down4 h4 xs4 where a4: "add_free_unit (d3, h3) index ?sz
      = Inr (d3\<lparr>md_tree := T4, md_up := up4, md_down := down4\<rparr>, h4)"
    "medium_rep (d3\<lparr>md_tree := T4, md_up := up4, md_down := down4, md_free_size := md_free_size d3 + word_of_nat n\<rparr>, h4)
       (drop_last_free as @ (last_free as + (n + hd_free bs), False) # drop_hd_free bs) xs4"
    "(\<forall>(q, m) \<in> frees 1 (drop_last_free as)
        \<union> frees (Suc (page_sum (drop_last_free as)) + (last_free as + (n + hd_free bs))) (drop_hd_free bs).
        m \<noteq> last_free as + (n + hd_free bs)) \<longrightarrow> xs4 = index # xs3"
    using gap_close [OF a3'(5) sz a3'(4), of "md_free_size d3 + word_of_nat n"] fs' by blast
  have "release_unit (d, h) x = Inr ((d3\<lparr>md_tree := T4, md_up := up4, md_down := down4,
      md_free_size := md_free_size d3 + word_of_nat n\<rparr>, h4), index, ?sz)"
  proof -
    have re: "release_unit (d, h) x = merge_unit (d1, h) x"
      using o by (simp add: release_unit_def d1_def)
    define bn where "bn \<longleftrightarrow> bs \<noteq> [] \<and> \<not> snd (hd bs)"
    define y where "y = ?nx"
    define n1 n2 n3 where "n1 = (word_of_nat n :: u16)" and "n2 = (word_of_nat (n + hd_free bs) :: u16)"
      and "n3 = (word_of_nat (last_free as + (n + hd_free bs)) :: u16)"
    note f = bn_def [symmetric] y_def [symmetric] n1_def [symmetric] n2_def [symmetric] n3_def [symmetric]
    show ?thesis
      using o nx [unfolded f] a2'(1) [unfolded f] a3'(1-3) [unfolded f] a4(1) [unfolded f]
      unfolding re f merge_unit_def Let_def by (cases bn; cases b; simp)
  qed
  moreover have "index = word_of_nat (Suc (page_sum (drop_last_free as)))" using a3'(4) by (metis word_of_nat_unat)
  then have "index # xs3 = free_order as n bs xs" by (simp add: free_order_def xs3_def xs2_def)
  then have "(\<forall>(q, m) \<in> frees 1 (as @ (n, True) # bs). m \<noteq> last_free as + n + hd_free bs) \<longrightarrow> xs4 = free_order as n bs xs"
    using a4(3) frees_drop [of as n bs] by (auto simp: add.assoc)
  ultimately show ?thesis using a4(2) a3'(4) sz k3
    by (intro exI [of _ "d3\<lparr>md_tree := T4, md_up := up4, md_down := down4,
      md_free_size := md_free_size d3 + word_of_nat n\<rparr>"] exI [of _ h4] exI [of _ xs4] exI [of _ index] exI [of _ ?sz])
      (simp add: free_extent_def add.assoc del: of_nat_add of_nat_Suc)
qed

section \<open>Taking an extent\<close>

text \<open>As the comparison with the search key is never negative, the search ends at the first node.\<close>

lemma lower_loop_left:
  assumes "tlinked h par t" and "\<forall>a \<in> set (inord t). \<not> cmp (rb_v (h a)) val < 0" and "theight t < fuel"
  shows "lower_loop fuel cmp h (root_ptr t) val p b
    = Inr (if inord t = [] then if b then p else None else first (inord t))"
  using assms
proof (induction t arbitrary: par fuel p b)
  case Lf
  then obtain k where "fuel = Suc k" by (cases fuel) auto
  then show ?case by simp
next
  case (Br c l a r)
  obtain k where k: "fuel = Suc k" "theight l < k" using Br.prems(3) by (cases fuel) auto
  have "lower_loop k cmp h (root_ptr l) val (Some a) True
      = Inr (if inord l = [] then if True then Some a else None else first (inord l))"
    by (rule Br.IH(1) [of a]) (use Br.prems k in auto)
  then show ?case using Br.prems k by (simp add: rb_get_def first_append)
qed

lemma medium_lower:
  assumes "rb_rep T h xs"
  shows "rbtree_lower medium_tree_compare T h \<lparr>mv_size = sz, mv_index = 0\<rparr> = Inr (first xs)"
proof -
  obtain t where t: "linked T h t" "rbt t" "inord t = xs" "length (inord t) < 2 ^ 31"
    using assms by (rule rb_repE)
  have tl: "tlinked h 0 t" and root: "rb_root T = root_ptr t" using t(1) by (simp_all add: cfg_def)
  have ht: "theight t < rb_fuel" using rbt_height [OF t(2,4)] by (simp add: rb_fuel_def)
  have "\<not> medium_tree_compare v \<lparr>mv_size = sz, mv_index = 0\<rparr> < 0" for v
    by (simp add: medium_tree_compare_def Let_def not_less)
  then show ?thesis
    using lower_loop_left [OF tl _ ht, of medium_tree_compare "\<lparr>mv_size = sz, mv_index = 0\<rparr>" None False]
    unfolding rbtree_lower_def root t(3) by (cases xs) simp_all
qed

lemma split_unit:
  assumes m: "medium_rep (d, h) (as @ (n, False) # bs) xs" and x: "unat x = Suc (page_sum as)" "x \<in> set xs"
    and v: "mv_index (rb_v (h x)) = x" "unat (mv_size (rb_v (h x))) = n" and k: "0 < unat sz" "unat sz \<le> n"
  defines "p \<equiv> Suc (page_sum as)" and "k \<equiv> unat sz"
  shows "\<exists>T up down h' xs'. (if mv_size (rb_v (h x)) > sz
      then let next_index = mv_index (rb_v (h x)) + sz; next_size = mv_size (rb_v (h x)) - sz
           in assert_r (unat next_index + unat next_size \<le> 256) (add_free_unit (d, h) next_index next_size)
      else Inr (d, h)) = Inr (d\<lparr>md_tree := T, md_up := up, md_down := down\<rparr>, h')
    \<and> unit_bits (d\<lparr>md_tree := T, md_up := up, md_down := down\<rparr>)
        (heads (\<lambda>_. True) 1 (as @ (n, False) # bs) \<union> (if k < n then {p + k} else {}))
    \<and> rb_rep T h' xs' \<and> set xs' = set xs \<union> (if k < n then {x + sz} else {})
    \<and> ((\<forall>(q, m) \<in> frees 1 (as @ (n, False) # bs). m \<noteq> n - k) \<longrightarrow> xs' = take_order n sz x xs)
    \<and> free_nodes h' (set xs') (frees 1 (as @ (n, False) # bs) \<union> (if k < n then {(p + k, n - k)} else {}))
    \<and> rb_v (h' x) = rb_v (h x)"
proof (cases "k < n")
  case False
  then have "\<not> mv_size (rb_v (h x)) > sz" using v(2) by (simp add: k_def word_less_nat_alt)
  then show ?thesis using False medium_repD [OF m]
    by (intro exI [of _ "md_tree d"] exI [of _ "md_up d"] exI [of _ "md_down d"] exI [of _ h] exI [of _ xs]) (simp add: take_order_def k_def)
next
  case True
  note M = medium_repD [OF m]
  let ?es = "as @ (n, False) # bs" and ?y = "x + sz" and ?z = "mv_size (rb_v (h x)) - sz"
  have pr: "proper as" "proper bs" and sum: "page_sum as + n + page_sum bs = 255" using M(1,2) by simp_all
  have gt: "mv_size (rb_v (h x)) > sz" using v(2) True by (simp add: k_def word_less_nat_alt)
  have z: "unat ?z = n - k" using gt v(2) by (subst unat_sub) (simp_all add: k_def less_imp_le)
  have lt: "p + k < 256" using True sum by (simp add: p_def k_def)
  have y: "unat ?y = p + k" using lt x(1) by (simp add: unat_word_ariths p_def k_def)
  have ny: "p + k \<notin> heads (\<lambda>_. True) 1 ?es"
  proof
    assume "p + k \<in> heads (\<lambda>_. True) 1 ?es"
    then consider "p + k \<in> heads (\<lambda>_. True) 1 as" | "p + k = p" | "p + k \<in> heads (\<lambda>_. True) (p + n) bs"
      by (auto simp: p_def)
    then show False
      using heads_below [OF pr(1)] heads_above [OF pr(2)] assms(6) True by cases (fastforce simp: p_def k_def)+
  qed
  have yx: "?y \<notin> set xs"
  proof
    assume "?y \<in> set xs"
    then have "(p + k, unat (mv_size (rb_v (h ?y)))) \<in> frees 1 ?es"
      using free_nodesD(1) [OF M(7)] y by metis
    then show False using frees_heads ny by blast
  qed
  have y0: "?y \<noteq> 0" using y by (auto simp: p_def)
  have a1: "unat ?y < 256" "unat ?y \<notin> heads (\<lambda>_. True) 1 ?es" using y lt ny by simp_all
  obtain T up down h' xs' where
    a: "add_free_unit (d, h) ?y ?z = Inr (d\<lparr>md_tree := T, md_up := up, md_down := down\<rparr>, h')"
    "unit_bits (d\<lparr>md_tree := T, md_up := up, md_down := down\<rparr>) (insert (unat ?y) (heads (\<lambda>_. True) 1 ?es))"
    "rb_rep T h' xs'" "mset xs' = add_mset ?y (mset xs)"
    "(\<forall>w \<in> set xs. mv_size (rb_v (h w)) \<noteq> ?z) \<longrightarrow> xs' = ?y # xs"
    "\<forall>w. rb_v (h' w) = (if w = ?y then \<lparr>mv_size = ?z, mv_index = ?y\<rparr> else rb_v (h w))"
    using add_free_unit_ok [OF M(6) y0 yx a1 M(3), of ?z] by blast
  have sx: "set xs' = insert ?y (set xs)" using a(4) by (metis set_mset_add_mset_insert set_mset_mset)
  have "\<forall>w \<in> set xs. mv_size (rb_v (h w)) \<noteq> ?z" if "\<forall>(q, m) \<in> frees 1 ?es. m \<noteq> n - k"
    using free_nodes_sizes [OF M(7), of ?z] that z by auto
  then have fr: "(\<forall>(q, m) \<in> frees 1 ?es. m \<noteq> n - k) \<longrightarrow> xs' = ?y # xs" using a(5) by blast
  have tx: "take_order n sz x xs = ?y # xs" using True by (simp add: take_order_def k_def)
  have "free_nodes h' (insert ?y (set xs)) (insert (unat ?y, unat ?z) (frees 1 ?es))"
    by (rule free_nodes_insert [OF M(7) yx]) (use a(6) in auto)
  moreover have "rb_v (h' x) = rb_v (h x)" using a(6) yx x(2) by auto
  moreover have "unat ?y + unat ?z \<le> 256" using y z True sum by (simp add: p_def)
  ultimately show ?thesis using a(1-3) gt True y z sx fr tx v(1)
    by (intro exI [of _ T] exI [of _ up] exI [of _ down] exI [of _ h'] exI [of _ xs']) (simp add: Let_def)
qed

text \<open>The heads of the extents and the free extents after \<open>k\<close> pages of a free extent were taken.\<close>

lemma heads_take:
  assumes "k \<le> n"
  shows "heads Q 1 (take_extent as n k bs) = heads Q 1 as \<union> (if Q True then {Suc (page_sum as)} else {})
    \<union> (if k < n \<and> Q False then {Suc (page_sum as) + k} else {}) \<union> heads Q (Suc (page_sum as) + n) bs"
  using assms by (auto simp: take_extent_def)

lemma free_nodes_take:
  assumes pr: "proper as" "proper bs" "0 < n" and x: "unat x = Suc (page_sum as)" and k: "0 < k" "k \<le> n"
    and f: "free_nodes h A (frees 1 (as @ (n, False) # bs) \<union> (if k < n then {(Suc (page_sum as) + k, n - k)} else {}))"
    and xA: "x \<in> A" "unat (mv_size (rb_v (h x))) = n" and vv: "\<And>y. rb_v (h' y) = rb_v (h y)"
  shows "free_nodes h' (A - {x}) (frees 1 (take_extent as n k bs))"
proof -
  let ?p = "Suc (page_sum as)" and ?es = "take_extent as n k bs"
  let ?RN = "if k < n then {(?p + k, n - k)} else {}"
  have fe: "frees 1 ?es = frees 1 as \<union> ?RN \<union> frees (?p + n) bs" using k by (auto simp: take_extent_def)
  have nH: "?p \<notin> heads Q 1 as" "?p \<notin> heads Q (?p + n) bs" for Q
    using heads_below [OF pr(1), of ?p Q] heads_above [OF pr(2), of ?p Q "?p + n"] pr(3) by auto
  have "(?p, m) \<notin> frees 1 as" "(?p, m) \<notin> frees (?p + n) bs" "(?p, m) \<notin> ?RN" for m
    using frees_heads nH k(1) by (blast, blast, simp)
  then have nm: "(unat x, m) \<notin> frees 1 ?es" for m unfolding fe x by blast
  have eq: "frees 1 (as @ (n, False) # bs) \<union> ?RN = insert (unat x, unat (mv_size (rb_v (h x)))) (frees 1 ?es)"
    unfolding fe xA(2) x by auto
  show ?thesis by (rule free_nodes_remove [OF f xA(1) vv nm eq])
qed

lemma take_unit_ok:
  assumes m: "medium_rep (d, h) es (x # xs)" and k: "0 < unat sz" "unat sz \<le> unat (mv_size (rb_v (h x)))"
  defines "n \<equiv> unat (mv_size (rb_v (h x)))"
  shows "\<exists>as bs d' h' xs'. es = as @ (n, False) # bs \<and> unat x = Suc (page_sum as)
    \<and> take_unit (d, h) sz = Inr ((d', h'), x) \<and> medium_rep (d', h') (take_extent as n (unat sz) bs) xs'
    \<and> ((\<forall>(q, m) \<in> frees 1 es. m \<noteq> n - unat sz) \<longrightarrow> xs' = take_order n sz x xs)
    \<and> rb_v (h' x) = rb_v (h x) \<and> rb_s (h' x) = x \<and> md_max_size d' = md_max_size d \<and> x \<notin> set xs'"
proof -
  note M = medium_repD [OF m]
  let ?k = "unat sz"
  have v: "(unat x, n) \<in> frees 1 es" "mv_index (rb_v (h x)) = x"
    using free_nodesD [OF M(7), of x] by (simp_all add: n_def)
  obtain as bs where es: "es = as @ (n, False) # bs" and x: "unat x = Suc (page_sum as)"
    using frees_split [OF v(1)] by auto
  let ?p = "Suc (page_sum as)"
  have pr: "proper as" "proper bs" "0 < n" and sum: "page_sum as + n + page_sum bs = 255" using M(1,2) es by simp_all
  have kn: "?k \<le> n" using k(2) by (simp add: n_def)
  let ?R = "if ?k < n then {?p + ?k} else {}" and ?RN = "if ?k < n then {(?p + ?k, n - ?k)} else {}"
  have vn: "unat (mv_size (rb_v (h x))) = n" by (simp add: n_def)
  have xin: "x \<in> set (x # xs)" by simp
  obtain T up down h1 xs1 where s: "(if mv_size (rb_v (h x)) > sz
      then let next_index = mv_index (rb_v (h x)) + sz; next_size = mv_size (rb_v (h x)) - sz
           in assert_r (unat next_index + unat next_size \<le> 256) (add_free_unit (d, h) next_index next_size)
      else Inr (d, h)) = Inr (d\<lparr>md_tree := T, md_up := up, md_down := down\<rparr>, h1)"
    "unit_bits (d\<lparr>md_tree := T, md_up := up, md_down := down\<rparr>) (heads (\<lambda>_. True) 1 es \<union> ?R)"
    "rb_rep T h1 xs1" "set xs1 = set (x # xs) \<union> (if ?k < n then {x + sz} else {})"
    "(\<forall>(q, m) \<in> frees 1 es. m \<noteq> n - ?k) \<longrightarrow> xs1 = take_order n sz x (x # xs)"
    "free_nodes h1 (set xs1) (frees 1 es \<union> ?RN)" "rb_v (h1 x) = rb_v (h x)"
    using split_unit [OF m [unfolded es] x xin v(2) vn k(1) kn] unfolding es by blast
  have x1: "x \<in> set xs1" using s(4) by simp
  have "sz \<noteq> 0" using k(1) by auto
  then have rx: "(\<forall>(q, m) \<in> frees 1 es. m \<noteq> n - ?k) \<longrightarrow> remove1 x xs1 = take_order n sz x xs"
    using s(5) by (auto simp: take_order_def)
  obtain T' h' where r: "rbtree_delete T h1 x = Inr (T', h')" "rb_rep T' h' (remove1 x xs1)"
    "rb_same (insert 0 (set xs1)) h1 h'" using delete_rep [OF s(3) x1] by blast
  have x0: "x \<noteq> 0" and hs: "rb_s (h x) = x" "rb_s (h1 x) = x"
    using rb_rep_node [OF M(6), of x] rb_rep_node [OF s(3) x1] by simp_all
  have hx: "rb_v (h' x) = rb_v (h x)" "rb_s (h' x) = x"
    using r(3) s(7) hs(2) x0 by (simp_all add: rb_same_def)
  have lt: "unat x < 256" using x sum pr(3) by simp
  let ?d = "d\<lparr>md_tree := T', md_up := up, md_down := down, md_type := bm_put (md_type d) (unat x) True,
    md_free_size := md_free_size d - sz\<rparr>"
  let ?es = "take_extent as n ?k bs"
  have take: "take_unit (d, h) sz = Inr ((?d, h'), x)"
  proof -
    have low: "rbtree_lower medium_tree_compare (md_tree d) h \<lparr>mv_size = sz, mv_index = 0\<rparr> = Inr (Some x)"
      using medium_lower [OF M(6)] by simp
    have ge: "mv_size (rb_v (h x)) \<ge> sz" using k(2) by (simp add: word_le_nat_alt)
    have bs: "bitmap_set (md_type d) (ucast x) = Inr (bm_put (md_type d) (unat x) True)"
      using lt M(4) by (simp add: ucast_u16_u32)
    show ?thesis unfolding take_unit_def prod.case low
      using ge v(2) hs(1) s(1) r(1) hx(2) bs by (simp only: bind_r.simps option.case assert_r_simps conj_absorb simp_thms) simp
  qed
  have heads_es: "heads Q 1 es = heads Q 1 as \<union> (if Q False then {?p} else {}) \<union> heads Q (?p + n) bs" for Q
    unfolding es by auto
  have "heads (\<lambda>_. True) 1 es \<union> ?R = heads (\<lambda>_. True) 1 ?es" unfolding heads_es heads_take [OF kn] by auto
  then have "unit_bits ?d (heads (\<lambda>_. True) 1 ?es)" using s(2) by (simp add: unit_bits_def)
  moreover have "bm_bit (md_type ?d) i \<longleftrightarrow> i \<in> heads (\<lambda>u. u) 1 ?es" if "i < 256" for i
    using bm_bit_put [of "unat x" "md_type d" i True] M(4) M(5) [OF that] lt that x
    unfolding heads_es heads_take [OF kn] by auto
  moreover have "free_nodes h' (set (remove1 x xs1)) (frees 1 ?es)"
  proof -
    have "rb_v (h' y) = rb_v (h1 y)" for y using r(3) by (simp add: rb_same_def)
    moreover have "unat (mv_size (rb_v (h1 x))) = n" using s(7) vn by simp
    ultimately show ?thesis
      using free_nodes_take [OF pr x k(1) kn s(6) [unfolded es] x1] rb_rep_distinct [OF s(3)] by simp
  qed
  moreover have "proper ?es" "page_sum ?es = 255" using pr kn k(1) sum by (auto simp: take_extent_def)
  moreover have "unat (md_free_size d - sz) = free_sum ?es"
  proof -
    have f: "unat (md_free_size d) = free_sum as + n + free_sum bs" using M(8) es by simp
    then have "sz \<le> md_free_size d" using kn by (simp add: word_le_nat_alt)
    then show ?thesis using f kn by (auto simp: unat_sub take_extent_def)
  qed
  ultimately have "medium_rep (?d, h') ?es (remove1 x xs1)"
    using M(4) r(2) by (simp add: medium_rep_def)
  then show ?thesis using take es x hx rx rb_rep_distinct [OF s(3)]
    by (intro exI [of _ as] exI [of _ bs] exI [of _ ?d] exI [of _ h'] exI [of _ "remove1 x xs1"]) simp
qed

text \<open>Otherwise the assertion on its size fails, as it does when there is no free extent.\<close>

lemma take_unit_abort:
  assumes "medium_rep (d, h) es xs" and "\<And>x ys. xs = x # ys \<Longrightarrow> mv_size (rb_v (h x)) < sz"
  shows "take_unit (d, h) sz = Inl AssertFail"
proof -
  note low = medium_lower [OF medium_repD(6) [OF assms(1)]]
  show ?thesis
  proof (cases xs)
    case (Cons x ys)
    then have "\<not> sz \<le> mv_size (rb_v (h x))" using assms(2) by (simp add: not_le)
    then show ?thesis using low [of sz] Cons by (simp add: take_unit_def)
  qed (use low in \<open>simp add: take_unit_def\<close>)
qed

end
