(* ===== verification/ChunkMedium_Inv.thy ===== *)
theory ChunkMedium_Inv
  imports ChunkMedium
begin

text \<open>
  The medium chunks of the shared state: every chunk of the pool \<open>P False\<close> is a list of
  extents, and the pool knows it by the size recorded in the chunk. The operations of
  \<open>src/chunk_medium.c\<close> split and merge extents as the list operations of ChunkMedium do.
\<close>

section \<open>The invariant of the medium chunks\<close>

definition medium_ok :: "shm_state \<Rightarrow> u64 \<Rightarrow> extent list \<Rightarrow> u16 list \<Rightarrow> bool" where
  "medium_ok s c es xs \<longleftrightarrow> ch_type (chunks s c) = CHUNK_TYPE_MEDIUM \<and> ch_pos (chunks s c) = c
     \<and> chunk_aligned c \<and> medium_rep (medium_of s c) es xs \<and> coalesced es
     \<and> md_max_size (ch_medium (chunks s c)) \<le> 255
     \<and> cv_maxsize (rb_v (chunk_nodes s c)) = get_medium_max_size s c"

definition medium_inv ::
  "shm_state \<Rightarrow> (bool \<Rightarrow> u64 list) \<Rightarrow> (u64 \<Rightarrow> extent list) \<Rightarrow> (u64 \<Rightarrow> u16 list) \<Rightarrow> bool" where
  "medium_inv s P E X \<longleftrightarrow> cpools s P \<and> (\<forall>c \<in> set (P False). medium_ok s c (E c) (X c))"

text \<open>What the operations on a medium chunk leave alone.\<close>

definition medium_frame :: "shm_state \<Rightarrow> shm_state \<Rightarrow> u64 \<Rightarrow> bool" where
  "medium_frame s s' c \<longleftrightarrow> sc_arenas s' = sc_arenas s \<and> (\<forall>q. q \<noteq> c \<longrightarrow> chunks s' q = chunks s q)
     \<and> ch_small (chunks s' c) = ch_small (chunks s c) \<and> runs s' = runs s \<and> run_nodes s' = run_nodes s
     \<and> sc_run_pool s' = sc_run_pool s
     \<and> (\<forall>q. q \<noteq> c \<longrightarrow> rb_v (chunk_nodes s' q) = rb_v (chunk_nodes s q))
     \<and> (\<forall>q. cv_index (rb_v (chunk_nodes s' q)) = cv_index (rb_v (chunk_nodes s q)))"

lemma medium_frame_trans: "medium_frame s s' c \<Longrightarrow> medium_frame s' s'' c \<Longrightarrow> medium_frame s s'' c"
  by (simp add: medium_frame_def)

lemma medium_frame_put: "medium_frame s (put_medium s c dh) c"
  by (simp add: medium_frame_def put_medium_def)

lemma medium_of_put [simp]: "medium_of (put_medium s c dh) c = dh"
  by (simp add: medium_of_def put_medium_def)

lemma put_medium_sel [simp]:
  "ch_type (chunks (put_medium s c dh) c) = ch_type (chunks s c)"
  "ch_pos (chunks (put_medium s c dh) c) = ch_pos (chunks s c)"
  "ch_medium (chunks (put_medium s c dh) c) = fst dh"
  "chunk_nodes (put_medium s c dh) = chunk_nodes s"
  by (simp_all add: put_medium_def)

lemma cpools_put_medium [simp]: "cpools (put_medium s c dh) P = cpools s P"
  by (rule cpools_cong) (simp_all add: put_medium_def)

lemma medium_ok_other:
  assumes "medium_frame s s' c" and "e \<noteq> c"
  shows "medium_ok s' e es xs = medium_ok s e es xs"
  using assms by (simp add: medium_ok_def medium_frame_def medium_of_def get_medium_max_size_def)

text \<open>A step that changed one chunk keeps the invariant of the others.\<close>

lemma medium_inv_step:
  assumes "medium_inv s P E X" and "cpools s' (P(False := ys))" "mset ys = mset (P False)"
    and "medium_frame s s' c" and "medium_ok s' c es xs"
  shows "medium_inv s' (P(False := ys)) (E(c := es)) (X(c := xs))"
  using assms mset_eq_setD [OF assms(3)] medium_ok_other [OF assms(4)] unfolding medium_inv_def by simp

lemma medium_bytes:
  fixes z :: u16
  assumes "z \<le> 255"
  shows "(ucast z :: u32) * SHM_PAGE_SIZE < 2 ^ 31" "unat ((ucast z :: u32) * SHM_PAGE_SIZE) = unat z * SHM_PAGE_SIZE"
proof -
  have z: "unat z \<le> 255" using assms by (simp add: word_le_nat_alt)
  then show *: "unat ((ucast z :: u32) * SHM_PAGE_SIZE) = unat z * SHM_PAGE_SIZE"
    by (simp add: unat_word_ariths ucast_u16_u32)
  then show "(ucast z :: u32) * SHM_PAGE_SIZE < 2 ^ 31" using z by (simp add: word_less_nat_alt)
qed

text \<open>The size the chunk is known by is set to \<open>sz\<close>, or, for \<open>sz = 0\<close>, to the size of
  the last extent in the order of the tree.\<close>

definition new_max :: "page_heap \<Rightarrow> u16 list \<Rightarrow> u16 \<Rightarrow> u16" where
  "new_max h xs sz = (if sz \<noteq> 0 then sz else if xs = [] then 0 else mv_size (rb_v (h (last xs))))"

lemma check_max_ok:
  assumes P: "cpools s P" and c: "c \<in> set (P False)" and ty: "ch_type (chunks s c) = CHUNK_TYPE_MEDIUM"
    and dh: "medium_of s c = (d, h)" and r: "rb_rep (md_tree d) h xs" and mx: "new_max h xs sz \<le> 255"
  shows "\<exists>s' ys. check_chunk_medium_max s c sz = Inr s' \<and> cpools s' (P(False := ys)) \<and> mset ys = mset (P False)
    \<and> medium_of s' c = (d\<lparr>md_max_size := new_max h xs sz\<rparr>, h) \<and> medium_frame s s' c
    \<and> ch_type (chunks s' c) = ch_type (chunks s c) \<and> ch_pos (chunks s' c) = ch_pos (chunks s c)
    \<and> (cv_maxsize (rb_v (chunk_nodes s c)) = get_medium_max_size s c \<longrightarrow>
       cv_maxsize (rb_v (chunk_nodes s' c)) = get_medium_max_size s' c)"
proof -
  let ?z = "new_max h xs sz"
  have d: "ch_medium (chunks s c) = d" using dh by (simp add: medium_of_def)
  have z: "(if sz = 0 then bind_r (rbtree_max (md_tree d) h) (\<lambda>n.
      Inr (case n of None \<Rightarrow> 0 | Some n \<Rightarrow> mv_size (rb_v (h n)))) else Inr sz) = Inr ?z"
    using max_rep [OF r] by (cases xs rule: rev_cases) (auto simp: new_max_def)
  show ?thesis
  proof (cases "md_max_size d = ?z")
    case True
    then have "check_chunk_medium_max s c sz = Inr s"
      unfolding check_chunk_medium_max_def dh Let_def prod.case z by simp
    then show ?thesis using True P dh
      by (intro exI [of _ s] exI [of _ "P False"]) (simp add: medium_frame_def)
  next
    case False
    let ?m = "ucast ?z * 4096 :: u32"
    have c': "c \<in> set (P (ch_type (chunks s c) = CHUNK_TYPE_SMALL))" using c ty by simp
    obtain s1 ys where u: "update_chunk_pool s c ?m = Inr s1" "cpools s1 (P(False := ys))"
      "mset ys = mset (P False)" "chunks s1 = chunks s" "runs s1 = runs s" "run_nodes s1 = run_nodes s"
      "sc_run_pool s1 = sc_run_pool s" "sc_arenas s1 = sc_arenas s"
      "cv_maxsize (rb_v (chunk_nodes s1 c)) = ?m"
      "\<forall>q. q \<noteq> c \<longrightarrow> rb_v (chunk_nodes s1 q) = rb_v (chunk_nodes s q)"
      "\<forall>q. cv_index (rb_v (chunk_nodes s1 q)) = cv_index (rb_v (chunk_nodes s q))"
      using update_pool [OF P c' medium_bytes(1) [OF mx]] ty by auto
    let ?s = "put_medium s1 c (d\<lparr>md_max_size := ?z\<rparr>, h)"
    have "check_chunk_medium_max s c sz = Inr ?s"
      unfolding check_chunk_medium_max_def dh Let_def prod.case z using False u(1) by simp
    moreover have "medium_frame s ?s c" using u by (simp add: medium_frame_def put_medium_def)
    ultimately show ?thesis using u
      by (intro exI [of _ ?s] exI [of _ ys]) (simp add: get_medium_max_size_def)
  qed
qed

section \<open>The operations on the invariant\<close>

lemma medium_rep_max: "medium_rep (d\<lparr>md_max_size := z\<rparr>, h) es xs = medium_rep (d, h) es xs"
  by (simp add: medium_rep_def unit_bits_def)

lemma medium_rep_clear:
  assumes "medium_rep (d, h) es xs" and "x \<notin> set xs"
  shows "medium_rep (d, clear_page_node h x) es xs"
proof -
  note M = medium_repD [OF assms(1)]
  have "rb_rep (md_tree d) (clear_page_node h x) xs"
    by (rule rb_rep_cong [OF M(6)]) (use assms(2) in \<open>auto simp: clear_page_node_def\<close>)
  moreover have "free_nodes (clear_page_node h x) (set xs) (frees 1 es)"
  proof -
    have "(\<lambda>y. (unat y, unat (mv_size (rb_v (clear_page_node h x y))))) ` set xs
        = (\<lambda>y. (unat y, unat (mv_size (rb_v (h y))))) ` set xs"
      using assms(2) by (intro image_cong) (auto simp: clear_page_node_def)
    then show ?thesis using M(7) assms(2) by (auto simp: free_nodes_def clear_page_node_def)
  qed
  ultimately show ?thesis using M by (simp add: medium_rep_def)
qed

text \<open>The sizes of the nodes are those of extents of the chunk.\<close>

lemma node_size:
  assumes "medium_rep (d, h) es xs" and "x \<in> set xs"
  shows "0 < unat (mv_size (rb_v (h x)))" "mv_size (rb_v (h x)) \<le> 255"
proof -
  note M = medium_repD [OF assms(1)]
  have f: "(unat x, unat (mv_size (rb_v (h x)))) \<in> frees 1 es" using free_nodesD [OF M(7) assms(2)] by simp
  from frees_range [OF M(1) f] M(2)
  have "0 < unat (mv_size (rb_v (h x)))" "unat (mv_size (rb_v (h x))) \<le> 255" by simp_all
  then show "0 < unat (mv_size (rb_v (h x)))" "mv_size (rb_v (h x)) \<le> 255" by (simp_all add: word_le_nat_alt)
qed

lemma new_max_ok:
  assumes "medium_rep (d, h) es xs" and "sz \<le> 255"
  shows "new_max h xs sz \<le> 255"
  using assms(2) node_size(2) [OF assms(1), of "last xs"] by (auto simp: new_max_def)

text \<open>The pages a length asks for.\<close>

definition pages_for :: "nat \<Rightarrow> nat" where
  "pages_for len = (len + (SHM_PAGE_SIZE - 1)) div SHM_PAGE_SIZE"

lemma pages_for_size:
  assumes "len \<noteq> 0" and "unat len \<le> 255 * SHM_PAGE_SIZE"
  shows "unat (ucast (align_size len SHM_PAGE_SIZE div SHM_PAGE_SIZE) :: u16) = pages_for (unat len)"
    "0 < pages_for (unat len)" "pages_for (unat len) \<le> 255" "unat len \<le> pages_for (unat len) * SHM_PAGE_SIZE"
proof -
  let ?k = "pages_for (unat len)"
  have l0: "0 < unat len" using assms(1) by (simp add: unat_gt_0)
  have k: "?k \<le> 255" "0 < ?k" "unat len \<le> ?k * 4096" using assms(2) l0 unfolding pages_for_def by simp_all
  have "unat (align_size len 4096) = 4096 * ?k"
    using align_size_nat [of 4096 len] assms(2) by (simp add: pages_for_def)
  then have "unat (align_size len 4096 div 4096) = ?k" by (simp add: unat_div)
  then show "unat (ucast (align_size len 4096 div 4096) :: u16) = ?k"
    using k(1) by (simp add: unsigned_ucast_eq take_bit_nat_eq_self)
  show "0 < ?k" "?k \<le> 255" "unat len \<le> ?k * 4096" using k by simp_all
qed

lemma check_max_if:
  assumes P: "cpools s P" and c: "c \<in> set (P False)" and ty: "ch_type (chunks s c) = CHUNK_TYPE_MEDIUM"
    and dh: "medium_of s c = (d, h)" and m: "medium_rep (d, h) es xs" and z: "sz \<le> 255" "md_max_size d \<le> 255"
    and cv: "cv_maxsize (rb_v (chunk_nodes s c)) = get_medium_max_size s c"
  shows "\<exists>s' ys. (if b then check_chunk_medium_max s c sz else Inr s) = Inr s'
    \<and> cpools s' (P(False := ys)) \<and> mset ys = mset (P False)
    \<and> medium_of s' c = (d\<lparr>md_max_size := if b then new_max h xs sz else md_max_size d\<rparr>, h)
    \<and> (if b then new_max h xs sz else md_max_size d) \<le> 255 \<and> medium_frame s s' c
    \<and> ch_type (chunks s' c) = ch_type (chunks s c) \<and> ch_pos (chunks s' c) = ch_pos (chunks s c)
    \<and> cv_maxsize (rb_v (chunk_nodes s' c)) = get_medium_max_size s' c"
proof (cases b)
  case True
  then show ?thesis
    using check_max_ok [OF P c ty dh medium_repD(6) [OF m] new_max_ok [OF m z(1)]] new_max_ok [OF m z(1)] cv
    by (simp only: if_True) blast
next
  case False
  then show ?thesis using P dh z(2) cv
    by (intro exI [of _ s] exI [of _ "P False"]) (simp add: medium_frame_def)
qed

lemma malloc_medium_inv:
  assumes inv: "medium_inv s P E X" and c: "c \<in> set (P False)" and X: "X c = x # xs"
    and len: "len \<noteq> 0" "unat len \<le> 255 * SHM_PAGE_SIZE"
    and fit: "pages_for (unat len) \<le> n" and n: "n = unat (mv_size (rb_v (ch_pages (chunks s c) x)))"
  shows "\<exists>as bs s' ys zs. E c = as @ (n, False) # bs
    \<and> malloc_chunk_medium s c len = Inr (s', page c (Suc (page_sum as))) \<and> mset ys = mset (P False)
    \<and> medium_inv s' (P(False := ys)) (E(c := take_extent as n (pages_for (unat len)) bs)) (X(c := zs))
    \<and> medium_frame s s' c
    \<and> ((\<forall>(q, m) \<in> frees 1 (E c). m \<noteq> n - pages_for (unat len)) \<longrightarrow>
        zs = take_order n (word_of_nat (pages_for (unat len))) x xs)
    \<and> unat x = Suc (page_sum as)"
proof -
  have ok: "medium_ok s c (E c) (x # xs)" and P: "cpools s P" using inv c X by (auto simp: medium_inv_def)
  obtain d h where dh: "medium_of s c = (d, h)" by (cases "medium_of s c")
  have d: "ch_medium (chunks s c) = d" "ch_pages (chunks s c) = h" using dh by (simp_all add: medium_of_def)
  have o: "ch_type (chunks s c) = CHUNK_TYPE_MEDIUM" "ch_pos (chunks s c) = c" "chunk_aligned c"
    "medium_rep (d, h) (E c) (x # xs)" "coalesced (E c)" "md_max_size d \<le> 255"
    "cv_maxsize (rb_v (chunk_nodes s c)) = get_medium_max_size s c"
    using ok d dh by (simp_all add: medium_ok_def)
  let ?sz = "ucast (align_size len 4096 div 4096) :: u16" and ?k = "pages_for (unat len)"
  note sz = pages_for_size [OF len]
  have k: "0 < unat ?sz" "unat ?sz \<le> unat (mv_size (rb_v (h x)))" using sz(1,2) fit n d by simp_all
  have nn: "unat (mv_size (rb_v (h x))) = n" using n d by simp
  obtain as bs d' h' xs' where t: "E c = as @ (n, False) # bs" "unat x = Suc (page_sum as)"
    "take_unit (d, h) ?sz = Inr ((d', h'), x)" "medium_rep (d', h') (take_extent as n ?k bs) xs'"
    "rb_v (h' x) = rb_v (h x)" "rb_s (h' x) = x" "md_max_size d' = md_max_size d" "x \<notin> set xs'"
    "(\<forall>(q, m) \<in> frees 1 (E c). m \<noteq> n - ?k) \<longrightarrow> xs' = take_order n ?sz x xs"
    using take_unit_ok [OF o(4) k] unfolding nn sz(1) by blast
  have w: "?sz = word_of_nat ?k" by (simp only: sz(1) [symmetric] of_nat_unat ucast_id)
  define s1 where "s1 = put_medium s c (d', h')"
  have s1: "cpools s1 P" "ch_type (chunks s1 c) = CHUNK_TYPE_MEDIUM" "medium_of s1 c = (d', h')"
    "cv_maxsize (rb_v (chunk_nodes s1 c)) = get_medium_max_size s1 c" "ch_pos (chunks s1 c) = c"
    "md_max_size d' \<le> 255" "medium_frame s s1 c"
    using P o t(7) d by (simp_all add: s1_def get_medium_max_size_def medium_frame_put)
  define b where "b \<longleftrightarrow> md_max_size d' \<le> mv_size (rb_v (h' x))"
  have "(0 :: u16) \<le> 255" by simp
  then obtain s2 ys where s2: "(if b then check_chunk_medium_max s1 c 0 else Inr s1) = Inr s2"
    "cpools s2 (P(False := ys))" "mset ys = mset (P False)"
    "medium_of s2 c = (d'\<lparr>md_max_size := if b then new_max h' xs' 0 else md_max_size d'\<rparr>, h')"
    "(if b then new_max h' xs' 0 else md_max_size d') \<le> 255" "medium_frame s1 s2 c"
    "ch_type (chunks s2 c) = CHUNK_TYPE_MEDIUM" "ch_pos (chunks s2 c) = c"
    "cv_maxsize (rb_v (chunk_nodes s2 c)) = get_medium_max_size s2 c"
    using check_max_if [OF s1(1) c s1(2,3) t(4) _ s1(6,4)] s1(2,5) by metis
  define d2 where "d2 = d'\<lparr>md_max_size := if b then new_max h' xs' 0 else md_max_size d'\<rparr>"
  define s3 where "s3 = put_medium s2 c (d2, clear_page_node h' x)"
  have d2: "medium_of s2 c = (d2, h')" "md_max_size d2 \<le> 255" using s2(4,5) by (simp_all add: d2_def)
  have "medium_rep (d2, h') (take_extent as n ?k bs) xs'" using t(4) by (simp add: d2_def medium_rep_max)
  then have "medium_rep (d2, clear_page_node h' x) (take_extent as n ?k bs) xs'"
    using medium_rep_clear t(8) by blast
  moreover have "get_medium_max_size s3 c = get_medium_max_size s2 c"
    using d2(1) by (simp add: s3_def get_medium_max_size_def medium_of_def)
  ultimately have ok3: "medium_ok s3 c (take_extent as n ?k bs) xs'"
    using s2(7-9) o(3) d2(2) coalesced_take [of as n bs ?k] o(5) t(1)
    by (simp add: medium_ok_def s3_def)
  have fr: "medium_frame s s3 c"
    using medium_frame_trans [OF medium_frame_trans [OF s1(7) s2(6)] medium_frame_put] by (simp add: s3_def)
  have P3: "cpools s3 (P(False := ys))" using s2(2) by (simp add: s3_def)
  have px: "c + ucast x * 4096 = page c (Suc (page_sum as))"
  proof -
    have "(ucast x :: u64) = word_of_nat (unat x)"
      using unat_less_u16 [of x] by (simp add: word_unat_eq_iff unat_of_nat_small unsigned_ucast_eq take_bit_nat_eq_self)
    then show ?thesis using t(2) by (simp add: page_def)
  qed
  have "malloc_chunk_medium s c len = Inr (s3, page c (Suc (page_sum as)))"
    unfolding malloc_chunk_medium_def Let_def dh t(3)
    using o(1,2) s1(5) t(6) px s2(1) d2(1)
    by (cases b) (simp_all add: s1_def [symmetric] b_def [symmetric] s3_def)
  then show ?thesis using medium_inv_step [OF inv P3 s2(3) fr ok3] t(1,2) s2(3) fr t(9) [unfolded w]
    by (intro exI [of _ as] exI [of _ bs] exI [of _ s3] exI [of _ ys] exI [of _ xs']) simp
qed

lemma malloc_medium_abort:
  assumes inv: "medium_inv s P E X" and c: "c \<in> set (P False)"
    and len: "len \<noteq> 0" "unat len \<le> 255 * SHM_PAGE_SIZE"
    and no: "\<And>x xs. X c = x # xs \<Longrightarrow> unat (mv_size (rb_v (ch_pages (chunks s c) x))) < pages_for (unat len)"
  shows "malloc_chunk_medium s c len = Inl AssertFail"
proof -
  have ok: "medium_ok s c (E c) (X c)" using inv c by (auto simp: medium_inv_def)
  obtain d h where dh: "medium_of s c = (d, h)" by (cases "medium_of s c")
  have d: "ch_pages (chunks s c) = h" using dh by (simp add: medium_of_def)
  have "medium_rep (d, h) (E c) (X c)" using ok dh by (simp add: medium_ok_def)
  then have "take_unit (d, h) (ucast (align_size len 4096 div 4096)) = Inl AssertFail"
    by (rule take_unit_abort) (use no d pages_for_size(1) [OF len] in \<open>simp add: word_less_nat_alt\<close>)
  then show ?thesis using ok by (simp add: malloc_chunk_medium_def Let_def dh medium_ok_def)
qed

lemma page_word16:
  assumes "i < 256"
  shows "ucast ((word_of_nat (i * SHM_PAGE_SIZE) :: u32) div SHM_PAGE_SIZE) = (word_of_nat i :: u16)"
    "(word_of_nat (i * SHM_PAGE_SIZE) :: u32) mod SHM_PAGE_SIZE = 0"
    "\<not> (256 :: u16) \<le> word_of_nat i" "unat (word_of_nat i :: u16) = i"
proof -
  have u: "unat (word_of_nat (i * 4096) :: u32) = i * 4096" using assms by (intro unat_of_nat_small) simp
  have "(word_of_nat (i * 4096) :: u32) div 4096 = word_of_nat i"
    using assms u by (simp add: word_unat_eq_iff unat_div unat_of_nat_small del: of_nat_mult)
  then show "ucast ((word_of_nat (i * 4096) :: u32) div 4096) = (word_of_nat i :: u16)"
    using assms by (simp add: ucast_of_nat16)
  have "unat ((word_of_nat (i * 4096) :: u32) mod 4096) = 0" using u by (simp add: unat_mod del: of_nat_mult)
  then show "(word_of_nat (i * 4096) :: u32) mod 4096 = 0" by (simp only: unat_eq_zero)
  show v: "unat (word_of_nat i :: u16) = i" using assms by (intro unat_of_nat_small) simp
  show "\<not> (256 :: u16) \<le> word_of_nat i" using v assms by (simp add: word_le_nat_alt)
qed

lemma free_medium_inv:
  assumes inv: "medium_inv s P E X" and c: "c \<in> set (P False)" and e: "E c = as @ (n, True) # bs"
  shows "\<exists>s' ys zs b. free_chunk_medium s c (word_of_nat (Suc (page_sum as) * SHM_PAGE_SIZE)) = Inr (s', b)
    \<and> mset ys = mset (P False)
    \<and> medium_inv s' (P(False := ys)) (E(c := free_extent as n bs)) (X(c := zs))
    \<and> (b \<longleftrightarrow> free_extent as n bs = [(255, False)]) \<and> medium_frame s s' c
    \<and> ((\<forall>(q, m) \<in> frees 1 (E c). m \<noteq> last_free as + n + hd_free bs) \<longrightarrow> zs = free_order as n bs (X c))"
proof -
  have ok: "medium_ok s c (E c) (X c)" and P: "cpools s P" using inv c by (auto simp: medium_inv_def)
  obtain d h where dh: "medium_of s c = (d, h)" by (cases "medium_of s c")
  have d: "ch_medium (chunks s c) = d" "ch_pages (chunks s c) = h" using dh by (simp_all add: medium_of_def)
  have o: "ch_type (chunks s c) = CHUNK_TYPE_MEDIUM" "ch_pos (chunks s c) = c" "chunk_aligned c"
    "medium_rep (d, h) (as @ (n, True) # bs) (X c)" "coalesced (as @ (n, True) # bs)" "md_max_size d \<le> 255"
    "cv_maxsize (rb_v (chunk_nodes s c)) = get_medium_max_size s c"
    using ok d dh e by (simp_all add: medium_ok_def)
  note M = medium_repD [OF o(4)]
  let ?p = "Suc (page_sum as)" and ?es = "free_extent as n bs"
  have lt: "?p < 256" using M(1,2) by simp
  note w = page_word16 [OF lt]
  have bt: "bitmap_get (md_type d) (ucast (word_of_nat ?p :: u16)) = Inr True"
    using M(4) M(5) [OF lt] lt w(4) bitmap_get_ok [of "ucast (word_of_nat ?p :: u16)" "md_type d"]
    by (simp add: ucast_u16_u32 del: of_nat_Suc)
  obtain d' h' xs' index isize where r: "release_unit (d, h) (word_of_nat ?p) = Inr ((d', h'), index, isize)"
    "unat isize = last_free as + n + hd_free bs" "medium_rep (d', h') ?es xs'" "md_max_size d' = md_max_size d"
    "(\<forall>(q, m) \<in> frees 1 (E c). m \<noteq> last_free as + n + hd_free bs) \<longrightarrow> xs' = free_order as n bs (X c)"
    using release_unit_ok [OF o(4) w(4)] unfolding e by blast
  have pe: "proper ?es" and se: "page_sum ?es = 255" using medium_repD(1,2) [OF r(3)] .
  have i255: "isize \<le> 255" using se r(2) by (simp add: free_extent_def word_le_nat_alt)
  define s1 where "s1 = put_medium s c (d', h')"
  have s1: "cpools s1 P" "ch_type (chunks s1 c) = CHUNK_TYPE_MEDIUM" "medium_of s1 c = (d', h')"
    "cv_maxsize (rb_v (chunk_nodes s1 c)) = get_medium_max_size s1 c" "ch_pos (chunks s1 c) = c"
    "md_max_size d' \<le> 255" "medium_frame s s1 c"
    using P o r(4) d by (simp_all add: s1_def get_medium_max_size_def medium_frame_put)
  define b where "b \<longleftrightarrow> md_max_size d' \<le> isize"
  obtain s2 ys where s2: "(if b then check_chunk_medium_max s1 c isize else Inr s1) = Inr s2"
    "cpools s2 (P(False := ys))" "mset ys = mset (P False)"
    "medium_of s2 c = (d'\<lparr>md_max_size := if b then new_max h' xs' isize else md_max_size d'\<rparr>, h')"
    "(if b then new_max h' xs' isize else md_max_size d') \<le> 255" "medium_frame s1 s2 c"
    "ch_type (chunks s2 c) = CHUNK_TYPE_MEDIUM" "ch_pos (chunks s2 c) = c"
    "cv_maxsize (rb_v (chunk_nodes s2 c)) = get_medium_max_size s2 c"
    using check_max_if [OF s1(1) c s1(2,3) r(3) i255 s1(6,4)] s1(2,5) by metis
  define d2 where "d2 = d'\<lparr>md_max_size := if b then new_max h' xs' isize else md_max_size d'\<rparr>"
  have d2: "medium_of s2 c = (d2, h')" "md_max_size d2 \<le> 255" using s2(4,5) by (simp_all add: d2_def)
  have rep: "medium_rep (d2, h') ?es xs'" using r(3) by (simp add: d2_def medium_rep_max)
  have ok2: "medium_ok s2 c ?es xs'"
    using s2(7-9) o(3) d2 coalesced_free [OF o(5)] rep by (simp add: medium_ok_def medium_of_def)
  have fr: "medium_frame s s2 c" using medium_frame_trans [OF s1(7) s2(6)] .
  have md2: "ch_medium (chunks s2 c) = d2" using d2(1) by (simp add: medium_of_def)
  have eq: "free_chunk_medium s c (word_of_nat (?p * 4096)) = Inr (s2, md_free_size d2 = 255)"
    unfolding free_chunk_medium_def Let_def w(1,2) dh r(1) d(1) bt
    using o(1) w(3) s2(1) md2
    by (cases b) (simp_all add: s1_def [symmetric] b_def [symmetric] del: of_nat_Suc of_nat_mult)
  have ne: "?es \<noteq> []" by (simp add: free_extent_def)
  have "md_free_size d2 = 255 \<longleftrightarrow> free_sum ?es = 255"
    using medium_repD(8) [OF rep] by (simp add: word_unat_eq_iff)
  also have "\<dots> \<longleftrightarrow> (\<exists>n. ?es = [(n, False)])"
    using all_free [OF coalesced_free [OF o(5)] pe ne] unfolding se .
  also have "\<dots> \<longleftrightarrow> ?es = [(255, False)]" using se by auto
  finally show ?thesis using medium_inv_step [OF inv s2(2,3) fr ok2] eq s2(3) fr r(5) by blast
qed

lemma high_page:
  assumes "unat offset < 2 ^ 28"
  shows "unat (ucast ((offset :: u32) div 4096) :: u16) = unat offset div 4096"
proof -
  have "unat offset div 4096 < 65536" using assms by simp
  then show ?thesis by (simp add: unsigned_ucast_eq unat_div take_bit_nat_eq_self)
qed

text \<open>Which offsets name a block in use.\<close>

lemma used_page:
  assumes inv: "medium_inv s P E X" and c: "c \<in> set (P False)" and o: "unat (offset :: u32) < 2 ^ 28"
  defines "i \<equiv> ucast (offset div SHM_PAGE_SIZE) :: u16" and "d \<equiv> ch_medium (chunks s c)"
  shows "unat offset mod SHM_PAGE_SIZE = 0 \<and> unat offset div SHM_PAGE_SIZE \<in> heads (\<lambda>u. u) 1 (E c)
    \<longleftrightarrow> \<not> ((256 :: u16) \<le> i \<or> offset mod SHM_PAGE_SIZE \<noteq> 0) \<and> bitmap_get (md_type d) (ucast i) = Inr True"
    and "\<not> (256 :: u16) \<le> i \<Longrightarrow> \<exists>b. bitmap_get (md_type d) (ucast i) = Inr b"
    and "\<not> (256 :: u16) \<le> i \<Longrightarrow> unat i \<in> heads (\<lambda>u. u) 1 (E c) \<Longrightarrow> get_medium_unit d i = Inr True
      \<and> find_next_medium_unit d i = Inr i"
proof -
  have ok: "medium_ok s c (E c) (X c)" using inv c by (auto simp: medium_inv_def)
  have "medium_rep (d, ch_pages (chunks s c)) (E c) (X c)"
    using ok by (simp add: medium_ok_def medium_of_def d_def)
  note M = medium_repD [OF this]
  have i: "unat i = unat offset div 4096" unfolding i_def by (rule high_page [OF o])
  have h: "\<not> (256 :: u16) \<le> i \<longleftrightarrow> unat i < 256" by (simp add: word_le_nat_alt not_le)
  have m: "offset mod 4096 = 0 \<longleftrightarrow> unat offset mod 4096 = 0" by (simp add: word_unat_eq_iff unat_mod)
  have g: "bitmap_get (md_type d) (ucast i) = Inr (unat i \<in> heads (\<lambda>u. u) 1 (E c))" if "unat i < 256"
    using that M(4,5) bitmap_get_ok [of "ucast i" "md_type d"] by (simp add: ucast_u16_u32)
  have r: "unat i \<in> heads (\<lambda>u. u) 1 (E c) \<Longrightarrow> unat i < 256" using heads_range [OF M(1)] M(2) by fastforce
  show "unat offset mod 4096 = 0 \<and> unat offset div 4096 \<in> heads (\<lambda>u. u) 1 (E c)
    \<longleftrightarrow> \<not> ((256 :: u16) \<le> i \<or> offset mod 4096 \<noteq> 0) \<and> bitmap_get (md_type d) (ucast i) = Inr True"
    using g r h m i by auto
  show "\<not> (256 :: u16) \<le> i \<Longrightarrow> \<exists>b. bitmap_get (md_type d) (ucast i) = Inr b" using g h by blast
  assume "\<not> (256 :: u16) \<le> i" and u: "unat i \<in> heads (\<lambda>u. u) 1 (E c)"
  then have lt: "unat i < 256" using h by blast
  have "find_next_medium_unit d i = Inr (word_of_nat (unat i))"
    by (rule find_next_ok [OF M(3) lt]) (use lt heads_mono [OF u] in simp_all)
  then show "get_medium_unit d i = Inr True \<and> find_next_medium_unit d i = Inr i"
    using get_medium_unit_ok [OF M(3) lt] heads_mono [OF u] by simp
qed

lemma free_medium_ignored:
  assumes inv: "medium_inv s P E X" and c: "c \<in> set (P False)" and o: "unat (offset :: u32) < 2 ^ 28"
    and n: "\<not> (unat offset mod SHM_PAGE_SIZE = 0 \<and> unat offset div SHM_PAGE_SIZE \<in> heads (\<lambda>u. u) 1 (E c))"
  shows "free_chunk_medium s c offset = Inr (s, False)"
proof -
  have ty: "ch_type (chunks s c) = CHUNK_TYPE_MEDIUM" using inv c by (simp add: medium_inv_def medium_ok_def)
  note U = used_page [OF inv c o]
  show ?thesis
  proof (cases "(256 :: u16) \<le> ucast (offset div 4096) \<or> offset mod 4096 \<noteq> 0")
    case False
    then show ?thesis using U(1,2) n ty by (auto simp: free_chunk_medium_def)
  qed (use ty in \<open>simp add: free_chunk_medium_def Let_def\<close>)
qed

lemma check_medium_zero:
  assumes inv: "medium_inv s P E X" and c: "c \<in> set (P False)" and o: "unat (offset :: u32) < 2 ^ 28"
  shows "check_chunk_medium s c offset = Inr 0"
proof -
  have ty: "ch_type (chunks s c) = CHUNK_TYPE_MEDIUM" using inv c by (simp add: medium_inv_def medium_ok_def)
  note U = used_page [OF inv c o]
  let ?i = "ucast (offset div 4096) :: u16" and ?d = "ch_medium (chunks s c)"
  show ?thesis
  proof (cases "256 \<le> ?i \<or> offset mod 4096 \<noteq> 0")
    case False
    then obtain b where b: "bitmap_get (md_type ?d) (ucast ?i) = Inr b" using U(2) by blast
    show ?thesis
    proof (cases b)
      case True
      then have "unat ?i \<in> heads (\<lambda>u. u) 1 (E c)" using U(1) b False high_page [OF o] by simp
      then show ?thesis using U(3) b True False ty by (simp add: check_chunk_medium_def)
    qed (use b False ty in \<open>simp add: check_chunk_medium_def\<close>)
  qed (use ty in \<open>simp add: check_chunk_medium_def Let_def\<close>)
qed

text \<open>A new chunk is one free extent.\<close>

lemma zero_bit: "i < 256 \<Longrightarrow> \<not> bm_bit (replicate 4 0) i"
  by (simp add: bm_bit_def)

lemma init_medium_rep:
  assumes z: "md_up d = replicate 4 0" "md_down d = replicate 4 0" "md_type d = replicate 4 0"
    and t: "md_tree d = rbtree_init" "md_free_size d = 255"
  shows "\<exists>d' h'. add_free_unit (d, h) 1 255 = Inr (d', h') \<and> medium_rep (d', h') [(255, False)] [1]
    \<and> md_max_size d' = md_max_size d"
proof -
  have l: "length (replicate 4 (0 :: u64)) = 4" by simp
  have u: "unit_bits d {}" unfolding unit_bits_def z
    by (intro conjI allI impI l; simp only: empty_iff zero_bit diff_le_self order_le_less_trans)
  then have g: "gap_rep d h [] 255 [] []"
    unfolding gap_rep_def z t using l zero_bit u rb_rep_init by (auto simp: free_nodes_def simp del: replicate.simps)
  obtain T up down h' xs where a: "add_free_unit (d, h) 1 255 = Inr (d\<lparr>md_tree := T, md_up := up, md_down := down\<rparr>, h')"
    "medium_rep (d\<lparr>md_tree := T, md_up := up, md_down := down, md_free_size := 255\<rparr>, h') [(255, False)] xs"
    using gap_close [OF g, of 255 1 255] by auto
  have eq: "d\<lparr>md_tree := T, md_up := up, md_down := down, md_free_size := 255\<rparr>
      = d\<lparr>md_tree := T, md_up := up, md_down := down\<rparr>" using t(2) by simp
  note m = a(2) [unfolded eq]
  note M = medium_repD [OF m]
  have "(\<lambda>x. (unat x, unat (mv_size (rb_v (h' x))))) ` set xs = {(1, 255)}"
    using M(7) by (simp add: free_nodes_def)
  then have "fst ` ((\<lambda>x. (unat x, unat (mv_size (rb_v (h' x))))) ` set xs) = {1}" by simp
  then have s: "unat ` set xs = {1}" by (simp add: image_image)
  have "x = 1" if "x \<in> set xs" for x
  proof -
    have "unat x \<in> {1}" using s that by blast
    then show ?thesis by (simp add: word_unat_eq_iff)
  qed
  moreover have "set xs \<noteq> {}" using s by auto
  moreover have "distinct xs" using rb_rep_distinct [OF M(6)] .
  ultimately have "xs = [1]"
    by (cases xs; cases "tl xs") auto
  then show ?thesis using a(1) m by auto
qed

end
