(* ===== verification/ShmChunk.thy ===== *)
theory ShmChunk
  imports ChunkSmall ChunkMedium_Inv
begin

text \<open>
  \<open>src/shm_chunk.c\<close>: a chunk of either kind is made, found in its pool, freed in and
  deleted. \<open>heap_inv\<close> joins the invariants of the small and of the medium chunks; every
  operation on a chunk of one kind keeps the chunks of the other kind as they are.
\<close>

section \<open>The operations\<close>

text \<open>The header after \<open>memset\<close>; the pages behind it keep what they hold.\<close>

definition zero_header :: "page_heap \<Rightarrow> chunk_header" where
  "zero_header pages = \<lparr>ch_type = CHUNK_TYPE_EMPTY, ch_pos = 0,
     ch_small = \<lparr>sd_used = 0, sd_bitmap = replicate 4 0\<rparr>,
     ch_medium = \<lparr>md_max_size = 0, md_free_size = 0, md_tree = \<lparr>rb_root = 0, rb_size = 0\<rparr>,
       md_type = replicate 4 0, md_up = replicate 4 0, md_down = replicate 4 0\<rparr>,
     ch_pages = pages\<rparr>"

definition zero_chunk_node :: "(u64, chunk_tree_value) rb_node" where
  "zero_chunk_node = \<lparr>rb_s = 0, rb_p = 0, rb_left = 0, rb_right = 0,
     rb_v = \<lparr>cv_index = 0, cv_maxsize = 0\<rparr>, rb_color = 0\<rparr>"

definition set_maxsize :: "shm_state \<Rightarrow> u64 \<Rightarrow> u32 \<Rightarrow> shm_state" where
  "set_maxsize s chunk m = s\<lparr>chunk_nodes := (chunk_nodes s)(chunk :=
     (chunk_nodes s chunk)\<lparr>rb_v := (rb_v (chunk_nodes s chunk))\<lparr>cv_maxsize := m\<rparr>\<rparr>)\<rparr>"

definition init_chunk :: "shm_state \<Rightarrow> u64 \<Rightarrow> u64 \<Rightarrow> u32 \<Rightarrow> shm_state res" where
  "init_chunk s chunk pos type =
     (let s = s\<lparr>chunks := (chunks s)(chunk :=
                  (zero_header (ch_pages (chunks s chunk)))\<lparr>ch_pos := pos, ch_type := type\<rparr>),
                chunk_nodes := (chunk_nodes s)(chunk :=
                  zero_chunk_node\<lparr>rb_s := pos, rb_v := \<lparr>cv_index = pos2index pos, cv_maxsize = 0\<rparr>\<rparr>)\<rparr>
      in if type = CHUNK_TYPE_SMALL
         then bind_r (init_chunk_small s chunk) (\<lambda>s.
              let s = set_maxsize s chunk 1
              in bind_r (rbtree_insert chunk_tree_compare (sc_small_pool s) (chunk_nodes s) chunk) (\<lambda>(T, h).
                 Inr (s\<lparr>sc_small_pool := T, chunk_nodes := h\<rparr>)))
         else bind_r (init_chunk_medium s chunk) (\<lambda>s.
              let s = set_maxsize s chunk (get_medium_max_size s chunk)
              in bind_r (rbtree_insert chunk_tree_compare (sc_medium_pool s) (chunk_nodes s) chunk) (\<lambda>(T, h).
                 Inr (s\<lparr>sc_medium_pool := T, chunk_nodes := h\<rparr>))))"

definition get_avaliable_chunk :: "shm_state \<Rightarrow> u32 \<Rightarrow> u64 \<Rightarrow> u64 option res" where
  "get_avaliable_chunk s type sz =
     (if type = CHUNK_TYPE_SMALL
      then rbtree_lower chunk_tree_compare (sc_small_pool s) (chunk_nodes s) \<lparr>cv_index = 0, cv_maxsize = 1\<rparr>
      else rbtree_lower chunk_tree_compare (sc_medium_pool s) (chunk_nodes s)
             \<lparr>cv_index = 0, cv_maxsize = ucast sz\<rparr>)"

definition delete_chunk :: "shm_state \<Rightarrow> u64 \<Rightarrow> shm_state res" where
  "delete_chunk s chunk =
     bind_r (if ch_type (chunks s chunk) = CHUNK_TYPE_SMALL
             then bind_r (rbtree_delete (sc_small_pool s) (chunk_nodes s) chunk) (\<lambda>(T, h).
                  Inr (s\<lparr>sc_small_pool := T, chunk_nodes := h\<rparr>))
             else bind_r (rbtree_delete (sc_medium_pool s) (chunk_nodes s) chunk) (\<lambda>(T, h).
                  Inr (s\<lparr>sc_medium_pool := T, chunk_nodes := h\<rparr>))) (\<lambda>s.
     Inr (s\<lparr>chunks := (chunks s)(chunk := (chunks s chunk)\<lparr>ch_type := CHUNK_TYPE_EMPTY\<rparr>)\<rparr>))"

definition free_chunk :: "nat \<Rightarrow> shm_state \<Rightarrow> u64 \<Rightarrow> u32 \<Rightarrow> (shm_state \<times> bool) res" where
  "free_chunk fuel s chunk offset =
     bind_r (if ch_type (chunks s chunk) = CHUNK_TYPE_SMALL then free_chunk_small fuel s chunk offset
             else if ch_type (chunks s chunk) = CHUNK_TYPE_MEDIUM then free_chunk_medium s chunk offset
             else Inr (s, False)) (\<lambda>(s, check).
     if check then bind_r (delete_chunk s chunk) (\<lambda>s. Inr (s, True)) else Inr (s, False))"

definition check_chunk :: "shm_state \<Rightarrow> u64 \<Rightarrow> u32 \<Rightarrow> u64 res" where
  "check_chunk s chunk offset =
     (if ch_type (chunks s chunk) = CHUNK_TYPE_SMALL then check_chunk_small s chunk offset
      else if ch_type (chunks s chunk) = CHUNK_TYPE_MEDIUM then check_chunk_medium s chunk offset
      else Inr 0)"

section \<open>Both kinds of chunks together\<close>

definition heap_inv :: "shm_state \<Rightarrow> (bool \<Rightarrow> u64 list) \<Rightarrow> (nat \<Rightarrow> u64 set) \<Rightarrow> (u64 \<Rightarrow> nat list)
    \<Rightarrow> (u64 \<Rightarrow> extent list) \<Rightarrow> (u64 \<Rightarrow> u16 list) \<Rightarrow> bool" where
  "heap_inv s P R F E X \<longleftrightarrow> small_inv s P R F \<and> medium_inv s P E X"

lemma small_keeps_medium:
  assumes "medium_inv s P E X" and "small_frame s s' c" "c \<in> set (P True)"
    and "cpools s' P'" "set (P' False) = set (P False)"
  shows "medium_inv s' P' E X"
proof -
  have "medium_ok s' e (E e) (X e)" if e: "e \<in> set (P False)" for e
  proof -
    have "cpools s P" using assms(1) by (simp add: medium_inv_def)
    then have "e \<noteq> c" using assms(3) e by (auto simp: cpools_def)
    moreover have "medium_ok s e (E e) (X e)" using assms(1) e by (simp add: medium_inv_def)
    ultimately show ?thesis using assms(2)
      by (simp add: medium_ok_def small_frame_def medium_of_def get_medium_max_size_def)
  qed
  then show ?thesis using assms(4,5) by (simp add: medium_inv_def)
qed

text \<open>A step that leaves the small chunks, their runs and the run pools alone.\<close>

lemma small_inv_keep:
  assumes "small_inv s P R F" and "cpools s' P'" "set (P' True) = set (P True)"
    and "\<And>q. q \<in> set (P True) \<Longrightarrow> chunks s' q = chunks s q \<and> rb_v (chunk_nodes s' q) = rb_v (chunk_nodes s q)"
    and "runs s' = runs s" "run_nodes s' = run_nodes s" "sc_run_pool s' = sc_run_pool s"
  shows "small_inv s' P' R F"
proof -
  note D = small_invD [OF assms(1)]
  have G: "run_pages s' (set (P True)) = run_pages s (set (P True))"
    by (rule run_pages_cong) (simp add: assms(4))
  have "small_ok s' q" if "q \<in> set (P True)" for q using D(2) [OF that] assms(4) [OF that] small_ok_cong by blast
  moreover have "run_ok s' x (F x)" if "x \<in> run_pages s (set (P True))" for x
    using D(5) [OF that] assms(5) by (simp add: run_ok_def)
  ultimately show ?thesis
    unfolding small_inv_def assms(3) G using assms(2,5-7) D(3,4,6) by simp
qed

lemma medium_keeps_small:
  assumes "small_inv s P R F" and "medium_frame s s' c" "c \<in> set (P False)"
    and "cpools s' P'" "set (P' True) = set (P True)"
  shows "small_inv s' P' R F"
proof (rule small_inv_keep [OF assms(1,4,5)])
  fix q assume q: "q \<in> set (P True)"
  have "cpools s P" using assms(1) by (simp add: small_inv_def)
  then have "q \<noteq> c" using assms(3) q by (auto simp: cpools_def)
  then show "chunks s' q = chunks s q \<and> rb_v (chunk_nodes s' q) = rb_v (chunk_nodes s q)"
    using assms(2) by (simp add: medium_frame_def)
qed (use assms(2) in \<open>simp_all add: medium_frame_def\<close>)

section \<open>Entering and leaving the pools\<close>

lemma cpools_frame:
  assumes "cpools s P" and "sc_small_pool s' = sc_small_pool s" "sc_medium_pool s' = sc_medium_pool s"
    and "\<And>q. q \<in> set (P True) \<union> set (P False) \<Longrightarrow> chunk_nodes s' q = chunk_nodes s q"
  shows "cpools s' P"
proof -
  have "rb_rep (cpool s' b) (chunk_nodes s') (P b) \<and> chunk_order.ordered (chunk_nodes s') (P b)" for b
  proof
    have eq: "chunk_nodes s' q = chunk_nodes s q" if "q \<in> set (P b)" for q
      using assms(4) that by (cases b) auto
    show "rb_rep (cpool s' b) (chunk_nodes s') (P b)"
      using rb_rep_cong [OF cpoolsD(1) [OF assms(1), of b]] eq assms(2,3) by (cases b) simp_all
    show "chunk_order.ordered (chunk_nodes s') (P b)"
      using cpoolsD(2) [OF assms(1), of b] eq by (simp add: chunk_order.ordered_def cong: map_cong)
  qed
  then show ?thesis using assms(1) by (simp add: cpools_def)
qed

definition set_pool :: "bool \<Rightarrow> u64 rb_tree \<Rightarrow> (u64, chunk_tree_value) rb_heap \<Rightarrow> shm_state \<Rightarrow> shm_state" where
  "set_pool b T h s = (if b then s\<lparr>sc_small_pool := T, chunk_nodes := h\<rparr> else s\<lparr>sc_medium_pool := T, chunk_nodes := h\<rparr>)"

lemma set_pool_sel [simp]:
  "chunks (set_pool b T h s) = chunks s" "runs (set_pool b T h s) = runs s"
  "run_nodes (set_pool b T h s) = run_nodes s" "sc_run_pool (set_pool b T h s) = sc_run_pool s"
  "sc_arenas (set_pool b T h s) = sc_arenas s" "chunk_nodes (set_pool b T h s) = h"
  by (simp_all add: set_pool_def)

lemma cpools_set_pool:
  assumes "cpools s P" and "rb_rep T h xs" "chunk_order.ordered h xs"
    and "\<And>q. q \<noteq> 0 \<Longrightarrow> q \<in> set (P (\<not> b)) \<Longrightarrow> h q = chunk_nodes s q" and "set xs \<inter> set (P (\<not> b)) = {}"
  shows "cpools (set_pool b T h s) (P(b := xs))"
proof -
  let ?t = "if b then CHUNK_TYPE_SMALL else CHUNK_TYPE_MEDIUM"
  have "cpools (set_pool b T h s) (P(b := xs)) = cpools (set_chunk_pool ?t T (s\<lparr>chunk_nodes := h\<rparr>)) (P(b := xs))"
    by (rule cpools_cong) (cases b; simp add: set_chunk_pool_def set_pool_def)+
  then show ?thesis using cpools_put [OF assms(1-3), of ?t] assms(4,5) by (cases b) simp_all
qed

lemma add_to_pool:
  assumes P: "cpools s P" and c: "c \<notin> set (P True)" "c \<notin> set (P False)" "c \<noteq> 0"
    and n: "rb_s (chunk_nodes s c) = c" "chunk_key_ok (rb_v (chunk_nodes s c))"
    and len: "Suc (length (P b)) < 2 ^ 31"
  shows "\<exists>T h xs. rbtree_insert chunk_tree_compare (cpool s b) (chunk_nodes s) c = Inr (T, h)
    \<and> cpools (set_pool b T h s) (P(b := xs)) \<and> mset xs = add_mset c (mset (P b))
    \<and> (\<forall>q. rb_v (h q) = rb_v (chunk_nodes s q))"
proof -
  have cb: "c \<notin> set (P b)" "c \<notin> set (P (\<not> b))" using c by (cases b; simp)+
  obtain T h xs where i: "rbtree_insert chunk_tree_compare (cpool s b) (chunk_nodes s) c = Inr (T, h)"
    "rb_rep T h xs" "chunk_order.ordered h xs" "mset xs = add_mset c (mset (P b))"
    "rb_same (insert c (set (P b))) (chunk_nodes s) h"
    using chunk_order.insert_ordered [OF cpoolsD(1) [OF P] len c(3) cb(1) n(1) cpoolsD(2) [OF P] n(2)] by blast
  have "set xs = insert c (set (P b))" using i(4) by (metis set_mset_add_mset_insert set_mset_mset)
  moreover have "h q = chunk_nodes s q" if "q \<in> set (P (\<not> b))" for q
    using i(5) that cb cpoolsD(3) [OF P, of b] by (auto simp: rb_same_def)
  ultimately have "cpools (set_pool b T h s) (P(b := xs))"
    using cpoolsD(3) [OF P, of b] cb by (intro cpools_set_pool [OF P i(2,3)]) auto
  then show ?thesis using i by (auto simp: rb_same_def)
qed

lemma remove_from_pool:
  assumes P: "cpools s P" and c: "c \<in> set (P b)"
  shows "\<exists>T h. rbtree_delete (cpool s b) (chunk_nodes s) c = Inr (T, h)
    \<and> cpools (set_pool b T h s) (P(b := remove1 c (P b))) \<and> (\<forall>q. rb_v (h q) = rb_v (chunk_nodes s q))"
proof -
  obtain T h where d: "rbtree_delete (cpool s b) (chunk_nodes s) c = Inr (T, h)" "rb_rep T h (remove1 c (P b))"
    "rb_same (insert 0 (set (P b))) (chunk_nodes s) h"
    using delete_rep [OF cpoolsD(1) [OF P] c] by blast
  have o: "chunk_order.ordered h (remove1 c (P b))"
    using chunk_order.ordered_remove1 [OF cpoolsD(2) [OF P]] chunk_order.ordered_same [OF d(3)] by blast
  have "h q = chunk_nodes s q" if "q \<noteq> 0" "q \<in> set (P (\<not> b))" for q
    using d(3) that cpoolsD(3) [OF P, of b] by (auto simp: rb_same_def)
  moreover have "set (remove1 c (P b)) \<inter> set (P (\<not> b)) = {}"
    using cpoolsD(3) [OF P, of b] set_remove1_subset [of c "P b"] by blast
  ultimately have "cpools (set_pool b T h s) (P(b := remove1 c (P b)))"
    by (intro cpools_set_pool [OF P d(2) o]) auto
  then show ?thesis using d by (auto simp: rb_same_def)
qed

section \<open>Making a chunk\<close>

text \<open>A new chunk joins the invariant.\<close>

lemma small_inv_new:
  assumes "small_inv s P R F" and "cpools s' P'" "set (P' True) = insert c (set (P True))"
    and "\<And>q. q \<in> set (P True) \<Longrightarrow> chunks s' q = chunks s q \<and> rb_v (chunk_nodes s' q) = rb_v (chunk_nodes s q)"
    and "runs s' = runs s" "run_nodes s' = run_nodes s" "sc_run_pool s' = sc_run_pool s"
    and "small_ok s' c" "run_pages s' {c} = {}"
  shows "small_inv s' P' R F"
proof -
  note D = small_invD [OF assms(1)]
  have "run_pages s' (insert c (set (P True))) = run_pages s' {c} \<union> run_pages s' (set (P True))"
    unfolding run_pages_def by blast
  also have "run_pages s' (set (P True)) = run_pages s (set (P True))"
    by (rule run_pages_cong) (simp add: assms(4))
  finally have G: "run_pages s' (insert c (set (P True))) = run_pages s (set (P True))" using assms(9) by simp
  have "small_ok s' q" if "q \<in> set (P True)" for q using D(2) [OF that] assms(4) [OF that] small_ok_cong by blast
  moreover have "run_ok s' x (F x)" if "x \<in> run_pages s (set (P True))" for x
    using D(5) [OF that] assms(5) by (simp add: run_ok_def)
  ultimately show ?thesis
    unfolding small_inv_def assms(3) G using assms(2,5-8) D(3,4,6) by simp
qed

lemma medium_inv_keep:
  assumes "medium_inv s P E X" and "cpools s' P'" "set (P' False) = insert c (set (P False)) \<or> set (P' False) = set (P False)"
    and "\<And>q. q \<in> set (P False) \<Longrightarrow> chunks s' q = chunks s q \<and> rb_v (chunk_nodes s' q) = rb_v (chunk_nodes s q)"
    and "c \<notin> set (P False)" "c \<in> set (P' False) \<Longrightarrow> medium_ok s' c es xs"
  shows "medium_inv s' P' (E(c := es)) (X(c := xs))"
proof -
  have "medium_ok s' q (E q) (X q)" if "q \<in> set (P False)" for q
    using assms(1) assms(4) [OF that] that
    by (simp add: medium_inv_def medium_ok_def medium_of_def get_medium_max_size_def)
  then show ?thesis using assms(2,3,5,6) by (auto simp: medium_inv_def)
qed

text \<open>The state in which the chunk's own initialisation starts.\<close>

definition fresh_chunk :: "shm_state \<Rightarrow> u64 \<Rightarrow> u32 \<Rightarrow> shm_state" where
  "fresh_chunk s c type = s\<lparr>chunks := (chunks s)(c :=
      (zero_header (ch_pages (chunks s c)))\<lparr>ch_pos := c, ch_type := type\<rparr>),
    chunk_nodes := (chunk_nodes s)(c :=
      zero_chunk_node\<lparr>rb_s := c, rb_v := \<lparr>cv_index = pos2index c, cv_maxsize = 0\<rparr>\<rparr>)\<rparr>"

lemma cpools_set_maxsize:
  assumes "cpools s P" and "c \<notin> set (P True)" "c \<notin> set (P False)"
  shows "cpools (set_maxsize s c m) P"
  by (rule cpools_frame [OF assms(1)]) (use assms(2,3) in \<open>auto simp: set_maxsize_def\<close>)

text \<open>What making or deleting the chunk \<open>c\<close> leaves alone.\<close>

definition chunk_frame :: "shm_state \<Rightarrow> shm_state \<Rightarrow> u64 \<Rightarrow> bool" where
  "chunk_frame s s' c \<longleftrightarrow> sc_arenas s' = sc_arenas s \<and> runs s' = runs s \<and> run_nodes s' = run_nodes s
     \<and> sc_run_pool s' = sc_run_pool s
     \<and> (\<forall>q. q \<noteq> c \<longrightarrow> chunks s' q = chunks s q \<and> rb_v (chunk_nodes s' q) = rb_v (chunk_nodes s q))"

lemma init_small_inv:
  assumes inv: "small_inv s P R F" and c: "chunk_aligned c" "c \<notin> set (P True)" "c \<notin> set (P False)"
    and ix: "pos2index c < 2 ^ 31" and len: "Suc (length (P True)) < 2 ^ 31"
  shows "\<exists>s' xs. init_chunk s c c CHUNK_TYPE_SMALL = Inr s' \<and> mset xs = add_mset c (mset (P True))
    \<and> small_inv s' (P(True := xs)) R F \<and> chunk_frame s s' c \<and> run_pages s' {c} = {}"
proof -
  note D = small_invD [OF inv]
  have c0: "c \<noteq> 0" using c(1) by (simp add: chunk_aligned_def)
  define s0 where "s0 = fresh_chunk s c CHUNK_TYPE_SMALL"
  define bm where "bm = bm_put (replicate 4 0) 0 True"
  define s2 where "s2 = set_maxsize (put_small s0 c \<lparr>sd_used = 1, sd_bitmap = bm\<rparr>) c 1"
  have lb: "length bm = 4" by (simp add: bm_def)
  have bits: "bm_bit bm i \<longleftrightarrow> i = 0" if "i < 256" for i
    using bm_bit_put [of 0 "replicate 4 0" i True] zero_bit [OF that] that by (simp add: bm_def)
  have i0: "init_chunk_small s0 c = Inr (put_small s0 c \<lparr>sd_used = 1, sd_bitmap = bm\<rparr>)"
    using bitmap_set_ok [of 0 "replicate 4 0"]
    by (simp add: init_chunk_small_def s0_def fresh_chunk_def zero_header_def Let_def bm_def)
  have P2: "cpools s2 P"
    by (rule cpools_frame [OF D(1)])
       (use c in \<open>auto simp: s2_def s0_def set_maxsize_def put_small_def fresh_chunk_def\<close>)
  have n2: "rb_s (chunk_nodes s2 c) = c" "rb_v (chunk_nodes s2 c) = \<lparr>cv_index = pos2index c, cv_maxsize = 1\<rparr>"
    by (simp_all add: s2_def s0_def set_maxsize_def put_small_def fresh_chunk_def)
  have k2: "chunk_key_ok (rb_v (chunk_nodes s2 c))" using ix by (simp add: n2 chunk_key_ok_def)
  obtain T h xs where i: "rbtree_insert chunk_tree_compare (cpool s2 True) (chunk_nodes s2) c = Inr (T, h)"
    "cpools (set_pool True T h s2) (P(True := xs))" "mset xs = add_mset c (mset (P True))"
    "\<forall>q. rb_v (h q) = rb_v (chunk_nodes s2 q)"
    using add_to_pool [OF P2 c(2,3) c0 n2(1) k2 len] by blast
  define s3 where "s3 = set_pool True T h s2"
  have eq: "init_chunk s c c CHUNK_TYPE_SMALL = Inr s3"
    using i0 i(1) unfolding init_chunk_def fresh_chunk_def [symmetric] s0_def [symmetric]
    by (simp add: s2_def [symmetric] s3_def set_pool_def)
  have f: "sc_arenas s3 = sc_arenas s" "runs s3 = runs s" "run_nodes s3 = run_nodes s"
    "sc_run_pool s3 = sc_run_pool s" "\<And>q. q \<noteq> c \<Longrightarrow> chunks s3 q = chunks s q"
    "\<And>q. q \<noteq> c \<Longrightarrow> rb_v (chunk_nodes s3 q) = rb_v (chunk_nodes s q)"
    "rb_v (chunk_nodes s3 c) = \<lparr>cv_index = pos2index c, cv_maxsize = 1\<rparr>"
    "ch_type (chunks s3 c) = CHUNK_TYPE_SMALL" "ch_pos (chunks s3 c) = c" 
    "ch_small (chunks s3 c) = \<lparr>sd_used = 1, sd_bitmap = bm\<rparr>"
    using i(4) n2(2) by (simp_all add: s3_def s2_def s0_def set_maxsize_def put_small_def fresh_chunk_def)
  have "{i. i < 256 \<and> bm_bit bm i} = {0}" using bits by auto
  then have ok: "small_ok s3 c" using f(7-10) c(1) lb bits [of 0] by (simp add: small_ok_def)
  have np: "run_pages s3 {c} = {}" using f(10) bits by (auto simp: run_pages_def)
  have sx: "set xs = insert c (set (P True))" using i(3) by (metis set_mset_add_mset_insert set_mset_mset)
  have same: "chunks s3 q = chunks s q \<and> rb_v (chunk_nodes s3 q) = rb_v (chunk_nodes s q)"
    if "q \<in> set (P True)" for q by (metis f(5,6) that c(2))
  have "small_inv s3 (P(True := xs)) R F"
    by (rule small_inv_new [OF inv _ _ same f(2,3,4) ok np]) (use i(2) sx in \<open>simp_all add: s3_def\<close>)
  moreover have "chunk_frame s s3 c" using f by (simp add: chunk_frame_def)
  ultimately show ?thesis using eq i(3) np by blast
qed

lemma init_medium_inv:
  assumes inv: "medium_inv s P E X" and c: "chunk_aligned c" "c \<notin> set (P True)" "c \<notin> set (P False)"
    and ix: "pos2index c < 2 ^ 31" and len: "Suc (length (P False)) < 2 ^ 31"
  shows "\<exists>s' xs. init_chunk s c c CHUNK_TYPE_MEDIUM = Inr s' \<and> mset xs = add_mset c (mset (P False))
    \<and> medium_inv s' (P(False := xs)) (E(c := [(255, False)])) (X(c := [1])) \<and> chunk_frame s s' c"
proof -
  have P: "cpools s P" using inv by (simp add: medium_inv_def)
  have c0: "c \<noteq> 0" using c(1) by (simp add: chunk_aligned_def)
  define s0 where "s0 = fresh_chunk s c CHUNK_TYPE_MEDIUM"
  obtain d h0 where dh: "medium_of s0 c = (d, h0)" by (cases "medium_of s0 c")
  let ?d = "d\<lparr>md_max_size := 255, md_free_size := 255, md_tree := rbtree_init\<rparr>"
  have z: "md_up ?d = replicate 4 0" "md_down ?d = replicate 4 0" "md_type ?d = replicate 4 0"
    using dh by (auto simp: medium_of_def s0_def fresh_chunk_def zero_header_def simp del: replicate.simps)
  have zt: "md_tree ?d = rbtree_init" "md_free_size ?d = 255" by simp_all
  obtain d1 h1 where a: "add_free_unit (?d, h0) 1 255 = Inr (d1, h1)" "medium_rep (d1, h1) [(255, False)] [1]"
    "md_max_size d1 = 255" using init_medium_rep [OF z zt, of h0] by auto
  define s1 where "s1 = put_medium s0 c (d1, h1)"
  have i0: "init_chunk_medium s0 c = Inr s1" using a(1) by (simp add: init_chunk_medium_def dh s1_def)
  define s2 where "s2 = set_maxsize s1 c (get_medium_max_size s1 c)"
  have P2: "cpools s2 P"
    by (rule cpools_frame [OF P])
       (use c in \<open>auto simp: s2_def s1_def s0_def set_maxsize_def put_medium_def fresh_chunk_def\<close>)
  have mx: "get_medium_max_size s1 c = 255 * SHM_PAGE_SIZE"
    using a(3) by (simp add: get_medium_max_size_def s1_def)
  have n2: "rb_s (chunk_nodes s2 c) = c"
    "rb_v (chunk_nodes s2 c) = \<lparr>cv_index = pos2index c, cv_maxsize = 255 * SHM_PAGE_SIZE\<rparr>"
    by (simp_all add: s2_def mx) (simp_all add: s1_def s0_def set_maxsize_def put_medium_def fresh_chunk_def)
  have k2: "chunk_key_ok (rb_v (chunk_nodes s2 c))" using ix by (simp add: n2 chunk_key_ok_def)
  obtain T h xs where i: "rbtree_insert chunk_tree_compare (cpool s2 False) (chunk_nodes s2) c = Inr (T, h)"
    "cpools (set_pool False T h s2) (P(False := xs))" "mset xs = add_mset c (mset (P False))"
    "\<forall>q. rb_v (h q) = rb_v (chunk_nodes s2 q)"
    using add_to_pool [OF P2 c(2,3) c0 n2(1) k2 len] by blast
  define s3 where "s3 = set_pool False T h s2"
  have eq: "init_chunk s c c CHUNK_TYPE_MEDIUM = Inr s3"
    using i0 i(1) unfolding init_chunk_def fresh_chunk_def [symmetric] s0_def [symmetric]
    by (simp add: s2_def [symmetric] s3_def set_pool_def)
  have f: "sc_arenas s3 = sc_arenas s" "runs s3 = runs s" "run_nodes s3 = run_nodes s"
    "sc_run_pool s3 = sc_run_pool s" "\<And>q. q \<noteq> c \<Longrightarrow> chunks s3 q = chunks s q"
    "\<And>q. q \<noteq> c \<Longrightarrow> rb_v (chunk_nodes s3 q) = rb_v (chunk_nodes s q)"
    "rb_v (chunk_nodes s3 c) = \<lparr>cv_index = pos2index c, cv_maxsize = 255 * SHM_PAGE_SIZE\<rparr>"
    "ch_type (chunks s3 c) = CHUNK_TYPE_MEDIUM" "ch_pos (chunks s3 c) = c" "medium_of s3 c = (d1, h1)"
    using i(4) n2(2)
    by (simp_all add: s3_def s2_def s1_def s0_def set_maxsize_def put_medium_def fresh_chunk_def medium_of_def)
  have "ch_medium (chunks s3 c) = d1" using f(10) by (simp add: medium_of_def)
  then have ok: "medium_ok s3 c [(255, False)] [1]"
    using f(7-10) c(1) a by (simp add: medium_ok_def get_medium_max_size_def coalesced_Cons)
  have sx: "set xs = insert c (set (P False))" using i(3) by (metis set_mset_add_mset_insert set_mset_mset)
  have same: "chunks s3 q = chunks s q \<and> rb_v (chunk_nodes s3 q) = rb_v (chunk_nodes s q)"
    if "q \<in> set (P False)" for q by (metis f(5,6) that c(3))
  have "medium_inv s3 (P(False := xs)) (E(c := [(255, False)])) (X(c := [1]))"
    by (rule medium_inv_keep [OF inv _ _ same c(3) ok]) (use i(2) sx in \<open>simp_all add: s3_def\<close>)
  moreover have "chunk_frame s s3 c" using f by (simp add: chunk_frame_def)
  ultimately show ?thesis using eq i(3) by blast
qed

section \<open>The operations on the whole heap\<close>

lemma heap_invD:
  assumes "heap_inv s P R F E X"
  shows "small_inv s P R F" "medium_inv s P E X" "cpools s P"
  using assms unfolding heap_inv_def small_inv_def by blast+

lemma medium_inv_same:
  assumes "medium_inv s P E X" and "cpools s' P'" "set (P' False) = set (P False)"
    and "\<And>q. q \<in> set (P False) \<Longrightarrow> chunks s' q = chunks s q \<and> rb_v (chunk_nodes s' q) = rb_v (chunk_nodes s q)"
  shows "medium_inv s' P' E X"
proof -
  have "medium_ok s' q (E q) (X q)" if "q \<in> set (P False)" for q
    using assms(1) assms(4) [OF that] that
    by (simp add: medium_inv_def medium_ok_def medium_of_def get_medium_max_size_def)
  then show ?thesis using assms(2,3) by (simp add: medium_inv_def)
qed

lemma chunk_frame_other:
  assumes "chunk_frame s s' c" and "q \<in> A" "c \<notin> A"
  shows "chunks s' q = chunks s q \<and> rb_v (chunk_nodes s' q) = rb_v (chunk_nodes s q)"
  using assms by (auto simp: chunk_frame_def)

lemma init_chunk_small_heap:
  assumes inv: "heap_inv s P R F E X" and c: "chunk_aligned c" "c \<notin> set (P True)" "c \<notin> set (P False)"
    and ix: "pos2index c < 2 ^ 31" and len: "Suc (length (P True)) < 2 ^ 31"
  shows "\<exists>s' xs. init_chunk s c c CHUNK_TYPE_SMALL = Inr s' \<and> mset xs = add_mset c (mset (P True))
    \<and> heap_inv s' (P(True := xs)) R F E X \<and> chunk_frame s s' c \<and> run_pages s' {c} = {}"
proof -
  note H = heap_invD [OF inv]
  obtain s' xs where i: "init_chunk s c c CHUNK_TYPE_SMALL = Inr s'" "mset xs = add_mset c (mset (P True))"
    "small_inv s' (P(True := xs)) R F" "chunk_frame s s' c" "run_pages s' {c} = {}"
    using init_small_inv [OF H(1) c ix len] by blast
  have cp: "cpools s' (P(True := xs))" using i(3) by (simp add: small_inv_def)
  have "medium_inv s' (P(True := xs)) E X"
    by (rule medium_inv_same [OF H(2) cp _ chunk_frame_other [OF i(4) _ c(3)]]) simp_all
  then show ?thesis using i by (auto simp: heap_inv_def)
qed

lemma init_chunk_medium_heap:
  assumes inv: "heap_inv s P R F E X" and c: "chunk_aligned c" "c \<notin> set (P True)" "c \<notin> set (P False)"
    and ix: "pos2index c < 2 ^ 31" and len: "Suc (length (P False)) < 2 ^ 31"
  shows "\<exists>s' xs. init_chunk s c c CHUNK_TYPE_MEDIUM = Inr s' \<and> mset xs = add_mset c (mset (P False))
    \<and> heap_inv s' (P(False := xs)) R F (E(c := [(255, False)])) (X(c := [1])) \<and> chunk_frame s s' c"
proof -
  note H = heap_invD [OF inv]
  obtain s' xs where i: "init_chunk s c c CHUNK_TYPE_MEDIUM = Inr s'" "mset xs = add_mset c (mset (P False))"
    "medium_inv s' (P(False := xs)) (E(c := [(255, False)])) (X(c := [1]))" "chunk_frame s s' c"
    using init_medium_inv [OF H(2) c ix len] by blast
  have cp: "cpools s' (P(False := xs))" using i(3) by (simp add: medium_inv_def)
  have "small_inv s' (P(False := xs)) R F"
    by (rule small_inv_keep [OF H(1) cp _ chunk_frame_other [OF i(4) _ c(2)]])
       (use i(4) in \<open>simp_all add: chunk_frame_def\<close>)
  then show ?thesis using i by (auto simp: heap_inv_def)
qed

text \<open>The search for a chunk.\<close>

lemma unat_ucast_small: "unat (x :: u64) < 2 ^ 32 \<Longrightarrow> unat (ucast x :: u32) = unat x"
  by (simp add: unsigned_ucast_eq take_bit_nat_eq_self)

lemma get_avaliable_ok:
  assumes P: "cpools s P" and sz: "unat sz < 2 ^ 31"
    and b: "b = (type = CHUNK_TYPE_SMALL)" and m: "m = (if b then 1 else unat sz)"
  shows "\<exists>r. get_avaliable_chunk s type sz = Inr r \<and> (case r of
      None \<Rightarrow> \<forall>c \<in> set (P b). unat (cv_maxsize (rb_v (chunk_nodes s c))) < m
    | Some c \<Rightarrow> c \<in> set (P b) \<and> m \<le> unat (cv_maxsize (rb_v (chunk_nodes s c))))"
proof -
  let ?v = "\<lparr>cv_index = 0, cv_maxsize = if b then 1 else ucast sz\<rparr>"
  have mx: "unat (cv_maxsize ?v) = m" using sz m unat_ucast_small [of sz] by simp
  then have ok: "chunk_key_ok ?v" using sz m by (simp add: chunk_key_ok_def word_less_nat_alt split: if_splits)
  have key: "chunk_key w < m * 2 ^ 32 \<longleftrightarrow> unat (cv_maxsize w) < m" for w
  proof
    assume "chunk_key w < m * 2 ^ 32"
    then have "unat (cv_maxsize w) * 2 ^ 32 < m * 2 ^ 32" by (simp add: chunk_key_def)
    then show "unat (cv_maxsize w) < m" by simp
  next
    assume "unat (cv_maxsize w) < m"
    then have "Suc (unat (cv_maxsize w)) * 2 ^ 32 \<le> m * 2 ^ 32" by (intro mult_le_mono1) simp
    then show "chunk_key w < m * 2 ^ 32" using unat_less_u32 [of "cv_index w"] by (simp add: chunk_key_def)
  qed
  have kv: "chunk_key ?v = m * 2 ^ 32" using mx by (simp add: chunk_key_def)
  have e: "get_avaliable_chunk s type sz = rbtree_lower chunk_tree_compare (cpool s b) (chunk_nodes s) ?v"
    using b by (simp add: get_avaliable_chunk_def)
  obtain r where r: "rbtree_lower chunk_tree_compare (cpool s b) (chunk_nodes s) ?v = Inr r"
    "case r of None \<Rightarrow> \<forall>a \<in> set (P b). chunk_key (rb_v (chunk_nodes s a)) < chunk_key ?v
        | Some c \<Rightarrow> c \<in> set (P b) \<and> chunk_key ?v \<le> chunk_key (rb_v (chunk_nodes s c))"
    using chunk_order.lower_ok [OF cpoolsD(1) [OF P] cpoolsD(2) [OF P] ok] by blast
  have "case r of None \<Rightarrow> \<forall>c \<in> set (P b). unat (cv_maxsize (rb_v (chunk_nodes s c))) < m
    | Some c \<Rightarrow> c \<in> set (P b) \<and> m \<le> unat (cv_maxsize (rb_v (chunk_nodes s c)))"
    using r(2) key unfolding kv by (cases r) (simp_all add: not_less [symmetric])
  then show ?thesis using e r(1) by auto
qed

text \<open>Deleting a chunk that has no block in use.\<close>

lemma delete_chunk_ok:
  assumes P: "cpools s P" and c: "c \<in> set (P b)" and b: "b = (ch_type (chunks s c) = CHUNK_TYPE_SMALL)"
  shows "\<exists>s'. delete_chunk s c = Inr s' \<and> cpools s' (P(b := remove1 c (P b))) \<and> chunk_frame s s' c
    \<and> c \<notin> set (remove1 c (P b)) \<and> set (P b) = insert c (set (remove1 c (P b)))"
proof -
  obtain T h where d: "rbtree_delete (cpool s b) (chunk_nodes s) c = Inr (T, h)"
    "cpools (set_pool b T h s) (P(b := remove1 c (P b)))" "\<forall>q. rb_v (h q) = rb_v (chunk_nodes s q)"
    using remove_from_pool [OF P c] by blast
  define s1 where "s1 = set_pool b T h s"
  define s2 where "s2 = s1\<lparr>chunks := (chunks s1)(c := (chunks s1 c)\<lparr>ch_type := CHUNK_TYPE_EMPTY\<rparr>)\<rparr>"
  have "(if ch_type (chunks s c) = CHUNK_TYPE_SMALL
      then bind_r (rbtree_delete (sc_small_pool s) (chunk_nodes s) c) (\<lambda>(T, h).
             Inr (s\<lparr>sc_small_pool := T, chunk_nodes := h\<rparr>))
      else bind_r (rbtree_delete (sc_medium_pool s) (chunk_nodes s) c) (\<lambda>(T, h).
             Inr (s\<lparr>sc_medium_pool := T, chunk_nodes := h\<rparr>))) = Inr s1"
    using d(1) b by (cases b) (simp_all add: s1_def set_pool_def)
  then have "delete_chunk s c = Inr s2" by (simp add: delete_chunk_def s2_def)
  moreover have "cpools s2 (P(b := remove1 c (P b)))"
  proof -
    have "cpools s2 (P(b := remove1 c (P b))) = cpools s1 (P(b := remove1 c (P b)))"
      by (rule cpools_cong) (simp_all add: s2_def)
    then show ?thesis using d(2) by (simp add: s1_def)
  qed
  moreover have "chunk_frame s s2 c" using d(3) by (simp add: chunk_frame_def s2_def s1_def)
  moreover have "distinct (P b)" using rb_rep_distinct [OF cpoolsD(1) [OF P]] .
  ultimately show ?thesis using c by auto
qed

lemma delete_small_heap:
  assumes inv: "heap_inv s P R F E X" and c: "c \<in> set (P True)" and e: "run_pages s {c} = {}"
  shows "\<exists>s'. delete_chunk s c = Inr s' \<and> heap_inv s' (P(True := remove1 c (P True))) R F E X \<and> chunk_frame s s' c"
proof -
  note H = heap_invD [OF inv]
  note D = small_invD [OF H(1)]
  have ty: "True = (ch_type (chunks s c) = CHUNK_TYPE_SMALL)" using D(2) [OF c] by (simp add: small_ok_def)
  let ?xs = "remove1 c (P True)"
  obtain s' where d: "delete_chunk s c = Inr s'" "cpools s' (P(True := ?xs))" "chunk_frame s s' c"
    "c \<notin> set ?xs" "set (P True) = insert c (set ?xs)"
    using delete_chunk_ok [OF H(3) c ty] by blast
  have nm: "c \<notin> set (P False)" using H(3) c by (auto simp: cpools_def)
  have "medium_inv s' (P(True := ?xs)) E X"
    by (rule medium_inv_same [OF H(2) d(2) _ chunk_frame_other [OF d(3) _ nm]]) simp_all
  moreover have "small_inv s' (P(True := ?xs)) R F"
  proof -
    have "run_pages s (set (P True)) = run_pages s {c} \<union> run_pages s (set ?xs)"
      unfolding d(5) run_pages_def by blast
    moreover have "run_pages s' (set ?xs) = run_pages s (set ?xs)"
      by (rule run_pages_cong) (use chunk_frame_other [OF d(3) _ d(4)] in simp)
    ultimately have G: "run_pages s' (set ?xs) = run_pages s (set (P True))" using e by simp
    have "small_ok s' q" if "q \<in> set ?xs" for q
      using chunk_frame_other [OF d(3) that d(4)] D(2) [of q] that d(5) small_ok_cong [of s' q s] by blast
    moreover have "runs s' = runs s" "run_nodes s' = run_nodes s" "sc_run_pool s' = sc_run_pool s"
      using d(3) by (simp_all add: chunk_frame_def)
    ultimately show ?thesis using D(3-6) d(2) G by (simp add: small_inv_def run_ok_def)
  qed
  ultimately show ?thesis using d(1,3) by (auto simp: heap_inv_def)
qed

lemma delete_medium_heap:
  assumes inv: "heap_inv s P R F E X" and c: "c \<in> set (P False)"
  shows "\<exists>s'. delete_chunk s c = Inr s' \<and> heap_inv s' (P(False := remove1 c (P False))) R F E X \<and> chunk_frame s s' c"
proof -
  note H = heap_invD [OF inv]
  have "ch_type (chunks s c) = CHUNK_TYPE_MEDIUM" using H(2) c by (simp add: medium_inv_def medium_ok_def)
  then have ty: "False = (ch_type (chunks s c) = CHUNK_TYPE_SMALL)" by simp
  let ?xs = "remove1 c (P False)"
  obtain s' where d: "delete_chunk s c = Inr s'" "cpools s' (P(False := ?xs))" "chunk_frame s s' c"
    "c \<notin> set ?xs" "set (P False) = insert c (set ?xs)"
    using delete_chunk_ok [OF H(3) c ty] by blast
  have ns: "c \<notin> set (P True)" using H(3) c by (auto simp: cpools_def)
  have "small_inv s' (P(False := ?xs)) R F"
    by (rule small_inv_keep [OF H(1) d(2) _ chunk_frame_other [OF d(3) _ ns]])
       (use d(3) in \<open>simp_all add: chunk_frame_def\<close>)
  moreover have "medium_ok s' q (E q) (X q)" if "q \<in> set ?xs" for q
  proof -
    have "medium_ok s q (E q) (X q)" using H(2) d(5) that by (simp add: medium_inv_def)
    then show ?thesis using chunk_frame_other [OF d(3) that d(4)]
      by (simp add: medium_ok_def medium_of_def get_medium_max_size_def)
  qed
  ultimately show ?thesis using d by (auto simp: heap_inv_def medium_inv_def)
qed

lemma run_pages_one:
  assumes "\<And>d. d \<in> C \<Longrightarrow> chunk_aligned d" and "c \<in> C"
  shows "run_pages s {c} = run_pages s C \<inter> {page c i | i. i < 256}"
proof
  show "run_pages s {c} \<subseteq> run_pages s C \<inter> {page c i | i. i < 256}"
    using assms(2) unfolding run_pages_def by blast
  show "run_pages s C \<inter> {page c i | i. i < 256} \<subseteq> run_pages s {c}"
  proof
    fix x assume "x \<in> run_pages s C \<inter> {page c i | i. i < 256}"
    then obtain d j i where x: "x = page d j" "d \<in> C" "1 \<le> j" "j < 256" "bm_bit (sbm s d) j"
      "x = page c i" "i < 256" unfolding run_pages_def by blast
    then have "d = c" using page_inject [OF assms(1) assms(1), of d c j i] assms(2) by simp
    then show "x \<in> run_pages s {c}" using x(1,3,4,5) unfolding run_pages_def by blast
  qed
qed

text \<open>The chunks and their arenas after an operation on the chunk \<open>c\<close>.\<close>

definition heap_frame :: "shm_state \<Rightarrow> shm_state \<Rightarrow> u64 \<Rightarrow> bool" where
  "heap_frame s s' c \<longleftrightarrow> sc_arenas s' = sc_arenas s \<and> (\<forall>q. q \<noteq> c \<longrightarrow> chunks s' q = chunks s q)"

lemma heap_frameI:
  "small_frame s s' c \<Longrightarrow> heap_frame s s' c" "medium_frame s s' c \<Longrightarrow> heap_frame s s' c"
  "chunk_frame s s' c \<Longrightarrow> heap_frame s s' c"
  by (simp_all add: heap_frame_def small_frame_def medium_frame_def chunk_frame_def)

lemma heap_frame_trans: "heap_frame s s' c \<Longrightarrow> heap_frame s' s'' c \<Longrightarrow> heap_frame s s'' c"
  by (simp add: heap_frame_def)

lemma small_step_heap:
  assumes inv: "heap_inv s P R F E X" and c: "c \<in> set (P True)"
    and s': "small_inv s' (P(True := xs)) R' F'" "small_frame s s' c"
  shows "heap_inv s' (P(True := xs)) R' F' E X"
proof -
  note H = heap_invD [OF inv]
  have "cpools s' (P(True := xs))" using s'(1) by (simp add: small_inv_def)
  from small_keeps_medium [OF H(2) s'(2) c this] show ?thesis using s'(1) by (simp add: heap_inv_def)
qed

lemma medium_step_heap:
  assumes inv: "heap_inv s P R F E X" and c: "c \<in> set (P False)"
    and s': "medium_inv s' (P(False := xs)) E' X'" "medium_frame s s' c"
  shows "heap_inv s' (P(False := xs)) R F E' X'"
proof -
  note H = heap_invD [OF inv]
  have "cpools s' (P(False := xs))" using s'(1) by (simp add: medium_inv_def)
  from medium_keeps_small [OF H(1) s'(2) c this] show ?thesis using s'(1) by (simp add: heap_inv_def)
qed

lemma new_run_heap:
  assumes inv: "heap_inv s P R F E X" and c: "c \<in> set (P True)"
    and u: "sd_used (ch_small (chunks s c)) \<noteq> 256" and k: "1 \<le> unat type" "unat type \<le> 14"
    and fuel: "Suc (card (run_pages s (set (P True)))) < fuel" "fuel \<le> 2 ^ 32"
  shows "\<exists>s' x xs. new_chunk_run fuel s c type = Inr (s', x) \<and> x \<notin> run_pages s (set (P True))
    \<and> mset xs = mset (P True)
    \<and> heap_inv s' (P(True := xs)) (R(unat type := insert x (R (unat type)))) (F(x := [0..<run_count (unat type)])) E X
    \<and> run_pages s' (set (P True)) = insert x (run_pages s (set (P True)))
    \<and> unat (rn_conf_index (runs s' x)) = unat type \<and> (\<forall>y. y \<noteq> x \<longrightarrow> runs s' y = runs s y)
    \<and> heap_frame s s' c"
proof -
  obtain s' x xs where n: "new_chunk_run fuel s c type = Inr (s', x)" "x \<notin> run_pages s (set (P True))"
    "mset xs = mset (P True)"
    "small_inv s' (P(True := xs)) (R(unat type := insert x (R (unat type)))) (F(x := [0..<run_count (unat type)]))"
    "run_pages s' (set (P True)) = insert x (run_pages s (set (P True)))"
    "unat (rn_conf_index (runs s' x)) = unat type" "\<forall>y. y \<noteq> x \<longrightarrow> runs s' y = runs s y" "small_frame s s' c"
    using new_chunk_run_inv [OF heap_invD(1) [OF inv] c u k fuel] by blast
  show ?thesis using small_step_heap [OF inv c n(4,8)] n heap_frameI(1) [OF n(8)] by blast
qed

lemma malloc_run_heap:
  assumes inv: "heap_inv s P R F E X" and k: "1 \<le> k" "k \<le> 14" and x: "R k \<noteq> {}" "x = Min (R k)"
    and fuel: "card (run_pages s (set (P True))) \<le> fuel"
  shows "\<exists>s' i is. F x = i # is
    \<and> malloc_chunk_run fuel s x = Inr (s', x + ucast (boff (elemsize_of k) i))
    \<and> heap_inv s' P (R(k := if is = [] then R k - {x} else R k)) (F(x := is)) E X
    \<and> run_pages s' (set (P True)) = run_pages s (set (P True))
    \<and> rn_conf_index (runs s' x) = rn_conf_index (runs s x)
    \<and> (\<forall>y. y \<noteq> x \<longrightarrow> runs s' y = runs s y)
    \<and> chunks s' = chunks s \<and> sc_arenas s' = sc_arenas s"
proof -
  obtain s' i "is" where m: "F x = i # is"
    "malloc_chunk_run fuel s x = Inr (s', x + ucast (boff (elemsize_of k) i))"
    "small_inv s' P (R(k := if is = [] then R k - {x} else R k)) (F(x := is))"
    "run_pages s' (set (P True)) = run_pages s (set (P True))"
    "rn_conf_index (runs s' x) = rn_conf_index (runs s x)" "\<forall>y. y \<noteq> x \<longrightarrow> runs s' y = runs s y"
    "chunks s' = chunks s" "chunk_nodes s' = chunk_nodes s" "sc_arenas s' = sc_arenas s"
    using malloc_chunk_run_inv [OF heap_invD(1) [OF inv] k x fuel] by blast
  have "cpools s' P" using m(3) by (simp add: small_inv_def)
  then have "medium_inv s' P E X"
    by (rule medium_inv_same [OF heap_invD(2) [OF inv]]) (simp_all add: m)
  then show ?thesis using m unfolding heap_inv_def by blast
qed

lemma free_small_heap:
  assumes inv: "heap_inv s P R F E X" and c: "c \<in> set (P True)"
    and i: "1 \<le> i" "i < 256" "bm_bit (sbm s c) i"
    and k: "k = unat (rn_conf_index (runs s (page c i)))" and j: "j < run_count k" "j \<notin> set (F (page c i))"
    and clean: "F (page c i) = [] \<Longrightarrow> tn_left (run_nodes s (page c i)) = 0 \<and> tn_right (run_nodes s (page c i)) = 0"
    and fuel: "Suc (card (run_pages s (set (P True)))) < fuel" "fuel \<le> 2 ^ 32"
  defines "freed \<equiv> Suc (length (F (page c i))) = run_count k \<and> R k - {page c i} \<noteq> {}"
  shows "\<exists>s' xs b. free_chunk fuel s c (block_offset i k j) = Inr (s', b)
    \<and> mset xs = (if b then mset (P True) - {#c#} else mset (P True))
    \<and> heap_inv s' (P(True := xs)) (R(k := if freed then R k - {page c i} else insert (page c i) (R k)))
         (F(page c i := j # F (page c i))) E X
    \<and> run_pages s' (set xs) = run_pages s (set (P True)) - (if freed then {page c i} else {})
    \<and> (b \<longleftrightarrow> freed \<and> run_pages s {c} = {page c i}) \<and> heap_frame s s' c
    \<and> (\<forall>y. rn_conf_index (runs s' y) = rn_conf_index (runs s y))
    \<and> (\<forall>y. y \<noteq> page c i \<longrightarrow> runs s' y = runs s y)"
proof -
  let ?x = "page c i" and ?C = "set (P True)"
  note H = heap_invD [OF inv]
  note D = small_invD [OF H(1)]
  have ty: "ch_type (chunks s c) = CHUNK_TYPE_SMALL" using D(2) [OF c] by (simp add: small_ok_def)
  obtain s1 xs b where f: "free_chunk_small fuel s c (block_offset i k j) = Inr (s1, b)" "mset xs = mset (P True)"
    "small_inv s1 (P(True := xs)) (R(k := if freed then R k - {?x} else insert ?x (R k))) (F(?x := j # F ?x))"
    "run_pages s1 ?C = run_pages s ?C - (if freed then {?x} else {})"
    "b \<longleftrightarrow> run_pages s1 {c} = {}" "small_frame s s1 c"
    "\<forall>y. rn_conf_index (runs s1 y) = rn_conf_index (runs s y)" "\<forall>y. y \<noteq> ?x \<longrightarrow> runs s1 y = runs s y"
    using free_chunk_small_inv [OF H(1) c i k j clean fuel, folded freed_def] by blast
  have sx: "set xs = ?C" using mset_eq_setD [OF f(2)] .
  note h1 = small_step_heap [OF inv c f(3,6)]
  have xin: "?x \<in> run_pages s {c}" using i unfolding run_pages_def by blast
  have bb: "b \<longleftrightarrow> freed \<and> run_pages s {c} = {?x}"
  proof -
    have "run_pages s1 {c} = run_pages s {c} - (if freed then {?x} else {})"
      using run_pages_one [OF D(7) c, of s1] run_pages_one [OF D(7) c, of s] f(4) by auto
    then show ?thesis using f(5) xin by auto
  qed
  show ?thesis
  proof (cases b)
    case False
    then have "free_chunk fuel s c (block_offset i k j) = Inr (s1, False)"
      using f(1) ty by (simp add: free_chunk_def)
    then show ?thesis using False bb h1 f sx heap_frameI(1) [OF f(6)]
      by (intro exI [of _ s1] exI [of _ xs] exI [of _ False]) simp
  next
    case True
    have cx: "c \<in> set ((P(True := xs)) True)" using c sx by simp
    have e: "run_pages s1 {c} = {}" using True f(5) by simp
    obtain s2 where d: "delete_chunk s1 c = Inr s2"
      "heap_inv s2 ((P(True := xs))(True := remove1 c xs)) (R(k := if freed then R k - {?x} else insert ?x (R k)))
        (F(?x := j # F ?x)) E X" "chunk_frame s1 s2 c"
      using delete_small_heap [OF h1 cx e, unfolded fun_upd_same] by blast
    have "free_chunk fuel s c (block_offset i k j) = Inr (s2, True)"
      using f(1) ty True d(1) by (simp add: free_chunk_def)
    moreover have "mset (remove1 c xs) = mset (P True) - {#c#}" using f(2) by simp
    moreover have "run_pages s2 (set (remove1 c xs)) = run_pages s1 ?C"
    proof -
      have "distinct xs" using rb_rep_distinct [OF cpoolsD(1) [OF heap_invD(3) [OF h1], of True]] by simp
      then have r: "set (remove1 c xs) = ?C - {c}" using sx by simp
      have "run_pages s1 ?C = run_pages s1 {c} \<union> run_pages s1 (?C - {c})"
        using c unfolding run_pages_def by blast
      moreover have "run_pages s2 (?C - {c}) = run_pages s1 (?C - {c})"
        by (rule run_pages_cong) (use d(3) in \<open>simp add: chunk_frame_def\<close>)
      ultimately show ?thesis using e r by simp
    qed
    moreover have "heap_frame s s2 c" using heap_frame_trans [OF heap_frameI(1) [OF f(6)] heap_frameI(3) [OF d(3)]] .
    moreover have "runs s2 = runs s1" using d(3) by (simp add: chunk_frame_def)
    ultimately show ?thesis using True bb f d(2)
      by (intro exI [of _ s2] exI [of _ "remove1 c xs"] exI [of _ True]) simp
  qed
qed

lemma malloc_medium_heap:
  assumes inv: "heap_inv s P R F E X" and c: "c \<in> set (P False)" and X: "X c = x # xs"
    and len: "len \<noteq> 0" "unat len \<le> 255 * SHM_PAGE_SIZE"
    and fit: "pages_for (unat len) \<le> n" and n: "n = unat (mv_size (rb_v (ch_pages (chunks s c) x)))"
  shows "\<exists>as bs s' ys zs. E c = as @ (n, False) # bs
    \<and> malloc_chunk_medium s c len = Inr (s', page c (Suc (page_sum as))) \<and> mset ys = mset (P False)
    \<and> heap_inv s' (P(False := ys)) R F (E(c := take_extent as n (pages_for (unat len)) bs)) (X(c := zs))
    \<and> heap_frame s s' c"
proof -
  obtain as bs s' ys zs where m: "E c = as @ (n, False) # bs"
    "malloc_chunk_medium s c len = Inr (s', page c (Suc (page_sum as)))" "mset ys = mset (P False)"
    "medium_inv s' (P(False := ys)) (E(c := take_extent as n (pages_for (unat len)) bs)) (X(c := zs))"
    "medium_frame s s' c" using malloc_medium_inv [OF heap_invD(2) [OF inv] c X len fit n] by blast
  show ?thesis using medium_step_heap [OF inv c m(4,5)] m heap_frameI(2) [OF m(5)] by blast
qed

lemma free_medium_heap:
  assumes inv: "heap_inv s P R F E X" and c: "c \<in> set (P False)" and e: "E c = as @ (n, True) # bs"
  shows "\<exists>s' ys zs b. free_chunk fuel s c (word_of_nat (Suc (page_sum as) * SHM_PAGE_SIZE)) = Inr (s', b)
    \<and> mset ys = (if b then mset (P False) - {#c#} else mset (P False))
    \<and> heap_inv s' (P(False := ys)) R F (E(c := free_extent as n bs)) (X(c := zs))
    \<and> (b \<longleftrightarrow> free_extent as n bs = [(255, False)]) \<and> heap_frame s s' c"
proof -
  note H = heap_invD [OF inv]
  have ty: "ch_type (chunks s c) = CHUNK_TYPE_MEDIUM" using H(2) c by (simp add: medium_inv_def medium_ok_def)
  obtain s1 ys zs b where f: "free_chunk_medium s c (word_of_nat (Suc (page_sum as) * SHM_PAGE_SIZE)) = Inr (s1, b)"
    "mset ys = mset (P False)" "medium_inv s1 (P(False := ys)) (E(c := free_extent as n bs)) (X(c := zs))"
    "b \<longleftrightarrow> free_extent as n bs = [(255, False)]" "medium_frame s s1 c"
    using free_medium_inv [OF H(2) c e] by blast
  note h1 = medium_step_heap [OF inv c f(3,5)]
  show ?thesis
  proof (cases b)
    case False
    then have "free_chunk fuel s c (word_of_nat (Suc (page_sum as) * SHM_PAGE_SIZE)) = Inr (s1, False)"
      using f(1) ty by (simp add: free_chunk_def)
    then show ?thesis using False f h1 heap_frameI(2) [OF f(5)]
      by (intro exI [of _ s1] exI [of _ ys] exI [of _ zs] exI [of _ False]) simp
  next
    case True
    have cx: "c \<in> set ((P(False := ys)) False)" using c mset_eq_setD [OF f(2)] by simp
    obtain s2 where d: "delete_chunk s1 c = Inr s2"
      "heap_inv s2 ((P(False := ys))(False := remove1 c ys)) R F (E(c := free_extent as n bs)) (X(c := zs))"
      "chunk_frame s1 s2 c" using delete_medium_heap [OF h1 cx, unfolded fun_upd_same] by blast
    have "free_chunk fuel s c (word_of_nat (Suc (page_sum as) * SHM_PAGE_SIZE)) = Inr (s2, True)"
      using f(1) ty True d(1) by (simp add: free_chunk_def)
    moreover have "mset (remove1 c ys) = mset (P False) - {#c#}" using f(2) by simp
    moreover have "heap_frame s s2 c" using heap_frame_trans [OF heap_frameI(2) [OF f(5)] heap_frameI(3) [OF d(3)]] .
    ultimately show ?thesis using True f(4) d(2)
      by (intro exI [of _ s2] exI [of _ "remove1 c ys"] exI [of _ zs] exI [of _ True]) simp
  qed
qed

end
