(* ===== verification/ShmOp.thy ===== *)
theory ShmOp
  imports Prelude
begin

text \<open>
  \<open>src/shm_op_wrapper.c\<close> and \<open>src/shm_lock.c\<close>: the system calls behind an interface of
  their own. The operating system is a parameter: a record of the calls, each a function of the
  system's state \<open>'w\<close> that returns the call's result and the state afterwards. \<open>errno\<close>
  belongs to that state. Log messages are not modelled. An address is 0 for \<open>NULL\<close>.
\<close>

section \<open>The system calls\<close>

record 'w os =
  os_errno :: "'w \<Rightarrow> int"
  os_shmget :: "'w \<Rightarrow> int \<Rightarrow> u64 \<Rightarrow> u32 \<Rightarrow> int \<times> 'w"
  os_shmat :: "'w \<Rightarrow> int \<Rightarrow> u64 \<times> 'w"
  os_shmdt :: "'w \<Rightarrow> u64 \<Rightarrow> int \<times> 'w"
  os_shmctl_rmid :: "'w \<Rightarrow> int \<Rightarrow> int \<times> 'w"
  os_access :: "'w \<Rightarrow> string \<Rightarrow> int \<times> 'w"
  os_open :: "'w \<Rightarrow> string \<Rightarrow> u32 \<Rightarrow> u32 \<Rightarrow> int \<times> 'w"
  os_write :: "'w \<Rightarrow> int \<Rightarrow> string \<Rightarrow> int \<Rightarrow> int \<times> 'w"
  os_fsync :: "'w \<Rightarrow> int \<Rightarrow> int \<times> 'w"
  os_close :: "'w \<Rightarrow> int \<Rightarrow> 'w"
  os_chmod :: "'w \<Rightarrow> string \<Rightarrow> u32 \<Rightarrow> int \<times> 'w"
  os_ftok :: "'w \<Rightarrow> string \<Rightarrow> u32 \<Rightarrow> int \<times> 'w"
  os_umask :: "'w \<Rightarrow> u32 \<Rightarrow> u32 \<times> 'w"
  os_fcntl_lock :: "'w \<Rightarrow> int \<Rightarrow> int \<times> 'w"
  os_mutexattr_init :: "'w \<Rightarrow> int \<times> 'w"
  os_mutexattr_setpshared :: "'w \<Rightarrow> int \<times> 'w"
  os_mutexattr_settype :: "'w \<Rightarrow> int \<times> 'w"
  os_mutex_init :: "'w \<Rightarrow> int \<times> 'w"
  os_mutexattr_destroy :: "'w \<Rightarrow> 'w"
  os_mutex_lock :: "'w \<Rightarrow> int \<times> 'w"
  os_mutex_unlock :: "'w \<Rightarrow> int \<times> 'w"
  os_malloc :: "'w \<Rightarrow> nat \<Rightarrow> bool \<times> 'w"
  os_atexit :: "'w \<Rightarrow> int \<times> 'w"

abbreviation (input) EPERM :: int where "EPERM \<equiv> 1"
abbreviation (input) ENOENT :: int where "ENOENT \<equiv> 2"
abbreviation (input) EINTR :: int where "EINTR \<equiv> 4"
abbreviation (input) EIO :: int where "EIO \<equiv> 5"
abbreviation (input) ENOMEM :: int where "ENOMEM \<equiv> 12"
abbreviation (input) EACCES :: int where "EACCES \<equiv> 13"
abbreviation (input) EFAULT :: int where "EFAULT \<equiv> 14"
abbreviation (input) IPC_CREAT_0666 :: u32 where "IPC_CREAT_0666 \<equiv> 950"
abbreviation (input) MODE_0666 :: u32 where "MODE_0666 \<equiv> 438"
abbreviation (input) MODE_0644 :: u32 where "MODE_0644 \<equiv> 420"
abbreviation (input) O_WRONLY :: u32 where "O_WRONLY \<equiv> 1"
abbreviation (input) O_WRONLY_CREAT_TRUNC :: u32 where "O_WRONLY_CREAT_TRUNC \<equiv> 577"

text \<open>The expression \<open>errno != 0 ? errno : e\<close>.\<close>

definition errno_or :: "'w os \<Rightarrow> 'w \<Rightarrow> int \<Rightarrow> int" where
  "errno_or os w e = (if os_errno os w \<noteq> 0 then os_errno os w else e)"

lemma errno_or_nonzero: "e \<noteq> 0 \<Longrightarrow> errno_or os w e \<noteq> 0"
  by (simp add: errno_or_def)

section \<open>Shared memory segments\<close>

text \<open>The results are the address, and the values of \<open>*id\<close> and \<open>*err_no\<close> afterwards.\<close>

definition shm_mmap ::
  "'w os \<Rightarrow> 'w \<Rightarrow> int \<Rightarrow> u64 \<Rightarrow> bool \<Rightarrow> int \<Rightarrow> (u64 \<times> int \<times> int) \<times> 'w" where
  "shm_mmap os w key sz create_segment id0 =
     (let (shmid, w) = (if key > 0
                        then if create_segment then os_shmget os w key sz IPC_CREAT_0666
                             else os_shmget os w key 0 MODE_0666
                        else (id0, w))
      in if shmid \<le> 0 then ((0, id0, errno_or os w EPERM), w)
         else let (addr, w) = os_shmat os w shmid
              in if addr = 0 \<or> addr = - 1 then ((0, id0, errno_or os w EPERM), w)
                 else ((addr, shmid, 0), w))"

definition write_file :: "'w os \<Rightarrow> 'w \<Rightarrow> string \<Rightarrow> string \<Rightarrow> int \<Rightarrow> int \<times> 'w" where
  "write_file os w filename buff file_size =
     (let (fd, w) = os_open os w filename O_WRONLY_CREAT_TRUNC MODE_0644
      in if fd < 0 then (errno_or os w EIO, w)
         else let (n, w) = os_write os w fd buff file_size
              in if n \<noteq> file_size then (errno_or os w EIO, os_close os w fd)
                 else let (r, w) = os_fsync os w fd
                      in if r \<noteq> 0 then (errno_or os w EIO, os_close os w fd)
                         else (0, os_close os w fd))"

text \<open>The results are the return value and \<open>*key\<close> afterwards, whose initial value is
  \<open>key0\<close>.\<close>

definition shm_get_key :: "'w os \<Rightarrow> 'w \<Rightarrow> string \<Rightarrow> u32 \<Rightarrow> int \<Rightarrow> (int \<times> int) \<times> 'w" where
  "shm_get_key os w filename proj_id key0 =
     (let (r, w) = os_access os w filename;
          (result, w) =
            (if r \<noteq> 0
             then let result = errno_or os w ENOENT
                  in if result \<noteq> ENOENT then (result, w)
                     else let (result, w) = write_file os w filename ''FOR LOCK'' 8
                          in if result \<noteq> 0 then (result, w)
                             else let (r, w) = os_chmod os w filename MODE_0666
                                  in if r \<noteq> 0 then (errno_or os w EFAULT, w) else (0, w)
             else (0, w))
      in if result \<noteq> 0 then ((result, key0), w)
         else let (key, w) = os_ftok os w filename proj_id
              in if key = - 1 then ((errno_or os w EFAULT, key), w) else ((0, key), w))"

definition shm_munmap :: "'w os \<Rightarrow> 'w \<Rightarrow> u64 \<Rightarrow> int \<times> 'w" where
  "shm_munmap os w addr =
     (let (r, w) = os_shmdt os w addr in if r = 0 then (0, w) else (errno_or os w EACCES, w))"

definition shm_remove :: "'w os \<Rightarrow> 'w \<Rightarrow> int \<Rightarrow> int \<times> 'w" where
  "shm_remove os w shmid =
     (let (r, w) = os_shmctl_rmid os w shmid in if r \<noteq> 0 then (errno_or os w EACCES, w) else (0, w))"

section \<open>Locks\<close>

definition shm_lock_init :: "'w os \<Rightarrow> 'w \<Rightarrow> int \<times> 'w" where
  "shm_lock_init os w =
     (let (result, w) = os_mutexattr_init os w
      in if result \<noteq> 0 then (result, w)
         else let (result, w) = os_mutexattr_setpshared os w
         in if result \<noteq> 0 then (result, w)
            else let (result, w) = os_mutexattr_settype os w
            in if result \<noteq> 0 then (result, w)
               else let (result, w) = os_mutex_init os w
               in if result \<noteq> 0 then (result, w) else (0, os_mutexattr_destroy os w))"

text \<open>The loop retries while the call is interrupted; \<open>fuel\<close> bounds the attempts.\<close>

primrec do_lock_file :: "nat \<Rightarrow> 'w os \<Rightarrow> 'w \<Rightarrow> int \<Rightarrow> (int \<times> 'w) res" where
  "do_lock_file 0 os w fd = Inl OutOfFuel"
| "do_lock_file (Suc fuel) os w fd =
     (let (r, w) = os_fcntl_lock os w fd;
          result = (if r \<noteq> 0 then errno_or os w ENOMEM else 0)
      in if result = EINTR then do_lock_file fuel os w fd else Inr (result, w))"

definition shm_lock_file :: "nat \<Rightarrow> 'w os \<Rightarrow> 'w \<Rightarrow> string \<Rightarrow> (int \<times> 'w) res" where
  "shm_lock_file fuel os w filename =
     (let (old_mask, w) = os_umask os w 0;
          (lock_fd, w) = os_open os w filename O_WRONLY MODE_0666;
          (_, w) = os_umask os w old_mask
      in if lock_fd < 0 then Inr (- 1, w)
         else bind_r (do_lock_file fuel os w lock_fd) (\<lambda>(result, w).
              if result \<noteq> 0 then Inr (- 1, os_close os w lock_fd) else Inr (lock_fd, w)))"

definition shm_unlock_file :: "'w os \<Rightarrow> 'w \<Rightarrow> int \<Rightarrow> 'w" where
  "shm_unlock_file os w lock_fd = os_close os w lock_fd"

section \<open>What the wrappers promise\<close>

text \<open>Either an address, an id and no error, or no address, the old id and an error.\<close>

lemma shm_mmap_result:
  assumes "shm_mmap os w key sz create id0 = ((addr, id', err), w')"
  shows "if addr = 0 then id' = id0 \<and> err \<noteq> 0 else err = 0 \<and> 0 < id' \<and> addr \<noteq> - 1"
  using assms by (auto simp: shm_mmap_def Let_def errno_or_nonzero split: prod.splits if_splits)

text \<open>The calls that make a segment for the arena \<open>index\<close> succeed: a key, an attached segment, and its
  mark for removal; and the calls that find the first segment succeed.\<close>

definition grants :: "'w os \<Rightarrow> 'w \<Rightarrow> string \<Rightarrow> u32 \<Rightarrow> u64 \<Rightarrow> bool" where
  "grants os w path index sz \<longleftrightarrow>
     (let ((err, key), w) = shm_get_key os w path index 0;
          ((addr, shmid, _), w) = shm_mmap os w key sz True 0
      in err = 0 \<and> addr \<noteq> 0 \<and> fst (shm_remove os w shmid) = 0)"

definition finds :: "'w os \<Rightarrow> 'w \<Rightarrow> string \<Rightarrow> u64 \<Rightarrow> bool" where
  "finds os w path sz \<longleftrightarrow>
     (let ((err, key), w) = shm_get_key os w path 0 0;
          ((addr, _, _), _) = shm_mmap os w key sz False 0
      in err = 0 \<and> addr \<noteq> 0)"

text \<open>Attaching the segment with this id succeeds in every state of the system.\<close>

definition attachable :: "'w os \<Rightarrow> int \<Rightarrow> bool" where
  "attachable os shmid \<longleftrightarrow> 0 < shmid \<and> (\<forall>w. fst (os_shmat os w shmid) \<noteq> 0 \<and> fst (os_shmat os w shmid) \<noteq> - 1)"

lemma attached:
  assumes "attachable os id0" and "shm_mmap os w 0 sz create id0 = ((addr, shmid, e), w2)"
  shows "addr \<noteq> 0"
proof -
  obtain a v where "os_shmat os w id0 = (a, v)" by (metis prod.exhaust)
  then show ?thesis using assms unfolding attachable_def by (auto simp: shm_mmap_def Let_def) (metis fst_conv)+
qed

lemma write_file_ok:
  assumes "write_file os w filename buff n = (0, w')"
  shows "\<exists>fd w1 w2 w3. os_open os w filename O_WRONLY_CREAT_TRUNC MODE_0644 = (fd, w1) \<and> 0 \<le> fd
    \<and> os_write os w1 fd buff n = (n, w2) \<and> os_fsync os w2 fd = (0, w3) \<and> w' = os_close os w3 fd"
  using assms errno_or_nonzero [of EIO os]
  by (auto simp: write_file_def Let_def not_less split: prod.splits if_splits)

text \<open>The state of the system after \<open>n\<close> interrupted attempts to take the lock.\<close>

primrec lock_attempts :: "nat \<Rightarrow> 'w os \<Rightarrow> 'w \<Rightarrow> int \<Rightarrow> 'w" where
  "lock_attempts 0 os w fd = w"
| "lock_attempts (Suc n) os w fd = lock_attempts n os (snd (os_fcntl_lock os w fd)) fd"

definition interrupted :: "'w os \<Rightarrow> 'w \<Rightarrow> int \<Rightarrow> bool" where
  "interrupted os w fd \<longleftrightarrow> (let (r, w') = os_fcntl_lock os w fd in r \<noteq> 0 \<and> os_errno os w' = EINTR)"

lemma do_lock_file_ends:
  assumes "\<forall>k < n. interrupted os (lock_attempts k os w fd) fd"
    and "os_fcntl_lock os (lock_attempts n os w fd) fd = (r, w')" and "r = 0 \<or> os_errno os w' \<noteq> EINTR" and "n < fuel"
  shows "do_lock_file fuel os w fd = Inr (if r = 0 then 0 else errno_or os w' ENOMEM, w')"
  using assms
proof (induction n arbitrary: w fuel)
  case 0
  then obtain m where "fuel = Suc m" by (cases fuel) auto
  then show ?case using 0 by (auto simp: Let_def errno_or_def)
next
  case (Suc n)
  then obtain m where m: "fuel = Suc m" "n < m" by (cases fuel) auto
  obtain q v where o: "os_fcntl_lock os w fd = (q, v)" by (cases "os_fcntl_lock os w fd")
  have rest: "\<forall>k < n. interrupted os (lock_attempts k os v fd) fd" using Suc.prems(1) o by fastforce
  have "os_fcntl_lock os (lock_attempts n os v fd) fd = (r, w')" using Suc.prems(2) o by simp
  note IH = Suc.IH [OF rest this Suc.prems(3) m(2)]
  have "interrupted os w fd" using Suc.prems(1) by fastforce
  then show ?case using m(1) o IH by (simp add: interrupted_def errno_or_def Let_def)
qed

end
