(* ===== verification/ShmContext.thy ===== *)
theory ShmContext
  imports ShmChunk ShmOp
begin

text \<open>
  \<open>src/shm_context.c\<close> and the address translation of \<open>src/shm_malloc.c\<close> and
  \<open>src/shm_malloc_inc.h\<close>: arenas are segments of the system, kept in the table of the
  shared context; every process has its own table of the addresses they are mapped at. The
  recursion of the run pools is bounded by \<open>run_fuel\<close>: there are at most 1024 chunks with
  255 runs each.
\<close>

section \<open>A process\<close>

record arena_addr =
  aa_addr :: u64
  aa_shmid :: int

text \<open>The state as one process sees it: the system, its own \<open>local_context\<close>, and the shared
  memory. \<open>sy_shared\<close> says whether \<open>shared_context\<close> is set.\<close>

record 'w sys =
  sy_world :: 'w
  sy_path :: string
  sy_shared :: bool
  sy_addrs :: "arena_addr list"
  sy_mem :: shm_state

definition run_fuel :: nat where
  "run_fuel = 2 ^ 19"

definition arena_at :: "'w sys \<Rightarrow> u32 \<Rightarrow> shm_arena" where
  "arena_at S index = sc_arenas (sy_mem S) ! unat index"

definition put_arena :: "u32 \<Rightarrow> shm_arena \<Rightarrow> 'w sys \<Rightarrow> 'w sys" where
  "put_arena index arena S = S\<lparr>sy_mem := (sy_mem S)\<lparr>sc_arenas := (sc_arenas (sy_mem S))[unat index := arena]\<rparr>\<rparr>"

definition is_arena_valid :: "'w sys \<Rightarrow> u32 \<Rightarrow> bool" where
  "is_arena_valid S index \<longleftrightarrow> index < SHM_ARENA_MAX \<and> ar_type (arena_at S index) \<noteq> ARENA_TYPE_EMPTY"

definition get_arena_addr :: "'w sys \<Rightarrow> u32 \<Rightarrow> u64" where
  "get_arena_addr S index = aa_addr (sy_addrs S ! unat index)"

definition set_arena_addr :: "u32 \<Rightarrow> u64 \<Rightarrow> int \<Rightarrow> 'w sys \<Rightarrow> 'w sys" where
  "set_arena_addr index addr shmid S =
     S\<lparr>sy_addrs := (sy_addrs S)[unat index := \<lparr>aa_addr = addr, aa_shmid = shmid\<rparr>]\<rparr>"

definition clear_arena_addr :: "u32 \<Rightarrow> 'w sys \<Rightarrow> 'w sys" where
  "clear_arena_addr index S = S\<lparr>sy_addrs := (sy_addrs S)[unat index := \<lparr>aa_addr = 0, aa_shmid = 0\<rparr>]\<rparr>"

definition mmap_arena :: "'w os \<Rightarrow> 'w sys \<Rightarrow> u32 \<Rightarrow> ('w sys \<times> u64) res" where
  "mmap_arena os S index =
     (let arena = arena_at S index
      in assert_r (ar_type arena \<noteq> ARENA_TYPE_EMPTY \<and> ar_type arena \<noteq> ARENA_TYPE_CONTEXT) (
         let ((addr, _, _), w) = shm_mmap os (sy_world S) 0 (ar_size arena) False (ar_shmid arena)
         in Inr (S\<lparr>sy_world := w\<rparr>, addr)))"

definition munmap_arena :: "'w os \<Rightarrow> 'w sys \<Rightarrow> u64 \<Rightarrow> 'w sys" where
  "munmap_arena os S addr = S\<lparr>sy_world := snd (shm_munmap os (sy_world S) addr)\<rparr>"

definition get_or_update_arena_addr :: "'w os \<Rightarrow> 'w sys \<Rightarrow> u32 \<Rightarrow> ('w sys \<times> u64) res" where
  "get_or_update_arena_addr os S index =
     (if unat index \<ge> length (sy_addrs S) then Inl WildAccess
      else let shmid = ar_shmid (arena_at S index)
      in bind_r (if aa_shmid (sy_addrs S ! unat index) \<noteq> shmid
                 then bind_r (if aa_shmid (sy_addrs S ! unat index) \<noteq> 0
                              then assert_r (get_arena_addr S index \<noteq> 0)
                                     (Inr (clear_arena_addr index (munmap_arena os S (get_arena_addr S index))))
                              else Inr S) (\<lambda>S.
                      if is_arena_valid S index
                      then bind_r (mmap_arena os S index) (\<lambda>(S, addr).
                           Inr (set_arena_addr index addr shmid S))
                      else Inr S)
                 else Inr S) (\<lambda>S.
         Inr (S, get_arena_addr S index)))"

text \<open>The address of a position, \<open>None\<close> for \<open>NULL\<close>.\<close>

definition get_or_update_addr :: "'w os \<Rightarrow> 'w sys \<Rightarrow> u64 \<Rightarrow> ('w sys \<times> u64 option) res" where
  "get_or_update_addr os S pos =
     (if pos = 0 then Inr (S, None)
      else bind_r (get_or_update_arena_addr os S (pos2index pos)) (\<lambda>(S, base).
           Inr (S, if base = 0 then None else Some (base + ucast (pos2offset pos)))))"

section \<open>Arenas\<close>

text \<open>The objects of a segment after \<open>memset\<close>.\<close>

definition zero_page_node :: "(u16, medium_tree_value) rb_node" where
  "zero_page_node = \<lparr>rb_s = 0, rb_p = 0, rb_left = 0, rb_right = 0,
     rb_v = \<lparr>mv_size = 0, mv_index = 0\<rparr>, rb_color = 0\<rparr>"

definition zero_run :: run_header where
  "zero_run = \<lparr>rn_pos = 0, rn_conf_index = 0, rn_elemsize = 0, rn_total = 0, rn_used = 0, rn_free = 0,
     rn_words = (\<lambda>_. 0)\<rparr>"

definition clear_segment :: "u32 \<Rightarrow> shm_state \<Rightarrow> shm_state" where
  "clear_segment index s = s\<lparr>
     chunk_nodes := (\<lambda>p. if pos2index p = index then zero_chunk_node else chunk_nodes s p),
     chunks := (\<lambda>p. if pos2index p = index then zero_header (\<lambda>_. zero_page_node) else chunks s p),
     run_nodes := (\<lambda>p. if pos2index p = index then clean_node else run_nodes s p),
     runs := (\<lambda>p. if pos2index p = index then zero_run else runs s p),
     user_bytes := (\<lambda>p. if pos2index p = index then 0 else user_bytes s p)\<rparr>"

definition new_arena :: "'w os \<Rightarrow> 'w sys \<Rightarrow> u32 \<Rightarrow> u64 \<Rightarrow> ('w sys \<times> u32 option) res" where
  "new_arena os S type sz = assert_r (sz mod SHM_CHUNK_UNIT_SIZE = 0)
     (case find (\<lambda>i. ar_type (sc_arenas (sy_mem S) ! i) = ARENA_TYPE_EMPTY) [1..<SHM_ARENA_MAX] of
        None \<Rightarrow> Inr (S, None)
      | Some i \<Rightarrow>
          let index = word_of_nat i;
              ((err, key), w) = shm_get_key os (sy_world S) (sy_path S) index 0;
              S = S\<lparr>sy_world := w\<rparr>
          in if err \<noteq> 0 then Inr (S, None)
             else let ((addr, shmid, _), w) = shm_mmap os (sy_world S) key sz True 0;
                      S = S\<lparr>sy_world := w\<rparr>
             in if addr = 0 then Inr (S, None)
                else let (r, w) = shm_remove os (sy_world S) shmid;
                         S = S\<lparr>sy_world := w\<rparr>
                in if r \<noteq> 0 then Inr (S, None)
                   else let S = S\<lparr>sy_mem := clear_segment index (sy_mem S)\<rparr>;
                            S = put_arena index \<lparr>ar_type = type, ar_shmid = shmid, ar_index = index,
                                  ar_size = sz, ar_used = 0, ar_chunks = replicate SHM_ARENA_CHUNK_SIZE 0\<rparr> S
                        in Inr (set_arena_addr index addr shmid S, Some index))"

definition delete_arena :: "'w os \<Rightarrow> 'w sys \<Rightarrow> u32 \<Rightarrow> 'w sys res" where
  "delete_arena os S index =
     (let addr = get_arena_addr S index
      in assert_r (addr \<noteq> 0) (
         let S = clear_arena_addr index (put_arena index zero_arena S)
         in Inr (S\<lparr>sy_world := snd (shm_munmap os (sy_world S) addr)\<rparr>)))"

definition new_arena_chunk :: "shm_arena \<Rightarrow> shm_arena \<times> u64" where
  "new_arena_chunk arena =
     (case find (\<lambda>idx. ar_chunks arena ! idx = 0)
             [(if ar_type arena = ARENA_TYPE_CONTEXT then 1 else 0)..<SHM_ARENA_CHUNK_SIZE] of
        None \<Rightarrow> (arena, 0)
      | Some idx \<Rightarrow>
          let ret = index2pos (ar_index arena) (word_of_nat idx * SHM_CHUNK_UNIT_SIZE)
          in (arena\<lparr>ar_chunks := (ar_chunks arena)[idx := ret], ar_used := ar_used arena + 1\<rparr>, ret))"

definition delete_arena_chunk :: "shm_arena \<Rightarrow> u64 \<Rightarrow> shm_arena res" where
  "delete_arena_chunk arena pos =
     (let idx = unat (pos2offset pos div SHM_CHUNK_UNIT_SIZE)
      in if idx \<ge> length (ar_chunks arena) then Inl WildAccess
         else assert_r (ar_chunks arena ! idx \<noteq> 0)
           (Inr (arena\<lparr>ar_chunks := (ar_chunks arena)[idx := 0], ar_used := ar_used arena - 1\<rparr>)))"

text \<open>The search for an arena with a free chunk; \<open>emp\<close> is \<open>emptyIndex\<close>.\<close>

primrec new_chunk_scan :: "'w sys \<Rightarrow> u32 list \<Rightarrow> u32 \<Rightarrow> 'w sys \<times> u64 \<times> u32" where
  "new_chunk_scan S [] emp = (S, 0, emp)"
| "new_chunk_scan S (i # is) emp =
     (if ar_type (arena_at S i) = ARENA_TYPE_CONTEXT \<or> ar_type (arena_at S i) = ARENA_TYPE_CONTEXT
      then let (arena, pos) = new_arena_chunk (arena_at S i)
           in if pos \<noteq> 0 then (put_arena i arena S, pos, emp)
              else new_chunk_scan (put_arena i arena S) is emp
      else if ar_type (arena_at S i) = ARENA_TYPE_EMPTY then new_chunk_scan S is i
      else new_chunk_scan S is emp)"

definition new_chunk :: "'w os \<Rightarrow> 'w sys \<Rightarrow> u32 \<Rightarrow> ('w sys \<times> u64 option) res" where
  "new_chunk os S type =
     (let (S, pos, emptyIndex) = new_chunk_scan S (map word_of_nat [0..<SHM_ARENA_MAX]) 0
      in bind_r (if pos = 0 \<and> emptyIndex \<noteq> 0
                 then bind_r (new_arena os S ARENA_TYPE_CHUNK SHM_ARENA_UNIT_SIZE) (\<lambda>(S, found).
                      case found of None \<Rightarrow> Inr (S, 0)
                      | Some index \<Rightarrow>
                          let (arena, pos) = new_arena_chunk (arena_at S index)
                          in assert_r (pos \<noteq> 0) (Inr (put_arena index arena S, pos)))
                 else Inr (S, pos)) (\<lambda>(S, pos).
         if pos \<noteq> 0
         then bind_r (get_or_update_addr os S pos) (\<lambda>(S, addr).
              if addr = None then Inl NullDeref
              else bind_r (init_chunk (sy_mem S) pos pos type) (\<lambda>s. Inr (S\<lparr>sy_mem := s\<rparr>, Some pos)))
         else Inr (S, None)))"

definition get_or_new_chunk :: "'w os \<Rightarrow> 'w sys \<Rightarrow> u32 \<Rightarrow> u64 \<Rightarrow> ('w sys \<times> u64 option) res" where
  "get_or_new_chunk os S type sz =
     bind_r (get_avaliable_chunk (sy_mem S) type sz) (\<lambda>chunk.
     case chunk of None \<Rightarrow> new_chunk os S type | Some c \<Rightarrow> Inr (S, Some c))"

definition check_delete_chunk :: "'w os \<Rightarrow> 'w sys \<Rightarrow> u32 \<Rightarrow> u64 \<Rightarrow> 'w sys res" where
  "check_delete_chunk os S index pos =
     bind_r (delete_arena_chunk (arena_at S index) pos) (\<lambda>arena.
     let S = put_arena index arena S
     in if ar_used arena = 0 \<and> ar_type arena \<noteq> ARENA_TYPE_CONTEXT then delete_arena os S (ar_index arena)
        else Inr S)"

definition try_run_pool :: "'w os \<Rightarrow> 'w sys \<Rightarrow> u32 \<Rightarrow> ('w sys \<times> u64 option) res" where
  "try_run_pool os S runidx =
     bind_r (run_pool_at (sy_mem S) runidx) (\<lambda>pool.
     let run_pos = pool_root pool
     in if run_pos = 0 then Inr (S, None)
        else bind_r (get_or_update_addr os S run_pos) (\<lambda>(S, addr).
             assert_r (addr \<noteq> None) (Inr (S, Some run_pos))))"

section \<open>Allocation\<close>

definition malloc_small :: "'w os \<Rightarrow> 'w sys \<Rightarrow> u64 \<Rightarrow> ('w sys \<times> u64) res" where
  "malloc_small os S sz =
     bind_r (find_run_config sz) (\<lambda>runidx.
     bind_r (try_run_pool os S runidx) (\<lambda>(S, run).
     bind_r (case run of Some run \<Rightarrow> Inr (S, Some run)
             | None \<Rightarrow>
                 bind_r (get_or_new_chunk os S CHUNK_TYPE_SMALL sz) (\<lambda>(S, chunk).
                 case chunk of None \<Rightarrow> Inr (S, None)
                 | Some chunk \<Rightarrow>
                     bind_r (new_chunk_run run_fuel (sy_mem S) chunk runidx) (\<lambda>(s, run).
                     Inr (S\<lparr>sy_mem := s\<rparr>, Some run)))) (\<lambda>(S, run).
     case run of None \<Rightarrow> Inr (S, 0)
     | Some run \<Rightarrow>
         bind_r (malloc_chunk_run run_fuel (sy_mem S) run) (\<lambda>(s, ret).
         Inr (S\<lparr>sy_mem := s\<rparr>, ret)))))"

definition malloc_medium :: "'w os \<Rightarrow> 'w sys \<Rightarrow> u64 \<Rightarrow> ('w sys \<times> u64) res" where
  "malloc_medium os S sz =
     bind_r (get_or_new_chunk os S CHUNK_TYPE_MEDIUM sz) (\<lambda>(S, chunk).
     case chunk of None \<Rightarrow> Inr (S, 0)
     | Some chunk \<Rightarrow>
         bind_r (malloc_chunk_medium (sy_mem S) chunk sz) (\<lambda>(s, ret).
         Inr (S\<lparr>sy_mem := s\<rparr>, ret)))"

definition malloc_large :: "'w os \<Rightarrow> 'w sys \<Rightarrow> u64 \<Rightarrow> ('w sys \<times> u64) res" where
  "malloc_large os S sz =
     bind_r (new_arena os S ARENA_TYPE_LARGE (align_size sz SHM_CHUNK_UNIT_SIZE)) (\<lambda>(S, arena).
     Inr (S, case arena of None \<Rightarrow> 0 | Some index \<Rightarrow> index2pos (ar_index (arena_at S index)) 0))"

definition malloc_arena :: "'w os \<Rightarrow> 'w sys \<Rightarrow> u64 \<Rightarrow> ('w sys \<times> u64) res" where
  "malloc_arena os S sz =
     (if sz \<le> CHUNK_SMALL_LIMIT then malloc_small os S sz
      else if sz \<le> CHUNK_MEDIUM_LIMIT then malloc_medium os S sz
      else malloc_large os S sz)"

text \<open>
  A chunk header is at the start of a chunk. The first entry of the first arena is not one: the
  code would take the bytes of the shared context for a header, the model stops.
\<close>

definition chunk_at :: "'w os \<Rightarrow> 'w sys \<Rightarrow> u64 \<Rightarrow> 'w sys res" where
  "chunk_at os S pos =
     bind_r (get_or_update_addr os S pos) (\<lambda>(S, addr).
     if addr = None then Inl NullDeref
     else if pos2offset pos mod SHM_CHUNK_UNIT_SIZE \<noteq> 0 then Inl WildAccess else Inr S)"

definition free_arena :: "'w os \<Rightarrow> 'w sys \<Rightarrow> u32 \<Rightarrow> u32 \<Rightarrow> 'w sys res" where
  "free_arena os S index offset =
     (if \<not> is_arena_valid S index then Inr S
      else let type = ar_type (arena_at S index)
      in if type = ARENA_TYPE_CONTEXT \<or> type = ARENA_TYPE_CHUNK
         then bind_r (get_arena_chunk (arena_at S index) offset) (\<lambda>chunk_pos.
              if chunk_pos = 0 then Inr S
              else bind_r (chunk_at os S chunk_pos) (\<lambda>S.
                   let chunk_offset = offset - pos2offset chunk_pos
                   in assert_r (chunk_offset < SHM_CHUNK_UNIT_SIZE) (
                      bind_r (free_chunk run_fuel (sy_mem S) chunk_pos chunk_offset) (\<lambda>(s, check).
                      let S = S\<lparr>sy_mem := s\<rparr>
                      in if check then check_delete_chunk os S index chunk_pos else Inr S))))
         else if type = ARENA_TYPE_LARGE then delete_arena os S index
         else Inl AssertFail)"

definition check_arena :: "'w os \<Rightarrow> 'w sys \<Rightarrow> u32 \<Rightarrow> u32 \<Rightarrow> ('w sys \<times> u64) res" where
  "check_arena os S index offset =
     (if \<not> is_arena_valid S index then Inr (S, 0)
      else let type = ar_type (arena_at S index)
      in if type = ARENA_TYPE_CONTEXT \<or> type = ARENA_TYPE_CHUNK
         then bind_r (get_arena_chunk (arena_at S index) offset) (\<lambda>chunk_pos.
              if chunk_pos = 0 then Inr (S, 0)
              else bind_r (chunk_at os S chunk_pos) (\<lambda>S.
                   let chunk_offset = offset - pos2offset chunk_pos
                   in assert_r (chunk_offset < SHM_CHUNK_UNIT_SIZE) (
                      bind_r (check_chunk (sy_mem S) chunk_pos offset) (\<lambda>ret. Inr (S, ret)))))
         else if type = ARENA_TYPE_LARGE then Inr (S, ar_size (arena_at S index))
         else Inl AssertFail)"

definition lock_context :: "'w os \<Rightarrow> 'w sys \<Rightarrow> 'w sys" where
  "lock_context os S = S\<lparr>sy_world := snd (os_mutex_lock os (sy_world S))\<rparr>"

definition unlock_context :: "'w os \<Rightarrow> 'w sys \<Rightarrow> 'w sys" where
  "unlock_context os S = S\<lparr>sy_world := snd (os_mutex_unlock os (sy_world S))\<rparr>"

section \<open>The life of the context\<close>

definition init_shm_shared_field :: "'w os \<Rightarrow> 'w sys \<Rightarrow> int \<Rightarrow> int \<Rightarrow> 'w sys" where
  "init_shm_shared_field os S key shmid =
     S\<lparr>sy_mem := shared_fields (sy_mem S) key shmid, sy_world := snd (shm_lock_init os (sy_world S))\<rparr>"

text \<open>\<open>init_shared_context\<close>: the result is the address of the context, 0 for \<open>NULL\<close>.\<close>

definition init_shared_context :: "nat \<Rightarrow> 'w os \<Rightarrow> 'w sys \<Rightarrow> string \<Rightarrow> bool \<Rightarrow> ('w sys \<times> u64) res" where
  "init_shared_context fuel os S path create =
     (let ((err, key), w) = shm_get_key os (sy_world S) path 0 0;
          S = S\<lparr>sy_world := w\<rparr>
      in if err \<noteq> 0 then Inr (S, 0)
         else let ((addr, shmid, _), w) = shm_mmap os (sy_world S) key SHM_ARENA_UNIT_SIZE create 0;
                  S = S\<lparr>sy_world := w\<rparr>
         in if addr = 0 then Inr (S, 0)
            else bind_r (if create
                         then bind_r (shm_lock_file fuel os (sy_world S) path) (\<lambda>(lockfd, w).
                              let S = S\<lparr>sy_world := w\<rparr>
                              in if lockfd < 0 then Inr (S, False)
                                 else let S = (if sc_init_flag (sy_mem S) \<noteq> SHM_INIT_FLAG
                                               then init_shm_shared_field os S key shmid else S)
                                      in Inr (S\<lparr>sy_world := shm_unlock_file os (sy_world S) lockfd\<rparr>, True))
                         else Inr (S, True)) (\<lambda>(S, ok).
                 if \<not> ok then Inr (S, 0)
                 else assert_r (sc_init_flag (sy_mem S) = SHM_INIT_FLAG) (
                      assert_r (key = sc_key (sy_mem S)) (
                      let s = (sy_mem S)\<lparr>sc_count := sc_count (sy_mem S) + 1\<rparr>
                      in Inr (S\<lparr>sy_mem := s\<rparr>, addr)))))"

definition exit_shared_context :: "'w os \<Rightarrow> 'w sys \<Rightarrow> 'w sys" where
  "exit_shared_context os S =
     (let s = (sy_mem S)\<lparr>sc_count := sc_count (sy_mem S) - 1\<rparr>;
          S = S\<lparr>sy_mem := s\<rparr>
      in if sc_count s = 0
         then S\<lparr>sy_world := snd (shm_remove os (sy_world S) (ar_shmid (arena_at S 0)))\<rparr> else S)"

end
