(* ===== verification/Arena_Inv.thy ===== *)
theory Arena_Inv
  imports ShmContext
begin

text \<open>
  The arenas of the shared context: which chunks exist, and that the pools hold exactly these.
  \<open>sys_inv\<close> is the invariant of the whole allocator as one process sees it.
\<close>

section \<open>Positions of chunks\<close>

definition chunk_slot :: "nat \<Rightarrow> nat \<Rightarrow> u64" where
  "chunk_slot i j = index2pos (word_of_nat i) (word_of_nat j * SHM_CHUNK_UNIT_SIZE)"

lemma unat_slot_offset: "j < 8 \<Longrightarrow> unat (word_of_nat j * 1048576 :: u32) = j * 1048576"
proof -
  assume "j < 8"
  then have "unat (word_of_nat j :: u32) = j" by (intro unat_of_nat_small) simp
  then show ?thesis using \<open>j < 8\<close> by (simp add: unat_word_ariths)
qed

lemma unat_chunk_slot: "i < 128 \<Longrightarrow> j < 8 \<Longrightarrow> unat (chunk_slot i j) = i * 2 ^ 32 + j * 1048576"
  by (simp add: chunk_slot_def unat_index2pos unat_slot_offset unat_of_nat_small)

lemma chunk_slot_inject:
  assumes "i < 128" "j < 8" "i' < 128" "j' < 8"
  shows "chunk_slot i j = chunk_slot i' j' \<longleftrightarrow> i = i' \<and> j = j'"
proof
  assume "chunk_slot i j = chunk_slot i' j'"
  then have e: "i * 2 ^ 32 + j * 1048576 = i' * 2 ^ 32 + j' * 1048576"
    using unat_chunk_slot assms by metis
  have q: "(k * 2 ^ 32 + l * 1048576) div 2 ^ 32 = k" if "l < 8" for k l :: nat using that by simp
  have ii: "i = i'" using q [OF assms(2), of i] q [OF assms(4), of i'] e by simp
  then show "i = i' \<and> j = j'" using e by simp
qed simp

lemma chunk_slot_aligned:
  assumes "i < 128" "j < 8" "(i, j) \<noteq> (0, 0)"
  shows "chunk_aligned (chunk_slot i j)"
proof -
  note u = unat_chunk_slot [OF assms(1,2)]
  have "chunk_slot i j \<noteq> 0"
  proof
    assume "chunk_slot i j = 0"
    then show False using u assms(3) by simp
  qed
  moreover have "1048576 dvd unat (chunk_slot i j)"
  proof -
    have "i * 2 ^ 32 + j * 1048576 = 1048576 * (i * 4096 + j)" by simp
    then show ?thesis unfolding u by (simp only: dvd_triv_left)
  qed
  ultimately show ?thesis by (simp add: chunk_aligned_def)
qed

lemma chunk_slot_parts:
  "i < 128 \<Longrightarrow> pos2index (chunk_slot i j) = word_of_nat i"
  "pos2offset (chunk_slot i j) = word_of_nat j * 1048576"
  by (simp_all add: chunk_slot_def)

text \<open>The two halves of a position inside a chunk.\<close>

lemma pos_parts:
  assumes "unat p = i * 2 ^ 32 + n" and "i < 128" "n < 2 ^ 32"
  shows "pos2index p = word_of_nat i" "pos2offset p = word_of_nat n"
proof -
  have "unat (index2pos (word_of_nat i) (word_of_nat n)) = i * 2 ^ 32 + n"
    using assms(2,3) by (simp add: unat_index2pos unat_of_nat_small)
  then have "p = index2pos (word_of_nat i) (word_of_nat n)" using assms(1) by (simp add: word_unat_eq_iff)
  then show "pos2index p = word_of_nat i" "pos2offset p = word_of_nat n" by simp_all
qed

lemma slot_inner:
  assumes "i < 128" "j < 8" "(i, j) \<noteq> (0, 0)" "n < SHM_CHUNK_UNIT_SIZE"
  shows "pos2index (chunk_slot i j + word_of_nat n) = word_of_nat i"
    "pos2offset (chunk_slot i j + word_of_nat n) = word_of_nat (j * SHM_CHUNK_UNIT_SIZE + n)"
proof -
  have "unat (chunk_slot i j + word_of_nat n) = i * 2 ^ 32 + (j * 1048576 + n)"
    using chunk_aligned_bound(2) [OF chunk_slot_aligned [OF assms(1-3)] assms(4)]
      unat_chunk_slot [OF assms(1,2)] by simp
  moreover have "j * 1048576 + n < 2 ^ 32" using assms(2,4) by simp
  ultimately show "pos2index (chunk_slot i j + word_of_nat n) = word_of_nat i"
    "pos2offset (chunk_slot i j + word_of_nat n) = word_of_nat (j * SHM_CHUNK_UNIT_SIZE + n)"
    using pos_parts assms(1) by blast+
qed

lemma page_index_slot:
  assumes "i < 128" "j < 8" "(i, j) \<noteq> (0, 0)" "n < 256"
  shows "pos2index (page (chunk_slot i j) n) = word_of_nat i"
  unfolding page_def by (rule slot_inner(1)) (use assms in simp_all)

lemma index_word: "i < 128 \<Longrightarrow> unat (word_of_nat i :: u32) = i" "i < 128 \<Longrightarrow> (word_of_nat i :: u32) < 128"
  by (simp_all add: unat_of_nat_small word_less_nat_alt)

section \<open>The table of arenas\<close>

text \<open>An arena that is cut into chunks.\<close>

abbreviation chunked :: "shm_arena \<Rightarrow> bool" where
  "chunked a \<equiv> ar_type a = ARENA_TYPE_CONTEXT \<or> ar_type a = ARENA_TYPE_CHUNK"

definition slot_entry :: "nat \<Rightarrow> nat \<Rightarrow> u64" where
  "slot_entry i j = (if i = 0 \<and> j = 0 then index2pos 0 1 else chunk_slot i j)"

definition arena_ok :: "shm_arena \<Rightarrow> nat \<Rightarrow> bool" where
  "arena_ok a i \<longleftrightarrow> length (ar_chunks a) = 8 \<and> (ar_type a \<noteq> ARENA_TYPE_EMPTY \<longrightarrow> ar_index a = word_of_nat i)
     \<and> (ar_type a = ARENA_TYPE_CONTEXT \<longleftrightarrow> i = 0) \<and> ar_type a \<le> ARENA_TYPE_LARGE
     \<and> (chunked a \<longrightarrow> ar_size a = SHM_ARENA_UNIT_SIZE
          \<and> (\<forall>j < 8. ar_chunks a ! j = 0 \<or> ar_chunks a ! j = slot_entry i j)
          \<and> unat (ar_used a) = card {j. j < 8 \<and> ar_chunks a ! j \<noteq> 0})
     \<and> (i = 0 \<longrightarrow> ar_chunks a ! 0 \<noteq> 0)"

definition has_chunk :: "shm_state \<Rightarrow> nat \<Rightarrow> nat \<Rightarrow> bool" where
  "has_chunk s i j \<longleftrightarrow> i < 128 \<and> j < 8 \<and> (i, j) \<noteq> (0, 0) \<and> chunked (sc_arenas s ! i)
     \<and> ar_chunks (sc_arenas s ! i) ! j = chunk_slot i j"

definition chunk_set :: "shm_state \<Rightarrow> u64 set" where
  "chunk_set s = {chunk_slot i j | i j. has_chunk s i j}"

definition arena_inv :: "shm_state \<Rightarrow> (bool \<Rightarrow> u64 list) \<Rightarrow> bool" where
  "arena_inv s P \<longleftrightarrow> length (sc_arenas s) = 128 \<and> (\<forall>i < 128. arena_ok (sc_arenas s ! i) i)
     \<and> set (P True) \<union> set (P False) = chunk_set s"

text \<open>The process has every arena mapped: its table agrees with the context's.\<close>

definition maps_ok :: "'w sys \<Rightarrow> bool" where
  "maps_ok S \<longleftrightarrow> length (sy_addrs S) = 128
     \<and> (\<forall>i < 128. ar_type (sc_arenas (sy_mem S) ! i) \<noteq> ARENA_TYPE_EMPTY \<longrightarrow>
          aa_shmid (sy_addrs S ! i) = ar_shmid (sc_arenas (sy_mem S) ! i) \<and> aa_addr (sy_addrs S ! i) \<noteq> 0)"

definition sys_inv :: "'w sys \<Rightarrow> (bool \<Rightarrow> u64 list) \<Rightarrow> (nat \<Rightarrow> u64 set) \<Rightarrow> (u64 \<Rightarrow> nat list)
    \<Rightarrow> (u64 \<Rightarrow> extent list) \<Rightarrow> (u64 \<Rightarrow> u16 list) \<Rightarrow> bool" where
  "sys_inv S P R F E X \<longleftrightarrow> heap_inv (sy_mem S) P R F E X \<and> arena_inv (sy_mem S) P \<and> maps_ok S"

lemma arena_invD:
  assumes "arena_inv s P"
  shows "length (sc_arenas s) = 128" "\<And>i. i < 128 \<Longrightarrow> arena_ok (sc_arenas s ! i) i"
    "set (P True) \<union> set (P False) = chunk_set s"
  using assms unfolding arena_inv_def by blast+

lemma in_pool_slot:
  assumes "arena_inv s P" and "c \<in> set (P b)"
  obtains i j where "c = chunk_slot i j" "has_chunk s i j" "i < 128" "j < 8" "(i, j) \<noteq> (0, 0)"
proof -
  have "c \<in> chunk_set s" using arena_invD(3) [OF assms(1)] assms(2) by (cases b) auto
  then obtain i j where "c = chunk_slot i j" "has_chunk s i j" by (auto simp: chunk_set_def)
  moreover then have "i < 128" "j < 8" "(i, j) \<noteq> (0, 0)" unfolding has_chunk_def by blast+
  ultimately show ?thesis using that by blast
qed

text \<open>There are at most 1024 chunks, so the fuel of the run pools is enough.\<close>

lemma card_chunk_set: "card (chunk_set s) \<le> 1024" "finite (chunk_set s)"
proof -
  define A :: "(nat \<times> nat) set" where "A = {..<128} \<times> {..<8}"
  have A: "finite A" "card A = 1024"
    unfolding A_def by (simp_all only: finite_cartesian_product finite_lessThan card_cartesian_product card_lessThan)
  have sub: "chunk_set s \<subseteq> (\<lambda>(i, j). chunk_slot i j) ` A"
  proof
    fix c assume "c \<in> chunk_set s"
    then obtain i j where "c = chunk_slot i j" "i < 128" "j < 8" unfolding chunk_set_def has_chunk_def by blast
    then show "c \<in> (\<lambda>(i, j). chunk_slot i j) ` A" unfolding A_def by force
  qed
  show "finite (chunk_set s)" by (rule finite_subset [OF sub finite_imageI [OF A(1)]])
  have "card (chunk_set s) \<le> card ((\<lambda>(i, j). chunk_slot i j) ` A)"
    by (rule card_mono [OF finite_imageI [OF A(1)] sub])
  also have "\<dots> \<le> card A" by (rule card_image_le [OF A(1)])
  finally show "card (chunk_set s) \<le> 1024" using A(2) by linarith
qed

lemma pools_bound:
  assumes "arena_inv s P" and "cpools s P"
  shows "length (P b) \<le> 1024"
proof -
  have sub: "set (P b) \<subseteq> chunk_set s"
  proof -
    have "set (P b) \<subseteq> set (P True) \<union> set (P False)" by (cases b) simp_all
    then show ?thesis using arena_invD(3) [OF assms(1)] by simp
  qed
  have "length (P b) = card (set (P b))"
    using rb_rep_distinct [OF cpoolsD(1) [OF assms(2)]] by (simp add: distinct_card)
  also have "\<dots> \<le> card (chunk_set s)"
    by (rule card_mono [OF card_chunk_set(2) sub])
  finally show ?thesis using card_chunk_set(1) [of s] by linarith
qed

lemma run_pages_bound:
  assumes "finite C" "card C \<le> 1024"
  shows "Suc (card (run_pages s C)) < run_fuel"
proof -
  have "run_pages s C \<subseteq> (\<lambda>(c, i). page c i) ` (C \<times> {..<256})" by (auto simp: run_pages_def)
  then have "card (run_pages s C) \<le> card ((\<lambda>(c, i). page c i) ` (C \<times> {..<256}))"
    using assms(1) by (intro card_mono) simp_all
  also have "\<dots> \<le> card (C \<times> {..<256 :: nat})" by (rule card_image_le) (use assms(1) in simp)
  also have "\<dots> \<le> 262144" using assms(2) by simp
  finally show ?thesis by (simp add: run_fuel_def)
qed

lemma fuel_enough:
  assumes "arena_inv s P" and "cpools s P"
  shows "Suc (card (run_pages s (set (P True)))) < run_fuel" "run_fuel \<le> 2 ^ 32"
proof -
  have "card (set (P True)) \<le> 1024" using pools_bound [OF assms, of True] card_length le_trans by blast
  then show "Suc (card (run_pages s (set (P True)))) < run_fuel" by (intro run_pages_bound) simp_all
  show "run_fuel \<le> 2 ^ 32" by (simp add: run_fuel_def)
qed

section \<open>Address translation\<close>

lemma arena_at_nat [simp]: "i < 128 \<Longrightarrow> arena_at S (word_of_nat i) = sc_arenas (sy_mem S) ! i"
  by (simp add: arena_at_def index_word)

lemma translate_index:
  assumes m: "maps_ok S" and i: "i < 128" "ar_type (sc_arenas (sy_mem S) ! i) \<noteq> ARENA_TYPE_EMPTY"
  shows "get_or_update_arena_addr os S (word_of_nat i) = Inr (S, aa_addr (sy_addrs S ! i))"
  using assms by (simp add: get_or_update_arena_addr_def maps_ok_def get_arena_addr_def index_word)

lemma translate:
  assumes m: "maps_ok S" and i: "i < 128" "ar_type (sc_arenas (sy_mem S) ! i) \<noteq> ARENA_TYPE_EMPTY"
    and p: "pos \<noteq> 0" "pos2index pos = word_of_nat i"
  shows "\<exists>a. get_or_update_addr os S pos = Inr (S, Some a)"
  using translate_index [OF m i, of os] m i p by (simp add: get_or_update_addr_def maps_ok_def)

lemma translate_chunk:
  assumes m: "maps_ok S" and h: "has_chunk (sy_mem S) i j"
  shows "\<exists>a. get_or_update_addr os S (chunk_slot i j) = Inr (S, Some a)"
proof -
  have h': "i < 128" "j < 8" "(i, j) \<noteq> (0, 0)" "chunked (sc_arenas (sy_mem S) ! i)"
    using h unfolding has_chunk_def by blast+
  then have "chunk_slot i j \<noteq> 0" using chunk_slot_aligned by (simp add: chunk_aligned_def)
  moreover have "ar_type (sc_arenas (sy_mem S) ! i) \<noteq> 0" using h'(4) by auto
  ultimately show ?thesis using translate [OF m h'(1)] chunk_slot_parts(1) [OF h'(1)] by simp
qed


section \<open>The table after a change of one arena\<close>

lemma has_chunk_put:
  assumes "sc_arenas s' = (sc_arenas s)[i := a]" and "length (sc_arenas s) = 128" "i < 128"
  shows "has_chunk s' k j \<longleftrightarrow> (if k = i then j < 8 \<and> (i, j) \<noteq> (0, 0) \<and> chunked a \<and> ar_chunks a ! j = chunk_slot i j
     else has_chunk s k j)"
  using assms by (auto simp: has_chunk_def)

lemma arena_inv_put:
  assumes inv: "arena_inv s P" and a: "arena_ok a i" "i < 128"
    and s': "sc_arenas s' = (sc_arenas s)[i := a]" and P': "set (P' True) \<union> set (P' False) = chunk_set s'"
  shows "arena_inv s' P'"
proof -
  have "arena_ok (sc_arenas s' ! k) k" if "k < 128" for k
    using arena_invD(1,2) [OF inv] a that by (cases "k = i") (simp_all add: s')
  then show ?thesis using P' arena_invD(1) [OF inv] by (simp add: arena_inv_def s')
qed

lemma chunk_slot_nonzero: "i < 128 \<Longrightarrow> j < 8 \<Longrightarrow> (i, j) \<noteq> (0, 0) \<Longrightarrow> chunk_slot i j \<noteq> 0"
  using chunk_slot_aligned by (simp add: chunk_aligned_def)

text \<open>An arena without chunks in the place of one without chunks.\<close>

lemma chunk_set_same:
  assumes s': "sc_arenas s' = (sc_arenas s)[i := a]" and l: "length (sc_arenas s) = 128" "i < 128"
    and no: "\<And>j. \<not> has_chunk s i j" "\<And>j. j < 8 \<Longrightarrow> (i, j) \<noteq> (0, 0) \<Longrightarrow> chunked a \<Longrightarrow> ar_chunks a ! j = 0"
  shows "chunk_set s' = chunk_set s"
proof -
  have "has_chunk s' k j = has_chunk s k j" for k j
    using has_chunk_put [OF s' l, of k j] no chunk_slot_nonzero [OF l(2), of j] by (cases "k = i") auto
  then show ?thesis by (simp add: chunk_set_def)
qed

lemma card_slot_put:
  assumes "length xs = 8" "j < 8"
  shows "card {k. k < 8 \<and> xs[j := v] ! k \<noteq> (0 :: u64)} = card ({k. k < 8 \<and> xs ! k \<noteq> 0} - {j}) + (if v \<noteq> 0 then 1 else 0)"
proof -
  let ?A = "{k. k < 8 \<and> xs ! k \<noteq> 0}"
  have f: "finite (?A - {j})" by simp
  have "{k. k < 8 \<and> xs[j := v] ! k \<noteq> 0} = (if v \<noteq> 0 then insert j (?A - {j}) else ?A - {j})"
    using assms by (auto simp: nth_list_update)
  then show ?thesis using card_insert_disjoint [OF f, of j] by (cases "v = 0") simp_all
qed

abbreviation put_slot :: "shm_arena \<Rightarrow> nat \<Rightarrow> u64 \<Rightarrow> u32 \<Rightarrow> shm_arena" where
  "put_slot a j v u \<equiv> a\<lparr>ar_chunks := (ar_chunks a)[j := v], ar_used := u\<rparr>"

lemma arena_okD:
  assumes "arena_ok a i"
  shows "length (ar_chunks a) = 8" "ar_type a \<noteq> 0 \<Longrightarrow> ar_index a = word_of_nat i" "ar_type a = 1 \<longleftrightarrow> i = 0"
    "ar_type a \<le> 3" "chunked a \<Longrightarrow> ar_size a = SHM_ARENA_UNIT_SIZE"
    "chunked a \<Longrightarrow> j < 8 \<Longrightarrow> ar_chunks a ! j = 0 \<or> ar_chunks a ! j = slot_entry i j"
    "chunked a \<Longrightarrow> unat (ar_used a) = card {j. j < 8 \<and> ar_chunks a ! j \<noteq> 0}" "i = 0 \<Longrightarrow> ar_chunks a ! 0 \<noteq> 0"
  using assms unfolding arena_ok_def by blast+

lemma arena_ok_put_slot:
  assumes ok: "arena_ok a i" "chunked a" and j: "j < 8" "(i, j) \<noteq> (0, 0)"
    and v: "v = 0 \<or> v = chunk_slot i j"
    and u: "unat u = card {k. k < 8 \<and> (ar_chunks a)[j := v] ! k \<noteq> 0}"
  shows "arena_ok (put_slot a j v u) i"
proof -
  note A = arena_okD [OF ok(1)]
  have "(ar_chunks a)[j := v] ! k = 0 \<or> (ar_chunks a)[j := v] ! k = slot_entry i k" if "k < 8" for k
    using A(6) [OF ok(2) that] v j A(1) by (auto simp: nth_list_update slot_entry_def)
  moreover have "i = 0 \<longrightarrow> (ar_chunks a)[j := v] ! 0 \<noteq> 0" using A(8) j by auto
  ultimately show ?thesis using A(1-5) ok(2) u by (simp add: arena_ok_def)
qed

lemma slots_le: "card {k :: nat. k < 8 \<and> Q k} \<le> 8"
proof -
  have "card {k :: nat. k < 8 \<and> Q k} \<le> card {..<8 :: nat}" by (rule card_mono) auto
  then show ?thesis by simp
qed

lemma arena_ok_take:
  assumes ok: "arena_ok a i" "chunked a" "i < 128" and j: "j < 8" "(i, j) \<noteq> (0, 0)" "ar_chunks a ! j = 0"
  shows "arena_ok (put_slot a j (chunk_slot i j) (ar_used a + 1)) i"
proof (rule arena_ok_put_slot [OF ok(1,2) j(1,2)])
  note A = arena_okD [OF ok(1)]
  let ?A = "{k. k < 8 \<and> ar_chunks a ! k \<noteq> 0}"
  have "unat (ar_used a) = card ?A" using A(7) [OF ok(2)] .
  then have "unat (ar_used a + 1) = card ?A + 1"
    using slots_le [of "\<lambda>k. ar_chunks a ! k \<noteq> 0"] by (simp add: unat_word_ariths)
  moreover have "?A - {j} = ?A" using j(3) by auto
  ultimately show "unat (ar_used a + 1) = card {k. k < 8 \<and> (ar_chunks a)[j := chunk_slot i j] ! k \<noteq> 0}"
    using card_slot_put [OF A(1) j(1), of "chunk_slot i j"] chunk_slot_nonzero [OF ok(3) j(1,2)] by simp
qed simp

lemma arena_ok_drop:
  assumes ok: "arena_ok a i" "chunked a" and j: "j < 8" "(i, j) \<noteq> (0, 0)" "ar_chunks a ! j \<noteq> 0"
  shows "arena_ok (put_slot a j 0 (ar_used a - 1)) i"
proof (rule arena_ok_put_slot [OF ok(1,2) j(1,2)])
  note A = arena_okD [OF ok(1)]
  let ?A = "{k. k < 8 \<and> ar_chunks a ! k \<noteq> 0}"
  have u: "unat (ar_used a) = card ?A" using A(7) [OF ok(2)] .
  have "card (?A - {j}) = card ?A - 1" "card ?A > 0" using j by (auto simp: card_gt_0_iff)
  moreover have "ar_used a \<noteq> 0" using u calculation(2) by (metis unat_0 less_numeral_extra(3))
  then have "unat (ar_used a - 1) = unat (ar_used a) - 1" by (simp add: unat_minus_one)
  ultimately show "unat (ar_used a - 1) = card {k. k < 8 \<and> (ar_chunks a)[j := 0] ! k \<noteq> 0}"
    using card_slot_put [OF A(1) j(1), of 0] u by simp
qed simp

lemma chunk_set_take:
  assumes s': "sc_arenas s' = (sc_arenas s)[i := put_slot (sc_arenas s ! i) j (chunk_slot i j) u]"
    and l: "length (sc_arenas s) = 128" "i < 128" and a: "chunked (sc_arenas s ! i)" "length (ar_chunks (sc_arenas s ! i)) = 8"
    and j: "j < 8" "(i, j) \<noteq> (0, 0)"
  shows "chunk_set s' = insert (chunk_slot i j) (chunk_set s)"
proof -
  have h: "has_chunk s' k m \<longleftrightarrow> (k, m) = (i, j) \<or> has_chunk s k m" for k m
    using has_chunk_put [OF s' l, of k m] a j l(2) by (auto simp: nth_list_update has_chunk_def)
  show ?thesis unfolding chunk_set_def h by blast
qed

lemma chunk_set_drop:
  assumes s': "sc_arenas s' = (sc_arenas s)[i := put_slot (sc_arenas s ! i) j 0 u]"
    and l: "length (sc_arenas s) = 128" "i < 128" and a: "length (ar_chunks (sc_arenas s ! i)) = 8"
    and j: "j < 8" "(i, j) \<noteq> (0, 0)"
  shows "chunk_set s' = chunk_set s - {chunk_slot i j}"
proof -
  have h: "has_chunk s' k m \<longleftrightarrow> (k, m) \<noteq> (i, j) \<and> has_chunk s k m" for k m
    using has_chunk_put [OF s' l, of k m] a j l(2) chunk_slot_nonzero [OF l(2) j]
    by (auto simp: nth_list_update has_chunk_def)
  have "chunk_slot k m = chunk_slot i j \<longleftrightarrow> k = i \<and> m = j" if "has_chunk s k m" for k m
    using that chunk_slot_inject [of k m i j] l(2) j(1) by (simp add: has_chunk_def)
  then show ?thesis unfolding chunk_set_def h by auto
qed

section \<open>Taking a chunk from an arena\<close>

lemma new_arena_chunk_cases:
  assumes ok: "arena_ok a i" "chunked a" and i: "i < 128"
  shows "new_arena_chunk a = (a, 0) \<and> (\<forall>j < 8. ar_chunks a ! j \<noteq> 0)
    \<or> (\<exists>j. j < 8 \<and> (i, j) \<noteq> (0, 0) \<and> ar_chunks a ! j = 0
         \<and> new_arena_chunk a = (put_slot a j (chunk_slot i j) (ar_used a + 1), chunk_slot i j))"
proof -
  note A = arena_okD [OF ok(1)]
  let ?lo = "if ar_type a = ARENA_TYPE_CONTEXT then 1 else 0 :: nat"
  let ?f = "find (\<lambda>idx. ar_chunks a ! idx = 0) [?lo..<8]"
  have ix: "ar_index a = word_of_nat i" using A(2) ok(2) by auto
  show ?thesis
  proof (cases ?f)
    case None
    then have "\<forall>j \<in> set [?lo..<8]. ar_chunks a ! j \<noteq> 0" by (simp only: find_None_iff) blast
    moreover have "j \<in> set [?lo..<8] \<or> j = 0 \<and> i = 0" if "j < 8" for j
      using that A(3) by (cases "ar_type a = 1") auto
    ultimately have "\<forall>j < 8. ar_chunks a ! j \<noteq> 0" using A(8) by blast
    then show ?thesis using None by (simp only: new_arena_chunk_def option.case) blast
  next
    case (Some j)
    then have "j \<in> set [?lo..<8]" "ar_chunks a ! j = 0"
      by (auto simp only: find_Some_iff nth_mem)
    moreover then have "j < 8" "(i, j) \<noteq> (0, 0)" using A(3) A(8) by auto
    moreover have "new_arena_chunk a = (put_slot a j (chunk_slot i j) (ar_used a + 1), chunk_slot i j)"
      unfolding new_arena_chunk_def Some Let_def option.case ix chunk_slot_def ..
    ultimately show ?thesis by blast
  qed
qed

lemma scan_rest:
  assumes "\<And>i. i \<in> set is \<Longrightarrow> ar_type (arena_at S i) \<noteq> ARENA_TYPE_CONTEXT"
  shows "\<exists>e. new_chunk_scan S is emp = (S, 0, e)
    \<and> (if \<exists>i \<in> set is. ar_type (arena_at S i) = ARENA_TYPE_EMPTY
       then e \<in> set is \<and> ar_type (arena_at S e) = ARENA_TYPE_EMPTY else e = emp)"
  using assms
proof (induction "is" arbitrary: emp)
  case (Cons i "is")
  have o: "\<And>j. j \<in> set is \<Longrightarrow> ar_type (arena_at S j) \<noteq> 1" "ar_type (arena_at S i) \<noteq> 1" using Cons.prems by auto
  show ?case
  proof (cases "ar_type (arena_at S i) = 0")
    case True
    obtain e where "new_chunk_scan S is i = (S, 0, e)"
      "if \<exists>j \<in> set is. ar_type (arena_at S j) = 0 then e \<in> set is \<and> ar_type (arena_at S e) = 0 else e = i"
      using Cons.IH [OF o(1), of i] by blast
    then show ?thesis using True o(2) by (auto split: if_splits)
  next
    case False
    obtain e where "new_chunk_scan S is emp = (S, 0, e)"
      "if \<exists>j \<in> set is. ar_type (arena_at S j) = 0 then e \<in> set is \<and> ar_type (arena_at S e) = 0 else e = emp"
      using Cons.IH [OF o(1), of emp] by blast
    then show ?thesis using False o(2) by (auto split: if_splits)
  qed
qed simp

lemma put_arena_same [simp]: "put_arena i (arena_at S i) S = S"
  by (simp add: put_arena_def arena_at_def)

text \<open>
  The whole search: a chunk of the first arena, or no chunk, and then the third result is not 0
  exactly when some arena is empty. The chunks of the other arenas are never looked at.
\<close>

abbreviation empty_arenas :: "shm_state \<Rightarrow> nat set" where
  "empty_arenas s \<equiv> {i. 1 \<le> i \<and> i < 128 \<and> ar_type (sc_arenas s ! i) = ARENA_TYPE_EMPTY}"

text \<open>There is no room for another arena of this size: the table is full, or the calls that
  \<open>new_arena\<close> makes for the first empty entry fail. There is no room for another chunk when also
  the first arena has no free one. A request is refused by what it needs.\<close>

definition no_arena :: "'w os \<Rightarrow> 'w sys \<Rightarrow> u64 \<Rightarrow> bool" where
  "no_arena os S sz \<longleftrightarrow> empty_arenas (sy_mem S) = {}
     \<or> \<not> grants os (sy_world S) (sy_path S) (word_of_nat (Min (empty_arenas (sy_mem S)))) sz"

definition no_room :: "'w os \<Rightarrow> 'w sys \<Rightarrow> bool" where
  "no_room os S \<longleftrightarrow> (\<forall>j < 8. ar_chunks (sc_arenas (sy_mem S) ! 0) ! j \<noteq> 0) \<and> no_arena os S SHM_ARENA_UNIT_SIZE"

definition refused :: "'w os \<Rightarrow> 'w sys \<Rightarrow> u64 \<Rightarrow> bool" where
  "refused os S sz \<longleftrightarrow> (if sz \<le> CHUNK_MEDIUM_LIMIT then no_room os S
     else no_arena os S (align_size sz SHM_CHUNK_UNIT_SIZE))"

lemma scan_cases:
  assumes inv: "arena_inv (sy_mem S) P"
  defines "a \<equiv> sc_arenas (sy_mem S) ! 0"
  shows "(\<exists>j e. j < 8 \<and> j \<noteq> 0 \<and> ar_chunks a ! j = 0
      \<and> new_chunk_scan S (map word_of_nat [0..<SHM_ARENA_MAX]) 0
        = (put_arena 0 (put_slot a j (chunk_slot 0 j) (ar_used a + 1)) S, chunk_slot 0 j, e))
    \<or> (\<exists>e. (\<forall>j < 8. ar_chunks a ! j \<noteq> 0) \<and> new_chunk_scan S (map word_of_nat [0..<SHM_ARENA_MAX]) 0 = (S, 0, e)
       \<and> (e \<noteq> 0 \<longleftrightarrow> empty_arenas (sy_mem S) \<noteq> {}))"
proof -
  let ?is = "map word_of_nat [1..<128] :: u32 list"
  have ok: "arena_ok a 0" using arena_invD(2) [OF inv, of 0] by (simp add: a_def)
  then have t: "ar_type a = 1" using arena_okD(3) by blast
  have a0: "arena_at S 0 = a" by (simp add: arena_at_def a_def)
  have l: "map word_of_nat [0..<128] = (0 :: u32) # ?is"
    by (simp only: upt_conv_Cons [of 0 128, simplified] list.map) simp
  have ne: "ar_type (arena_at S i) \<noteq> 1" if i: "i \<in> set ?is" for i
  proof -
    obtain k where k: "i = word_of_nat k" "1 \<le> k" "k < 128"
      using i unfolding set_map set_upt image_iff by (meson atLeastLessThan_iff)
    then show ?thesis using arena_okD(3) [OF arena_invD(2) [OF inv k(3)]] by simp
  qed
  obtain e where e: "new_chunk_scan S ?is 0 = (S, 0, e)"
    "if \<exists>i \<in> set ?is. ar_type (arena_at S i) = 0 then e \<in> set ?is \<and> ar_type (arena_at S e) = 0 else e = 0"
    using scan_rest [of ?is S 0] ne by blast
  have nz: "0 \<notin> set ?is"
  proof
    assume "0 \<in> set ?is"
    then obtain k where "(0 :: u32) = word_of_nat k" "1 \<le> k" "k < 128"
      unfolding set_map set_upt image_iff by (meson atLeastLessThan_iff)
    then show False using index_word(1) [of k] by simp
  qed
  have ex: "(\<exists>i \<in> set ?is. ar_type (arena_at S i) = 0) \<longleftrightarrow> empty_arenas (sy_mem S) \<noteq> {}"
    unfolding set_map set_upt by auto
  have eq: "e \<noteq> 0 \<longleftrightarrow> empty_arenas (sy_mem S) \<noteq> {}" using e(2) nz unfolding ex by (metis (lifting))
  consider "new_arena_chunk a = (a, 0)" "\<forall>j < 8. ar_chunks a ! j \<noteq> 0"
    | j where "j < 8" "j \<noteq> 0" "ar_chunks a ! j = 0"
      "new_arena_chunk a = (put_slot a j (chunk_slot 0 j) (ar_used a + 1), chunk_slot 0 j)"
    using new_arena_chunk_cases [OF ok] t by auto
  then show ?thesis
  proof cases
    case 1
    have "new_chunk_scan S (0 # ?is) 0 = (S, 0, e)" using 1(1) e(1) t put_arena_same [of 0 S] by (simp add: a0 del: upt_rec_numeral)
    then show ?thesis unfolding l using 1(2) eq by blast
  next
    case 2
    then have "new_chunk_scan S (0 # ?is) 0 = (put_arena 0 (put_slot a j (chunk_slot 0 j) (ar_used a + 1)) S, chunk_slot 0 j, 0)"
      using chunk_slot_nonzero [of 0 j] t by (simp add: a0 del: upt_rec_numeral)
    then show ?thesis unfolding l using 2 by blast
  qed
qed

section \<open>A new arena\<close>

text \<open>The invariant of the heap looks only at the pools, the chunks in them and their runs.\<close>

lemma heap_inv_cong:
  assumes inv: "heap_inv s P R F E X"
    and p: "sc_small_pool s' = sc_small_pool s" "sc_medium_pool s' = sc_medium_pool s" "sc_run_pool s' = sc_run_pool s"
    and c: "\<And>q. q \<in> set (P True) \<union> set (P False) \<Longrightarrow> chunks s' q = chunks s q \<and> chunk_nodes s' q = chunk_nodes s q"
    and r: "\<And>x. x \<in> run_pages s (set (P True)) \<Longrightarrow> runs s' x = runs s x \<and> run_nodes s' x = run_nodes s x"
  shows "heap_inv s' P R F E X"
proof -
  note H = heap_invD [OF inv]
  note D = small_invD [OF H(1)]
  have P': "cpools s' P" by (rule cpools_frame [OF H(3) p(1,2)]) (use c in blast)
  have G: "run_pages s' (set (P True)) = run_pages s (set (P True))" by (rule run_pages_cong) (simp add: c)
  have "small_ok s' q" if "q \<in> set (P True)" for q using D(2) [OF that] c [of q] that small_ok_cong [of s' q s] by simp
  moreover have "run_ok s' x (F x)" if "x \<in> run_pages s (set (P True))" for x
    using D(5) [OF that] r [OF that] by (simp add: run_ok_def)
  moreover have "pool_rep (sc_run_pool s' ! k) (run_nodes s') (R k)" if k: "1 \<le> k" "k \<le> 14" for k
  proof -
    have "R k \<subseteq> run_pages s (set (P True))" using D(6) [OF k] by blast
    then show ?thesis unfolding p(3) using r by (intro pool_rep_cong [OF D(4) [OF k]]) blast
  qed
  moreover have "R k = {x \<in> run_pages s (set (P True)). unat (rn_conf_index (runs s' x)) = k \<and> F x \<noteq> []}"
    if k: "1 \<le> k" "k \<le> 14" for k using D(6) [OF k] r by auto
  ultimately have "small_inv s' P R F" using P' D(3) p(3) unfolding small_inv_def G by simp
  moreover have "medium_inv s' P E X" by (rule medium_inv_same [OF H(2) P']) (simp_all add: c)
  ultimately show ?thesis by (simp add: heap_inv_def)
qed

definition fresh_arena :: "u32 \<Rightarrow> int \<Rightarrow> nat \<Rightarrow> u64 \<Rightarrow> shm_arena" where
  "fresh_arena type shmid i sz = \<lparr>ar_type = type, ar_shmid = shmid, ar_index = word_of_nat i, ar_size = sz,
     ar_used = 0, ar_chunks = replicate SHM_ARENA_CHUNK_SIZE 0\<rparr>"

definition with_arena :: "'w sys \<Rightarrow> nat \<Rightarrow> shm_arena \<Rightarrow> u64 \<Rightarrow> 'w \<Rightarrow> 'w sys" where
  "with_arena S i a addr w = S\<lparr>sy_world := w,
     sy_mem := (clear_segment (word_of_nat i) (sy_mem S))\<lparr>sc_arenas := (sc_arenas (sy_mem S))[i := a]\<rparr>,
     sy_addrs := (sy_addrs S)[i := \<lparr>aa_addr = addr, aa_shmid = ar_shmid a\<rparr>]\<rparr>"

lemma with_arena_sel [simp]:
  "sc_arenas (sy_mem (with_arena S i a addr w)) = (sc_arenas (sy_mem S))[i := a]"
  "sy_addrs (with_arena S i a addr w) = (sy_addrs S)[i := \<lparr>aa_addr = addr, aa_shmid = ar_shmid a\<rparr>]"
  by (simp_all add: with_arena_def)

lemma new_arena_cases:
  assumes sz: "sz mod SHM_CHUNK_UNIT_SIZE = 0"
  shows "(\<exists>w. new_arena os S type sz = Inr (S\<lparr>sy_world := w\<rparr>, None) \<and> no_arena os S sz)
    \<or> (\<exists>i w addr shmid. 1 \<le> i \<and> i < 128 \<and> ar_type (sc_arenas (sy_mem S) ! i) = ARENA_TYPE_EMPTY
         \<and> (\<forall>k. 1 \<le> k \<longrightarrow> k < i \<longrightarrow> ar_type (sc_arenas (sy_mem S) ! k) \<noteq> ARENA_TYPE_EMPTY) \<and> addr \<noteq> 0
         \<and> new_arena os S type sz = Inr (with_arena S i (fresh_arena type shmid i sz) addr w, Some (word_of_nat i)))"
proof (cases "find (\<lambda>i. ar_type (sc_arenas (sy_mem S) ! i) = ARENA_TYPE_EMPTY) [1..<128]")
  case None
  then have "new_arena os S type sz = Inr (S\<lparr>sy_world := sy_world S\<rparr>, None)" using sz by (simp only: new_arena_def) simp
  moreover have "no_arena os S sz" using None unfolding find_None_iff no_arena_def by auto
  ultimately show ?thesis by blast
next
  case (Some i)
  then obtain n where n: "n < length [1..<128 :: nat]" "i = [1..<128] ! n" "ar_type (sc_arenas (sy_mem S) ! i) = 0"
    "\<forall>m < n. ar_type (sc_arenas (sy_mem S) ! ([1..<128] ! m)) \<noteq> 0"
    unfolding find_Some_iff by blast
  have i: "1 \<le> i" "i < 128" "n = i - 1" using n(1,2) by (simp_all del: upt_rec_numeral)
  have before: "ar_type (sc_arenas (sy_mem S) ! k) \<noteq> 0" if "1 \<le> k" "k < i" for k
    using n(4) [rule_format, of "k - 1"] that i by (simp del: upt_rec_numeral)
  have ui: "unat (word_of_nat i :: u32) = i" using i by (intro index_word)
  obtain err key w1 where g: "shm_get_key os (sy_world S) (sy_path S) (word_of_nat i) 0 = ((err, key), w1)"
    by (metis prod.exhaust)
  obtain addr shmid e w2 where m: "shm_mmap os w1 key sz True 0 = ((addr, shmid, e), w2)" by (metis prod.exhaust)
  obtain r w3 where rm: "shm_remove os w2 shmid = (r, w3)" by (metis prod.exhaust)
  have eq: "new_arena os S type sz = (if err \<noteq> 0 then Inr (S\<lparr>sy_world := w1\<rparr>, None)
     else if addr = 0 then Inr (S\<lparr>sy_world := w2\<rparr>, None)
     else if r \<noteq> 0 then Inr (S\<lparr>sy_world := w3\<rparr>, None)
     else Inr (with_arena S i (fresh_arena type shmid i sz) addr w3, Some (word_of_nat i)))"
    using sz unfolding new_arena_def Some Let_def option.case
    by (simp add: g m rm with_arena_def fresh_arena_def put_arena_def set_arena_addr_def ui clear_segment_def
        del: replicate.simps)
  show ?thesis
  proof (cases "err = 0 \<and> addr \<noteq> 0 \<and> r = 0")
    case True
    then show ?thesis using eq i n(3) before by (intro disjI2 exI [of _ i] exI [of _ w3] exI [of _ addr] exI [of _ shmid]) simp
  next
    case False
    then have "\<not> grants os (sy_world S) (sy_path S) (word_of_nat i) sz" by (simp add: grants_def g m rm)
    moreover have "Min (empty_arenas (sy_mem S)) = i"
      by (rule Min_eqI) (use i n(3) before not_le_imp_less in \<open>auto intro: finite_subset [of _ "{..<128}"]\<close>)
    ultimately have "no_arena os S sz" by (simp add: no_arena_def)
    then show ?thesis using eq False by auto
  qed
qed

lemma pool_other_arena:
  assumes inv: "arena_inv s P" and i: "i < 128" "ar_type (sc_arenas s ! i) = ARENA_TYPE_EMPTY"
    and c: "c \<in> set (P b)" "n < 256"
  shows "pos2index (page c n) \<noteq> word_of_nat i"
proof -
  obtain k j where k: "c = chunk_slot k j" "has_chunk s k j" "k < 128" "j < 8" "(k, j) \<noteq> (0, 0)"
    using in_pool_slot [OF inv c(1)] .
  then have "k \<noteq> i" using i(2) unfolding has_chunk_def by auto
  then show ?thesis using page_index_slot [OF k(3,4,5) c(2)] k(1,3) i(1) index_word(1) by metis
qed

text \<open>What a new arena and a new chunk leave alone: the chunks of the pools and their runs.\<close>

abbreviation both :: "(bool \<Rightarrow> u64 list) \<Rightarrow> u64 set" where
  "both P \<equiv> set (P True) \<union> set (P False)"

definition keeps :: "shm_state \<Rightarrow> shm_state \<Rightarrow> (bool \<Rightarrow> u64 list) \<Rightarrow> bool" where
  "keeps s s' P \<longleftrightarrow> (\<forall>q \<in> both P. chunks s' q = chunks s q)
     \<and> (\<forall>x \<in> run_pages s (set (P True)). runs s' x = runs s x)"

text \<open>The arenas that are one block each, with their sizes.\<close>

definition larges :: "shm_state \<Rightarrow> (u64 \<times> nat) set" where
  "larges s = {(chunk_slot i 0, unat (ar_size (sc_arenas s ! i))) | i.
     i < 128 \<and> ar_type (sc_arenas s ! i) = ARENA_TYPE_LARGE}"

lemma larges_cong: "sc_arenas s' = sc_arenas s \<Longrightarrow> larges s' = larges s"
  by (simp add: larges_def)

lemma larges_put:
  assumes "sc_arenas s' = (sc_arenas s)[i := a]" and "length (sc_arenas s) = 128" "i < 128"
    and "ar_type a \<noteq> ARENA_TYPE_LARGE" "ar_type (sc_arenas s ! i) \<noteq> ARENA_TYPE_LARGE"
  shows "larges s' = larges s"
proof -
  have "ar_type (sc_arenas s' ! k) = 3 \<longleftrightarrow> ar_type (sc_arenas s ! k) = 3" "k \<noteq> i \<Longrightarrow> sc_arenas s' ! k = sc_arenas s ! k"
    if "k < 128" for k using assms that by (cases "k = i"; simp)+
  then show ?thesis unfolding larges_def using assms(5) by (metis (no_types, opaque_lifting))
qed

lemma with_arena_keeps:
  assumes inv: "arena_inv (sy_mem S) P" and i: "i < 128" "ar_type (sc_arenas (sy_mem S) ! i) = ARENA_TYPE_EMPTY"
  shows "keeps (sy_mem S) (sy_mem (with_arena S i a addr w)) P"
  unfolding keeps_def
proof (intro conjI ballI)
  fix q assume "q \<in> both P"
  then obtain b where "q \<in> set (P b)" by blast
  from pool_other_arena [OF inv i this, of 0]
  show "chunks (sy_mem (with_arena S i a addr w)) q = chunks (sy_mem S) q" by (simp add: with_arena_def clear_segment_def)
next
  fix x assume "x \<in> run_pages (sy_mem S) (set (P True))"
  then obtain c n where "x = page c n" "c \<in> set (P True)" "n < 256" unfolding run_pages_def by blast
  then show "runs (sy_mem (with_arena S i a addr w)) x = runs (sy_mem S) x"
    using pool_other_arena [OF inv i] by (simp add: with_arena_def clear_segment_def)
qed

lemma keeps_then:
  assumes "keeps s s0 P" and "c \<notin> both P" "\<forall>q. q \<noteq> c \<longrightarrow> chunks s' q = chunks s0 q" "runs s' = runs s0"
  shows "keeps s s' P"
proof -
  have "chunks s' q = chunks s0 q" if "q \<in> both P" for q using that assms(2,3) by metis
  then show ?thesis using assms(1,4) by (simp add: keeps_def)
qed

lemma keeps_refl [simp]: "keeps s s P"
  by (simp add: keeps_def)

lemma with_arena_inv:
  assumes inv: "sys_inv S P R F E X" and i: "1 \<le> i" "i < 128" "ar_type (sc_arenas (sy_mem S) ! i) = ARENA_TYPE_EMPTY"
    and t: "type = ARENA_TYPE_CHUNK \<and> sz = SHM_ARENA_UNIT_SIZE \<or> type = ARENA_TYPE_LARGE" and addr: "addr \<noteq> 0"
  shows "sys_inv (with_arena S i (fresh_arena type shmid i sz) addr w) P R F E X" (is "sys_inv ?S P R F E X")
proof -
  let ?s = "sy_mem S" and ?s' = "sy_mem ?S"
  have I: "heap_inv ?s P R F E X" "arena_inv ?s P" "maps_ok S" using inv by (simp_all add: sys_inv_def)
  note A = arena_invD [OF I(2)]
  have cl: "chunk_nodes ?s' p = chunk_nodes ?s p" "chunks ?s' p = chunks ?s p" "run_nodes ?s' p = run_nodes ?s p"
    "runs ?s' p = runs ?s p" if "pos2index p \<noteq> word_of_nat i" for p
    using that by (simp_all add: with_arena_def clear_segment_def)
  have "heap_inv ?s' P R F E X"
  proof (rule heap_inv_cong [OF I(1)])
    fix q assume "q \<in> set (P True) \<union> set (P False)"
    then obtain b where "q \<in> set (P b)" by blast
    from pool_other_arena [OF I(2) i(2,3) this, of 0]
    show "chunks ?s' q = chunks ?s q \<and> chunk_nodes ?s' q = chunk_nodes ?s q" using cl by simp
  next
    fix x assume "x \<in> run_pages ?s (set (P True))"
    then obtain c n where "x = page c n" "c \<in> set (P True)" "n < 256" unfolding run_pages_def by blast
    then show "runs ?s' x = runs ?s x \<and> run_nodes ?s' x = run_nodes ?s x"
      using pool_other_arena [OF I(2) i(2,3)] cl by simp
  qed (simp_all add: with_arena_def clear_segment_def)
  moreover have "arena_inv ?s' P"
  proof (rule arena_inv_put [OF I(2) _ i(2) with_arena_sel(1)])
    have z: "replicate 8 (0 :: u64) ! k = 0" if "k < 8" for k using that by (rule nth_replicate)
    have "card {j. j < 8 \<and> replicate 8 (0 :: u64) ! j \<noteq> 0} = 0" using z by auto
    then show "arena_ok (fresh_arena type shmid i sz) i"
      using i(1) t z by (auto simp add: arena_ok_def fresh_arena_def simp del: replicate.simps)
    have "chunk_set ?s' = chunk_set ?s"
      by (rule chunk_set_same [OF with_arena_sel(1) A(1) i(2)])
         (use i(3) in \<open>auto simp: has_chunk_def fresh_arena_def z simp del: replicate.simps\<close>)
    then show "set (P True) \<union> set (P False) = chunk_set ?s'" using A(3) by simp
  qed
  moreover have "maps_ok ?S" using I(3) A(1) addr i(2) unfolding maps_ok_def
    by (auto simp: nth_list_update fresh_arena_def)
  ultimately show ?thesis by (simp add: sys_inv_def)
qed

section \<open>A new chunk\<close>

text \<open>The state after the table has got the entry of the chunk \<open>c\<close>, which is not yet made.\<close>

lemma chunk_slot_index: "i < 128 \<Longrightarrow> pos2index (chunk_slot i j) < 2 ^ 31"
  by (simp add: chunk_slot_parts word_less_nat_alt unat_of_nat_small)

lemma both_upd: "both (P(b := xs)) = set xs \<union> set (P (\<not> b))"
  by (cases b) auto

lemma in_both: "c \<in> set (P b) \<Longrightarrow> c \<in> both P" "c \<notin> both P \<Longrightarrow> c \<notin> set (P b)"
  by (cases b; simp)+

definition made :: "bool \<Rightarrow> u64 \<Rightarrow> 'a \<Rightarrow> (u64 \<Rightarrow> 'a) \<Rightarrow> u64 \<Rightarrow> 'a" where
  "made b c x f = (if b then f else f(c := x))"

lemma init_slot:
  assumes h: "heap_inv s P R F E X" and t: "length (sc_arenas s) = 128" "\<And>k. k < 128 \<Longrightarrow> arena_ok (sc_arenas s ! k) k"
    and c: "c = chunk_slot i j" "has_chunk s i j" "c \<notin> both P" "chunk_set s = insert c (both P)"
    and len: "length (P True) \<le> 1024" "length (P False) \<le> 1024"
    and b: "type = CHUNK_TYPE_SMALL \<or> type = CHUNK_TYPE_MEDIUM" "b = (type = CHUNK_TYPE_SMALL)"
  shows "\<exists>s' xs. init_chunk s c c type = Inr s' \<and> mset xs = add_mset c (mset (P b))
    \<and> heap_inv s' (P(b := xs)) R F (made b c [(255, False)] E) (made b c [1] X)
    \<and> arena_inv s' (P(b := xs)) \<and> chunk_frame s s' c \<and> (b \<longrightarrow> run_pages s' {c} = {})"
proof -
  have ij: "i < 128" "j < 8" "(i, j) \<noteq> (0, 0)" using c(2) unfolding has_chunk_def by blast+
  have al: "chunk_aligned c" using chunk_slot_aligned [OF ij] c(1) by simp
  have ix: "pos2index c < 2 ^ 31" using chunk_slot_index [OF ij(1)] c(1) by simp
  have nc: "c \<notin> set (P True)" "c \<notin> set (P False)" using c(3) by simp_all
  have len': "Suc (length (P True)) < 2 ^ 31" "Suc (length (P False)) < 2 ^ 31" using len by simp_all
  obtain s' xs where i: "init_chunk s c c type = Inr s'" "mset xs = add_mset c (mset (P b))"
    "heap_inv s' (P(b := xs)) R F (made b c [(255, False)] E) (made b c [1] X)" "chunk_frame s s' c"
    "b \<longrightarrow> run_pages s' {c} = {}"
  proof (cases b)
    case True
    then have ty: "type = 1" "b = True" using b(2) by simp_all
    show ?thesis using init_chunk_small_heap [OF h al nc(1,2) ix len'(1)] that unfolding made_def ty by (simp only: if_True) blast
  next
    case False
    then have ty: "type = 2" "b = False" using b by simp_all
    show ?thesis using init_chunk_medium_heap [OF h al nc(1,2) ix len'(2)] that unfolding made_def ty by (simp only: if_False) blast
  qed
  have ar: "sc_arenas s' = sc_arenas s" using i(4) by (simp add: chunk_frame_def)
  then have "chunk_set s' = chunk_set s" by (simp add: chunk_set_def has_chunk_def)
  moreover have "set xs = insert c (set (P b))" using i(2) by (metis set_mset_add_mset_insert set_mset_mset)
  then have "both (P(b := xs)) = insert c (both P)" unfolding both_upd by (cases b) auto
  ultimately have "arena_inv s' (P(b := xs))" using t c(4) ar by (simp add: arena_inv_def)
  then show ?thesis using i by blast
qed

text \<open>From an arena with a free entry to the chunk; the last steps of \<open>new_chunk\<close>.\<close>

lemma take_slot:
  assumes inv: "sys_inv S P R F E X" and i: "i < 128" "chunked (sc_arenas (sy_mem S) ! i)"
    and j: "j < 8" "(i, j) \<noteq> (0, 0)" "ar_chunks (sc_arenas (sy_mem S) ! i) ! j = 0"
    and b: "type = CHUNK_TYPE_SMALL \<or> type = CHUNK_TYPE_MEDIUM" "b = (type = CHUNK_TYPE_SMALL)"
  defines "a \<equiv> sc_arenas (sy_mem S) ! i" and "c \<equiv> chunk_slot i j"
  defines "S1 \<equiv> put_arena (word_of_nat i) (put_slot a j c (ar_used a + 1)) S"
  shows "\<exists>s' xs addr. get_or_update_addr os S1 c = Inr (S1, Some addr) \<and> init_chunk (sy_mem S1) c c type = Inr s'
    \<and> mset xs = add_mset c (mset (P b)) \<and> c \<notin> both P
    \<and> sys_inv (S1\<lparr>sy_mem := s'\<rparr>) (P(b := xs)) R F (made b c [(255, False)] E) (made b c [1] X)
    \<and> (b \<longrightarrow> run_pages s' {c} = {}) \<and> (\<forall>q. q \<noteq> c \<longrightarrow> chunks s' q = chunks (sy_mem S) q) \<and> runs s' = runs (sy_mem S)
    \<and> larges s' = larges (sy_mem S)"
proof -
  let ?s = "sy_mem S"
  have I: "heap_inv ?s P R F E X" "arena_inv ?s P" "maps_ok S" using inv by (simp_all add: sys_inv_def)
  note A = arena_invD [OF I(2)]
  have ok: "arena_ok a i" "chunked a" using A(2) [OF i(1)] i(2) by (simp_all add: a_def)
  have s1: "sc_arenas (sy_mem S1) = (sc_arenas ?s)[i := put_slot (sc_arenas ?s ! i) j (chunk_slot i j) (ar_used a + 1)]"
    using i(1) by (simp add: S1_def put_arena_def index_word a_def c_def)
  have same: "chunks (sy_mem S1) = chunks ?s" "chunk_nodes (sy_mem S1) = chunk_nodes ?s"
    "sc_small_pool (sy_mem S1) = sc_small_pool ?s" "sc_medium_pool (sy_mem S1) = sc_medium_pool ?s"
    "sc_run_pool (sy_mem S1) = sc_run_pool ?s" "runs (sy_mem S1) = runs ?s" "run_nodes (sy_mem S1) = run_nodes ?s"
    "sy_addrs S1 = sy_addrs S"
    by (simp_all add: S1_def put_arena_def)
  have nin: "\<not> has_chunk ?s i j" using j(3) chunk_slot_nonzero [OF i(1) j(1,2)] by (auto simp: has_chunk_def)
  have cset: "chunk_set (sy_mem S1) = insert c (chunk_set ?s)"
    unfolding c_def by (rule chunk_set_take [OF s1 A(1) i(1) _ _ j(1,2)]) (use ok arena_okD(1) in \<open>simp_all add: a_def\<close>)
  have c: "c \<notin> both P"
  proof
    assume "c \<in> both P"
    then obtain k m where k: "c = chunk_slot k m" "has_chunk ?s k m" unfolding A(3) chunk_set_def by blast
    then have "k = i \<and> m = j" using chunk_slot_inject [of k m i j] i(1) j(1) by (auto simp: has_chunk_def c_def)
    then show False using k(2) nin by simp
  qed
  have h1: "heap_inv (sy_mem S1) P R F E X" by (rule heap_inv_cong [OF I(1)]) (simp_all add: same)
  have t0: "length (sc_arenas (sy_mem S1)) = 128" using A(1) by (simp add: s1)
  have t1: "arena_ok (sc_arenas (sy_mem S1) ! k) k" if "k < 128" for k
    using A(1,2) arena_ok_take [OF ok i(1) j(1,2)] j(3) that unfolding s1 a_def by (cases "k = i") simp_all
  have hc: "has_chunk (sy_mem S1) i j"
    using has_chunk_put [OF s1 A(1) i(1), of i j] i(2) j arena_okD(1) [OF ok(1)] by (simp add: a_def)
  have l: "length (P True) \<le> 1024" "length (P False) \<le> 1024" using pools_bound [OF I(2) heap_invD(3) [OF I(1)]] by blast+
  have cs: "chunk_set (sy_mem S1) = insert c (both P)" using cset A(3) by simp
  obtain s' xs where n: "init_chunk (sy_mem S1) c c type = Inr s'" "mset xs = add_mset c (mset (P b))"
    "heap_inv s' (P(b := xs)) R F (made b c [(255, False)] E) (made b c [1] X)"
    "arena_inv s' (P(b := xs))" "chunk_frame (sy_mem S1) s' c" "b \<longrightarrow> run_pages s' {c} = {}"
    using init_slot [OF h1 t0 t1 c_def [THEN meta_eq_to_obj_eq] hc c cs l b] by blast
  have m1: "maps_ok S1" using I(3) A(1) i(1) unfolding maps_ok_def same(8) s1
    by (auto simp: nth_list_update i(2))
  then have "maps_ok (S1\<lparr>sy_mem := s'\<rparr>)" using n(5) by (simp add: maps_ok_def chunk_frame_def)
  then have "sys_inv (S1\<lparr>sy_mem := s'\<rparr>) (P(b := xs)) R F (made b c [(255, False)] E) (made b c [1] X)"
    using n(3,4) by (simp add: sys_inv_def)
  moreover obtain addr where "get_or_update_addr os S1 c = Inr (S1, Some addr)"
    using translate_chunk [OF m1 hc] unfolding c_def by blast
  moreover have "\<forall>q. q \<noteq> c \<longrightarrow> chunks s' q = chunks ?s q" "runs s' = runs ?s"
    using n(5) same by (simp_all add: chunk_frame_def)
  moreover have "larges s' = larges ?s"
  proof -
    have "larges s' = larges (sy_mem S1)" by (rule larges_cong) (use n(5) in \<open>simp add: chunk_frame_def\<close>)
    also have "\<dots> = larges ?s" by (rule larges_put [OF s1 A(1) i(1)]) (use i(2) in auto)
    finally show ?thesis .
  qed
  ultimately show ?thesis using n c by blast
qed

lemma new_chunk_in_slot:
  assumes inv: "sys_inv S P R F E X" and i: "i < 128" "chunked (sc_arenas (sy_mem S) ! i)"
    and j: "j < 8" "(i, j) \<noteq> (0, 0)" "ar_chunks (sc_arenas (sy_mem S) ! i) ! j = 0"
    and b: "type = CHUNK_TYPE_SMALL \<or> type = CHUNK_TYPE_MEDIUM" "b = (type = CHUNK_TYPE_SMALL)"
    and old: "keeps s (sy_mem S) P" "larges (sy_mem S) = larges s"
  defines "a \<equiv> sc_arenas (sy_mem S) ! i" and "c \<equiv> chunk_slot i j"
  defines "S1 \<equiv> put_arena (word_of_nat i) (put_slot a j c (ar_used a + 1)) S"
  assumes run: "\<And>addr s'. get_or_update_addr os S1 c = Inr (S1, Some addr) \<Longrightarrow>
      init_chunk (sy_mem S1) c c type = Inr s' \<Longrightarrow> c \<noteq> 0 \<Longrightarrow> r = Inr (S1\<lparr>sy_mem := s'\<rparr>, Some c)"
  shows "\<exists>S' c xs. r = Inr (S', Some c) \<and> mset xs = add_mset c (mset (P b)) \<and> c \<notin> both P
    \<and> sys_inv S' (P(b := xs)) R F (made b c [(255, False)] E) (made b c [1] X)
    \<and> (b \<longrightarrow> run_pages (sy_mem S') {c} = {}) \<and> keeps s (sy_mem S') P \<and> larges (sy_mem S') = larges s"
proof -
  obtain s' xs addr where n: "get_or_update_addr os S1 c = Inr (S1, Some addr)" "init_chunk (sy_mem S1) c c type = Inr s'"
    "mset xs = add_mset c (mset (P b))" "c \<notin> both P"
    "sys_inv (S1\<lparr>sy_mem := s'\<rparr>) (P(b := xs)) R F (made b c [(255, False)] E) (made b c [1] X)"
    "b \<longrightarrow> run_pages s' {c} = {}" "\<forall>q. q \<noteq> c \<longrightarrow> chunks s' q = chunks (sy_mem S) q"
    "runs s' = runs (sy_mem S)" "larges s' = larges (sy_mem S)"
    using take_slot [OF inv i j b, of os] unfolding S1_def a_def c_def by blast
  have "r = Inr (S1\<lparr>sy_mem := s'\<rparr>, Some c)"
    using run [OF n(1,2)] chunk_slot_nonzero [OF i(1) j(1,2)] by (simp add: c_def)
  moreover have "keeps s s' P" by (rule keeps_then [OF old(1) n(4,7,8)])
  ultimately show ?thesis using n old(2) by auto
qed

lemma new_chunk_ok:
  assumes inv: "sys_inv S P R F E X"
    and b: "type = CHUNK_TYPE_SMALL \<or> type = CHUNK_TYPE_MEDIUM" "b = (type = CHUNK_TYPE_SMALL)"
  shows "(\<exists>w. new_chunk os S type = Inr (S\<lparr>sy_world := w\<rparr>, None)
      \<and> no_room os S)
    \<or> (\<exists>S' c xs. new_chunk os S type = Inr (S', Some c) \<and> mset xs = add_mset c (mset (P b)) \<and> c \<notin> both P
        \<and> sys_inv S' (P(b := xs)) R F (made b c [(255, False)] E) (made b c [1] X)
        \<and> (b \<longrightarrow> run_pages (sy_mem S') {c} = {}) \<and> keeps (sy_mem S) (sy_mem S') P
        \<and> larges (sy_mem S') = larges (sy_mem S))"
proof -
  let ?s = "sy_mem S"
  have I: "arena_inv ?s P" using inv by (simp add: sys_inv_def)
  note A = arena_invD [OF I]
  have ok0: "arena_ok (sc_arenas ?s ! 0) 0" using A(2) by simp
  have ch0: "chunked (sc_arenas ?s ! 0)" using arena_okD(3) [OF ok0] by blast
  let ?scan = "new_chunk_scan S (map word_of_nat [0..<SHM_ARENA_MAX]) 0"
  consider (first) j e where "j < 8" "j \<noteq> 0" "ar_chunks (sc_arenas ?s ! 0) ! j = 0"
      "?scan = (put_arena 0 (put_slot (sc_arenas ?s ! 0) j (chunk_slot 0 j) (ar_used (sc_arenas ?s ! 0) + 1)) S, chunk_slot 0 j, e)"
    | (other) e where "\<forall>j < 8. ar_chunks (sc_arenas ?s ! 0) ! j \<noteq> 0" "?scan = (S, 0, e)"
        "e \<noteq> 0 \<longleftrightarrow> empty_arenas ?s \<noteq> {}"
    using scan_cases [OF I] by blast
  then show ?thesis
  proof cases
    case first
    have p: "(0 :: nat) < 128" "(0, j) \<noteq> (0, 0)" using first(2) by simp_all
    define S1 where "S1 = put_arena (word_of_nat 0) (put_slot (sc_arenas ?s ! 0) j (chunk_slot 0 j) (ar_used (sc_arenas ?s ! 0) + 1)) S"
    have sc: "?scan = (S1, chunk_slot 0 j, e)" using first(4) by (simp add: S1_def)
    have "new_chunk os S type = Inr (S1\<lparr>sy_mem := s'\<rparr>, Some (chunk_slot 0 j))"
      if "get_or_update_addr os S1 (chunk_slot 0 j) = Inr (S1, Some addr)"
        "init_chunk (sy_mem S1) (chunk_slot 0 j) (chunk_slot 0 j) type = Inr s'" "chunk_slot 0 j \<noteq> 0" for addr s'
      using that unfolding new_chunk_def sc by simp
    then show ?thesis
      using new_chunk_in_slot [OF inv p(1) ch0 first(1) p(2) first(3) b keeps_refl refl, of os "new_chunk os S type"]
      unfolding S1_def by blast
  next
    case other
    show ?thesis
    proof (cases "e = 0")
      case True
      have "new_chunk os S type = Inr (S\<lparr>sy_world := sy_world S\<rparr>, None)" using True unfolding new_chunk_def other(2) by simp
      moreover have "no_room os S" using True other(1,3) by (simp add: no_room_def no_arena_def)
      ultimately show ?thesis by blast
    next
      case False
      consider w where "new_arena os S ARENA_TYPE_CHUNK SHM_ARENA_UNIT_SIZE = Inr (S\<lparr>sy_world := w\<rparr>, None)"
          "no_arena os S SHM_ARENA_UNIT_SIZE"
        | i w addr shmid where "1 \<le> i" "i < 128" "ar_type (sc_arenas ?s ! i) = 0" "addr \<noteq> 0"
          "new_arena os S ARENA_TYPE_CHUNK SHM_ARENA_UNIT_SIZE
            = Inr (with_arena S i (fresh_arena ARENA_TYPE_CHUNK shmid i SHM_ARENA_UNIT_SIZE) addr w, Some (word_of_nat i))"
        using new_arena_cases [of SHM_ARENA_UNIT_SIZE os S ARENA_TYPE_CHUNK] by auto
      then show ?thesis
      proof cases
        case 1
        then have "new_chunk os S type = Inr (S\<lparr>sy_world := w\<rparr>, None)" using False unfolding new_chunk_def other(2) by simp
        moreover have "no_room os S" using 1(2) other(1) by (simp add: no_room_def)
        ultimately show ?thesis by blast
      next
        case (2 i)
        define a where "a = fresh_arena ARENA_TYPE_CHUNK shmid i SHM_ARENA_UNIT_SIZE"
        define S0 where "S0 = with_arena S i a addr w"
        have inv0: "sys_inv S0 P R F E X" unfolding S0_def a_def by (rule with_arena_inv [OF inv 2(1-3)]) (use 2(4) in simp_all)
        have a0: "sc_arenas (sy_mem S0) ! i = a" using A(1) 2(2) by (simp add: S0_def)
        have ca: "chunked a" "ar_chunks a ! 0 = 0" "ar_chunks a = replicate 8 0" by (simp_all add: a_def fresh_arena_def)
        have p: "(0 :: nat) < 8" "(i, 0 :: nat) \<noteq> (0, 0)" using 2(1) by simp_all
        define S1 where "S1 = put_arena (word_of_nat i) (put_slot a 0 (chunk_slot i 0) (ar_used a + 1)) S0"
        have na: "new_arena_chunk a = (put_slot a 0 (chunk_slot i 0) (ar_used a + 1), chunk_slot i 0)"
          by (simp add: new_arena_chunk_def a_def fresh_arena_def upt_conv_Cons chunk_slot_def Let_def
              del: upt_rec_numeral)
        have "new_chunk os S type = Inr (S1\<lparr>sy_mem := s'\<rparr>, Some (chunk_slot i 0))"
          if "get_or_update_addr os S1 (chunk_slot i 0) = Inr (S1, Some addr)"
            "init_chunk (sy_mem S1) (chunk_slot i 0) (chunk_slot i 0) type = Inr s'" "chunk_slot i 0 \<noteq> 0" for addr s'
          using that na False 2(2,5) a0 unfolding new_chunk_def other(2)
          by (simp add: a_def [symmetric] S0_def [symmetric] S1_def [symmetric])
        moreover have "keeps ?s (sy_mem S0) P" unfolding S0_def by (rule with_arena_keeps [OF I 2(2,3)])
        moreover have "larges (sy_mem S0) = larges ?s" unfolding S0_def
          by (rule larges_put [OF with_arena_sel(1) A(1) 2(2)]) (use 2(3) in \<open>simp_all add: a_def fresh_arena_def\<close>)
        ultimately show ?thesis
          using new_chunk_in_slot [OF inv0 2(2) ca(1) [folded a0] p ca(2) [folded a0] b, of ?s os "new_chunk os S type"]
          unfolding a0 S1_def by blast
      qed
    qed
  qed
qed

end
