(* ===== verification/Heap_Live.thy ===== *)
theory Heap_Live
  imports Arena_Inv
begin

text \<open>
  The blocks a client holds: the ones of the runs that are not in the run's free list, and the
  extents in use of the medium chunks, each as its position and its size in bytes.
\<close>

abbreviation rclass :: "shm_state \<Rightarrow> u64 \<Rightarrow> nat" where
  "rclass s x \<equiv> unat (rn_conf_index (runs s x))"

definition live_block :: "shm_state \<Rightarrow> u64 \<Rightarrow> nat \<Rightarrow> u64 \<times> nat" where
  "live_block s x i = (x + ucast (boff (elemsize_of (rclass s x)) i), elemsize_of (rclass s x))"

definition small_live :: "shm_state \<Rightarrow> u64 set \<Rightarrow> (u64 \<Rightarrow> nat list) \<Rightarrow> (u64 \<times> nat) set" where
  "small_live s C F = {(x, i). x \<in> run_pages s C \<and> i < run_count (rclass s x) \<and> i \<notin> set (F x)}"

definition small_blocks :: "shm_state \<Rightarrow> u64 set \<Rightarrow> (u64 \<Rightarrow> nat list) \<Rightarrow> (u64 \<times> nat) set" where
  "small_blocks s C F = (\<lambda>(x, i). live_block s x i) ` small_live s C F"

primrec useds :: "nat \<Rightarrow> extent list \<Rightarrow> (nat \<times> nat) set" where
  "useds p [] = {}"
| "useds p (e # es) = (if snd e then {(p, fst e)} else {}) \<union> useds (p + fst e) es"

definition medium_blocks :: "u64 set \<Rightarrow> (u64 \<Rightarrow> extent list) \<Rightarrow> (u64 \<times> nat) set" where
  "medium_blocks C E = {(page c p, n * SHM_PAGE_SIZE) | c p n. c \<in> C \<and> (p, n) \<in> useds 1 (E c)}"

definition blocks :: "shm_state \<Rightarrow> (bool \<Rightarrow> u64 list) \<Rightarrow> (u64 \<Rightarrow> nat list) \<Rightarrow> (u64 \<Rightarrow> extent list)
    \<Rightarrow> (u64 \<times> nat) set" where
  "blocks s P F E = small_blocks s (set (P True)) F \<union> medium_blocks (set (P False)) E"

text \<open>The bytes of two blocks have none in common.\<close>

definition apart :: "u64 \<times> nat \<Rightarrow> u64 \<times> nat \<Rightarrow> bool" where
  "apart a b \<longleftrightarrow> unat (fst a) + snd a \<le> unat (fst b) \<or> unat (fst b) + snd b \<le> unat (fst a)"

lemma apart_sym: "apart a b \<Longrightarrow> apart b a"
  by (auto simp: apart_def)

section \<open>Where the blocks are\<close>

lemma dvd_apart:
  fixes a b k :: nat
  assumes "k dvd a" "k dvd b" "a \<noteq> b"
  shows "a + k \<le> b \<or> b + k \<le> a"
proof -
  obtain m n where "a = k * m" "b = k * n" using assms(1,2) by (auto simp: dvd_def)
  moreover have "Suc m \<le> n \<or> Suc n \<le> m" using assms(3) calculation by auto
  then have "k * Suc m \<le> k * n \<or> k * Suc n \<le> k * m" by (blast intro: mult_le_mono2)
  ultimately show ?thesis by auto
qed

lemma chunks_apart:
  assumes "chunk_aligned c" "chunk_aligned d" "c \<noteq> d"
  shows "unat c + SHM_CHUNK_UNIT_SIZE \<le> unat d \<or> unat d + SHM_CHUNK_UNIT_SIZE \<le> unat c"
  by (rule dvd_apart) (use assms in \<open>auto simp: chunk_aligned_def word_unat_eq_iff\<close>)

lemma page_dvd: "chunk_aligned c \<Longrightarrow> i < 256 \<Longrightarrow> (4096 :: nat) dvd unat (page c i)"
proof -
  assume a: "chunk_aligned c" "i < 256"
  have "(4096 :: nat) dvd 1048576" by simp
  then have "4096 dvd unat c" using a(1) dvd_trans unfolding chunk_aligned_def by blast
  then show ?thesis using unat_page [OF a] by simp
qed

lemma page_add:
  assumes "chunk_aligned c" "i < 256" "n < 4096"
  shows "unat (page c i + word_of_nat n) = unat (page c i) + n"
proof -
  have b: "i * 4096 + n < 1048576" using assms(2,3) by simp
  have "page c i + word_of_nat n = c + word_of_nat (i * 4096 + n)" by (simp add: page_def add.assoc)
  then show ?thesis using chunk_aligned_bound(2) [OF assms(1) b] unat_page [OF assms(1,2)] by (simp only: add.assoc)
qed

text \<open>A block of a run: inside its page, behind the header.\<close>

lemma live_block_place:
  assumes inv: "small_inv s P R F" and x: "x \<in> run_pages s (set (P True))" and i: "i < run_count (rclass s x)"
  shows "1 \<le> rclass s x" "rclass s x \<le> 14"
    "unat (fst (live_block s x i)) = unat x + RUN_HEADER_SIZE + i * elemsize_of (rclass s x)"
    "RUN_HEADER_SIZE + i * elemsize_of (rclass s x) + elemsize_of (rclass s x) \<le> SHM_PAGE_SIZE"
    "0 < elemsize_of (rclass s x)"
proof -
  note D = small_invD [OF inv]
  obtain c n where c: "x = page c n" "c \<in> set (P True)" "n < 256" using x unfolding run_pages_def by blast
  show k: "1 \<le> rclass s x" "rclass s x \<le> 14" using run_okD(2,3) [OF D(5) [OF x]] .
  note b = block_in_page [OF k i]
  show "RUN_HEADER_SIZE + i * elemsize_of (rclass s x) + elemsize_of (rclass s x) \<le> SHM_PAGE_SIZE" using b .
  show "0 < elemsize_of (rclass s x)" using elemsize_of_class [OF k] by linarith
  then have l: "64 + i * elemsize_of (rclass s x) < 4096" using b by linarith
  have "(ucast (boff (elemsize_of (rclass s x)) i) :: u64) = word_of_nat (64 + i * elemsize_of (rclass s x))"
    unfolding boff_def by (rule ucast_of_nat) (use l in simp)
  then show "unat (fst (live_block s x i)) = unat x + RUN_HEADER_SIZE + i * elemsize_of (rclass s x)"
    using page_add [OF D(7) [OF c(2)] c(3) l] c(1) by (simp only: live_block_def fst_conv add.assoc)
qed

lemma run_blocks_apart:
  assumes inv: "small_inv s P R F"
    and x: "x \<in> run_pages s (set (P True))" "i < run_count (rclass s x)"
    and y: "y \<in> run_pages s (set (P True))" "j < run_count (rclass s y)" and ne: "(x, i) \<noteq> (y, j)"
  shows "apart (live_block s x i) (live_block s y j)"
proof (cases "x = y")
  case True
  let ?e = "elemsize_of (rclass s x)"
  note px = live_block_place [OF inv x] and py = live_block_place [OF inv y]
  have "i < j \<or> j < i" using ne True by auto
  then have "Suc i * ?e \<le> j * ?e \<or> Suc j * ?e \<le> i * ?e" by (meson Suc_leI mult_le_mono1)
  then show ?thesis using px(3) py(3) True by (auto simp: apart_def live_block_def)
next
  case False
  note D = small_invD [OF inv]
  have d: "(4096 :: nat) dvd unat z" if "z \<in> run_pages s (set (P True))" for z
    using that page_dvd D(7) unfolding run_pages_def by blast
  have "unat x + 4096 \<le> unat y \<or> unat y + 4096 \<le> unat x"
    by (rule dvd_apart [OF d [OF x(1)] d [OF y(1)]]) (use False in \<open>simp add: word_unat_eq_iff\<close>)
  moreover have "snd (live_block s z k) = elemsize_of (rclass s z)" for z k by (simp add: live_block_def)
  ultimately show ?thesis using live_block_place(3,4) [OF inv x] live_block_place(3,4) [OF inv y]
    unfolding apart_def by auto
qed

lemma live_block_inj:
  assumes inv: "small_inv s P R F"
    and x: "x \<in> run_pages s (set (P True))" "i < run_count (rclass s x)"
    and y: "y \<in> run_pages s (set (P True))" "j < run_count (rclass s y)"
  shows "live_block s x i = live_block s y j \<longleftrightarrow> x = y \<and> i = j"
proof
  assume e: "live_block s x i = live_block s y j"
  have "0 < snd (live_block s y j)" using live_block_place(5) [OF inv y] by (simp add: live_block_def)
  then show "x = y \<and> i = j" using run_blocks_apart [OF inv x y] e by (auto simp: apart_def)
qed simp

text \<open>The extents in use.\<close>

lemma useds_range: "proper es \<Longrightarrow> (q, n) \<in> useds p es \<Longrightarrow> 0 < n \<and> p \<le> q \<and> q + n \<le> p + page_sum es"
  by (induction es arbitrary: p) (fastforce split: if_splits)+

lemma useds_append [simp]: "useds p (as @ bs) = useds p as \<union> useds (p + page_sum as) bs"
  by (induction as arbitrary: p) (auto simp: add.assoc)

lemma useds_apart:
  assumes "proper es" "(q, n) \<in> useds p es" "(r, m) \<in> useds p es" "(q, n) \<noteq> (r, m)"
  shows "q + n \<le> r \<or> r + m \<le> q"
  using assms
proof (induction es arbitrary: p)
  case (Cons e es)
  have u: "p + fst e \<le> z" if "(z, k) \<in> useds (p + fst e) es" for z k
    using useds_range [OF _ that] Cons.prems(1) by simp
  consider "(q, n) \<in> useds (p + fst e) es" "(r, m) \<in> useds (p + fst e) es"
    | "(q, n) = (p, fst e)" "(r, m) \<in> useds (p + fst e) es"
    | "(q, n) \<in> useds (p + fst e) es" "(r, m) = (p, fst e)"
    using Cons.prems(2-4) by (auto split: if_splits)
  then show ?case
  proof cases
    case 1
    then show ?thesis using Cons.IH Cons.prems(1,4) by simp
  qed (use u in auto)
qed simp

lemma medium_used_range:
  assumes inv: "medium_inv s P E X" and c: "c \<in> set (P False)" and u: "(p, n) \<in> useds 1 (E c)"
  shows "1 \<le> p" "p + n \<le> 256" "0 < n" "chunk_aligned c" "unat (page c p) = unat c + p * SHM_PAGE_SIZE"
    "proper (E c)"
proof -
  have ok: "medium_ok s c (E c) (X c)" using inv c by (simp add: medium_inv_def)
  then show al: "chunk_aligned c" by (simp add: medium_ok_def)
  have pr: "proper (E c)" "page_sum (E c) = 255" using ok by (auto simp: medium_ok_def medium_rep_def)
  show "1 \<le> p" "p + n \<le> 256" "0 < n" "proper (E c)" using useds_range [OF pr(1) u] pr by auto
  then show "unat (page c p) = unat c + p * SHM_PAGE_SIZE" using unat_page [OF al] by simp
qed

section \<open>The blocks in use do not overlap\<close>

text \<open>Every block lies behind the first page of a chunk of its kind.\<close>

definition in_chunk :: "u64 \<Rightarrow> u64 \<times> nat \<Rightarrow> bool" where
  "in_chunk c b \<longleftrightarrow> unat c + SHM_PAGE_SIZE \<le> unat (fst b) \<and> unat (fst b) + snd b \<le> unat c + SHM_CHUNK_UNIT_SIZE
     \<and> 0 < snd b"

lemma small_block_in:
  assumes inv: "small_inv s P R F" and b: "b \<in> small_blocks s (set (P True)) F"
  shows "\<exists>c \<in> set (P True). in_chunk c b"
proof -
  obtain x i where b': "b = live_block s x i" and x: "x \<in> run_pages s (set (P True))" "i < run_count (rclass s x)"
    using b unfolding small_blocks_def small_live_def by auto
  obtain c n where c: "x = page c n" "c \<in> set (P True)" "1 \<le> n" "n < 256" using x(1) unfolding run_pages_def by blast
  have al: "chunk_aligned c" using small_invD(7) [OF inv c(2)] .
  have "unat x = unat c + n * 4096" using unat_page [OF al c(4)] c(1) by simp
  moreover have "snd b = elemsize_of (rclass s x)" by (simp add: b' live_block_def)
  ultimately have "in_chunk c b" using live_block_place [OF inv x] c(3,4) unfolding in_chunk_def b' by simp
  then show ?thesis using c(2) by blast
qed

lemma medium_block_in:
  assumes inv: "medium_inv s P E X" and b: "b \<in> medium_blocks (set (P False)) E"
  shows "\<exists>c \<in> set (P False). in_chunk c b"
proof -
  obtain c p n where c: "b = (page c p, n * 4096)" "c \<in> set (P False)" "(p, n) \<in> useds 1 (E c)"
    using b unfolding medium_blocks_def by blast
  then show ?thesis using medium_used_range [OF inv c(2,3)] by (intro bexI [of _ c]) (simp_all add: in_chunk_def)
qed

lemma in_chunk_apart:
  assumes "in_chunk c a" "in_chunk d b" "chunk_aligned c" "chunk_aligned d" "c \<noteq> d"
  shows "apart a b"
  using chunks_apart [OF assms(3-5)] assms(1,2) by (auto simp: in_chunk_def apart_def)

lemma medium_blocks_apart:
  assumes inv: "medium_inv s P E X" and a: "a \<in> medium_blocks (set (P False)) E"
    and b: "b \<in> medium_blocks (set (P False)) E" and ne: "a \<noteq> b"
  shows "apart a b"
proof -
  obtain c p n where c: "a = (page c p, n * 4096)" "c \<in> set (P False)" "(p, n) \<in> useds 1 (E c)"
    using a unfolding medium_blocks_def by blast
  obtain d q m where d: "b = (page d q, m * 4096)" "d \<in> set (P False)" "(q, m) \<in> useds 1 (E d)"
    using b unfolding medium_blocks_def by blast
  note C = medium_used_range [OF inv c(2,3)] and D = medium_used_range [OF inv d(2,3)]
  show ?thesis
  proof (cases "c = d")
    case True
    then have "p + n \<le> q \<or> q + m \<le> p" using useds_apart [OF C(6) c(3)] d(3) ne c(1) d(1) by auto
    then show ?thesis using C(5) D(5) True c(1) d(1) by (auto simp: apart_def)
  next
    case False
    show ?thesis
      by (rule in_chunk_apart [OF _ _ C(4) D(4) False]) (use C D c d in \<open>simp_all add: in_chunk_def\<close>)
  qed
qed

lemma kinds_apart:
  assumes inv: "heap_inv s P R F E X" and u: "u \<in> small_blocks s (set (P True)) F"
    and v: "v \<in> medium_blocks (set (P False)) E"
  shows "apart u v"
proof -
  note H = heap_invD [OF inv]
  obtain c d where cd: "c \<in> set (P True)" "in_chunk c u" "d \<in> set (P False)" "in_chunk d v"
    using small_block_in [OF H(1) u] medium_block_in [OF H(2) v] by blast
  have "chunk_aligned d" using H(2) cd(3) by (simp add: medium_inv_def medium_ok_def)
  moreover have "c \<noteq> d" using cd H(3) by (auto simp: cpools_def)
  ultimately show ?thesis using in_chunk_apart [OF cd(2,4) small_invD(7) [OF H(1) cd(1)]] by blast
qed

lemma kinds_disjoint:
  assumes inv: "heap_inv s P R F E X" and u: "u \<in> small_blocks s (set (P True)) F"
  shows "u \<notin> medium_blocks (set (P False)) E"
proof
  assume "u \<in> medium_blocks (set (P False)) E"
  then have "apart u u" by (rule kinds_apart [OF inv u])
  moreover have "0 < snd u" using small_block_in [OF heap_invD(1) [OF inv] u] by (auto simp: in_chunk_def)
  ultimately show False by (auto simp: apart_def)
qed

lemma blocks_apart:
  assumes inv: "heap_inv s P R F E X" and a: "a \<in> blocks s P F E" and b: "b \<in> blocks s P F E" and ne: "a \<noteq> b"
  shows "apart a b"
proof -
  note H = heap_invD [OF inv]
  have small: "apart a b" if "a \<in> small_blocks s (set (P True)) F" "b \<in> small_blocks s (set (P True)) F"
  proof -
    obtain x i y j where xy: "a = live_block s x i" "(x, i) \<in> small_live s (set (P True)) F"
      "b = live_block s y j" "(y, j) \<in> small_live s (set (P True)) F"
      using \<open>a \<in> small_blocks _ _ _\<close> \<open>b \<in> small_blocks _ _ _\<close> unfolding small_blocks_def by auto
    then show ?thesis using run_blocks_apart [OF H(1), of x i y j] ne by (auto simp: small_live_def)
  qed
  show ?thesis using a b ne kinds_apart [OF inv] small medium_blocks_apart [OF H(2)] apart_sym
    unfolding blocks_def by blast
qed

section \<open>How the operations change the blocks in use\<close>

lemma live_block_cong: "rclass s' x = rclass s x \<Longrightarrow> live_block s' x i = live_block s x i"
  by (simp add: live_block_def)

lemma small_blocks_cong:
  assumes "small_live s' C' F' = small_live s C F" and "\<And>x i. (x, i) \<in> small_live s C F \<Longrightarrow> rclass s' x = rclass s x"
  shows "small_blocks s' C' F' = small_blocks s C F"
  unfolding small_blocks_def assms(1)
proof (rule image_cong [OF refl])
  fix z assume z: "z \<in> small_live s C F"
  obtain x i where "z = (x, i)" by (cases z)
  then show "(case z of (x, i) \<Rightarrow> live_block s' x i) = (case z of (x, i) \<Rightarrow> live_block s x i)"
    using live_block_cong [of s' x s i] assms(2) [of x i] z by simp
qed

lemma small_blocks_new_run:
  assumes "run_pages s' C' = insert x (run_pages s C)" "x \<notin> run_pages s C" "rclass s' x = k"
    and "\<And>y. y \<noteq> x \<Longrightarrow> runs s' y = runs s y"
  shows "small_blocks s' C' (F(x := [0..<run_count k])) = small_blocks s C F"
proof (rule small_blocks_cong)
  have nx: "y \<noteq> x" if "y \<in> run_pages s C" for y using that assms(2) by blast
  show "small_live s' C' (F(x := [0..<run_count k])) = small_live s C F"
  proof -
    have "(y, i) \<in> small_live s' C' (F(x := [0..<run_count k])) \<longleftrightarrow> (y, i) \<in> small_live s C F" for y i
    proof (cases "y = x")
      case True
      then show ?thesis using assms(2,3) by (simp add: small_live_def)
    next
      case False
      then show ?thesis using assms(4) [OF False] by (simp add: small_live_def assms(1))
    qed
    then show ?thesis by (simp add: set_eq_iff)
  qed
  show "rclass s' y = rclass s y" if "(y, i) \<in> small_live s C F" for y i
  proof -
    have "y \<noteq> x" using that nx by (simp add: small_live_def)
    then show ?thesis using assms(4) by simp
  qed
qed

lemma small_blocks_same:
  assumes "run_pages s' C' = run_pages s C" and "\<And>x. x \<in> run_pages s C \<Longrightarrow> rclass s' x = rclass s x"
  shows "small_blocks s' C' F = small_blocks s C F"
  by (rule small_blocks_cong) (use assms in \<open>auto simp: small_live_def\<close>)

lemma small_blocks_take:
  assumes inv: "small_inv s P R F" and x: "x \<in> run_pages s (set (P True))" and F: "F x = i # is"
    and s': "run_pages s' (set (P True)) = run_pages s (set (P True))" "\<And>y. rclass s' y = rclass s y"
  shows "small_blocks s' (set (P True)) (F(x := is)) = insert (live_block s x i) (small_blocks s (set (P True)) F)"
    "live_block s x i \<notin> small_blocks s (set (P True)) F" "i < run_count (rclass s x)"
proof -
  let ?C = "set (P True)"
  have "run_ok s x (i # is)" using small_invD(5) [OF inv x] F by simp
  note r = run_okD [OF this]
  have d: "i \<notin> set is" "i < run_count (rclass s x)" using r(5,6) by (auto simp: run_rep_def Let_def)
  then show "i < run_count (rclass s x)" by simp
  have l: "small_live s' ?C (F(x := is)) = insert (x, i) (small_live s ?C F)"
  proof -
    have "(y, j) \<in> small_live s' ?C (F(x := is)) \<longleftrightarrow> (y, j) = (x, i) \<or> (y, j) \<in> small_live s ?C F" for y j
      by (cases "y = x") (use d x F s' in \<open>auto simp: small_live_def\<close>)
    then show ?thesis by (simp add: set_eq_iff)
  qed
  have "live_block s' = live_block s" using live_block_cong [OF s'(2)] by (intro ext)
  then show "small_blocks s' ?C (F(x := is)) = insert (live_block s x i) (small_blocks s ?C F)"
    unfolding small_blocks_def l by simp
  show "live_block s x i \<notin> small_blocks s ?C F"
  proof
    assume "live_block s x i \<in> small_blocks s ?C F"
    then obtain y j where y: "live_block s x i = live_block s y j" "(y, j) \<in> small_live s ?C F"
      unfolding small_blocks_def by auto
    then have "x = y \<and> i = j" using live_block_inj [OF inv x d(2), of y j] by (auto simp: small_live_def)
    then show False using y(2) F by (simp add: small_live_def)
  qed
qed

lemma small_blocks_put:
  assumes inv: "small_inv s P R F" and x: "x \<in> run_pages s (set (P True))" and j: "j < run_count (rclass s x)" "j \<notin> set (F x)"
    and s': "run_pages s' C' = run_pages s (set (P True)) - (if freed then {x} else {})" "\<And>y. rclass s' y = rclass s y"
    and f: "freed \<Longrightarrow> Suc (length (F x)) = run_count (rclass s x)"
  shows "small_blocks s' C' (F(x := j # F x)) = small_blocks s (set (P True)) F - {live_block s x j}"
    "live_block s x j \<in> small_blocks s (set (P True)) F"
proof -
  let ?C = "set (P True)" and ?k = "rclass s x"
  have xj: "(x, j) \<in> small_live s ?C F" using x j by (simp add: small_live_def)
  then show "live_block s x j \<in> small_blocks s ?C F" unfolding small_blocks_def by force
  have only: "(x, i) \<in> small_live s ?C F \<Longrightarrow> i = j" if freed for i
  proof -
    assume i: "(x, i) \<in> small_live s ?C F"
    note r = run_okD [OF small_invD(5) [OF inv x]]
    have rr: "distinct (F x)" "set (F x) \<subseteq> {..<run_count ?k}" using r(5,6) by (auto simp: run_rep_def Let_def)
    have "set (F x) \<subseteq> {..<run_count ?k} - {i, j}" using rr(2) i j(2) by (auto simp: small_live_def)
    then have "card (set (F x)) \<le> card ({..<run_count ?k} - {i, j})" by (intro card_mono) auto
    then have "run_count ?k - 1 \<le> run_count ?k - card {i, j}"
      using distinct_card [OF rr(1)] f [OF that] i j(1) by (subst (asm) card_Diff_subset) (auto simp: small_live_def)
    then show "i = j" using j(1) i by (cases "i = j") (auto simp: small_live_def)
  qed
  have l: "small_live s' C' (F(x := j # F x)) = small_live s ?C F - {(x, j)}"
  proof -
    have "(y, i) \<in> small_live s' C' (F(x := j # F x)) \<longleftrightarrow> (y, i) \<in> small_live s ?C F \<and> (y, i) \<noteq> (x, j)" for y i
      by (cases freed; cases "y = x") (use only x s' in \<open>auto simp: small_live_def\<close>)
    then show ?thesis by (simp add: set_eq_iff)
  qed
  have "live_block s' = live_block s" using live_block_cong [OF s'(2)] by (intro ext)
  then have "small_blocks s' C' (F(x := j # F x)) = (\<lambda>(y, i). live_block s y i) ` (small_live s ?C F - {(x, j)})"
    unfolding small_blocks_def l by simp
  moreover have "inj_on (\<lambda>(y, i). live_block s y i) (small_live s ?C F)"
    using live_block_inj [OF inv] by (auto simp: inj_on_def small_live_def)
  then have "(\<lambda>(y, i). live_block s y i) ` (small_live s ?C F - {(x, j)})
      = (\<lambda>(y, i). live_block s y i) ` small_live s ?C F - (\<lambda>(y, i). live_block s y i) ` {(x, j)}"
    using xj by (intro inj_on_image_set_diff) auto
  ultimately show "small_blocks s' C' (F(x := j # F x)) = small_blocks s ?C F - {live_block s x j}"
    by (simp add: small_blocks_def)
qed

lemma useds_take:
  "k \<le> n \<Longrightarrow> useds p (take_extent as n k bs) = insert (p + page_sum as, k) (useds p (as @ (n, False) # bs))"
  by (auto simp: take_extent_def add.assoc)

lemma useds_drop:
  "useds p (drop_last_free as) = useds p as" "useds (q + hd_free bs) (drop_hd_free bs) = useds q bs"
  by (cases as rule: rev_cases; simp add: drop_last_free_def) (cases bs; simp add: drop_hd_free_def hd_free_def)

lemma useds_free:
  assumes "proper (as @ (n, True) # bs)"
  shows "useds p (free_extent as n bs) = useds p (as @ (n, True) # bs) - {(p + page_sum as, n)}"
proof -
  have s: "page_sum (drop_last_free as) + (last_free as + n + hd_free bs) = page_sum as + n + hd_free bs"
    using last_free_sum(1) [of as] by simp
  have e: "useds p (free_extent as n bs) = useds p as \<union> useds (p + page_sum as + n) bs"
    using useds_drop(2) [of "p + page_sum as + n" bs]
    by (simp add: free_extent_def useds_drop(1) s add.assoc [symmetric])
       (simp only: add.assoc s [unfolded add.assoc])
  have "(p + page_sum as, n) \<notin> useds p as" using useds_range [of as "p + page_sum as" n p] assms by auto
  moreover have "(p + page_sum as, n) \<notin> useds (p + page_sum as + n) bs"
    using useds_range [of bs "p + page_sum as" n "p + page_sum as + n"] assms by auto
  ultimately show ?thesis unfolding e by (auto simp: add.assoc)
qed

lemma medium_pages_inj:
  assumes inv: "medium_inv s P E X" and c: "c \<in> set (P False)" "d \<in> set (P False)" and "p < 256" "q < 256"
  shows "page c p = page d q \<longleftrightarrow> c = d \<and> p = q"
  by (rule page_inject) (use assms in \<open>simp_all add: medium_inv_def medium_ok_def\<close>)

lemma medium_blocks_take:
  assumes inv: "medium_inv s P E X" and c: "c \<in> set (P False)" and e: "E c = as @ (n, False) # bs" and k: "k \<le> n"
  shows "medium_blocks (set (P False)) (E(c := take_extent as n k bs))
      = insert (page c (Suc (page_sum as)), k * SHM_PAGE_SIZE) (medium_blocks (set (P False)) E)"
    "0 < k \<Longrightarrow> (page c (Suc (page_sum as)), k * SHM_PAGE_SIZE) \<notin> medium_blocks (set (P False)) E"
proof -
  have u: "useds 1 (take_extent as n k bs) = insert (Suc (page_sum as), k) (useds 1 (E c))"
    using useds_take [OF k, of 1] e by simp
  have "(p, m) \<in> useds 1 ((E(c := take_extent as n k bs)) d)
      \<longleftrightarrow> (p, m) \<in> useds 1 (E d) \<or> d = c \<and> p = Suc (page_sum as) \<and> m = k" for p m d
    using u by auto
  then show "medium_blocks (set (P False)) (E(c := take_extent as n k bs))
      = insert (page c (Suc (page_sum as)), k * SHM_PAGE_SIZE) (medium_blocks (set (P False)) E)"
    unfolding medium_blocks_def using c by auto
  have ok: "medium_ok s c (E c) (X c)" using inv c by (simp add: medium_inv_def)
  then have pr: "proper (E c)" "page_sum (E c) = 255" by (auto simp: medium_ok_def medium_rep_def)
  show "(page c (Suc (page_sum as)), k * SHM_PAGE_SIZE) \<notin> medium_blocks (set (P False)) E" if k0: "0 < k"
  proof
    assume "(page c (Suc (page_sum as)), k * SHM_PAGE_SIZE) \<in> medium_blocks (set (P False)) E"
    then obtain d p m where d: "page c (Suc (page_sum as)) = page d p" "k = m" "d \<in> set (P False)" "(p, m) \<in> useds 1 (E d)"
      unfolding medium_blocks_def by auto
    have "p < 256" using medium_used_range [OF inv d(3,4)] by linarith
    moreover have "Suc (page_sum as) < 256" using pr e by simp
    ultimately have "d = c" "p = Suc (page_sum as)" using medium_pages_inj [OF inv c d(3)] d(1) by blast+
    then have "(Suc (page_sum as), k) \<in> useds 1 as \<union> useds (Suc (page_sum as) + n) bs" using d(2,4) e by simp
    then show False
      using useds_range [of as "Suc (page_sum as)" k 1] useds_range [of bs "Suc (page_sum as)" k "Suc (page_sum as) + n"] pr(1) e
      by auto
  qed
qed

lemma medium_blocks_free:
  assumes inv: "medium_inv s P E X" and c: "c \<in> set (P False)" and e: "E c = as @ (n, True) # bs"
  shows "medium_blocks (set (P False)) (E(c := free_extent as n bs))
      = medium_blocks (set (P False)) E - {(page c (Suc (page_sum as)), n * SHM_PAGE_SIZE)}"
    "(page c (Suc (page_sum as)), n * SHM_PAGE_SIZE) \<in> medium_blocks (set (P False)) E"
proof -
  have ok: "medium_ok s c (E c) (X c)" using inv c by (simp add: medium_inv_def)
  then have pr: "proper (as @ (n, True) # bs)" "page_sum (as @ (n, True) # bs) = 255"
    using e by (auto simp: medium_ok_def medium_rep_def)
  have u: "useds 1 (free_extent as n bs) = useds 1 (E c) - {(Suc (page_sum as), n)}"
    using useds_free [OF pr(1), of 1] e by simp
  have iff: "(p, m) \<in> useds 1 ((E(c := free_extent as n bs)) d)
      \<longleftrightarrow> (p, m) \<in> useds 1 (E d) \<and> \<not> (d = c \<and> p = Suc (page_sum as) \<and> m = n)" for p m d
    using u by auto
  have here: "(Suc (page_sum as), n) \<in> useds 1 (E c)" using e by simp
  then show "(page c (Suc (page_sum as)), n * SHM_PAGE_SIZE) \<in> medium_blocks (set (P False)) E"
    unfolding medium_blocks_def using c by blast
  have inj: "page d p = page c (Suc (page_sum as)) \<longleftrightarrow> d = c \<and> p = Suc (page_sum as)"
    if "d \<in> set (P False)" "(p, m) \<in> useds 1 (E d)" for d p m
  proof (rule medium_pages_inj [OF inv that(1) c])
    show "p < 256" using medium_used_range [OF inv that] by linarith
    show "Suc (page_sum as) < 256" using pr by simp
  qed
  show "medium_blocks (set (P False)) (E(c := free_extent as n bs))
      = medium_blocks (set (P False)) E - {(page c (Suc (page_sum as)), n * SHM_PAGE_SIZE)}"
    unfolding medium_blocks_def iff using inj by fastforce
qed

end
