(* ===== verification/Heap_Alloc.thy ===== *)
theory Heap_Alloc
  imports Heap_Live
begin

text \<open>
  Allocation and release through the arenas (\<open>malloc_arena\<close>, \<open>free_arena\<close> and
  \<open>check_arena\<close> of \<open>src/shm_context.c\<close>): what they do to the blocks in use, on every branch.
\<close>

section \<open>Steps on the heap\<close>

lemma sys_invD:
  assumes "sys_inv S P R F E X"
  shows "heap_inv (sy_mem S) P R F E X" "arena_inv (sy_mem S) P" "maps_ok S"
    "small_inv (sy_mem S) P R F" "medium_inv (sy_mem S) P E X" "cpools (sy_mem S) P"
  using assms heap_invD [of "sy_mem S" P R F E X] unfolding sys_inv_def by blast+

lemma sys_step:
  assumes inv: "sys_inv S P R F E X" and s': "heap_inv s' P' R' F' E' X'" "sc_arenas s' = sc_arenas (sy_mem S)"
    and P': "both P' = both P"
  shows "sys_inv (S\<lparr>sy_mem := s'\<rparr>) P' R' F' E' X'"
proof -
  note I = sys_invD [OF inv]
  have "chunk_set s' = chunk_set (sy_mem S)" by (simp add: chunk_set_def has_chunk_def s'(2))
  then have "arena_inv s' P'" using I(2) P' by (simp add: arena_inv_def s'(2))
  moreover have "maps_ok (S\<lparr>sy_mem := s'\<rparr>)" using I(3) by (simp add: maps_ok_def s'(2))
  ultimately show ?thesis using s'(1) by (simp add: sys_inv_def)
qed

lemma both_same:
  "mset xs = mset (P True) \<Longrightarrow> both (P(True := xs)) = both P"
  "mset xs = mset (P False) \<Longrightarrow> both (P(False := xs)) = both P"
  using mset_eq_setD [of xs "P True"] mset_eq_setD [of xs "P False"] by simp_all

lemma sys_world: "sys_inv (S\<lparr>sy_world := w\<rparr>) P R F E X = sys_inv S P R F E X"
  by (simp add: sys_inv_def maps_ok_def)

lemma sys_fuel:
  assumes "sys_inv S P R F E X"
  shows "Suc (card (run_pages (sy_mem S) (set (P True)))) < run_fuel" "run_fuel \<le> 2 ^ 32"
    "card (run_pages (sy_mem S) (set (P True))) \<le> run_fuel"
  using fuel_enough [of "sy_mem S" P] sys_invD(2,6) [OF assms] by auto

lemma run_class_set:
  assumes "sys_inv S P R F E X" and "1 \<le> k" "k \<le> 14"
  shows "pool_rep (sc_run_pool (sy_mem S) ! k) (run_nodes (sy_mem S)) (R k)"
    "R k \<subseteq> run_pages (sy_mem S) (set (P True))" "x \<in> R k \<Longrightarrow> rclass (sy_mem S) x = k"
  using small_invD(4,6) [OF sys_invD(4) [OF assms(1)] assms(2,3)] by auto

text \<open>The first run of a class that has a free block.\<close>

lemma run_addr:
  assumes inv: "sys_inv S P R F E X" and x: "x \<in> run_pages (sy_mem S) (set (P True))"
  shows "x \<noteq> 0" "\<exists>a. get_or_update_addr os S x = Inr (S, Some a)"
proof -
  note I = sys_invD [OF inv]
  obtain c n where c: "x = page c n" "c \<in> set (P True)" "n < 256" using x unfolding run_pages_def by blast
  obtain i j where k: "c = chunk_slot i j" "has_chunk (sy_mem S) i j" "i < 128" "j < 8" "(i, j) \<noteq> (0, 0)"
    using in_pool_slot [OF I(2) c(2)] .
  show nz: "x \<noteq> 0" using page_nonzero [OF small_invD(7) [OF I(4) c(2)] c(3)] c(1) by simp
  have "ar_type (sc_arenas (sy_mem S) ! i) \<noteq> 0" using k(2) by (auto simp: has_chunk_def)
  then show "\<exists>a. get_or_update_addr os S x = Inr (S, Some a)"
    using translate [OF I(3) k(3) _ nz] page_index_slot [OF k(3-5) c(3)] c(1) k(1) by blast
qed

lemma try_run_pool_ok:
  assumes inv: "sys_inv S P R F E X" and k: "1 \<le> unat idx" "unat idx \<le> 14"
  shows "try_run_pool os S idx = Inr (S, if R (unat idx) = {} then None else Some (Min (R (unat idx))))"
proof -
  note C = run_class_set [OF inv k]
  have "length (sc_run_pool (sy_mem S)) = 15" using small_invD(3) [OF sys_invD(4) [OF inv]] .
  then have p: "run_pool_at (sy_mem S) idx = Inr (sc_run_pool (sy_mem S) ! unat idx)" using k by (simp add: run_pool_at_def)
  show ?thesis
  proof (cases "R (unat idx) = {}")
    case True
    then show ?thesis using p pool_rep_root [OF C(1)] by (simp add: try_run_pool_def)
  next
    case False
    have m: "Min (R (unat idx)) \<in> R (unat idx)" using pool_rep_finite [OF C(1)] False by (rule Min_in)
    then obtain a where "get_or_update_addr os S (Min (R (unat idx))) = Inr (S, Some a)" "Min (R (unat idx)) \<noteq> 0"
      using run_addr [OF inv] C(2) by blast
    then show ?thesis using False p pool_rep_root [OF C(1)] by (simp add: try_run_pool_def)
  qed
qed

section \<open>Small blocks\<close>

text \<open>\<open>run_of\<close> is the run whose page holds a position;
  \<open>relinkable\<close> says of a block that its run has a free block already or has no stale links.\<close>

definition run_of :: "u64 \<Rightarrow> u64" where
  "run_of pos = pos - pos mod SHM_RUN_UNIT_SIZE"

definition unlinked :: "shm_state \<Rightarrow> u64 \<Rightarrow> bool" where
  "unlinked s x \<longleftrightarrow> tn_left (run_nodes s x) = 0 \<and> tn_right (run_nodes s x) = 0"

definition relinkable :: "shm_state \<Rightarrow> u64 \<Rightarrow> bool" where
  "relinkable s pos \<longleftrightarrow> (run_full (runs s (run_of pos)) \<longrightarrow> unlinked s (run_of pos))"

lemma run_of_block:
  assumes inv: "small_inv s P R F" and x: "x \<in> run_pages s (set (P True))" and j: "j < run_count (rclass s x)"
  shows "run_of (fst (live_block s x j)) = x"
proof -
  let ?p = "fst (live_block s x j)"
  note pl = live_block_place [OF inv x j]
  obtain c i where "x = page c i" "c \<in> set (P True)" "i < 256" using x unfolding run_pages_def by blast
  then have "4096 dvd unat x" using page_dvd small_invD(7) [OF inv] by blast
  then have "unat x mod 4096 = 0" by simp
  then have "unat ?p mod 4096 = (64 + j * elemsize_of (rclass s x)) mod 4096"
    using pl(3) mod_add_left_eq [of "unat x" 4096] by (simp add: add.assoc)
  moreover have "64 + j * elemsize_of (rclass s x) < 4096" using pl(4,5) by linarith
  ultimately have "unat ?p mod 4096 = unat ?p - unat x" using pl(3) by simp
  then have "unat (?p mod 4096) = unat ?p - unat x" by (simp add: unat_mod)
  then show ?thesis using pl(3) unfolding run_of_def by (simp add: word_unat_eq_iff unat_sub word_le_nat_alt)
qed

lemma relinkable_clean:
  assumes inv: "small_inv s P R F" and x: "x \<in> run_pages s (set (P True))" and j: "j < run_count (rclass s x)"
    and "relinkable s (fst (live_block s x j))" "F x = []"
  shows "unlinked s x"
  using assms(4,5) run_of_block [OF inv x j] run_full_rep [OF run_okD(6) [OF small_invD(5) [OF inv x]]]
  by (simp add: relinkable_def)

text \<open>A block of a run of the pool.\<close>

lemma take_block:
  assumes inv: "sys_inv S P R F E X" and k: "1 \<le> k" "k \<le> 14" and x: "R k \<noteq> {}" "x = Min (R k)"
  shows "\<exists>s' ret i is. F x = i # is \<and> malloc_chunk_run run_fuel (sy_mem S) x = Inr (s', ret)
    \<and> sys_inv (S\<lparr>sy_mem := s'\<rparr>) P (R(k := if is = [] then R k - {x} else R k)) (F(x := is)) E X
    \<and> blocks s' P (F(x := is)) E = insert (ret, elemsize_of k) (blocks (sy_mem S) P F E)
    \<and> (ret, elemsize_of k) \<notin> blocks (sy_mem S) P F E \<and> sc_arenas s' = sc_arenas (sy_mem S)
    \<and> run_of ret = x"
proof -
  let ?s = "sy_mem S"
  note I = sys_invD [OF inv]
  note C = run_class_set [OF inv k]
  obtain s' i "is" where m: "F x = i # is" "malloc_chunk_run run_fuel ?s x = Inr (s', x + ucast (boff (elemsize_of k) i))"
    "heap_inv s' P (R(k := if is = [] then R k - {x} else R k)) (F(x := is)) E X"
    "run_pages s' (set (P True)) = run_pages ?s (set (P True))" "rn_conf_index (runs s' x) = rn_conf_index (runs ?s x)"
    "\<forall>y. y \<noteq> x \<longrightarrow> runs s' y = runs ?s y" "sc_arenas s' = sc_arenas ?s"
    using malloc_run_heap [OF I(1) k x sys_fuel(3) [OF inv]] by blast
  have xR: "x \<in> R k" using x pool_rep_finite [OF C(1)] by simp
  then have xp: "x \<in> run_pages ?s (set (P True))" and rk: "rclass ?s x = k" using C(2,3) by blast+
  have cl: "rclass s' y = rclass ?s y" for y using m(5,6) by (cases "y = x") simp_all
  note t = small_blocks_take [OF I(4) xp m(1) m(4) cl]
  have lb: "live_block ?s x i = (x + ucast (boff (elemsize_of k) i), elemsize_of k)" using rk by (simp add: live_block_def)
  have ix: "i < run_count (rclass ?s x)" by (rule t(3))
  have "live_block ?s x i \<in> small_blocks s' (set (P True)) (F(x := is))" using t(1) by simp
  then have fresh: "live_block ?s x i \<notin> medium_blocks (set (P False)) E" by (rule kinds_disjoint [OF m(3)])
  have "sys_inv (S\<lparr>sy_mem := s'\<rparr>) P (R(k := if is = [] then R k - {x} else R k)) (F(x := is)) E X"
    by (rule sys_step [OF inv m(3,7) refl])
  moreover have "blocks s' P (F(x := is)) E = insert (live_block ?s x i) (blocks ?s P F E)"
    "live_block ?s x i \<notin> blocks ?s P F E" using t(1,2) fresh by (simp_all add: blocks_def)
  moreover have "run_of (x + ucast (boff (elemsize_of k) i)) = x"
    using run_of_block [OF I(4) xp ix] by (simp only: lb fst_conv)
  ultimately show ?thesis using m(1,2,7) unfolding lb by blast
qed

text \<open>A chunk of the pool or a new one.\<close>

lemma chunk_has_room:
  assumes inv: "small_inv s P R F" and c: "c \<in> set (P True)"
  shows "1 \<le> unat (cv_maxsize (rb_v (chunk_nodes s c))) \<Longrightarrow> sd_used (ch_small (chunks s c)) \<noteq> 256"
    "run_pages s {c} = {} \<Longrightarrow> sd_used (ch_small (chunks s c)) \<noteq> 256"
proof -
  have ok: "small_ok s c" using small_invD(2) [OF inv c] .
  have mx: "cv_maxsize (rb_v (chunk_nodes s c)) = (if sd_used (ch_small (chunks s c)) = 256 then 0 else 1)"
    and u: "unat (sd_used (ch_small (chunks s c))) = card {i. i < 256 \<and> bm_bit (sbm s c) i}"
    using ok unfolding small_ok_def by blast+
  show "1 \<le> unat (cv_maxsize (rb_v (chunk_nodes s c))) \<Longrightarrow> sd_used (ch_small (chunks s c)) \<noteq> 256"
    unfolding mx by (cases "sd_used (ch_small (chunks s c)) = 256") simp_all
  assume e: "run_pages s {c} = {}"
  show "sd_used (ch_small (chunks s c)) \<noteq> 256"
  proof
    assume "sd_used (ch_small (chunks s c)) = 256"
    then have k: "card {i. i < 256 \<and> bm_bit (sbm s c) i} = card {..<256 :: nat}" using u by simp
    have f: "finite {..<256 :: nat}" "{i. i < 256 \<and> bm_bit (sbm s c) i} \<subseteq> {..<256}" by blast+
    have "{i. i < 256 \<and> bm_bit (sbm s c) i} = {..<256}" by (rule card_subset_eq [OF f k])
    moreover have "(1 :: nat) \<in> {..<256}" by simp
    ultimately have "bm_bit (sbm s c) 1" by blast
    then have "page c 1 \<in> run_pages s {c}" unfolding run_pages_def by force
    then show False using e by blast
  qed
qed

lemma keeps_small:
  assumes k: "keeps s s' P" and xs: "set xs = insert c (set (P True))" and c: "run_pages s' {c} = {}"
  shows "small_blocks s' (set xs) F = small_blocks s (set (P True)) F"
proof (rule small_blocks_same)
  have "run_pages s' (insert c (set (P True))) = run_pages s' {c} \<union> run_pages s' (set (P True))"
    unfolding run_pages_def by blast
  also have "run_pages s' (set (P True)) = run_pages s (set (P True))"
    by (rule run_pages_cong) (use k in \<open>simp add: keeps_def\<close>)
  finally show "run_pages s' (set xs) = run_pages s (set (P True))" using c xs by simp
qed (use k in \<open>simp add: keeps_def\<close>)

lemma small_chunk:
  assumes inv: "sys_inv S P R F E X" and sz: "unat sz < 2 ^ 31"
  shows "(\<exists>w. get_or_new_chunk os S CHUNK_TYPE_SMALL sz = Inr (S\<lparr>sy_world := w\<rparr>, None)
      \<and> no_room os S)
    \<or> (\<exists>S' c xs. get_or_new_chunk os S CHUNK_TYPE_SMALL sz = Inr (S', Some c) \<and> sys_inv S' (P(True := xs)) R F E X
        \<and> c \<in> set xs \<and> sd_used (ch_small (chunks (sy_mem S') c)) \<noteq> 256
        \<and> blocks (sy_mem S') (P(True := xs)) F E = blocks (sy_mem S) P F E
        \<and> larges (sy_mem S') = larges (sy_mem S))"
proof -
  note I = sys_invD [OF inv]
  obtain r where r: "get_avaliable_chunk (sy_mem S) CHUNK_TYPE_SMALL sz = Inr r"
    "case r of None \<Rightarrow> True | Some c \<Rightarrow> c \<in> set (P True) \<and> 1 \<le> unat (cv_maxsize (rb_v (chunk_nodes (sy_mem S) c)))"
    using get_avaliable_ok [OF I(6) sz, of True CHUNK_TYPE_SMALL] by (fastforce split: option.splits)
  show ?thesis
  proof (cases r)
    case (Some c)
    then have "get_or_new_chunk os S CHUNK_TYPE_SMALL sz = Inr (S, Some c)" using r(1) by (simp add: get_or_new_chunk_def)
    then show ?thesis using Some r(2) chunk_has_room(1) [OF I(4)] inv
      by (intro disjI2 exI [of _ S] exI [of _ c] exI [of _ "P True"]) simp
  next
    case None
    then have e: "get_or_new_chunk os S CHUNK_TYPE_SMALL sz = new_chunk os S CHUNK_TYPE_SMALL"
      using r(1) by (simp add: get_or_new_chunk_def)
    have ty: "True = (CHUNK_TYPE_SMALL = CHUNK_TYPE_SMALL)" by simp
    consider w where "new_chunk os S CHUNK_TYPE_SMALL = Inr (S\<lparr>sy_world := w\<rparr>, None)"
        "no_room os S"
      | S' c xs where "new_chunk os S CHUNK_TYPE_SMALL = Inr (S', Some c)" "mset xs = add_mset c (mset (P True))"
        "sys_inv S' (P(True := xs)) R F E X" "run_pages (sy_mem S') {c} = {}" "keeps (sy_mem S) (sy_mem S') P"
        "larges (sy_mem S') = larges (sy_mem S)"
      using new_chunk_ok [OF inv _ ty, of os] unfolding made_def by auto
    then show ?thesis
    proof cases
      case 1
      then show ?thesis using e by auto
    next
      case 2
      have sx: "set xs = insert c (set (P True))" using 2(2) by (metis set_mset_add_mset_insert set_mset_mset)
      have "c \<in> set ((P(True := xs)) True)" using sx by simp
      then have "sd_used (ch_small (chunks (sy_mem S') c)) \<noteq> 256"
        using chunk_has_room(2) [OF sys_invD(4) [OF 2(3)]] 2(4) by blast
      moreover have "blocks (sy_mem S') (P(True := xs)) F E = blocks (sy_mem S) P F E"
        unfolding blocks_def fun_upd_same using keeps_small [OF 2(5) sx 2(4)] by simp
      ultimately show ?thesis using e 2 sx by auto
    qed
  qed
qed

lemma new_run_step:
  assumes inv: "sys_inv S P R F E X" and c: "c \<in> set (P True)" "sd_used (ch_small (chunks (sy_mem S) c)) \<noteq> 256"
    and k: "1 \<le> unat idx" "unat idx \<le> 14"
  shows "\<exists>s' x xs. new_chunk_run run_fuel (sy_mem S) c idx = Inr (s', x)
    \<and> sys_inv (S\<lparr>sy_mem := s'\<rparr>) (P(True := xs)) (R(unat idx := insert x (R (unat idx))))
        (F(x := [0..<run_count (unat idx)])) E X
    \<and> blocks s' (P(True := xs)) (F(x := [0..<run_count (unat idx)])) E = blocks (sy_mem S) P F E
    \<and> sc_arenas s' = sc_arenas (sy_mem S)"
proof -
  note I = sys_invD [OF inv]
  obtain s' x xs where n: "new_chunk_run run_fuel (sy_mem S) c idx = Inr (s', x)"
    "x \<notin> run_pages (sy_mem S) (set (P True))" "mset xs = mset (P True)"
    "heap_inv s' (P(True := xs)) (R(unat idx := insert x (R (unat idx)))) (F(x := [0..<run_count (unat idx)])) E X"
    "run_pages s' (set (P True)) = insert x (run_pages (sy_mem S) (set (P True)))"
    "unat (rn_conf_index (runs s' x)) = unat idx" "\<forall>y. y \<noteq> x \<longrightarrow> runs s' y = runs (sy_mem S) y"
    "heap_frame (sy_mem S) s' c"
    using new_run_heap [OF I(1) c k sys_fuel(1,2) [OF inv]] by blast
  have sx: "set xs = set (P True)" using mset_eq_setD [OF n(3)] .
  have "sys_inv (S\<lparr>sy_mem := s'\<rparr>) (P(True := xs)) (R(unat idx := insert x (R (unat idx))))
      (F(x := [0..<run_count (unat idx)])) E X"
    by (rule sys_step [OF inv n(4) _ both_same(1) [of xs P, OF n(3)]]) (use n(8) in \<open>simp add: heap_frame_def\<close>)
  moreover have "small_blocks s' (set xs) (F(x := [0..<run_count (unat idx)])) = small_blocks (sy_mem S) (set (P True)) F"
    unfolding sx by (rule small_blocks_new_run [OF n(5,2,6)]) (use n(7) in blast)
  moreover have "sc_arenas s' = sc_arenas (sy_mem S)" using n(8) by (simp add: heap_frame_def)
  ultimately show ?thesis using n(1) by (intro exI [of _ s'] exI [of _ x] exI [of _ xs]) (simp add: blocks_def)
qed

text \<open>
  \<open>malloc_small\<close> returns on every branch: a block of the smallest class that fits, which was
  not in use, or 0 with nothing but the system's state changed, when the first arena is full.
\<close>

lemma malloc_small_pool:
  assumes inv: "sys_inv S P R F E X"
    and idx: "find_run_config sz = Inr idx" "1 \<le> unat idx" "unat idx \<le> 14" "R (unat idx) \<noteq> {}"
  shows "\<exists>S' ret R' F'. malloc_small os S sz = Inr (S', ret) \<and> sys_inv S' P R' F' E X
    \<and> blocks (sy_mem S') P F' E = insert (ret, elemsize_of (unat idx)) (blocks (sy_mem S) P F E)
    \<and> (ret, elemsize_of (unat idx)) \<notin> blocks (sy_mem S) P F E \<and> larges (sy_mem S') = larges (sy_mem S)"
proof -
  let ?k = "unat idx"
  obtain s' ret R' F' where b: "malloc_chunk_run run_fuel (sy_mem S) (Min (R ?k)) = Inr (s', ret)"
    "sys_inv (S\<lparr>sy_mem := s'\<rparr>) P R' F' E X"
    "blocks s' P F' E = insert (ret, elemsize_of ?k) (blocks (sy_mem S) P F E)"
    "(ret, elemsize_of ?k) \<notin> blocks (sy_mem S) P F E" "larges s' = larges (sy_mem S)"
    using take_block [OF inv idx(2-4) refl] larges_cong by blast
  have "malloc_small os S sz = Inr (S\<lparr>sy_mem := s'\<rparr>, ret)"
    using idx(1,4) try_run_pool_ok [OF inv idx(2,3), of os] b(1) by (simp add: malloc_small_def)
  then show ?thesis using b by (intro exI [of _ "S\<lparr>sy_mem := s'\<rparr>"] exI [of _ ret] exI [of _ R'] exI [of _ F']) simp
qed

lemma malloc_small_ok:
  assumes inv: "sys_inv S P R F E X" and sz: "0 < sz" "sz \<le> CHUNK_SMALL_LIMIT"
  shows "(\<exists>w. malloc_small os S sz = Inr (S\<lparr>sy_world := w\<rparr>, 0)
      \<and> no_room os S)
    \<or> (\<exists>S' ret k P' R' F'. malloc_small os S sz = Inr (S', ret) \<and> sys_inv S' P' R' F' E X
        \<and> 1 \<le> k \<and> k \<le> 14 \<and> elemsize_of (k - 1) < unat sz \<and> unat sz \<le> elemsize_of k
        \<and> blocks (sy_mem S') P' F' E = insert (ret, elemsize_of k) (blocks (sy_mem S) P F E)
        \<and> (ret, elemsize_of k) \<notin> blocks (sy_mem S) P F E \<and> larges (sy_mem S') = larges (sy_mem S))"
proof -
  obtain idx where idx: "find_run_config sz = Inr idx" "1 \<le> unat idx" "unat idx \<le> 14"
    "elemsize_of (unat idx - 1) < unat sz" "unat sz \<le> elemsize_of (unat idx)"
    by (rule find_run_config_class [OF sz]) blast
  let ?k = "unat idx"
  note t = try_run_pool_ok [OF inv idx(2,3), of os]
  have s31: "unat sz < 2 ^ 31" using sz(2) by (simp add: word_le_nat_alt)
  show ?thesis
  proof (cases "R ?k = {}")
    case False
    from malloc_small_pool [OF inv idx(1-3) False, of os] show ?thesis using idx by blast
  next
    case True
    consider (none) w where "get_or_new_chunk os S CHUNK_TYPE_SMALL sz = Inr (S\<lparr>sy_world := w\<rparr>, None)"
        "no_room os S"
      | (some) S1 c xs where "get_or_new_chunk os S CHUNK_TYPE_SMALL sz = Inr (S1, Some c)" "sys_inv S1 (P(True := xs)) R F E X"
        "c \<in> set xs" "sd_used (ch_small (chunks (sy_mem S1) c)) \<noteq> 256"
        "blocks (sy_mem S1) (P(True := xs)) F E = blocks (sy_mem S) P F E" "larges (sy_mem S1) = larges (sy_mem S)"
      using small_chunk [OF inv s31, of os] by blast
    then show ?thesis
    proof cases
      case none
      then have "malloc_small os S sz = Inr (S\<lparr>sy_world := w\<rparr>, 0)" using idx(1) t True by (simp add: malloc_small_def)
      then show ?thesis using none(2) by blast
    next
      case some
      have c: "c \<in> set ((P(True := xs)) True)" using some(3) by simp
      obtain s2 x ys where n: "new_chunk_run run_fuel (sy_mem S1) c idx = Inr (s2, x)"
        "sys_inv (S1\<lparr>sy_mem := s2\<rparr>) (P(True := ys)) (R(?k := {x})) (F(x := [0..<run_count ?k])) E X"
        "blocks s2 (P(True := ys)) (F(x := [0..<run_count ?k])) E = blocks (sy_mem S) P F E"
        "sc_arenas s2 = sc_arenas (sy_mem S1)"
        using new_run_step [OF some(2) c some(4) idx(2,3), unfolded True some(5) fun_upd_upd] by blast
      have ne: "(R(?k := {x})) ?k \<noteq> {}" "x = Min ((R(?k := {x})) ?k)" by simp_all
      obtain s3 ret R' F' where b: "malloc_chunk_run run_fuel s2 x = Inr (s3, ret)"
        "sys_inv (S1\<lparr>sy_mem := s3\<rparr>) (P(True := ys)) R' F' E X"
        "blocks s3 (P(True := ys)) F' E = insert (ret, elemsize_of ?k) (blocks (sy_mem S) P F E)"
        "(ret, elemsize_of ?k) \<notin> blocks (sy_mem S) P F E" "sc_arenas s3 = sc_arenas s2"
        using take_block [OF n(2) idx(2,3) ne] n(3) by auto
      have la: "larges s3 = larges (sy_mem S)" using larges_cong [of s3 "sy_mem S1"] b(5) n(4) some(6) by simp
      have "malloc_small os S sz = Inr (S1\<lparr>sy_mem := s3\<rparr>, ret)"
        using idx(1) t True some(1) n(1) b(1) by (simp add: malloc_small_def)
      then show ?thesis using b(1-4) idx la
        by (intro disjI2 exI [of _ "S1\<lparr>sy_mem := s3\<rparr>"] exI [of _ ret] exI [of _ ?k] exI [of _ "P(True := ys)"]
            exI [of _ R'] exI [of _ F']) simp
    qed
  qed
qed

section \<open>Medium blocks\<close>

lemma medium_new_chunk:
  assumes "c \<notin> C"
  shows "medium_blocks (insert c C) (E(c := [(255, False)])) = medium_blocks C E"
proof -
  have "d \<in> insert c C \<and> (p, n) \<in> useds 1 ((E(c := [(255, False)])) d) \<longleftrightarrow> d \<in> C \<and> (p, n) \<in> useds 1 (E d)" for d p n
    using assms by auto
  then show ?thesis unfolding medium_blocks_def by simp
qed

text \<open>The first free extent that the search of \<open>malloc_chunk_medium\<close> meets in a chunk.\<close>

definition first_free :: "shm_state \<Rightarrow> (u64 \<Rightarrow> u16 list) \<Rightarrow> u64 \<Rightarrow> nat" where
  "first_free s X c = (case X c of [] \<Rightarrow> 0 | x # _ \<Rightarrow> unat (mv_size (rb_v (ch_pages (chunks s c) x))))"

lemma fresh_first_free:
  assumes inv: "medium_inv s P E X" and c: "c \<in> set (P False)" and e: "E c = [(255, False)]" "X c = [1]"
  shows "first_free s X c = 255"
proof -
  have "medium_rep (medium_of s c) (E c) (X c)" using inv c by (simp add: medium_inv_def medium_ok_def)
  then have "free_nodes (ch_pages (chunks s c)) {1} {(1, 255)}" by (simp add: medium_rep_def medium_of_def e)
  then show ?thesis using e(2) by (simp add: free_nodes_def first_free_def)
qed

lemma medium_chunk:
  assumes inv: "sys_inv S P R F E X" and sz: "unat sz \<le> 255 * SHM_PAGE_SIZE"
  shows "(\<exists>w. get_or_new_chunk os S CHUNK_TYPE_MEDIUM sz = Inr (S\<lparr>sy_world := w\<rparr>, None)
      \<and> no_room os S)
    \<or> (\<exists>c \<in> set (P False). get_or_new_chunk os S CHUNK_TYPE_MEDIUM sz = Inr (S, Some c)
        \<and> unat sz \<le> unat (cv_maxsize (rb_v (chunk_nodes (sy_mem S) c))))
    \<or> (\<exists>S' c P' E' X'. get_or_new_chunk os S CHUNK_TYPE_MEDIUM sz = Inr (S', Some c) \<and> sys_inv S' P' R F E' X'
        \<and> c \<in> set (P' False) \<and> P' True = P True \<and> first_free (sy_mem S') X' c = 255
        \<and> blocks (sy_mem S') P' F E' = blocks (sy_mem S) P F E \<and> larges (sy_mem S') = larges (sy_mem S))"
proof -
  note I = sys_invD [OF inv]
  have s31: "unat sz < 2 ^ 31" using sz by simp
  obtain r where r: "get_avaliable_chunk (sy_mem S) CHUNK_TYPE_MEDIUM sz = Inr r"
    "case r of None \<Rightarrow> True | Some c \<Rightarrow> c \<in> set (P False) \<and> unat sz \<le> unat (cv_maxsize (rb_v (chunk_nodes (sy_mem S) c)))"
    using get_avaliable_ok [OF I(6) s31, of False CHUNK_TYPE_MEDIUM] by (fastforce split: option.splits)
  show ?thesis
  proof (cases r)
    case (Some c)
    then have "get_or_new_chunk os S CHUNK_TYPE_MEDIUM sz = Inr (S, Some c)" using r(1) by (simp add: get_or_new_chunk_def)
    then show ?thesis using Some r(2) by auto
  next
    case None
    then have e: "get_or_new_chunk os S CHUNK_TYPE_MEDIUM sz = new_chunk os S CHUNK_TYPE_MEDIUM"
      using r(1) by (simp add: get_or_new_chunk_def)
    have ty: "False = (CHUNK_TYPE_MEDIUM = CHUNK_TYPE_SMALL)" by simp
    consider w where "new_chunk os S CHUNK_TYPE_MEDIUM = Inr (S\<lparr>sy_world := w\<rparr>, None)"
        "no_room os S"
      | S' c xs where "new_chunk os S CHUNK_TYPE_MEDIUM = Inr (S', Some c)" "mset xs = add_mset c (mset (P False))"
        "sys_inv S' (P(False := xs)) R F (E(c := [(255, False)])) (X(c := [1]))" "keeps (sy_mem S) (sy_mem S') P" "c \<notin> both P"
        "larges (sy_mem S') = larges (sy_mem S)"
      using new_chunk_ok [OF inv _ ty, of os] unfolding made_def by auto
    then show ?thesis
    proof cases
      case 1
      then show ?thesis using e by auto
    next
      case 2
      have sx: "set xs = insert c (set (P False))" using 2(2) by (metis set_mset_add_mset_insert set_mset_mset)
      have cx: "c \<in> set ((P(False := xs)) False)" using sx by simp
      have ff: "first_free (sy_mem S') (X(c := [1])) c = 255"
        by (rule fresh_first_free [OF sys_invD(5) [OF 2(3)] cx]) simp_all
      have "small_blocks (sy_mem S') (set (P True)) F = small_blocks (sy_mem S) (set (P True)) F"
      proof (rule small_blocks_same)
        show "run_pages (sy_mem S') (set (P True)) = run_pages (sy_mem S) (set (P True))"
          by (rule run_pages_cong) (use 2(4) in \<open>simp add: keeps_def\<close>)
      qed (use 2(4) in \<open>simp add: keeps_def\<close>)
      moreover have "medium_blocks (set xs) (E(c := [(255, False)])) = medium_blocks (set (P False)) E"
        unfolding sx by (rule medium_new_chunk) (use 2(5) in simp)
      ultimately have bl: "blocks (sy_mem S') (P(False := xs)) F (E(c := [(255, False)])) = blocks (sy_mem S) P F E"
        by (simp add: blocks_def)
      show ?thesis
        by (intro disjI2 exI [of _ S'] exI [of _ c] exI [of _ "P(False := xs)"] exI [of _ "E(c := [(255, False)])"]
            exI [of _ "X(c := [1])"] conjI) (fact bl cx ff 2(3,6) trans [OF e 2(1)] | simp)+
    qed
  qed
qed

lemma take_pages:
  assumes inv: "sys_inv S P R F E X" and c: "c \<in> set (P False)"
    and sz: "sz \<noteq> 0" "unat sz \<le> 255 * SHM_PAGE_SIZE" and fit: "pages_for (unat sz) \<le> first_free (sy_mem S) X c"
  shows "\<exists>s' ret P' E' X'. malloc_chunk_medium (sy_mem S) c sz = Inr (s', ret)
    \<and> sys_inv (S\<lparr>sy_mem := s'\<rparr>) P' R F E' X' \<and> P' True = P True
    \<and> blocks s' P' F E' = insert (ret, pages_for (unat sz) * SHM_PAGE_SIZE) (blocks (sy_mem S) P F E)
    \<and> (ret, pages_for (unat sz) * SHM_PAGE_SIZE) \<notin> blocks (sy_mem S) P F E \<and> sc_arenas s' = sc_arenas (sy_mem S)"
proof -
  let ?s = "sy_mem S" and ?k = "pages_for (unat sz)"
  note I = sys_invD [OF inv]
  have k0: "0 < ?k" using pages_for_size(2) [OF sz] .
  then obtain x xs where X: "X c = x # xs" using fit by (cases "X c") (simp_all add: first_free_def)
  define n where "n = unat (mv_size (rb_v (ch_pages (chunks ?s c) x)))"
  have kn: "?k \<le> n" using fit X by (simp add: first_free_def n_def)
  obtain as bs s' ys zs where m: "E c = as @ (n, False) # bs"
    "malloc_chunk_medium ?s c sz = Inr (s', page c (Suc (page_sum as)))" "mset ys = mset (P False)"
    "heap_inv s' (P(False := ys)) R F (E(c := take_extent as n ?k bs)) (X(c := zs))" "heap_frame ?s s' c"
    using malloc_medium_heap [OF I(1) c X sz kn n_def] by blast
  define b where "b = (page c (Suc (page_sum as)), ?k * SHM_PAGE_SIZE)"
  note t = medium_blocks_take [OF I(5) c m(1) kn, folded b_def]
  have sy: "set ys = set (P False)" using mset_eq_setD [OF m(3)] .
  have nc: "q \<noteq> c" if "q \<in> set (P True)" for q using that c I(6) by (auto simp: cpools_def)
  have ch: "chunks s' q = chunks ?s q" if "q \<in> set (P True)" for q using nc [OF that] m(5) by (simp add: heap_frame_def)
  have rp: "run_pages s' (set (P True)) = run_pages ?s (set (P True))" by (rule run_pages_cong) (simp add: ch)
  have sb: "small_blocks s' (set (P True)) F = small_blocks ?s (set (P True)) F"
  proof (rule small_blocks_same [OF rp])
    fix x assume x: "x \<in> run_pages ?s (set (P True))"
    obtain s2 as' bs' ys' zs' where m2: "malloc_chunk_medium ?s c sz = Inr (s2, page c (Suc (page_sum as')))"
      "medium_frame ?s s2 c" using malloc_medium_inv [OF I(5) c X sz kn n_def] by blast
    then show "rclass s' x = rclass ?s x" using m(2) by (simp add: medium_frame_def)
  qed
  have fresh: "b \<notin> small_blocks ?s (set (P True)) F"
  proof
    assume "b \<in> small_blocks ?s (set (P True)) F"
    then have "b \<in> small_blocks s' (set ((P(False := ys)) True)) F" by (simp add: sb)
    from kinds_disjoint [OF m(4) this] show False using t(1) by (simp add: sy)
  qed
  have "sys_inv (S\<lparr>sy_mem := s'\<rparr>) (P(False := ys)) R F (E(c := take_extent as n ?k bs)) (X(c := zs))"
    by (rule sys_step [OF inv m(4) _ both_same(2) [of ys P, OF m(3)]]) (use m(5) in \<open>simp add: heap_frame_def\<close>)
  moreover have "blocks s' (P(False := ys)) F (E(c := take_extent as n ?k bs)) = insert b (blocks ?s P F E)"
    using t(1) sb by (simp add: blocks_def sy)
  moreover have "b \<notin> blocks ?s P F E" using t(2) [OF k0] fresh by (simp add: blocks_def)
  moreover have "sc_arenas s' = sc_arenas ?s" using m(5) by (simp add: heap_frame_def)
  moreover have "(P(False := ys)) True = P True" by simp
  ultimately show ?thesis using m(2) unfolding b_def by blast
qed

text \<open>
  \<open>malloc_medium\<close> returns whole pages that were not in use, or 0 when no chunk fits and the
  first arena is full; or it aborts, exactly when the chunk chosen by its largest extent has a
  smaller first extent.
\<close>

lemma malloc_medium_ok:
  assumes inv: "sys_inv S P R F E X" and sz: "CHUNK_SMALL_LIMIT < sz" "sz \<le> CHUNK_MEDIUM_LIMIT"
  shows "(\<exists>w. malloc_medium os S sz = Inr (S\<lparr>sy_world := w\<rparr>, 0)
      \<and> no_room os S)
    \<or> (\<exists>S' ret P' E' X'. malloc_medium os S sz = Inr (S', ret) \<and> sys_inv S' P' R F E' X' \<and> P' True = P True
        \<and> blocks (sy_mem S') P' F E' = insert (ret, pages_for (unat sz) * SHM_PAGE_SIZE) (blocks (sy_mem S) P F E)
        \<and> (ret, pages_for (unat sz) * SHM_PAGE_SIZE) \<notin> blocks (sy_mem S) P F E
        \<and> larges (sy_mem S') = larges (sy_mem S))
    \<or> malloc_medium os S sz = Inl AssertFail
      \<and> (\<exists>c \<in> set (P False). unat sz \<le> unat (cv_maxsize (rb_v (chunk_nodes (sy_mem S) c)))
           \<and> first_free (sy_mem S) X c < pages_for (unat sz))"
proof -
  note I = sys_invD [OF inv]
  have s: "sz \<noteq> 0" "unat sz \<le> 255 * SHM_PAGE_SIZE" using sz by (auto simp: word_le_nat_alt word_less_nat_alt)
  have k: "pages_for (unat sz) \<le> 255" using pages_for_size(3) [OF s] .
  consider (none) w where "get_or_new_chunk os S CHUNK_TYPE_MEDIUM sz = Inr (S\<lparr>sy_world := w\<rparr>, None)"
      "no_room os S"
    | (old) c where "c \<in> set (P False)" "get_or_new_chunk os S CHUNK_TYPE_MEDIUM sz = Inr (S, Some c)"
      "unat sz \<le> unat (cv_maxsize (rb_v (chunk_nodes (sy_mem S) c)))"
    | (new) S1 c P1 E1 X1 where "get_or_new_chunk os S CHUNK_TYPE_MEDIUM sz = Inr (S1, Some c)" "sys_inv S1 P1 R F E1 X1"
      "c \<in> set (P1 False)" "P1 True = P True" "first_free (sy_mem S1) X1 c = 255" "blocks (sy_mem S1) P1 F E1 = blocks (sy_mem S) P F E"
      "larges (sy_mem S1) = larges (sy_mem S)"
    using medium_chunk [OF inv s(2), of os] by blast
  then show ?thesis
  proof cases
    case none
    then have "malloc_medium os S sz = Inr (S\<lparr>sy_world := w\<rparr>, 0)" by (simp add: malloc_medium_def)
    then show ?thesis using none(2) by blast
  next
    case old
    show ?thesis
    proof (cases "pages_for (unat sz) \<le> first_free (sy_mem S) X c")
      case True
      obtain s' ret P' E' X' where m: "malloc_chunk_medium (sy_mem S) c sz = Inr (s', ret)"
        "sys_inv (S\<lparr>sy_mem := s'\<rparr>) P' R F E' X'" "P' True = P True"
        "blocks s' P' F E' = insert (ret, pages_for (unat sz) * SHM_PAGE_SIZE) (blocks (sy_mem S) P F E)"
        "(ret, pages_for (unat sz) * SHM_PAGE_SIZE) \<notin> blocks (sy_mem S) P F E" "larges s' = larges (sy_mem S)"
        using take_pages [OF inv old(1) s True] larges_cong by blast
      have "malloc_medium os S sz = Inr (S\<lparr>sy_mem := s'\<rparr>, ret)" using old(2) m(1) by (simp add: malloc_medium_def)
      then show ?thesis using m
        by (intro disjI2 disjI1 exI [of _ "S\<lparr>sy_mem := s'\<rparr>"] exI [of _ ret] exI [of _ P'] exI [of _ E'] exI [of _ X']) simp
    next
      case False
      have "malloc_chunk_medium (sy_mem S) c sz = Inl AssertFail"
        by (rule malloc_medium_abort [OF I(5) old(1) s]) (use False in \<open>simp add: first_free_def\<close>)
      then have "malloc_medium os S sz = Inl AssertFail" using old(2) by (simp add: malloc_medium_def)
      then show ?thesis using False old(1,3) by (auto simp: not_le)
    qed
  next
    case new
    have fit: "pages_for (unat sz) \<le> first_free (sy_mem S1) X1 c" using new(5) k by simp
    obtain s' ret P' E' X' where m: "malloc_chunk_medium (sy_mem S1) c sz = Inr (s', ret)"
      "sys_inv (S1\<lparr>sy_mem := s'\<rparr>) P' R F E' X'" "P' True = P True"
      "blocks s' P' F E' = insert (ret, pages_for (unat sz) * SHM_PAGE_SIZE) (blocks (sy_mem S) P F E)"
      "(ret, pages_for (unat sz) * SHM_PAGE_SIZE) \<notin> blocks (sy_mem S) P F E" "sc_arenas s' = sc_arenas (sy_mem S1)"
      using take_pages [OF new(2,3) s fit, unfolded new(4,6)] by blast
    have la: "larges s' = larges (sy_mem S)" using larges_cong [OF m(6)] new(7) by simp
    have "malloc_medium os S sz = Inr (S1\<lparr>sy_mem := s'\<rparr>, ret)" using new(1) m(1) by (simp add: malloc_medium_def)
    then show ?thesis using m(1-5) la
      by (intro disjI2 disjI1 exI [of _ "S1\<lparr>sy_mem := s'\<rparr>"] exI [of _ ret] exI [of _ P'] exI [of _ E'] exI [of _ X']) simp
  qed
qed

section \<open>Release\<close>

text \<open>A position inside a chunk of the pools leads to this chunk.\<close>

lemma inside_table:
  assumes I: "arena_inv (sy_mem S) P" "maps_ok S" and h: "has_chunk (sy_mem S) i j" and p: "unat p = unat (chunk_slot i j) + m"
    and m: "m < SHM_CHUNK_UNIT_SIZE"
  shows "pos2index p = word_of_nat i" "is_arena_valid S (word_of_nat i)"
    "get_arena_chunk (sc_arenas (sy_mem S) ! i) (pos2offset p) = Inr (chunk_slot i j)"
    "chunk_at os S (chunk_slot i j) = Inr S" "pos2offset p - pos2offset (chunk_slot i j) = word_of_nat m"
    "(word_of_nat m :: u32) < SHM_CHUNK_UNIT_SIZE" "unat (pos2offset p) = j * SHM_CHUNK_UNIT_SIZE + m"
proof -
  have ij: "i < 128" "j < 8" "(i, j) \<noteq> (0, 0)" "chunked (sc_arenas (sy_mem S) ! i)"
    "ar_chunks (sc_arenas (sy_mem S) ! i) ! j = chunk_slot i j" using h unfolding has_chunk_def by blast+
  note A = arena_okD [OF arena_invD(2) [OF I(1) ij(1)]]
  have "p = chunk_slot i j + word_of_nat m"
    using chunk_aligned_bound(2) [OF chunk_slot_aligned [OF ij(1-3)] m] p by (simp add: word_unat_eq_iff)
  note q = slot_inner [OF ij(1-3) m, folded this]
  show "pos2index p = word_of_nat i" by (rule q(1))
  have nz: "ar_type (sc_arenas (sy_mem S) ! i) \<noteq> 0" using ij(4) by auto
  then show "is_arena_valid S (word_of_nat i)" using ij(1) index_word by (simp add: is_arena_valid_def)
  have jm: "j * 1048576 + m < 8388608" using ij(2) m by simp
  then have u: "unat (pos2offset p) = j * 1048576 + m" unfolding q(2) by (intro unat_of_nat_small) simp
  then show "unat (pos2offset p) = j * SHM_CHUNK_UNIT_SIZE + m" .
  have us: "unat (pos2offset (chunk_slot i j)) = j * 1048576" using ij by (simp add: chunk_slot_parts unat_slot_offset)
  have um: "unat (word_of_nat m :: u32) = m" using m by (intro unat_of_nat_small) simp
  have "unat (ucast (pos2offset p) :: u64) = unat (pos2offset p)"
    using unat_less_u32 [of "pos2offset p"] by (simp add: unsigned_ucast_eq take_bit_nat_eq_self)
  then have "\<not> 8388608 \<le> (ucast (pos2offset p) :: u64)" using u jm by (simp add: word_le_nat_alt)
  moreover have "(j * 1048576 + m) div 1048576 = j" using m by simp
  ultimately show "get_arena_chunk (sc_arenas (sy_mem S) ! i) (pos2offset p) = Inr (chunk_slot i j)"
    using u A(1) A(5) [OF ij(4)] ij(2,5) by (simp add: get_arena_chunk_def Let_def)
  have "pos2offset (chunk_slot i j) mod 1048576 = 0"
    using us by (simp add: word_unat_eq_iff unat_mod)
  moreover obtain a where "get_or_update_addr os S (chunk_slot i j) = Inr (S, Some a)"
    using translate_chunk [OF I(2) h, of os] by blast
  ultimately show "chunk_at os S (chunk_slot i j) = Inr S"
    by (simp only: chunk_at_def bind_r.simps prod.case) simp
  have "pos2offset p = pos2offset (chunk_slot i j) + word_of_nat m"
    unfolding q(2) using chunk_slot_parts(2) [of i j] by simp
  then show "pos2offset p - pos2offset (chunk_slot i j) = word_of_nat m" by simp
  show "(word_of_nat m :: u32) < SHM_CHUNK_UNIT_SIZE" using um m by (simp add: word_less_nat_alt)
qed

lemma free_arena_table:
  assumes I: "arena_inv (sy_mem S) P" "maps_ok S" and h: "has_chunk (sy_mem S) i j" and p: "unat p = unat (chunk_slot i j) + m"
    and m: "m < SHM_CHUNK_UNIT_SIZE"
  shows "free_arena os S (pos2index p) (pos2offset p)
    = bind_r (free_chunk run_fuel (sy_mem S) (chunk_slot i j) (word_of_nat m)) (\<lambda>(s, check).
        if check then check_delete_chunk os (S\<lparr>sy_mem := s\<rparr>) (word_of_nat i) (chunk_slot i j) else Inr (S\<lparr>sy_mem := s\<rparr>))"
proof -
  have ij: "i < 128" "chunked (sc_arenas (sy_mem S) ! i)" using h unfolding has_chunk_def by blast+
  have "chunk_slot i j \<noteq> 0" using h chunk_slot_nonzero unfolding has_chunk_def by blast
  then show ?thesis using inside_table(1,2,3,5,6) [OF I h p m] inside_table(4) [OF I h p m, of os] ij
    by (simp add: free_arena_def Let_def)
qed

lemma sys_inv_table:
  assumes "sys_inv S P R F E X"
  shows "arena_inv (sy_mem S) P" "maps_ok S"
  using assms by (simp_all add: sys_inv_def)

lemmas inside_chunk = inside_table [OF sys_inv_table(1) sys_inv_table(2)]
  and free_arena_inside = free_arena_table [OF sys_inv_table(1) sys_inv_table(2)]

text \<open>The entry of a deleted chunk is cleared, and the arena is given back with its last chunk.\<close>

lemma drop_chunk:
  assumes inv: "sys_inv S P R F E X" and h: "has_chunk (sy_mem S) i j"
    and s': "heap_inv s' P' R' F' E' X'" "sc_arenas s' = sc_arenas (sy_mem S)" and P': "both P' = both P - {chunk_slot i j}"
  shows "\<exists>S'. check_delete_chunk os (S\<lparr>sy_mem := s'\<rparr>) (word_of_nat i) (chunk_slot i j) = Inr S'
    \<and> sys_inv S' P' R' F' E' X' \<and> chunks (sy_mem S') = chunks s' \<and> runs (sy_mem S') = runs s'
    \<and> larges (sy_mem S') = larges (sy_mem S)"
proof -
  let ?s = "sy_mem S"
  note I = sys_invD [OF inv]
  note T = arena_invD [OF I(2)]
  have ij: "i < 128" "j < 8" "(i, j) \<noteq> (0, 0)" "chunked (sc_arenas ?s ! i)"
    "ar_chunks (sc_arenas ?s ! i) ! j = chunk_slot i j" using h unfolding has_chunk_def by blast+
  define a where "a = sc_arenas ?s ! i"
  have ok: "arena_ok a i" "chunked a" using T(2) [OF ij(1)] ij(4) by (simp_all add: a_def)
  note A = arena_okD [OF ok(1)]
  have nz: "ar_chunks a ! j \<noteq> 0" using ij(5) chunk_slot_nonzero [OF ij(1-3)] by (simp add: a_def)
  define a' where "a' = put_slot a j 0 (ar_used a - 1)"
  have ok': "arena_ok a' i" unfolding a'_def by (rule arena_ok_drop [OF ok ij(2,3) nz])
  define s1 where "s1 = s'\<lparr>sc_arenas := (sc_arenas s')[i := a']\<rparr>"
  define S1 where "S1 = S\<lparr>sy_mem := s1\<rparr>"
  have ui: "unat (word_of_nat i :: u32) = i" using index_word ij(1) by blast
  have "unat (pos2offset (chunk_slot i j) div 1048576) = j"
    using ij(2) by (simp add: chunk_slot_parts unat_div unat_slot_offset)
  then have d: "delete_arena_chunk a (chunk_slot i j) = Inr a'"
    using ij(2) A(1) nz by (simp add: delete_arena_chunk_def a'_def Let_def)
  have st: "check_delete_chunk os (S\<lparr>sy_mem := s'\<rparr>) (word_of_nat i) (chunk_slot i j)
      = (if ar_used a' = 0 \<and> ar_type a' \<noteq> ARENA_TYPE_CONTEXT then delete_arena os S1 (ar_index a') else Inr S1)"
    using d ui s'(2) by (simp add: check_delete_chunk_def arena_at_def put_arena_def S1_def s1_def a_def Let_def)
  have h1: "heap_inv s1 P' R' F' E' X'" by (rule heap_inv_cong [OF s'(1)]) (simp_all add: s1_def)
  have ar1: "sc_arenas s1 = (sc_arenas ?s)[i := put_slot (sc_arenas ?s ! i) j 0 (ar_used a - 1)]"
    by (simp add: s1_def s'(2) a'_def a_def)
  have cs1: "chunk_set s1 = both P'"
    using chunk_set_drop [OF ar1 T(1) ij(1) _ ij(2,3)] A(1) T(3) P' by (simp add: a_def)
  have inv1: "arena_inv s1 P'"
    by (rule arena_inv_put [OF I(2) ok' ij(1)]) (simp_all add: s1_def s'(2) cs1 [unfolded s1_def s'(2)])
  have maps: "maps_ok S1" using I(3) T(1) ij(1,4) unfolding maps_ok_def S1_def
    by (auto simp: s1_def s'(2) nth_list_update a'_def a_def)
  have sys1: "sys_inv S1 P' R' F' E' X'" using h1 inv1 maps by (simp add: sys_inv_def S1_def)
  have la: "larges s1 = larges ?s" by (rule larges_put [OF ar1 T(1) ij(1)]) (use ij(4) in auto)
  show ?thesis
  proof (cases "ar_used a' = 0 \<and> ar_type a' \<noteq> ARENA_TYPE_CONTEXT")
    case False
    then have "check_delete_chunk os (S\<lparr>sy_mem := s'\<rparr>) (word_of_nat i) (chunk_slot i j) = Inr S1"
      unfolding st by (simp only: if_False)
    then show ?thesis using sys1 la by (intro exI [of _ S1]) (simp add: S1_def s1_def)
  next
    case True
    have ix: "ar_index a' = word_of_nat i" using A(2) ok(2) by (auto simp: a'_def)
    have l1: "length (sc_arenas s1) = 128" using T(1) by (simp add: ar1)
    have a1: "sc_arenas s1 ! i = a'" using T(1) ij(1) by (simp add: s1_def s'(2))
    have ch': "chunked a'" using ok(2) by (simp add: a'_def)
    have addr: "get_arena_addr S1 (word_of_nat i) \<noteq> 0"
      using maps ij(1) ch' a1 ui unfolding maps_ok_def by (auto simp: get_arena_addr_def S1_def)
    define w where "w = snd (shm_munmap os (sy_world S) (get_arena_addr S1 (word_of_nat i)))"
    define s2 where "s2 = s1\<lparr>sc_arenas := (sc_arenas s1)[i := zero_arena]\<rparr>"
    define S2 where "S2 = S1\<lparr>sy_world := w, sy_mem := s2, sy_addrs := (sy_addrs S1)[i := \<lparr>aa_addr = 0, aa_shmid = 0\<rparr>]\<rparr>"
    have "delete_arena os S1 (word_of_nat i) = Inr S2"
      using addr ui by (simp add: delete_arena_def clear_arena_addr_def put_arena_def S2_def s2_def S1_def w_def Let_def)
    then have e: "check_delete_chunk os (S\<lparr>sy_mem := s'\<rparr>) (word_of_nat i) (chunk_slot i j) = Inr S2"
      using True ix unfolding st by simp
    have card0: "card {k. k < 8 \<and> ar_chunks a' ! k \<noteq> 0} = 0" using arena_okD(7) [OF ok' ch'] True by simp
    have "finite {k. k < 8 \<and> ar_chunks a' ! k \<noteq> 0}" by simp
    then have none: "ar_chunks a' ! k = 0" if "k < 8" for k using card0 that by auto
    have h2: "heap_inv s2 P' R' F' E' X'" by (rule heap_inv_cong [OF h1]) (simp_all add: s2_def)
    have ar2: "sc_arenas s2 = (sc_arenas s1)[i := zero_arena]" by (simp add: s2_def)
    have "chunk_set s2 = chunk_set s1"
    proof (rule chunk_set_same [OF ar2 l1 ij(1)])
      show "\<not> has_chunk s1 i k" for k
        using none [of k] chunk_slot_nonzero [OF ij(1), of k] a1 by (auto simp: has_chunk_def)
    qed (simp add: zero_arena_def)
    moreover have "i \<noteq> 0" using A(3) True by (auto simp: a'_def)
    then have "arena_ok zero_arena i" by (simp add: arena_ok_def zero_arena_def del: replicate.simps)
    ultimately have inv2: "arena_inv s2 P'" by (intro arena_inv_put [OF inv1 _ ij(1) ar2]) (simp_all add: cs1)
    have "maps_ok S2" using maps l1 ij(1) unfolding maps_ok_def S2_def S1_def
      by (auto simp: s2_def nth_list_update zero_arena_def)
    then have "sys_inv S2 P' R' F' E' X'" using h2 inv2 by (simp add: sys_inv_def S2_def)
    moreover have "larges s2 = larges s1" by (rule larges_put [OF ar2 l1 ij(1)]) (use a1 ch' in \<open>auto simp: zero_arena_def\<close>)
    ultimately show ?thesis using e la by (intro exI [of _ S2]) (simp add: S2_def s2_def s1_def)
  qed
qed


lemma small_block_cases:
  assumes inv: "small_inv s P R F" and b: "(pos, n) \<in> small_blocks s (set (P True)) F"
  obtains c i k j where "c \<in> set (P True)" "1 \<le> i" "i < 256" "bm_bit (sbm s c) i" "page c i \<in> run_pages s (set (P True))"
    "k = rclass s (page c i)" "j < run_count k" "j \<notin> set (F (page c i))" "(pos, n) = live_block s (page c i) j"
    "unat pos = unat c + (i * SHM_PAGE_SIZE + (RUN_HEADER_SIZE + j * elemsize_of k))"
    "i * SHM_PAGE_SIZE + (RUN_HEADER_SIZE + j * elemsize_of k) < SHM_CHUNK_UNIT_SIZE"
proof -
  obtain x j where xj: "(pos, n) = live_block s x j" "(x, j) \<in> small_live s (set (P True)) F"
    using b unfolding small_blocks_def by auto
  then have x: "x \<in> run_pages s (set (P True))" "j < run_count (rclass s x)" "j \<notin> set (F x)" by (auto simp: small_live_def)
  then obtain c i where c: "x = page c i" "c \<in> set (P True)" "1 \<le> i" "i < 256" "bm_bit (sbm s c) i"
    unfolding run_pages_def by blast
  note pl = live_block_place [OF inv x(1,2)]
  have "pos = fst (live_block s x j)" using xj(1) by (metis fst_conv)
  then have "unat pos = unat c + (i * 4096 + (64 + j * elemsize_of (rclass s x)))"
    using pl(3) unat_page [OF small_invD(7) [OF inv c(2)] c(4)] c(1) by simp
  moreover have "i * 4096 + (64 + j * elemsize_of (rclass s x)) < 1048576" using pl(4,5) c(4) by linarith
  ultimately show ?thesis using that [OF c(2-5), of "rclass s x" j] c(1) x xj(1) by simp
qed

lemma free_small_ok:
  assumes inv: "sys_inv S P R F E X" and b: "(pos, n) \<in> small_blocks (sy_mem S) (set (P True)) F"
    and clean: "relinkable (sy_mem S) pos"
  shows "\<exists>S' P' R' F'. free_arena os S (pos2index pos) (pos2offset pos) = Inr S' \<and> sys_inv S' P' R' F' E X
    \<and> blocks (sy_mem S') P' F' E = blocks (sy_mem S) P F E - {(pos, n)} \<and> larges (sy_mem S') = larges (sy_mem S)
    \<and> (\<exists>k. 1 \<le> k \<and> k \<le> 14 \<and> n = elemsize_of k \<and> R' k \<noteq> {})"
proof -
  let ?s = "sy_mem S"
  note I = sys_invD [OF inv]
  obtain c i k j where c: "c \<in> set (P True)" "1 \<le> i" "i < 256" "bm_bit (sbm ?s c) i" "page c i \<in> run_pages ?s (set (P True))"
    "k = rclass ?s (page c i)" "j < run_count k" "j \<notin> set (F (page c i))" "(pos, n) = live_block ?s (page c i) j"
    "unat pos = unat c + (i * 4096 + (64 + j * elemsize_of k))" "i * 4096 + (64 + j * elemsize_of k) < 1048576"
    by (rule small_block_cases [OF I(4) b])
  obtain a m where am: "c = chunk_slot a m" "has_chunk ?s a m" using in_pool_slot [OF I(2) c(1)] by metis
  define x where "x = page c i"
  define freed where "freed \<longleftrightarrow> Suc (length (F x)) = run_count k \<and> R k - {x} \<noteq> {}"
  have cl: "F (page c i) = [] \<Longrightarrow> tn_left (run_nodes ?s (page c i)) = 0 \<and> tn_right (run_nodes ?s (page c i)) = 0"
    using relinkable_clean [OF I(4) c(5)] clean c(6,7,9) by (metis fst_conv unlinked_def)
  obtain s' xs d where f: "free_chunk run_fuel ?s c (block_offset i k j) = Inr (s', d)"
    "mset xs = (if d then mset (P True) - {#c#} else mset (P True))"
    "heap_inv s' (P(True := xs)) (R(k := if freed then R k - {x} else insert x (R k))) (F(x := j # F x)) E X"
    "run_pages s' (set xs) = run_pages ?s (set (P True)) - (if freed then {x} else {})"
    "heap_frame ?s s' c" "\<forall>y. rn_conf_index (runs s' y) = rn_conf_index (runs ?s y)"
    using free_small_heap [OF I(1) c(1-4,6-8) cl sys_fuel(1,2) [OF inv], folded x_def, folded freed_def] by blast
  have e: "free_arena os S (pos2index pos) (pos2offset pos) = (if d
      then check_delete_chunk os (S\<lparr>sy_mem := s'\<rparr>) (word_of_nat a) c else Inr (S\<lparr>sy_mem := s'\<rparr>))"
    using free_arena_inside [OF inv inv am(2) c(10) [unfolded am(1)] c(11), of os] f(1) am(1) by (simp add: block_offset_def)
  have xr: "x \<in> run_pages ?s (set (P True))" "j < run_count (rclass ?s x)" "j \<notin> set (F x)" using c(5-8) by (simp_all add: x_def)
  have "small_blocks s' (set xs) (F(x := j # F x)) = small_blocks ?s (set (P True)) F - {(pos, n)}"
    using small_blocks_put(1) [OF I(4) xr f(4)] f(6) c(6,9) by (simp add: x_def freed_def)
  then have bl: "blocks s' (P(True := xs)) (F(x := j # F x)) E = blocks ?s P F E - {(pos, n)}"
    using kinds_disjoint [OF I(1) b] by (auto simp: blocks_def)
  define R' where "R' = R(k := if freed then R k - {x} else insert x (R k))"
  have "n = elemsize_of k" using c(6,9) by (simp add: live_block_def)
  moreover have "R' k \<noteq> {}" by (auto simp: R'_def freed_def)
  moreover have "1 \<le> k" "k \<le> 14" using run_okD(2,3) [OF small_invD(5) [OF I(4) c(5)]] c(6) by simp_all
  ultimately have re: "\<exists>k. 1 \<le> k \<and> k \<le> 14 \<and> n = elemsize_of k \<and> R' k \<noteq> {}" by blast
  have ar: "sc_arenas s' = sc_arenas ?s" using f(5) by (simp add: heap_frame_def)
  show ?thesis
  proof (cases d)
    case False
    have "sys_inv (S\<lparr>sy_mem := s'\<rparr>) (P(True := xs)) R' (F(x := j # F x)) E X"
      unfolding R'_def by (rule sys_step [OF inv f(3) ar both_same(1)]) (use f(2) False in simp)
    then show ?thesis using e False bl larges_cong [OF ar] re
      by (intro exI [of _ "S\<lparr>sy_mem := s'\<rparr>"] exI [of _ "P(True := xs)"] exI [of _ "F(x := j # F x)"]
          exI [of _ R'] conjI) simp_all
  next
    case True
    have "distinct (P True)" using rb_rep_distinct [OF cpoolsD(1) [OF I(6)]] .
    then have "set xs = set (P True) - {c}" using f(2) True by (metis mset_remove1 set_mset_mset set_remove1_eq)
    then have P': "both (P(True := xs)) = both P - {chunk_slot a m}" using c(1) am(1) I(6) by (auto simp: cpools_def)
    obtain S' where S': "check_delete_chunk os (S\<lparr>sy_mem := s'\<rparr>) (word_of_nat a) c = Inr S'"
      "sys_inv S' (P(True := xs)) R' (F(x := j # F x)) E X"
      "chunks (sy_mem S') = chunks s'" "runs (sy_mem S') = runs s'" "larges (sy_mem S') = larges ?s"
      using drop_chunk [OF inv am(2) f(3) ar P'] am(1) unfolding R'_def by blast
    have rp: "run_pages (sy_mem S') (set xs) = run_pages s' (set xs)" by (rule run_pages_cong) (simp add: S'(3))
    have "small_blocks (sy_mem S') (set xs) (F(x := j # F x)) = small_blocks s' (set xs) (F(x := j # F x))"
      by (rule small_blocks_same [OF rp]) (simp add: S'(4))
    then have "blocks (sy_mem S') (P(True := xs)) (F(x := j # F x)) E = blocks ?s P F E - {(pos, n)}"
      using bl by (simp add: blocks_def)
    then show ?thesis using e True S'(1,2,5) re by (simp only: if_True) blast
  qed
qed


text \<open>Releasing an extent of pages.\<close>

lemma useds_split: "(q, n) \<in> useds p es \<Longrightarrow> \<exists>as bs. es = as @ (n, True) # bs \<and> q = p + page_sum as"
proof (induction es arbitrary: p)
  case (Cons e es)
  show ?case
  proof (cases "snd e \<and> (q, n) = (p, fst e)")
    case True
    then show ?thesis by (intro exI [of _ "[]"] exI [of _ es]) (cases e, simp)
  next
    case False
    then have "(q, n) \<in> useds (p + fst e) es" using Cons.prems by (auto split: if_splits)
    then obtain as bs where "es = as @ (n, True) # bs" "q = p + fst e + page_sum as" using Cons.IH by blast
    then show ?thesis by (intro exI [of _ "e # as"] exI [of _ bs]) simp
  qed
qed simp

lemma free_medium_ok:
  assumes inv: "sys_inv S P R F E X" and b: "(pos, n) \<in> medium_blocks (set (P False)) E"
  shows "\<exists>S' P' E' X'. free_arena os S (pos2index pos) (pos2offset pos) = Inr S' \<and> sys_inv S' P' R F E' X'
    \<and> blocks (sy_mem S') P' F E' = blocks (sy_mem S) P F E - {(pos, n)} \<and> larges (sy_mem S') = larges (sy_mem S)"
proof -
  let ?s = "sy_mem S"
  note I = sys_invD [OF inv]
  obtain c p k where c: "pos = page c p" "n = k * 4096" "c \<in> set (P False)" "(p, k) \<in> useds 1 (E c)"
    using b unfolding medium_blocks_def by auto
  obtain as bs where e: "E c = as @ (k, True) # bs" "p = Suc (page_sum as)" using useds_split [OF c(4)] by auto
  note M = medium_used_range [OF I(5) c(3,4)]
  obtain a m where am: "c = chunk_slot a m" "has_chunk ?s a m" using in_pool_slot [OF I(2) c(3)] by metis
  obtain s' ys zs d where f: "free_chunk run_fuel ?s c (word_of_nat (Suc (page_sum as) * SHM_PAGE_SIZE)) = Inr (s', d)"
    "mset ys = (if d then mset (P False) - {#c#} else mset (P False))"
    "heap_inv s' (P(False := ys)) R F (E(c := free_extent as k bs)) (X(c := zs))"
    "d \<longleftrightarrow> free_extent as k bs = [(255, False)]" "heap_frame ?s s' c"
    using free_medium_heap [OF I(1) c(3) e(1)] by blast
  have pm: "p * 4096 < 1048576" "unat pos = unat (chunk_slot a m) + p * 4096"
    using M(2,3,5) c(1) am(1) by simp_all
  have eq: "free_arena os S (pos2index pos) (pos2offset pos) = (if d
      then check_delete_chunk os (S\<lparr>sy_mem := s'\<rparr>) (word_of_nat a) c else Inr (S\<lparr>sy_mem := s'\<rparr>))"
    using free_arena_inside [OF inv inv am(2) pm(2,1), of os] f(1) am(1) e(2) by simp
  have ar: "sc_arenas s' = sc_arenas ?s" using f(5) by (simp add: heap_frame_def)
  have dp: "distinct (P False)" using rb_rep_distinct [OF cpoolsD(1) [OF I(6)]] .
  have sy: "set ys = (if d then set (P False) - {c} else set (P False))"
    using f(2) dp by (cases d) (metis mset_remove1 set_mset_mset set_remove1_eq, metis set_mset_mset)
  have "medium_blocks (set ys) (E(c := free_extent as k bs)) = medium_blocks (set (P False)) (E(c := free_extent as k bs))"
  proof (cases d)
    case True
    then have "useds 1 ((E(c := free_extent as k bs)) c) = {}" using f(4) by simp
    then show ?thesis unfolding medium_blocks_def using sy True by (auto simp: sy)
  qed (simp add: sy)
  also have "\<dots> = medium_blocks (set (P False)) E - {(pos, n)}"
    using medium_blocks_free(1) [OF I(5) c(3) e(1)] c(1,2) e(2) by simp
  finally have mb: "medium_blocks (set ys) (E(c := free_extent as k bs)) = medium_blocks (set (P False)) E - {(pos, n)}" .
  have ns: "(pos, n) \<notin> small_blocks ?s (set (P True)) F" using kinds_disjoint [OF I(1)] b by blast
  have bl: "blocks s'' (P(False := ys)) F (E(c := free_extent as k bs)) = blocks ?s P F E - {(pos, n)}"
    if s'': "chunks s'' = chunks s'" "runs s'' = runs s'" for s''
  proof -
    have nc: "q \<noteq> c" if "q \<in> set (P True)" for q using that c(3) I(6) by (auto simp: cpools_def)
    have rp: "run_pages s'' (set (P True)) = run_pages ?s (set (P True))"
      by (rule run_pages_cong) (use f(5) nc s''(1) in \<open>simp add: heap_frame_def\<close>)
    obtain s2 ys2 zs2 d2 where f2: "free_chunk_medium ?s c (word_of_nat (Suc (page_sum as) * SHM_PAGE_SIZE)) = Inr (s2, d2)"
      "medium_frame ?s s2 c" using free_medium_inv [OF I(5) c(3) e(1)] by blast
    have "ch_type (chunks ?s c) = CHUNK_TYPE_MEDIUM" using I(5) c(3) by (simp add: medium_inv_def medium_ok_def)
    then have "runs s' = runs ?s" using f(1) f2 unfolding free_chunk_def
      by (auto simp: medium_frame_def delete_chunk_def bind_r_eq_Inr split: if_splits)
    then have "small_blocks s'' (set (P True)) F = small_blocks ?s (set (P True)) F"
      using small_blocks_same [OF rp] s''(2) by simp
    then show ?thesis using mb ns by (auto simp: blocks_def)
  qed
  show ?thesis
  proof (cases d)
    case False
    have "sys_inv (S\<lparr>sy_mem := s'\<rparr>) (P(False := ys)) R F (E(c := free_extent as k bs)) (X(c := zs))"
      by (rule sys_step [OF inv f(3) ar both_same(2)]) (use f(2) False in simp)
    then show ?thesis using eq False bl [OF refl refl] larges_cong [OF ar]
      by (intro exI [of _ "S\<lparr>sy_mem := s'\<rparr>"] exI [of _ "P(False := ys)"] exI [of _ "E(c := free_extent as k bs)"]
          exI [of _ "X(c := zs)"]) simp
  next
    case True
    have P': "both (P(False := ys)) = both P - {chunk_slot a m}" using sy True c(3) am(1) I(6) by (auto simp: cpools_def)
    obtain S' where S': "check_delete_chunk os (S\<lparr>sy_mem := s'\<rparr>) (word_of_nat a) c = Inr S'"
      "sys_inv S' (P(False := ys)) R F (E(c := free_extent as k bs)) (X(c := zs))"
      "chunks (sy_mem S') = chunks s'" "runs (sy_mem S') = runs s'" "larges (sy_mem S') = larges ?s"
      using drop_chunk [OF inv am(2) f(3) ar P'] am(1) by blast
    then show ?thesis using eq True bl [OF S'(3,4)] S'(5) by (simp only: if_True) blast
  qed
qed

text \<open>A position that no block starts at, in an arena cut into chunks: outside every chunk.\<close>

lemma free_invalid_arena: "\<not> is_arena_valid S index \<Longrightarrow> free_arena os S index offset = Inr S"
  by (simp add: free_arena_def)


section \<open>Arenas that are one block\<close>

lemma align_unit: "align_size sz SHM_CHUNK_UNIT_SIZE mod SHM_CHUNK_UNIT_SIZE = (0 :: u64)"
proof -
  have "unat (align_size sz 1048576 :: u64) = 1048576 * unat ((sz + (1048576 - 1)) div 1048576) mod 2 ^ 64"
    by (simp add: align_size_def unat_word_ariths)
  moreover have "(1048576 :: nat) dvd 1048576 * unat ((sz + (1048576 - 1)) div 1048576) mod 2 ^ 64"
    by (rule dvd_mod) simp_all
  ultimately have "(1048576 :: nat) dvd unat (align_size sz 1048576 :: u64)" by (simp only:)
  then show ?thesis by (simp add: word_unat_eq_iff unat_mod)
qed

lemma larges_new:
  assumes "sc_arenas s' = (sc_arenas s)[i := a]" and "length (sc_arenas s) = 128" "i < 128"
    and "ar_type a = ARENA_TYPE_LARGE" "ar_type (sc_arenas s ! i) \<noteq> ARENA_TYPE_LARGE"
  shows "larges s' = insert (chunk_slot i 0, unat (ar_size a)) (larges s)"
    "(chunk_slot i 0, n) \<notin> larges s"
proof -
  have slot: "chunk_slot k 0 = chunk_slot i 0 \<longleftrightarrow> k = i" if "k < 128" for k
    using chunk_slot_inject [of k 0 i 0] that assms(3) by simp
  show "(chunk_slot i 0, n) \<notin> larges s"
  proof
    assume "(chunk_slot i 0, n) \<in> larges s"
    then obtain k where "chunk_slot k 0 = chunk_slot i 0" "k < 128" "ar_type (sc_arenas s ! k) = 3"
      unfolding larges_def by auto
    then show False using slot assms(5) by simp
  qed
  show "larges s' = insert (chunk_slot i 0, unat (ar_size a)) (larges s)"
  proof (rule set_eqI)
    fix b
    have "b \<in> larges s' \<longleftrightarrow> (\<exists>k < 128. b = (chunk_slot k 0, unat (ar_size ((sc_arenas s)[i := a] ! k)))
        \<and> ar_type ((sc_arenas s)[i := a] ! k) = 3)"
      by (auto simp: larges_def assms(1))
    also have "\<dots> \<longleftrightarrow> b = (chunk_slot i 0, unat (ar_size a)) \<or> (\<exists>k < 128. b = (chunk_slot k 0, unat (ar_size (sc_arenas s ! k)))
        \<and> ar_type (sc_arenas s ! k) = 3)"
    proof -
      have "(b = (chunk_slot k 0, unat (ar_size ((sc_arenas s)[i := a] ! k))) \<and> ar_type ((sc_arenas s)[i := a] ! k) = 3)
        \<longleftrightarrow> k = i \<and> b = (chunk_slot i 0, unat (ar_size a))
          \<or> b = (chunk_slot k 0, unat (ar_size (sc_arenas s ! k))) \<and> ar_type (sc_arenas s ! k) = 3" if "k < 128" for k
        using assms(2-5) that by (cases "k = i") simp_all
      then show ?thesis using assms(3) by blast
    qed
    also have "\<dots> \<longleftrightarrow> b = (chunk_slot i 0, unat (ar_size a)) \<or> b \<in> larges s" by (auto simp: larges_def)
    finally show "b \<in> larges s' \<longleftrightarrow> b \<in> insert (chunk_slot i 0, unat (ar_size a)) (larges s)" by simp
  qed
qed

lemma malloc_large_new:
  assumes "length (sc_arenas (sy_mem S)) = 128" "i < 128"
    and "new_arena os S ARENA_TYPE_LARGE (align_size sz SHM_CHUNK_UNIT_SIZE)
      = Inr (with_arena S i (fresh_arena ARENA_TYPE_LARGE shmid i (align_size sz SHM_CHUNK_UNIT_SIZE)) addr w, Some (word_of_nat i))"
  shows "malloc_large os S sz
    = Inr (with_arena S i (fresh_arena ARENA_TYPE_LARGE shmid i (align_size sz SHM_CHUNK_UNIT_SIZE)) addr w, chunk_slot i 0)"
proof -
  define a where "a = fresh_arena ARENA_TYPE_LARGE shmid i (align_size sz SHM_CHUNK_UNIT_SIZE)"
  have "arena_at (with_arena S i a addr w) (word_of_nat i) = a" using assms(1,2) by simp
  then show ?thesis using assms(3) by (simp add: malloc_large_def a_def [symmetric] chunk_slot_def) (simp add: a_def fresh_arena_def)
qed

lemma malloc_large_ok:
  assumes inv: "sys_inv S P R F E X"
  shows "(\<exists>w. malloc_large os S sz = Inr (S\<lparr>sy_world := w\<rparr>, 0) \<and> no_arena os S (align_size sz SHM_CHUNK_UNIT_SIZE))
    \<or> (\<exists>S' ret. malloc_large os S sz = Inr (S', ret) \<and> sys_inv S' P R F E X \<and> ret \<noteq> 0
        \<and> blocks (sy_mem S') P F E = blocks (sy_mem S) P F E
        \<and> larges (sy_mem S') = insert (ret, unat (align_size sz SHM_CHUNK_UNIT_SIZE)) (larges (sy_mem S))
        \<and> (\<forall>n. (ret, n) \<notin> larges (sy_mem S))
        \<and> (\<forall>p. pos2index p \<noteq> pos2index ret \<longrightarrow> user_bytes (sy_mem S') p = user_bytes (sy_mem S) p))"
proof -
  let ?sz = "align_size sz SHM_CHUNK_UNIT_SIZE"
  note I = sys_invD [OF inv]
  note A = arena_invD [OF I(2)]
  consider w where "new_arena os S ARENA_TYPE_LARGE ?sz = Inr (S\<lparr>sy_world := w\<rparr>, None)" "no_arena os S ?sz"
    | i w addr shmid where "1 \<le> i" "i < 128" "ar_type (sc_arenas (sy_mem S) ! i) = 0" "addr \<noteq> 0"
      "new_arena os S ARENA_TYPE_LARGE ?sz
        = Inr (with_arena S i (fresh_arena ARENA_TYPE_LARGE shmid i ?sz) addr w, Some (word_of_nat i))"
    using new_arena_cases [OF align_unit, of os S ARENA_TYPE_LARGE sz] by blast
  then show ?thesis
  proof cases
    case 1
    then show ?thesis by (auto simp: malloc_large_def)
  next
    case (2 i)
    define a where "a = fresh_arena ARENA_TYPE_LARGE shmid i ?sz"
    define S' where "S' = with_arena S i a addr w"
    have inv': "sys_inv S' P R F E X" unfolding S'_def a_def by (rule with_arena_inv [OF inv 2(1-3)]) (use 2(4) in simp_all)
    have eq: "malloc_large os S sz = Inr (S', chunk_slot i 0)"
      unfolding S'_def a_def by (rule malloc_large_new [OF A(1) 2(2,5)])
    have k: "keeps (sy_mem S) (sy_mem S') P" unfolding S'_def by (rule with_arena_keeps [OF I(2) 2(2,3)])
    have "small_blocks (sy_mem S') (set (P True)) F = small_blocks (sy_mem S) (set (P True)) F"
    proof (rule small_blocks_same)
      show "run_pages (sy_mem S') (set (P True)) = run_pages (sy_mem S) (set (P True))"
        by (rule run_pages_cong) (use k in \<open>simp add: keeps_def\<close>)
    qed (use k in \<open>simp add: keeps_def\<close>)
    then have bl: "blocks (sy_mem S') P F E = blocks (sy_mem S) P F E" by (simp add: blocks_def)
    have "sc_arenas (sy_mem S') = (sc_arenas (sy_mem S))[i := a]" by (simp add: S'_def)
    then have "larges (sy_mem S') = insert (chunk_slot i 0, unat (ar_size a)) (larges (sy_mem S))"
      "\<forall>n. (chunk_slot i 0, n) \<notin> larges (sy_mem S)"
      using larges_new [OF _ A(1) 2(2), of "sy_mem S'" a] 2(3) by (simp_all add: a_def fresh_arena_def)
    moreover have "chunk_slot i 0 \<noteq> 0" using chunk_slot_nonzero [of i 0] 2(1,2) by simp
    moreover have "\<forall>p. pos2index p \<noteq> pos2index (chunk_slot i 0) \<longrightarrow> user_bytes (sy_mem S') p = user_bytes (sy_mem S) p"
      using chunk_slot_parts(1) [OF 2(2)] by (simp add: S'_def with_arena_def clear_segment_def)
    ultimately show ?thesis using eq inv' bl by (intro disjI2 exI [of _ S'] exI [of _ "chunk_slot i 0"]) (simp add: a_def fresh_arena_def)
  qed
qed

text \<open>Any offset in such an arena gives it back.\<close>

lemma free_large_ok:
  assumes inv: "sys_inv S P R F E X" and i: "i < 128" "ar_type (sc_arenas (sy_mem S) ! i) = ARENA_TYPE_LARGE"
  shows "\<exists>S'. free_arena os S (word_of_nat i) offset = Inr S' \<and> sys_inv S' P R F E X
    \<and> blocks (sy_mem S') P F E = blocks (sy_mem S) P F E
    \<and> larges (sy_mem S') = larges (sy_mem S) - {(chunk_slot i 0, unat (ar_size (sc_arenas (sy_mem S) ! i)))}
    \<and> user_bytes (sy_mem S') = user_bytes (sy_mem S)"
proof -
  let ?s = "sy_mem S"
  note I = sys_invD [OF inv]
  note A = arena_invD [OF I(2)]
  have ui: "unat (word_of_nat i :: u32) = i" "(word_of_nat i :: u32) < 128" using index_word i(1) by blast+
  have addr: "get_arena_addr S (word_of_nat i) \<noteq> 0" using I(3) i ui unfolding maps_ok_def by (simp add: get_arena_addr_def)
  define w where "w = snd (shm_munmap os (sy_world S) (get_arena_addr S (word_of_nat i)))"
  define s1 where "s1 = ?s\<lparr>sc_arenas := (sc_arenas ?s)[i := zero_arena]\<rparr>"
  define S1 where "S1 = S\<lparr>sy_world := w, sy_mem := s1, sy_addrs := (sy_addrs S)[i := \<lparr>aa_addr = 0, aa_shmid = 0\<rparr>]\<rparr>"
  have "delete_arena os S (word_of_nat i) = Inr S1"
    using addr ui by (simp add: delete_arena_def clear_arena_addr_def put_arena_def S1_def s1_def w_def Let_def)
  moreover have "is_arena_valid S (word_of_nat i)" using i ui by (simp add: is_arena_valid_def)
  ultimately have eq: "free_arena os S (word_of_nat i) offset = Inr S1" using i by (simp add: free_arena_def Let_def)
  have ar: "sc_arenas s1 = (sc_arenas ?s)[i := zero_arena]" by (simp add: s1_def)
  have h: "heap_inv s1 P R F E X" by (rule heap_inv_cong [OF I(1)]) (simp_all add: s1_def)
  have "chunk_set s1 = chunk_set ?s"
    by (rule chunk_set_same [OF ar A(1) i(1)]) (use i(2) in \<open>auto simp: has_chunk_def zero_arena_def\<close>)
  moreover have "i \<noteq> 0" using arena_okD(3) [OF A(2) [OF i(1)]] i(2) by auto
  then have "arena_ok zero_arena i" by (simp add: arena_ok_def zero_arena_def del: replicate.simps)
  ultimately have "arena_inv s1 P" by (intro arena_inv_put [OF I(2) _ i(1) ar]) (simp_all add: A(3))
  moreover have "maps_ok S1" using I(3) A(1) i(1) unfolding maps_ok_def S1_def
    by (auto simp: s1_def nth_list_update zero_arena_def)
  ultimately have inv1: "sys_inv S1 P R F E X" using h by (simp add: sys_inv_def S1_def)
  have "small_blocks s1 (set (P True)) F = small_blocks ?s (set (P True)) F"
    by (rule small_blocks_same) (simp_all add: s1_def run_pages_def)
  then have bl: "blocks s1 P F E = blocks ?s P F E" by (simp add: blocks_def)
  have bk: "sc_arenas ?s = (sc_arenas s1)[i := sc_arenas ?s ! i]" using A(1) i(1) by (simp add: s1_def)
  have l1: "length (sc_arenas s1) = 128" "ar_type (sc_arenas s1 ! i) \<noteq> 3"
    using A(1) i(1) by (simp_all add: s1_def zero_arena_def)
  have "larges ?s = insert (chunk_slot i 0, unat (ar_size (sc_arenas ?s ! i))) (larges s1)"
    "(chunk_slot i 0, unat (ar_size (sc_arenas ?s ! i))) \<notin> larges s1"
    by (rule larges_new(1) [OF bk l1(1) i(1) i(2) l1(2)]) (rule larges_new(2) [OF bk l1(1) i(1) i(2) l1(2)])
  then have "larges s1 = larges ?s - {(chunk_slot i 0, unat (ar_size (sc_arenas ?s ! i)))}" by simp
  moreover have "user_bytes s1 = user_bytes ?s" by (simp add: s1_def)
  ultimately show ?thesis using eq inv1 bl by (intro exI [of _ S1]) (simp add: S1_def)
qed

section \<open>All sizes\<close>

definition all_blocks :: "shm_state \<Rightarrow> (bool \<Rightarrow> u64 list) \<Rightarrow> (u64 \<Rightarrow> nat list) \<Rightarrow> (u64 \<Rightarrow> extent list)
    \<Rightarrow> (u64 \<times> nat) set" where
  "all_blocks s P F E = blocks s P F E \<union> larges s"

lemma block_in_chunk:
  assumes inv: "sys_inv S P R F E X" and b: "b \<in> blocks (sy_mem S) P F E"
  obtains i j m where "has_chunk (sy_mem S) i j" "unat (fst b) = unat (chunk_slot i j) + m" "m < SHM_CHUNK_UNIT_SIZE"
    "pos2index (fst b) = word_of_nat i" "i < 128" "fst b \<noteq> 0"
proof -
  note I = sys_invD [OF inv]
  obtain c d where c: "c \<in> set (P d)" "in_chunk c b"
    using b small_block_in [OF I(4)] medium_block_in [OF I(5)] unfolding blocks_def by blast
  obtain i j where h: "c = chunk_slot i j" "has_chunk (sy_mem S) i j" "i < 128" using in_pool_slot [OF I(2) c(1)] by metis
  define m where "m = unat (fst b) - unat c"
  have m: "unat (fst b) = unat (chunk_slot i j) + m" "m < 1048576" "fst b \<noteq> 0"
    using c(2) h(1) by (auto simp: in_chunk_def m_def)
  show ?thesis by (rule that [OF h(2) m(1,2) inside_chunk(1) [OF inv inv h(2) m(1,2)] h(3) m(3)])
qed

lemma blocks_larges:
  assumes inv: "sys_inv S P R F E X" and b: "b \<in> blocks (sy_mem S) P F E" and l: "l \<in> larges (sy_mem S)"
  shows "pos2index (fst b) \<noteq> pos2index (fst l)" "b \<noteq> l"
proof -
  obtain i j where i: "has_chunk (sy_mem S) i j" "pos2index (fst b) = word_of_nat i" "i < 128"
    by (rule block_in_chunk [OF inv b])
  obtain k where k: "fst l = chunk_slot k 0" "k < 128" "ar_type (sc_arenas (sy_mem S) ! k) = 3"
    using l by (auto simp: larges_def)
  have "k \<noteq> i" using i(1) k(3) by (auto simp: has_chunk_def)
  then show "pos2index (fst b) \<noteq> pos2index (fst l)"
    using i(2,3) k(1,2) chunk_slot_parts(1) [OF k(2)] index_word(1) by metis
  then show "b \<noteq> l" by blast
qed

text \<open>
  Every allocation of a positive size ends in one of three ways: it returns 0 and has changed
  nothing but the state of the system, it returns a block that was not in use and holds the size,
  or it aborts in a medium chunk.
\<close>

text \<open>A new block inside a chunk; the size of a new arena, unless rounding it up wraps around.\<close>

lemma block_in_chunks:
  assumes inv: "sys_inv S' P' R' F' E' X'" and b: "blocks (sy_mem S') P' F' E' = insert (ret, n) (blocks s P F E)"
    "(ret, n) \<notin> blocks s P F E" and la: "larges (sy_mem S') = larges s"
  shows "ret \<noteq> 0" "all_blocks (sy_mem S') P' F' E' = insert (ret, n) (all_blocks s P F E)" "(ret, n) \<notin> all_blocks s P F E"
proof -
  have m: "(ret, n) \<in> blocks (sy_mem S') P' F' E'" using b(1) by simp
  show "ret \<noteq> 0" by (rule block_in_chunk [OF inv m]) simp
  have "(ret, n) \<notin> larges s" using blocks_larges(2) [OF inv m] la by blast
  then show "(ret, n) \<notin> all_blocks s P F E" using b(2) by (simp add: all_blocks_def)
  show "all_blocks (sy_mem S') P' F' E' = insert (ret, n) (all_blocks s P F E)" using b(1) la by (simp add: all_blocks_def)
qed

lemma align_fits:
  assumes "unat sz + SHM_CHUNK_UNIT_SIZE \<le> 2 ^ 64"
  shows "unat sz \<le> unat (align_size sz SHM_CHUNK_UNIT_SIZE)"
proof -
  have "unat (align_size sz 1048576) = 1048576 * ((unat sz + 1048575) div 1048576)"
    using align_size_nat [of 1048576 sz] assms by simp
  then show ?thesis by simp
qed

lemma malloc_small_new:
  assumes inv: "sys_inv S P R F E X" and sz: "0 < sz" "sz \<le> CHUNK_SMALL_LIMIT"
  shows "(\<exists>w. malloc_small os S sz = Inr (S\<lparr>sy_world := w\<rparr>, 0)) \<and> no_room os S
    \<or> (\<exists>S' ret n P' R' F'. malloc_small os S sz = Inr (S', ret) \<and> sys_inv S' P' R' F' E X \<and> ret \<noteq> 0 \<and> unat sz \<le> n
        \<and> all_blocks (sy_mem S') P' F' E = insert (ret, n) (all_blocks (sy_mem S) P F E)
        \<and> (ret, n) \<notin> all_blocks (sy_mem S) P F E)"
proof -
  consider w where "malloc_small os S sz = Inr (S\<lparr>sy_world := w\<rparr>, 0)" "no_room os S"
    | S' ret k P' R' F' where "malloc_small os S sz = Inr (S', ret)" "sys_inv S' P' R' F' E X"
      "unat sz \<le> elemsize_of k" "blocks (sy_mem S') P' F' E = insert (ret, elemsize_of k) (blocks (sy_mem S) P F E)"
      "(ret, elemsize_of k) \<notin> blocks (sy_mem S) P F E" "larges (sy_mem S') = larges (sy_mem S)"
    using malloc_small_ok [OF inv sz, of os] by blast
  then show ?thesis
  proof cases
    case 2
    show ?thesis using 2(1-3) block_in_chunks [OF 2(2,4-6)] by blast
  qed blast
qed

lemma malloc_medium_new:
  assumes inv: "sys_inv S P R F E X" and sz: "CHUNK_SMALL_LIMIT < sz" "sz \<le> CHUNK_MEDIUM_LIMIT"
  shows "(\<exists>w. malloc_medium os S sz = Inr (S\<lparr>sy_world := w\<rparr>, 0)) \<and> no_room os S
    \<or> (\<exists>S' ret n P' E' X'. malloc_medium os S sz = Inr (S', ret) \<and> sys_inv S' P' R F E' X' \<and> ret \<noteq> 0 \<and> unat sz \<le> n
        \<and> all_blocks (sy_mem S') P' F E' = insert (ret, n) (all_blocks (sy_mem S) P F E)
        \<and> (ret, n) \<notin> all_blocks (sy_mem S) P F E)
    \<or> malloc_medium os S sz = Inl AssertFail
      \<and> (\<exists>c \<in> set (P False). unat sz \<le> unat (cv_maxsize (rb_v (chunk_nodes (sy_mem S) c)))
           \<and> first_free (sy_mem S) X c < pages_for (unat sz))"
proof -
  have s: "sz \<noteq> 0" "unat sz \<le> 255 * SHM_PAGE_SIZE" using sz by (auto simp: word_le_nat_alt word_less_nat_alt)
  consider w where "malloc_medium os S sz = Inr (S\<lparr>sy_world := w\<rparr>, 0)" "no_room os S"
    | S' ret P' E' X' where "malloc_medium os S sz = Inr (S', ret)" "sys_inv S' P' R F E' X'"
      "blocks (sy_mem S') P' F E' = insert (ret, pages_for (unat sz) * SHM_PAGE_SIZE) (blocks (sy_mem S) P F E)"
      "(ret, pages_for (unat sz) * SHM_PAGE_SIZE) \<notin> blocks (sy_mem S) P F E" "larges (sy_mem S') = larges (sy_mem S)"
    | "malloc_medium os S sz = Inl AssertFail" "\<exists>c \<in> set (P False). unat sz \<le> unat (cv_maxsize (rb_v (chunk_nodes (sy_mem S) c)))
         \<and> first_free (sy_mem S) X c < pages_for (unat sz)"
    using malloc_medium_ok [OF inv sz, of os] by blast
  then show ?thesis
  proof cases
    case 2
    show ?thesis using 2(1,2) block_in_chunks [OF 2(2-5)] pages_for_size(4) [OF s] by blast
  qed blast+
qed

lemma malloc_large_block:
  assumes inv: "sys_inv S P R F E X"
  shows "(\<exists>w. malloc_large os S sz = Inr (S\<lparr>sy_world := w\<rparr>, 0)) \<and> no_arena os S (align_size sz SHM_CHUNK_UNIT_SIZE)
    \<or> (\<exists>S' ret. malloc_large os S sz = Inr (S', ret) \<and> sys_inv S' P R F E X \<and> ret \<noteq> 0
        \<and> (ret, unat (align_size sz SHM_CHUNK_UNIT_SIZE)) \<in> larges (sy_mem S')
        \<and> all_blocks (sy_mem S') P F E = insert (ret, unat (align_size sz SHM_CHUNK_UNIT_SIZE)) (all_blocks (sy_mem S) P F E)
        \<and> (ret, unat (align_size sz SHM_CHUNK_UNIT_SIZE)) \<notin> all_blocks (sy_mem S) P F E)"
proof -
  let ?n = "unat (align_size sz SHM_CHUNK_UNIT_SIZE)"
  consider w where "malloc_large os S sz = Inr (S\<lparr>sy_world := w\<rparr>, 0)" "no_arena os S (align_size sz SHM_CHUNK_UNIT_SIZE)"
    | S' ret where "malloc_large os S sz = Inr (S', ret)" "sys_inv S' P R F E X" "ret \<noteq> 0"
      "blocks (sy_mem S') P F E = blocks (sy_mem S) P F E" "larges (sy_mem S') = insert (ret, ?n) (larges (sy_mem S))"
      "\<forall>n. (ret, n) \<notin> larges (sy_mem S)"
    using malloc_large_ok [OF inv, of os sz] by blast
  then show ?thesis
  proof cases
    case 2
    have "(ret, ?n) \<notin> blocks (sy_mem S) P F E" using blocks_larges(2) [OF 2(2)] 2(4,5) by blast
    then show ?thesis using 2 by (intro disjI2 exI [of _ S'] exI [of _ ret]) (auto simp: all_blocks_def)
  qed blast
qed

lemma malloc_arena_ok:
  assumes inv: "sys_inv S P R F E X" and sz: "0 < sz"
  shows "(\<exists>w. malloc_arena os S sz = Inr (S\<lparr>sy_world := w\<rparr>, 0)) \<and> refused os S sz
    \<or> (\<exists>S' ret n P' R' F' E' X'. malloc_arena os S sz = Inr (S', ret) \<and> sys_inv S' P' R' F' E' X' \<and> ret \<noteq> 0
        \<and> all_blocks (sy_mem S') P' F' E' = insert (ret, n) (all_blocks (sy_mem S) P F E)
        \<and> (ret, n) \<notin> all_blocks (sy_mem S) P F E \<and> (unat sz + SHM_CHUNK_UNIT_SIZE \<le> 2 ^ 64 \<longrightarrow> unat sz \<le> n))
    \<or> malloc_arena os S sz = Inl AssertFail \<and> CHUNK_SMALL_LIMIT < sz \<and> sz \<le> CHUNK_MEDIUM_LIMIT
      \<and> (\<exists>c \<in> set (P False). unat sz \<le> unat (cv_maxsize (rb_v (chunk_nodes (sy_mem S) c)))
           \<and> first_free (sy_mem S) X c < pages_for (unat sz))"
proof -
  consider (small) "sz \<le> 1920" | (medium) "1920 < sz" "sz \<le> 1044480" "\<not> sz \<le> 1920"
    | (large) "\<not> sz \<le> 1920" "\<not> sz \<le> 1044480" by fastforce
  then show ?thesis
  proof cases
    case small
    then have "malloc_arena os S sz = malloc_small os S sz" "refused os S sz = no_room os S"
      by (auto simp: malloc_arena_def refused_def word_le_nat_alt)
    then show ?thesis using malloc_small_new [OF inv sz small, of os] by metis
  next
    case medium
    then have "malloc_arena os S sz = malloc_medium os S sz" "refused os S sz = no_room os S"
      by (simp_all add: malloc_arena_def refused_def)
    then show ?thesis using malloc_medium_new [OF inv medium(1,2), of os] medium(1,2) by metis
  next
    case large
    then have "malloc_arena os S sz = malloc_large os S sz"
      "refused os S sz = no_arena os S (align_size sz SHM_CHUNK_UNIT_SIZE)"
      by (simp_all add: malloc_arena_def refused_def)
    then show ?thesis using malloc_large_block [OF inv, of os sz] align_fits [of sz] by metis
  qed
qed

text \<open>
  Releasing a block in use. A small block must not belong to a run that is full and whose node
  still has the links it had when it was taken out of its pool.
\<close>

lemma free_arena_ok:
  assumes inv: "sys_inv S P R F E X" and b: "(pos, n) \<in> all_blocks (sy_mem S) P F E"
    and clean: "(pos, n) \<in> small_blocks (sy_mem S) (set (P True)) F \<Longrightarrow> relinkable (sy_mem S) pos"
  shows "\<exists>S' P' R' F' E' X'. free_arena os S (pos2index pos) (pos2offset pos) = Inr S' \<and> sys_inv S' P' R' F' E' X'
    \<and> all_blocks (sy_mem S') P' F' E' = all_blocks (sy_mem S) P F E - {(pos, n)}"
proof -
  let ?s = "sy_mem S"
  consider (small) "(pos, n) \<in> small_blocks ?s (set (P True)) F" | (medium) "(pos, n) \<in> medium_blocks (set (P False)) E"
    | (large) "(pos, n) \<in> larges ?s" using b unfolding all_blocks_def blocks_def by blast
  then show ?thesis
  proof cases
    case small
    then have "(pos, n) \<notin> larges ?s" using blocks_larges(2) [OF inv] unfolding blocks_def by blast
    then have u: "blocks ?s P F E - {(pos, n)} \<union> larges ?s = blocks ?s P F E \<union> larges ?s - {(pos, n)}" by blast
    obtain S' P' R' F' where "free_arena os S (pos2index pos) (pos2offset pos) = Inr S'" "sys_inv S' P' R' F' E X"
      "blocks (sy_mem S') P' F' E = blocks ?s P F E - {(pos, n)}" "larges (sy_mem S') = larges ?s"
      using free_small_ok [OF inv small clean [OF small], of os] by blast
    then show ?thesis using u by (intro exI conjI) (auto simp: all_blocks_def)
  next
    case medium
    then have "(pos, n) \<notin> larges ?s" using blocks_larges(2) [OF inv] unfolding blocks_def by blast
    then have u: "blocks ?s P F E - {(pos, n)} \<union> larges ?s = blocks ?s P F E \<union> larges ?s - {(pos, n)}" by blast
    obtain S' P' E' X' where "free_arena os S (pos2index pos) (pos2offset pos) = Inr S'" "sys_inv S' P' R F E' X'"
      "blocks (sy_mem S') P' F E' = blocks ?s P F E - {(pos, n)}" "larges (sy_mem S') = larges ?s"
      using free_medium_ok [OF inv medium, of os] by blast
    then show ?thesis using u by (intro exI conjI) (auto simp: all_blocks_def)
  next
    case large
    then obtain i where i: "pos = chunk_slot i 0" "n = unat (ar_size (sc_arenas ?s ! i))" "i < 128"
      "ar_type (sc_arenas ?s ! i) = 3" by (auto simp: larges_def)
    have nb: "(pos, n) \<notin> blocks ?s P F E" using blocks_larges(2) [OF inv _ large] by blast
    have ix: "pos2index pos = word_of_nat i" using chunk_slot_parts(1) i by simp
    obtain S' where "free_arena os S (pos2index pos) (pos2offset pos) = Inr S'" "sys_inv S' P R F E X"
      "blocks (sy_mem S') P F E = blocks ?s P F E" "larges (sy_mem S') = larges ?s - {(pos, n)}"
      using free_large_ok [OF inv i(3,4), of os "pos2offset pos"] i(1,2) unfolding ix by blast
    then show ?thesis using nb by (intro exI conjI) (auto simp: all_blocks_def)
  qed
qed

end
