(* ===== verification/ShmMalloc.thy ===== *)
theory ShmMalloc
  imports ShmContext
begin

text \<open>
  \<open>src/shm_malloc.c\<close>, \<open>src/shm_util.c\<close> and \<open>src/shm_logger.c\<close>: the interface of
  the library. Every operation takes the lock of the shared context around its work.
\<close>

section \<open>Start and end of a process\<close>

definition copystr :: "'w os \<Rightarrow> 'w \<Rightarrow> string \<Rightarrow> string option \<times> 'w" where
  "copystr os w src =
     (let (ok, w) = os_malloc os w (length src + 1) in (if ok then Some src else None, w))"

definition shm_exit :: "'w os \<Rightarrow> 'w sys \<Rightarrow> 'w sys" where
  "shm_exit os S = (if sy_shared S then exit_shared_context os S else S)"

text \<open>The loop that maps the arenas the context already has.\<close>

primrec map_arenas :: "'w os \<Rightarrow> 'w sys \<Rightarrow> u32 list \<Rightarrow> 'w sys res" where
  "map_arenas os S [] = Inr S"
| "map_arenas os S (i # is) =
     bind_r (if is_arena_valid S i
             then bind_r (mmap_arena os S i) (\<lambda>(S, addr).
                  Inr (set_arena_addr i addr (ar_shmid (arena_at S i)) S))
             else Inr S) (\<lambda>S. map_arenas os S is)"

definition shm_init :: "nat \<Rightarrow> 'w os \<Rightarrow> 'w sys \<Rightarrow> string \<Rightarrow> bool \<Rightarrow> ('w sys \<times> int) res" where
  "shm_init fuel os S path create =
     (let S = S\<lparr>sy_path := [], sy_shared := False,
                sy_addrs := replicate SHM_ARENA_MAX \<lparr>aa_addr = 0, aa_shmid = 0\<rparr>\<rparr>;
          (p, w) = copystr os (sy_world S) path;
          S = S\<lparr>sy_world := w\<rparr>
      in case p of None \<Rightarrow> Inr (S, - ENOMEM)
         | Some p \<Rightarrow>
             let S = S\<lparr>sy_path := p\<rparr>;
                 (r, w) = os_atexit os (sy_world S);
                 S = S\<lparr>sy_world := w\<rparr>
             in if r \<noteq> 0 then Inr (S, - 1)
                else bind_r (init_shared_context fuel os S path create) (\<lambda>(S, context).
                     if context = 0 then Inr (S, - 1)
                     else let S = lock_context os (S\<lparr>sy_shared := True\<rparr>);
                              S = set_arena_addr 0 context (ar_shmid (arena_at S 0)) S
                          in bind_r (map_arenas os S (map word_of_nat [1..<SHM_ARENA_MAX])) (\<lambda>S.
                             Inr (unlock_context os S, 0))))"

section \<open>Blocks\<close>

definition shm_malloc :: "'w os \<Rightarrow> 'w sys \<Rightarrow> u64 \<Rightarrow> ('w sys \<times> u64) res" where
  "shm_malloc os S sz =
     (if sz = 0 then Inr (S, 0)
      else bind_r (malloc_arena os (lock_context os S) sz) (\<lambda>(S, pos).
           Inr (unlock_context os S, pos)))"

definition shm_free :: "'w os \<Rightarrow> 'w sys \<Rightarrow> u64 \<Rightarrow> 'w sys res" where
  "shm_free os S pos =
     (if pos = 0 then Inr S
      else bind_r (free_arena os (lock_context os S) (pos2index pos) (pos2offset pos)) (\<lambda>S.
           Inr (unlock_context os S)))"

text \<open>\<open>memcpy\<close> between two blocks: the bytes that have a position, the offset of a position
  being 32 bits wide. Beyond the end of a segment the copy is an access outside an object.\<close>

definition in_segment :: "'w sys \<Rightarrow> u64 \<Rightarrow> u64 \<Rightarrow> bool" where
  "in_segment S pos n \<longleftrightarrow> unat (pos2offset pos) + unat n \<le> unat (ar_size (arena_at S (pos2index pos)))"

definition copy_bytes :: "u64 \<Rightarrow> u64 \<Rightarrow> u64 \<Rightarrow> shm_state \<Rightarrow> shm_state" where
  "copy_bytes dest src n s = s\<lparr>user_bytes := (\<lambda>p. if pos2index p = pos2index dest \<and> p - dest < n
     then user_bytes s (src + (p - dest)) else user_bytes s p)\<rparr>"

definition shm_realloc :: "'w os \<Rightarrow> 'w sys \<Rightarrow> u64 \<Rightarrow> u64 \<Rightarrow> ('w sys \<times> u64) res" where
  "shm_realloc os S pos sz =
     (if pos = 0 then shm_malloc os S sz
      else let index = pos2index pos; offset = pos2offset pos
      in bind_r (check_arena os (lock_context os S) index offset) (\<lambda>(S, checksize).
         bind_r (if sz > checksize \<and> checksize \<noteq> 0
                 then bind_r (malloc_arena os S sz) (\<lambda>(S, ret).
                      if ret \<noteq> 0
                      then bind_r (get_or_update_addr os S pos) (\<lambda>(S, src).
                           bind_r (get_or_update_addr os S ret) (\<lambda>(S, dest).
                           if src = None \<or> dest = None then Inl NullDeref
                           else if \<not> in_segment S pos checksize \<or> \<not> in_segment S ret checksize then Inl WildAccess
                           else bind_r (free_arena os (S\<lparr>sy_mem := copy_bytes ret pos checksize (sy_mem S)\<rparr>)
                                          index offset) (\<lambda>S. Inr (S, ret))))
                      else Inr (S, ret))
                 else Inr (S, pos)) (\<lambda>(S, ret).
         Inr (unlock_context os S, ret))))"

definition shm_check_size :: "'w os \<Rightarrow> 'w sys \<Rightarrow> u64 \<Rightarrow> ('w sys \<times> u64) res" where
  "shm_check_size os S pos =
     (if pos = 0 then Inr (S, 0)
      else bind_r (check_arena os (lock_context os S) (pos2index pos) (pos2offset pos)) (\<lambda>(S, checksize).
           Inr (unlock_context os S, checksize)))"

definition shm_set_userdata :: "'w sys \<Rightarrow> u64 \<Rightarrow> 'w sys res" where
  "shm_set_userdata S data =
     (if sy_shared S then Inr (S\<lparr>sy_mem := (sy_mem S)\<lparr>sc_user_data := data\<rparr>\<rparr>) else Inl NullDeref)"

definition shm_get_userdata :: "'w sys \<Rightarrow> u64 res" where
  "shm_get_userdata S = (if sy_shared S then Inr (sc_user_data (sy_mem S)) else Inl NullDeref)"

text \<open>The address of a position in this process, \<open>None\<close> for \<open>NULL\<close>.\<close>

definition shm_get_addr :: "'w os \<Rightarrow> 'w sys \<Rightarrow> u64 \<Rightarrow> ('w sys \<times> u64 option) res" where
  "shm_get_addr os S pos =
     (let index = pos2index pos
      in if index \<ge> SHM_ARENA_MAX then Inr (S, None)
         else bind_r (get_or_update_arena_addr os (lock_context os S) index) (\<lambda>(S, base).
              Inr (unlock_context os S,
                   if base = 0 then None else Some (base + ucast (pos2offset pos)))))"

section \<open>Logging\<close>

text \<open>The message is what \<open>vsnprintf\<close> makes of the format and its arguments.\<close>

datatype log_output = Printed string | CalledBack int string

record logger =
  lg_level :: int
  lg_callback :: bool

definition level_str :: "string list" where
  "level_str = [''emerg'', ''alert'', ''crit'', ''err'', ''warning'', ''notice'', ''info'', ''debug'']"

definition default_logger :: logger where
  "default_logger = \<lparr>lg_level = 4, lg_callback = False\<rparr>"

definition shm_log :: "logger \<Rightarrow> int \<Rightarrow> string \<Rightarrow> log_output option res" where
  "shm_log lg level message =
     (if level > lg_level lg then Inr None
      else let buf = take 2047 message
      in if \<not> lg_callback lg
         then if 0 \<le> level \<and> level < 8
              then Inr (Some (Printed (''['' @ level_str ! nat level @ '']: '' @ buf @ [CHR 0x0A])))
              else Inl WildAccess
         else Inr (Some (CalledBack level buf)))"

definition shm_set_log_callback :: "logger \<Rightarrow> bool \<Rightarrow> logger" where
  "shm_set_log_callback lg cb = lg\<lparr>lg_callback := cb\<rparr>"

definition shm_get_log_level :: "logger \<Rightarrow> int" where
  "shm_get_log_level lg = lg_level lg"

definition shm_set_log_level :: "logger \<Rightarrow> int \<Rightarrow> logger" where
  "shm_set_log_level lg level = lg\<lparr>lg_level := level\<rparr>"

end
