(* ===== verification/Shm_Api.thy ===== *)
theory Shm_Api
  imports Heap_Alloc ShmMalloc
begin

text \<open>
  The operations of \<open>src/shm_malloc.c\<close> on the blocks in use: what \<open>shm_init\<close> sets up,
  what \<open>shm_malloc\<close>, \<open>shm_free\<close> and \<open>shm_realloc\<close> do to the blocks, and what
  \<open>shm_check_size\<close> returns.
\<close>

section \<open>A new context\<close>

abbreviation (input) no_pools :: "bool \<Rightarrow> u64 list" where "no_pools \<equiv> \<lambda>_. []"
abbreviation (input) no_runs :: "nat \<Rightarrow> u64 set" where "no_runs \<equiv> \<lambda>_. {}"
abbreviation (input) no_free :: "u64 \<Rightarrow> nat list" where "no_free \<equiv> \<lambda>_. []"
abbreviation (input) no_extents :: "u64 \<Rightarrow> extent list" where "no_extents \<equiv> \<lambda>_. []"
abbreviation (input) no_nodes :: "u64 \<Rightarrow> u16 list" where "no_nodes \<equiv> \<lambda>_. []"

lemma shared_arenas:
  "length (sc_arenas (shared_fields s key shmid)) = 128"
  "i < 128 \<Longrightarrow> sc_arenas (shared_fields s key shmid) ! i = (if i = 0
     then \<lparr>ar_type = ARENA_TYPE_CONTEXT, ar_shmid = shmid, ar_index = 0, ar_size = SHM_ARENA_UNIT_SIZE, ar_used = 1,
       ar_chunks = (ar_chunks zero_arena)[0 := index2pos 0 1]\<rparr> else zero_arena)"
  unfolding shared_fields_def by (simp_all del: replicate.simps)

lemma index2pos_one: "index2pos 0 1 = 1"
  by (simp add: word_unat_eq_iff unat_index2pos)

lemma shared_fields_inv:
  defines "P0 \<equiv> no_pools" and "R0 \<equiv> no_runs"
  shows "heap_inv (shared_fields s key shmid) P0 R0 F E X" "arena_inv (shared_fields s key shmid) P0"
    "all_blocks (shared_fields s key shmid) P0 F E = {}"
proof -
  let ?s = "shared_fields s key shmid"
  have e: "rb_rep \<lparr>rb_root = 0, rb_size = 0\<rparr> h []" for h :: "(u64, chunk_tree_value) rb_heap"
    using rb_rep_init [of h] by (simp add: rbtree_init_def)
  have P: "cpools ?s P0" using e by (simp add: cpools_def P0_def shared_fields_def chunk_order.ordered_def)
  have rp: "run_pages ?s {} = {}" by (simp add: run_pages_def)
  have "length (sc_run_pool ?s) = 15" "k < 15 \<Longrightarrow> sc_run_pool ?s ! k = \<lparr>pool_root = 0, pool_size = 0\<rparr>" for k
    by (simp_all add: shared_fields_def del: replicate.simps)
  then have "small_inv ?s P0 R0 F" using P pool_rep_empty rp by (simp add: small_inv_def P0_def R0_def)
  then show "heap_inv ?s P0 R0 F E X" using P by (simp add: heap_inv_def medium_inv_def P0_def)
  have z: "replicate 8 (0 :: u64) ! k = 0" if "k < 8" for k using that by (rule nth_replicate)
  have zl: "length (ar_chunks zero_arena) = 8" "k < 8 \<Longrightarrow> ar_chunks zero_arena ! k = 0" for k
    using z by (simp_all add: zero_arena_def del: replicate.simps)
  have "arena_ok (sc_arenas ?s ! i) i" if i: "i < 128" for i
  proof (cases "i = 0")
    case True
    have "{j. j < 8 \<and> (ar_chunks zero_arena)[0 := index2pos 0 1] ! j \<noteq> 0} = {0}"
      using zl by (auto simp: nth_list_update index2pos_one)
    then show ?thesis unfolding shared_arenas(2) [OF i] using zl True
      by (auto simp: arena_ok_def nth_list_update slot_entry_def index2pos_one)
  next
    case False
    then show ?thesis unfolding shared_arenas(2) [OF i] using zl by (simp add: arena_ok_def) (simp add: zero_arena_def)
  qed
  moreover have "\<not> has_chunk ?s i j" for i j
  proof
    assume h: "has_chunk ?s i j"
    then have ij: "i < 128" "j < 8" "(i, j) \<noteq> (0, 0)" "chunked (sc_arenas ?s ! i)"
      "ar_chunks (sc_arenas ?s ! i) ! j = chunk_slot i j" unfolding has_chunk_def by blast+
    have "i = 0" using ij(4) unfolding shared_arenas(2) [OF ij(1)] by (auto simp: zero_arena_def split: if_splits)
    then have "chunk_slot i j = 0" using ij(2,3,5) zl unfolding shared_arenas(2) [OF ij(1)] by simp
    then show False using chunk_slot_nonzero [OF ij(1-3)] by simp
  qed
  then have "chunk_set ?s = {}" by (simp add: chunk_set_def)
  ultimately show "arena_inv ?s P0" using shared_arenas(1) by (simp add: arena_inv_def P0_def)
  have "ar_type (sc_arenas ?s ! i) \<noteq> 3" if "i < 128" for i
    unfolding shared_arenas(2) [OF that] by (simp add: zero_arena_def)
  then have "larges ?s = {}" unfolding larges_def by blast
  then show "all_blocks ?s P0 F E = {}"
    by (simp add: all_blocks_def blocks_def small_blocks_def small_live_def medium_blocks_def P0_def rp)
qed

text \<open>The state right after \<open>shm_init\<close> has created the context at the address \<open>addr\<close>.\<close>

definition started :: "'w sys \<Rightarrow> int \<Rightarrow> int \<Rightarrow> u64 \<Rightarrow> 'w sys" where
  "started S key shmid addr = S\<lparr>sy_shared := True, sy_mem := (shared_fields (sy_mem S) key shmid)\<lparr>sc_count := 1\<rparr>,
     sy_addrs := (replicate SHM_ARENA_MAX \<lparr>aa_addr = 0, aa_shmid = 0\<rparr>)[0 := \<lparr>aa_addr = addr, aa_shmid = shmid\<rparr>]\<rparr>"

lemma count_inv:
  "heap_inv (s\<lparr>sc_count := n\<rparr>) P R F E X = heap_inv s P R F E X" "arena_inv (s\<lparr>sc_count := n\<rparr>) P = arena_inv s P"
  "all_blocks (s\<lparr>sc_count := n\<rparr>) P F E = all_blocks s P F E"
proof -
  have 1: "heap_inv t P R F E X" if "heap_inv t' P R F E X" "t = t'\<lparr>sc_count := m\<rparr>" for t t' :: shm_state and m
    by (rule heap_inv_cong [OF that(1)]) (simp_all add: that(2))
  have "s = s\<lparr>sc_count := n\<rparr>\<lparr>sc_count := sc_count s\<rparr>" by simp
  then show "heap_inv (s\<lparr>sc_count := n\<rparr>) P R F E X = heap_inv s P R F E X" using 1 by blast
  show "arena_inv (s\<lparr>sc_count := n\<rparr>) P = arena_inv s P" by (simp add: arena_inv_def chunk_set_def has_chunk_def)
  have r: "run_pages (s\<lparr>sc_count := n\<rparr>) C = run_pages s C" for C by (simp add: run_pages_def)
  have "small_blocks (s\<lparr>sc_count := n\<rparr>) C F = small_blocks s C F" for C
    by (rule small_blocks_same [OF r]) simp
  then show "all_blocks (s\<lparr>sc_count := n\<rparr>) P F E = all_blocks s P F E"
    using larges_cong [of "s\<lparr>sc_count := n\<rparr>" s] by (simp add: all_blocks_def blocks_def)
qed

lemma started_inv:
  assumes "addr \<noteq> 0"
  shows "sys_inv (started S key shmid addr) no_pools no_runs F E X"
    "all_blocks (sy_mem (started S key shmid addr)) no_pools F E = {}"
proof -
  let ?S = "started S key shmid addr" and ?s = "shared_fields (sy_mem S) key shmid"
  have m: "sy_mem ?S = ?s\<lparr>sc_count := 1\<rparr>" by (simp add: started_def)
  have a: "sc_arenas (sy_mem ?S) ! i = sc_arenas ?s ! i" for i by (simp add: m)
  have "maps_ok ?S" unfolding maps_ok_def a
    by (auto simp: started_def shared_arenas(2) nth_list_update assms zero_arena_def simp del: replicate.simps)
  then show "sys_inv ?S no_pools no_runs F E X"
    using shared_fields_inv [of "sy_mem S" key shmid] by (simp add: sys_inv_def m count_inv)
  show "all_blocks (sy_mem ?S) no_pools F E = {}" using shared_fields_inv(3) by (simp add: m count_inv)
qed

lemma map_arenas_none:
  "(\<And>i. i \<in> set is \<Longrightarrow> \<not> is_arena_valid S i) \<Longrightarrow> map_arenas os S is = Inr S"
  by (induction "is") simp_all


lemma shared_flag [simp]: "sc_init_flag (shared_fields s key shmid) = SHM_INIT_FLAG" "sc_key (shared_fields s key shmid) = key"
  "sc_count (shared_fields s key shmid) = 0"
  by (simp_all add: shared_fields_def)

lemma init_shared_create:
  assumes "init_shared_context fuel os S path True = Inr (S', addr)" "addr \<noteq> 0" and "sc_init_flag (sy_mem S) \<noteq> SHM_INIT_FLAG"
  shows "\<exists>key shmid w. 0 < shmid
    \<and> S' = S\<lparr>sy_world := w, sy_mem := (shared_fields (sy_mem S) key shmid)\<lparr>sc_count := 1\<rparr>\<rparr>"
proof -
  obtain err key w1 where g: "shm_get_key os (sy_world S) path 0 0 = ((err, key), w1)" by (metis prod.exhaust)
  obtain a shmid e w2 where m: "shm_mmap os w1 key SHM_ARENA_UNIT_SIZE True 0 = ((a, shmid, e), w2)" by (metis prod.exhaust)
  have ok: "err = 0" "a \<noteq> 0" using assms(1,2) by (auto simp: init_shared_context_def g m Let_def split: if_splits)
  obtain fd w3 where l: "shm_lock_file fuel os w2 path = Inr (fd, w3)" "0 \<le> fd"
    using assms(1,2) ok
    by (cases "shm_lock_file fuel os w2 path") (auto simp: init_shared_context_def g m Let_def not_less split: if_splits)
  have "0 < shmid" using shm_mmap_result [OF m] ok(2) by simp
  moreover have "S' = S\<lparr>sy_world := shm_unlock_file os (snd (shm_lock_init os w3)) fd,
      sy_mem := (shared_fields (sy_mem S) key shmid)\<lparr>sc_count := 1\<rparr>\<rparr>"
    using assms(1,3) ok l(2) by (simp add: init_shared_context_def g m l(1) Let_def init_shm_shared_field_def)
  ultimately show ?thesis by blast
qed

text \<open>What \<open>shm_init\<close> does before it looks at the shared memory, and after the context is there.\<close>

lemma init_success:
  assumes "shm_init fuel os S path create = Inr (S', 0)"
  obtains S2 S3 addr where "sy_mem S2 = sy_mem S"
    "sy_addrs S2 = replicate SHM_ARENA_MAX \<lparr>aa_addr = 0, aa_shmid = 0\<rparr>" "addr \<noteq> 0"
    "init_shared_context fuel os S2 path create = Inr (S3, addr)"
    "bind_r (map_arenas os (set_arena_addr 0 addr (ar_shmid (arena_at S3 0)) (lock_context os (S3\<lparr>sy_shared := True\<rparr>)))
       (map word_of_nat [1..<SHM_ARENA_MAX])) (\<lambda>S. Inr (unlock_context os S, 0)) = Inr (S', 0 :: int)"
proof -
  define S0 where "S0 = S\<lparr>sy_path := [], sy_shared := False,
    sy_addrs := replicate SHM_ARENA_MAX \<lparr>aa_addr = 0, aa_shmid = 0\<rparr>\<rparr>"
  obtain p w1 where c: "copystr os (sy_world S) path = (p, w1)" by (metis prod.exhaust)
  obtain r w2 where x: "os_atexit os w1 = (r, w2)" by (metis prod.exhaust)
  have p: "p \<noteq> None"
  proof
    assume "p = None"
    then have "shm_init fuel os S path create = Inr (S0\<lparr>sy_world := w1\<rparr>, - ENOMEM)" by (simp add: shm_init_def Let_def c S0_def)
    then show False using assms by simp
  qed
  then obtain q where q: "p = Some q" by blast
  define S2 where "S2 = S0\<lparr>sy_path := q, sy_world := w2\<rparr>"
  define rest :: "'a sys \<times> u64 \<Rightarrow> ('a sys \<times> int) res" where "rest = (\<lambda>(S, context). if context = 0 then Inr (S, - 1)
      else let S = lock_context os (S\<lparr>sy_shared := True\<rparr>);
               S = set_arena_addr 0 context (ar_shmid (arena_at S 0)) S
           in bind_r (map_arenas os S (map word_of_nat [1..<SHM_ARENA_MAX])) (\<lambda>S. Inr (unlock_context os S, 0)))"
  have "shm_init fuel os S path create = (if r \<noteq> 0 then Inr (S2, - 1)
      else bind_r (init_shared_context fuel os S2 path create) rest)"
    by (simp add: shm_init_def Let_def c q S0_def S2_def x rest_def del: replicate.simps)
  then have "bind_r (init_shared_context fuel os S2 path create) rest = Inr (S', 0)"
    using assms by (cases "r = 0") simp_all
  then obtain S3 addr where i: "init_shared_context fuel os S2 path create = Inr (S3, addr)" "rest (S3, addr) = Inr (S', 0)"
    unfolding bind_r_eq_Inr by (metis prod.exhaust)
  then have a: "addr \<noteq> 0" by (auto simp: rest_def)
  have "arena_at (lock_context os (S3\<lparr>sy_shared := True\<rparr>)) 0 = arena_at S3 0" by (simp add: arena_at_def lock_context_def)
  moreover have "sy_mem S2 = sy_mem S" "sy_addrs S2 = replicate SHM_ARENA_MAX \<lparr>aa_addr = 0, aa_shmid = 0\<rparr>"
    by (simp_all add: S2_def S0_def)
  ultimately show ?thesis using that [OF _ _ a i(1)] i(2) a by (simp add: rest_def Let_def)
qed

lemma init_creates:
  assumes "shm_init fuel os S path True = Inr (S', 0)" and "sc_init_flag (sy_mem S) \<noteq> SHM_INIT_FLAG"
  shows "\<exists>key shmid addr S1. addr \<noteq> 0 \<and> 0 < shmid \<and> S' = started S1 key shmid addr \<and> sy_mem S1 = sy_mem S
    \<and> sys_inv S' no_pools no_runs no_free no_extents no_nodes
    \<and> all_blocks (sy_mem S') no_pools no_free no_extents = {}"
proof -
  from assms(1) obtain S2 S3 addr where i: "sy_mem S2 = sy_mem S"
    "sy_addrs S2 = replicate SHM_ARENA_MAX \<lparr>aa_addr = 0, aa_shmid = 0\<rparr>" "addr \<noteq> 0"
    "init_shared_context fuel os S2 path True = Inr (S3, addr)"
    "bind_r (map_arenas os (set_arena_addr 0 addr (ar_shmid (arena_at S3 0)) (lock_context os (S3\<lparr>sy_shared := True\<rparr>)))
       (map word_of_nat [1..<SHM_ARENA_MAX])) (\<lambda>S. Inr (unlock_context os S, 0)) = Inr (S', 0 :: int)"
    by (rule init_success)
  obtain key shmid w where k: "0 < shmid"
    "S3 = S2\<lparr>sy_world := w, sy_mem := (shared_fields (sy_mem S) key shmid)\<lparr>sc_count := 1\<rparr>\<rparr>"
    using init_shared_create [OF i(4,3)] assms(2) i(1) by auto
  have "ar_shmid (arena_at S3 0) = shmid" by (simp add: k(2) arena_at_def shared_arenas(2))
  define S4 where "S4 = set_arena_addr 0 addr (ar_shmid (arena_at S3 0)) (lock_context os (S3\<lparr>sy_shared := True\<rparr>))"
  have ar: "sc_arenas (sy_mem S4) = sc_arenas (shared_fields (sy_mem S) key shmid)"
    by (simp add: S4_def k(2) set_arena_addr_def lock_context_def)
  have none: "\<not> is_arena_valid S4 j" if j: "j \<in> set (map word_of_nat [1..<128])" for j
  proof -
    obtain n where "j = word_of_nat n" "1 \<le> n" "n < 128"
      using j unfolding set_map set_upt image_iff by (meson atLeastLessThan_iff)
    then show ?thesis using shared_arenas(2) [of n] index_word
      by (simp add: is_arena_valid_def arena_at_def ar) (simp add: zero_arena_def)
  qed
  have mn: "map_arenas os S4 (map word_of_nat [1..<128]) = Inr S4" by (rule map_arenas_none) (rule none)
  have "S' = unlock_context os S4" using i(5) unfolding S4_def [symmetric] mn by simp
  then have S': "S' = started (S'\<lparr>sy_mem := sy_mem S\<rparr>) key shmid addr"
    using \<open>ar_shmid (arena_at S3 0) = shmid\<close>
    by (simp add: started_def S4_def k(2) i(2) set_arena_addr_def lock_context_def unlock_context_def del: replicate.simps)
  show ?thesis
  proof (intro exI conjI)
    show "S' = started (S'\<lparr>sy_mem := sy_mem S\<rparr>) key shmid addr" by (rule S')
    show "sys_inv S' no_pools no_runs no_free no_extents no_nodes" by (subst S') (rule started_inv(1) [OF i(3)])
    show "all_blocks (sy_mem S') no_pools no_free no_extents = {}" by (subst S') (rule started_inv(2) [OF i(3)])
  qed (use i(3) k(1) in simp_all)
qed

text \<open>C5: when \<open>shm_init\<close> reports success to the process that creates the context, on a
  segment that has not been set up, the context counts one process, holds no block, has the first
  arena for itself, and the invariant of the allocator holds.\<close>

theorem shm_init_creates:
  assumes "shm_init fuel os S path True = Inr (S', 0)" and "sc_init_flag (sy_mem S) \<noteq> SHM_INIT_FLAG"
  shows "\<exists>key shmid addr S1. addr \<noteq> 0 \<and> 0 < shmid \<and> S' = started S1 key shmid addr \<and> sy_mem S1 = sy_mem S
    \<and> sys_inv S' no_pools no_runs no_free no_extents no_nodes
    \<and> all_blocks (sy_mem S') no_pools no_free no_extents = {}"
  using assms by (rule init_creates)

section \<open>Allocation and release\<close>

lemma lock_inv [simp]:
  "sys_inv (lock_context os S) P R F E X = sys_inv S P R F E X" "sy_mem (lock_context os S) = sy_mem S"
  "sys_inv (unlock_context os S) P R F E X = sys_inv S P R F E X" "sy_mem (unlock_context os S) = sy_mem S"
  by (simp_all add: lock_context_def unlock_context_def sys_world)

text \<open>Blocks of arenas that are cut into chunks do not overlap; two blocks of which one is an
  arena of its own are in different arenas.\<close>

definition separate :: "u64 \<times> nat \<Rightarrow> u64 \<times> nat \<Rightarrow> bool" where
  "separate a b \<longleftrightarrow> apart a b \<or> pos2index (fst a) \<noteq> pos2index (fst b)"

text \<open>Two blocks in use never share a byte.\<close>

lemma blocks_separate:
  assumes "sys_inv S P R F E X" and "a \<in> all_blocks (sy_mem S) P F E" "b \<in> all_blocks (sy_mem S) P F E" "a \<noteq> b"
  shows "separate a b"
proof -
  have l: "pos2index (fst a) \<noteq> pos2index (fst b)" if la: "a \<in> larges (sy_mem S)" and lb: "b \<in> larges (sy_mem S)"
  proof -
    obtain i where i: "a = (chunk_slot i 0, unat (ar_size (sc_arenas (sy_mem S) ! i)))" "i < 128"
      using la by (auto simp: larges_def)
    obtain k where k: "b = (chunk_slot k 0, unat (ar_size (sc_arenas (sy_mem S) ! k)))" "k < 128"
      using lb by (auto simp: larges_def)
    have "(word_of_nat i :: u32) \<noteq> word_of_nat k" using index_word(1) [OF i(2)] index_word(1) [OF k(2)] assms(4) i(1) k(1) by metis
    then show ?thesis using i k by (simp add: chunk_slot_parts(1))
  qed
  consider "a \<in> blocks (sy_mem S) P F E" "b \<in> blocks (sy_mem S) P F E" | "a \<in> larges (sy_mem S)" "b \<in> larges (sy_mem S)"
    | "a \<in> blocks (sy_mem S) P F E" "b \<in> larges (sy_mem S)" | "a \<in> larges (sy_mem S)" "b \<in> blocks (sy_mem S) P F E"
    using assms(2,3) unfolding all_blocks_def by blast
  then show ?thesis
  proof cases
    case 1
    then show ?thesis using blocks_apart [OF sys_invD(1) [OF assms(1)]] assms(4) by (simp add: separate_def)
  next
    case 2
    then show ?thesis using l by (simp add: separate_def)
  next
    case 3
    then show ?thesis using blocks_larges(1) [OF assms(1) 3] by (simp add: separate_def)
  next
    case 4
    then show ?thesis using blocks_larges(1) [OF assms(1) 4(2,1)] by (simp add: separate_def)
  qed
qed

text \<open>C1: \<open>shm_malloc\<close> from any state that satisfies the invariant. It returns a block that
  was not in use, adds it to the blocks in use and keeps the invariant; or it returns 0 and changes
  nothing in the shared memory, which happens only when the table of arenas is full or the system
  refuses a segment, and for sizes up to the medium limit only when also the first arena has no
  free chunk; or it aborts, only for medium sizes, when the chunk that was chosen by
  its largest extent has a smaller first extent. The block holds the size, unless the rounding of
  a size near \<open>2 ^ 64\<close> wraps around.\<close>

theorem shm_malloc_correct:
  assumes "sys_inv S P R F E X"
  shows "case shm_malloc os S sz of
      Inl e \<Rightarrow> e = AssertFail \<and> CHUNK_SMALL_LIMIT < sz \<and> sz \<le> CHUNK_MEDIUM_LIMIT
        \<and> (\<exists>c \<in> set (P False). unat sz \<le> unat (cv_maxsize (rb_v (chunk_nodes (sy_mem S) c)))
             \<and> first_free (sy_mem S) X c < pages_for (unat sz))
    | Inr (S', pos) \<Rightarrow>
        if pos = 0 then sy_mem S' = sy_mem S \<and> sys_inv S' P R F E X
          \<and> (sz = 0 \<or> refused os (lock_context os S) sz)
        else \<exists>n P' R' F' E' X'. sys_inv S' P' R' F' E' X'
          \<and> all_blocks (sy_mem S') P' F' E' = insert (pos, n) (all_blocks (sy_mem S) P F E)
          \<and> (pos, n) \<notin> all_blocks (sy_mem S) P F E
          \<and> (unat sz + SHM_CHUNK_UNIT_SIZE \<le> 2 ^ 64 \<longrightarrow> unat sz \<le> n)"
proof (cases "sz = 0")
  case True
  then show ?thesis using assms by (simp add: shm_malloc_def)
next
  case False
  then have pos: "0 < sz" by (simp add: word_gt_0)
  let ?L = "lock_context os S"
  have inv: "sys_inv ?L P R F E X" using assms by simp
  consider w where "malloc_arena os ?L sz = Inr (?L\<lparr>sy_world := w\<rparr>, 0)"
      "refused os ?L sz"
    | S' ret n P' R' F' E' X' where "malloc_arena os ?L sz = Inr (S', ret)" "sys_inv S' P' R' F' E' X'" "ret \<noteq> 0"
      "all_blocks (sy_mem S') P' F' E' = insert (ret, n) (all_blocks (sy_mem S) P F E)"
      "(ret, n) \<notin> all_blocks (sy_mem S) P F E" "unat sz + SHM_CHUNK_UNIT_SIZE \<le> 2 ^ 64 \<longrightarrow> unat sz \<le> n"
    | "malloc_arena os ?L sz = Inl AssertFail" "CHUNK_SMALL_LIMIT < sz" "sz \<le> CHUNK_MEDIUM_LIMIT"
      "\<exists>c \<in> set (P False). unat sz \<le> unat (cv_maxsize (rb_v (chunk_nodes (sy_mem S) c)))
           \<and> first_free (sy_mem S) X c < pages_for (unat sz)"
    using malloc_arena_ok [OF inv pos, of os] unfolding lock_inv by blast
  then show ?thesis
  proof cases
    case 1
    then show ?thesis using 1(1) False assms by (simp add: shm_malloc_def sys_world)
  next
    case 2
    then have "shm_malloc os S sz = Inr (unlock_context os S', ret)" using False by (simp add: shm_malloc_def)
    moreover have "\<exists>n P' R' F' E' X'. sys_inv (unlock_context os S') P' R' F' E' X'
        \<and> all_blocks (sy_mem (unlock_context os S')) P' F' E' = insert (ret, n) (all_blocks (sy_mem S) P F E)
        \<and> (ret, n) \<notin> all_blocks (sy_mem S) P F E
        \<and> (unat sz + SHM_CHUNK_UNIT_SIZE \<le> 2 ^ 64 \<longrightarrow> unat sz \<le> n)"
      unfolding lock_inv using 2(2,4-6) by blast
    ultimately show ?thesis using 2(3) by (simp only: sum.case prod.case if_False)
  next
    case 3
    then show ?thesis using False by (simp add: shm_malloc_def)
  qed
qed

lemma all_blocks_nonzero:
  assumes "sys_inv S P R F E X" and "(pos, n) \<in> all_blocks (sy_mem S) P F E"
  shows "pos \<noteq> 0"
proof (cases "(pos, n) \<in> blocks (sy_mem S) P F E")
  case True
  show ?thesis using block_in_chunk [OF assms(1) True] by (metis fst_conv)
next
  case False
  then obtain i where i: "pos = chunk_slot i 0" "i < 128" "ar_type (sc_arenas (sy_mem S) ! i) = 3"
    using assms(2) by (auto simp: all_blocks_def larges_def)
  have "i \<noteq> 0" using arena_okD(3) [OF arena_invD(2) [OF sys_invD(2) [OF assms(1)] i(2)]] i(3) by auto
  then show ?thesis using chunk_slot_nonzero [OF i(2), of 0] i(1) by simp
qed

text \<open>C2: \<open>shm_free\<close> of a block in use returns, keeps the invariant and takes exactly this
  block out of the blocks in use: every medium block, every arena of its own, and every small block
  but those of a full run whose node still has the links it had when it was taken out of its pool
  (\<open>relinkable\<close>). Releasing one of those is a legal call as well, and it damages the pool:
  \<open>stale_run_hangs\<close> follows it to a call that never returns.\<close>

theorem shm_free_correct:
  assumes "sys_inv S P R F E X" and "(pos, n) \<in> all_blocks (sy_mem S) P F E"
    and "(pos, n) \<in> small_blocks (sy_mem S) (set (P True)) F \<Longrightarrow> relinkable (sy_mem S) pos"
  shows "\<exists>S' P' R' F' E' X'. shm_free os S pos = Inr S' \<and> sys_inv S' P' R' F' E' X'
    \<and> all_blocks (sy_mem S') P' F' E' = all_blocks (sy_mem S) P F E - {(pos, n)}"
proof -
  let ?L = "lock_context os S"
  have inv: "sys_inv ?L P R F E X" using assms(1) by simp
  have "pos \<noteq> 0" using all_blocks_nonzero [OF assms(1,2)] .
  obtain S' P' R' F' E' X' where f: "free_arena os ?L (pos2index pos) (pos2offset pos) = Inr S'" "sys_inv S' P' R' F' E' X'"
    "all_blocks (sy_mem S') P' F' E' = all_blocks (sy_mem S) P F E - {(pos, n)}"
    using free_arena_ok [OF inv, of pos n os] assms(2,3) by auto
  then have "shm_free os S pos = Inr (unlock_context os S')" using \<open>pos \<noteq> 0\<close> by (simp add: shm_free_def)
  moreover have "sys_inv (unlock_context os S') P' R' F' E' X'" "all_blocks (sy_mem (unlock_context os S')) P' F' E' = all_blocks (sy_mem S) P F E - {(pos, n)}"
    using f(2,3) by simp_all
  ultimately show ?thesis by blast
qed

section \<open>The size of a block\<close>

lemma check_arena_inside:
  assumes inv: "sys_inv S P R F E X" and h: "has_chunk (sy_mem S) i j" and p: "unat p = unat (chunk_slot i j) + m"
    and m: "m < SHM_CHUNK_UNIT_SIZE"
  shows "check_arena os S (pos2index p) (pos2offset p)
    = bind_r (check_chunk (sy_mem S) (chunk_slot i j) (pos2offset p)) (\<lambda>ret. Inr (S, ret))"
proof -
  have ij: "i < 128" "chunked (sc_arenas (sy_mem S) ! i)" using h unfolding has_chunk_def by blast+
  have "chunk_slot i j \<noteq> 0" using h chunk_slot_nonzero unfolding has_chunk_def by blast
  then show ?thesis using inside_chunk(1,2,3,5,6) [OF inv inv h p m] inside_chunk(4) [OF inv inv h p m, of os] ij
    by (simp add: check_arena_def Let_def)
qed

text \<open>The size the check reports for a block: it uses the offset in the arena where the offset
  in the chunk is meant, and for pages its search runs past the block, so the answer is 0 for
  every block of pages and for every block outside the first chunk of an arena.\<close>

lemma check_arena_ok:
  assumes inv: "sys_inv S P R F E X" and b: "(pos, n) \<in> all_blocks (sy_mem S) P F E"
  shows "check_arena os S (pos2index pos) (pos2offset pos)
    = Inr (S, if (pos, n) \<in> larges (sy_mem S)
        \<or> (pos, n) \<in> small_blocks (sy_mem S) (set (P True)) F \<and> unat (pos2offset pos) < SHM_CHUNK_UNIT_SIZE
      then word_of_nat n else 0)"
proof -
  let ?s = "sy_mem S"
  note I = sys_invD [OF inv]
  consider (small) "(pos, n) \<in> small_blocks ?s (set (P True)) F" | (medium) "(pos, n) \<in> medium_blocks (set (P False)) E"
    | (large) "(pos, n) \<in> larges ?s" using b unfolding all_blocks_def blocks_def by blast
  then show ?thesis
  proof cases
    case small
    then have nl: "(pos, n) \<notin> larges ?s" using blocks_larges(2) [OF inv] unfolding blocks_def by blast
    obtain c i k j where c: "c \<in> set (P True)" "1 \<le> i" "i < 256" "bm_bit (sbm ?s c) i" "page c i \<in> run_pages ?s (set (P True))"
      "k = rclass ?s (page c i)" "j < run_count k" "j \<notin> set (F (page c i))" "(pos, n) = live_block ?s (page c i) j"
      "unat pos = unat c + (i * 4096 + (64 + j * elemsize_of k))" "i * 4096 + (64 + j * elemsize_of k) < 1048576"
      by (rule small_block_cases [OF I(4) small])
    obtain a m where am: "c = chunk_slot a m" "has_chunk ?s a m" using in_pool_slot [OF I(2) c(1)] by metis
    note ic = inside_chunk(7) [OF inv inv am(2) c(10) [unfolded am(1)] c(11)]
    have ok: "small_ok ?s c" using small_invD(2) [OF I(4) c(1)] .
    then have ty: "ch_type (chunks ?s c) = 1" by (simp add: small_ok_def)
    have e: "check_arena os S (pos2index pos) (pos2offset pos)
        = bind_r (check_chunk_small ?s c (pos2offset pos)) (\<lambda>ret. Inr (S, ret))"
      using check_arena_inside [OF inv am(2) c(10) [unfolded am(1)] c(11), of os] ty am(1) by (simp add: check_chunk_def)
    show ?thesis
    proof (cases "m = 0")
      case False
      then have far: "1048576 \<le> unat (pos2offset pos)" using ic by simp
      then show ?thesis using e find_run_far [OF far ty] nl by (simp add: check_chunk_small_def)
    next
      case True
      have nx: "64 + j * elemsize_of k < 4096" using live_block_place(4,5) [OF I(4) c(5), of j] c(6,7) by simp
      have o: "pos2offset pos = word_of_nat (i * 4096 + (64 + j * elemsize_of k))"
        using ic True c(11) by (simp add: word_unat_eq_iff unat_of_nat_small del: of_nat_add of_nat_mult)
      have "find_run ?s c (pos2offset pos) = Inr (Some (page c i))"
        unfolding o using find_run_ok [OF ok c(3) nx] c(4) by simp
      moreover have al: "chunk_aligned c" using ok by (simp add: small_ok_def)
      have "page c i \<noteq> c" using page_inject [OF al al c(3), of 0] c(2) by simp
      moreover note r = run_okD(4) [OF small_invD(5) [OF I(4) c(5)]]
      have "n = unat (rn_elemsize (runs ?s (page c i)))" using c(6,9) r by (simp add: live_block_def)
      then have "(ucast (rn_elemsize (runs ?s (page c i))) :: u64) = word_of_nat n"
        by (simp add: word_unat_eq_iff)
      ultimately show ?thesis using e small ic True c(11) by (simp add: check_chunk_small_def)
    qed
  next
    case medium
    then have nl: "(pos, n) \<notin> larges ?s" "(pos, n) \<notin> small_blocks ?s (set (P True)) F"
      using blocks_larges(2) [OF inv] kinds_disjoint [OF I(1)] unfolding blocks_def by blast+
    obtain c p k where c: "pos = page c p" "c \<in> set (P False)" "(p, k) \<in> useds 1 (E c)"
      using medium unfolding medium_blocks_def by auto
    note M = medium_used_range [OF I(5) c(2,3)]
    obtain a m where am: "c = chunk_slot a m" "has_chunk ?s a m" "m < 8" using in_pool_slot [OF I(2) c(2)] by metis
    have pm: "p * 4096 < 1048576" "unat pos = unat (chunk_slot a m) + p * 4096" using M(2,3,5) c(1) am(1) by simp_all
    have o: "unat (pos2offset pos) < 2 ^ 28" using inside_chunk(7) [OF inv inv am(2) pm(2,1)] am(3) pm(1) by simp
    have "ch_type (chunks ?s c) = CHUNK_TYPE_MEDIUM" using I(5) c(2) by (simp add: medium_inv_def medium_ok_def)
    then have "check_arena os S (pos2index pos) (pos2offset pos) = Inr (S, 0)"
      using check_arena_inside [OF inv am(2) pm(2,1), of os] check_medium_zero [OF I(5) c(2) o] am(1)
      by (simp add: check_chunk_def)
    then show ?thesis using nl by simp
  next
    case large
    then obtain i where i: "pos = chunk_slot i 0" "n = unat (ar_size (sc_arenas ?s ! i))" "i < 128"
      "ar_type (sc_arenas ?s ! i) = 3" by (auto simp: larges_def)
    have ix: "pos2index pos = word_of_nat i" using chunk_slot_parts(1) i by simp
    have ui: "unat (word_of_nat i :: u32) = i" "(word_of_nat i :: u32) < 128" using index_word i(3) by blast+
    then have "is_arena_valid S (word_of_nat i)" using i by (simp add: is_arena_valid_def)
    then show ?thesis using i ui large unfolding ix by (simp add: check_arena_def Let_def)
  qed
qed


lemma block_size_bound:
  assumes "sys_inv S P R F E X" and "(pos, n) \<in> all_blocks (sy_mem S) P F E"
  shows "n < 2 ^ 64"
proof (cases "(pos, n) \<in> larges (sy_mem S)")
  case True
  then obtain a :: u64 where "n = unat a" by (auto simp: larges_def)
  then show ?thesis using unat_less_u64 [of a] by simp
next
  case False
  note I = sys_invD [OF assms(1)]
  obtain c d where "c \<in> set (P d)" "in_chunk c (pos, n)"
    using assms(2) False small_block_in [OF I(4)] medium_block_in [OF I(5)] unfolding all_blocks_def blocks_def by blast
  then show ?thesis by (simp add: in_chunk_def)
qed

text \<open>C9: the size \<open>shm_check_size\<close> reports for a block in use is its size for an arena of
  its own and for a small block of an arena's first chunk, and 0 for every other block.\<close>

theorem shm_check_size_value:
  assumes "sys_inv S P R F E X" and "(pos, n) \<in> all_blocks (sy_mem S) P F E"
  shows "\<exists>S'. sy_mem S' = sy_mem S \<and> shm_check_size os S pos
    = Inr (S', if (pos, n) \<in> larges (sy_mem S)
        \<or> (pos, n) \<in> small_blocks (sy_mem S) (set (P True)) F \<and> unat (pos2offset pos) < SHM_CHUNK_UNIT_SIZE
      then word_of_nat n else 0)"
proof -
  let ?L = "lock_context os S"
  have "sys_inv ?L P R F E X" "(pos, n) \<in> all_blocks (sy_mem ?L) P F E" using assms by simp_all
  from check_arena_ok [OF this, of os] show ?thesis
    using all_blocks_nonzero [OF assms] by (intro exI [of _ "unlock_context os ?L"]) (simp add: shm_check_size_def)
qed

text \<open>C8: \<open>shm_realloc\<close> gives the old position back, and changes nothing, when the new
  size is not larger, and also, whatever the new size is, for every block of pages and for every
  small block outside the first chunk of an arena: the caller takes it for a block of the new size.\<close>

theorem shm_realloc_stays:
  assumes "sys_inv S P R F E X" and "(pos, n) \<in> all_blocks (sy_mem S) P F E"
    and "(pos, n) \<notin> larges (sy_mem S) \<and> ((pos, n) \<in> medium_blocks (set (P False)) E
        \<or> SHM_CHUNK_UNIT_SIZE \<le> unat (pos2offset pos)) \<or> unat sz \<le> n"
  shows "\<exists>S'. shm_realloc os S pos sz = Inr (S', pos) \<and> sy_mem S' = sy_mem S"
proof -
  let ?L = "lock_context os S"
  define c :: u64 where "c = (if (pos, n) \<in> larges (sy_mem S)
      \<or> (pos, n) \<in> small_blocks (sy_mem S) (set (P True)) F \<and> unat (pos2offset pos) < SHM_CHUNK_UNIT_SIZE
    then word_of_nat n else 0)"
  have "sys_inv ?L P R F E X" "(pos, n) \<in> all_blocks (sy_mem ?L) P F E" using assms by simp_all
  from check_arena_ok [OF this, of os] have ch: "check_arena os ?L (pos2index pos) (pos2offset pos) = Inr (?L, c)"
    by (simp add: c_def)
  have "\<not> (sz > c \<and> c \<noteq> 0)"
  proof
    assume g: "sz > c \<and> c \<noteq> 0"
    then have k: "(pos, n) \<in> larges (sy_mem S)
        \<or> (pos, n) \<in> small_blocks (sy_mem S) (set (P True)) F \<and> unat (pos2offset pos) < SHM_CHUNK_UNIT_SIZE"
      and cn: "c = word_of_nat n" by (auto simp: c_def split: if_splits)
    have "n < 2 ^ 64" using block_size_bound [OF assms(1,2)] .
    then have "unat c = n" using cn by (simp add: unat_of_nat_small)
    then have "n < unat sz" using g by (simp add: word_less_nat_alt)
    moreover have "(pos, n) \<notin> medium_blocks (set (P False)) E" if "(pos, n) \<in> small_blocks (sy_mem S) (set (P True)) F"
      using kinds_disjoint [OF sys_invD(1) [OF assms(1)] that] .
    ultimately show False using k assms(3) by linarith
  qed
  then consider "\<not> c < sz" | "c = 0" by blast
  then have "shm_realloc os S pos sz = Inr (unlock_context os ?L, pos)"
    using all_blocks_nonzero [OF assms(1,2)] ch by cases (simp_all add: shm_realloc_def Let_def)
  then show ?thesis by auto
qed


text \<open>Writing to the bytes of the client changes no structure of the allocator.\<close>

lemma copy_bytes_sel [simp]:
  "sc_arenas (copy_bytes d c n s) = sc_arenas s" "chunks (copy_bytes d c n s) = chunks s" "runs (copy_bytes d c n s) = runs s"
  "chunk_nodes (copy_bytes d c n s) = chunk_nodes s" "run_nodes (copy_bytes d c n s) = run_nodes s"
  "sc_small_pool (copy_bytes d c n s) = sc_small_pool s" "sc_medium_pool (copy_bytes d c n s) = sc_medium_pool s"
  "sc_run_pool (copy_bytes d c n s) = sc_run_pool s"
  by (simp_all add: copy_bytes_def)

lemma copy_inv:
  assumes "sys_inv S P R F E X"
  shows "sys_inv (S\<lparr>sy_mem := copy_bytes d c n (sy_mem S)\<rparr>) P R F E X"
    "all_blocks (copy_bytes d c n s) P F E = all_blocks s P F E"
proof -
  have h: "heap_inv (copy_bytes d c n (sy_mem S)) P R F E X" by (rule heap_inv_cong [OF sys_invD(1) [OF assms]]) simp_all
  show "sys_inv (S\<lparr>sy_mem := copy_bytes d c n (sy_mem S)\<rparr>) P R F E X" by (rule sys_step [OF assms h]) simp_all
  have "small_blocks (copy_bytes d c n s) C F = small_blocks s C F" for C
    by (rule small_blocks_same) (simp_all add: run_pages_def)
  then show "all_blocks (copy_bytes d c n s) P F E = all_blocks s P F E"
    using larges_cong [of "copy_bytes d c n s" s] by (simp add: all_blocks_def blocks_def)
qed

lemma copied:
  assumes "i < unat n" "pos2index (d + word_of_nat i) = pos2index d"
  shows "user_bytes (copy_bytes d c n s) (d + word_of_nat i) = user_bytes s (c + word_of_nat i)"
proof -
  have "i < 2 ^ 64" using assms(1) unat_less_u64 [of n] by simp
  then have "(word_of_nat i :: u64) < n" using assms(1) by (simp add: word_less_nat_alt unat_of_nat_small)
  then show ?thesis using assms(2) by (simp add: copy_bytes_def)
qed

lemma slot_byte:
  assumes "k < 128" "i < 2 ^ 32"
  shows "pos2index (chunk_slot k 0 + word_of_nat i) = word_of_nat k"
proof -
  have "unat (word_of_nat i :: u64) = i" using assms(2) by (intro unat_of_nat_small) simp
  then have "unat (chunk_slot k 0 + word_of_nat i) = k * 2 ^ 32 + i"
    using unat_chunk_slot [OF assms(1), of 0] assms by (simp add: unat_word_ariths)
  then show ?thesis by (rule pos_parts(1) [OF _ assms])
qed

lemma larges_segment:
  assumes "(p, m) \<in> larges (sy_mem S)"
  shows "in_segment S p n \<longleftrightarrow> unat n \<le> m"
proof -
  obtain k where k: "p = chunk_slot k 0" "k < 128" "m = unat (ar_size (sc_arenas (sy_mem S) ! k))"
    using assms by (auto simp: larges_def)
  have "arena_at S (pos2index p) = sc_arenas (sy_mem S) ! k"
    using k(1,2) chunk_slot_parts(1) [OF k(2), of 0] index_word(1) [OF k(2)] by (simp add: arena_at_def)
  moreover have "pos2offset p = 0" using k(1,2) chunk_slot_parts(2) [of k 0] by simp
  ultimately show ?thesis using k(3) by (simp add: in_segment_def)
qed

lemma larges_addr:
  assumes "sys_inv S P R F E X" and pl: "(p, l) \<in> larges (sy_mem S)"
  shows "\<exists>a. get_or_update_addr os S p = Inr (S, Some a)"
proof -
  note I = sys_invD [OF assms(1)]
  obtain i where i: "p = chunk_slot i 0" "i < 128" "ar_type (sc_arenas (sy_mem S) ! i) = 3"
    using pl by (auto simp: larges_def)
  have "p \<noteq> 0" using all_blocks_nonzero [OF assms(1), of p l] pl by (simp add: all_blocks_def)
  then show ?thesis using translate [OF I(3) i(2)] i chunk_slot_parts(1) [OF i(2)] by simp
qed

lemma copy_sets:
  fixes d s n :: u64
  assumes "sys_inv S P R F E X"
  defines "S' \<equiv> S\<lparr>sy_mem := copy_bytes d s n (sy_mem S)\<rparr>"
  shows "sys_inv S' P R F E X" "larges (sy_mem S') = larges (sy_mem S)"
    "blocks (sy_mem S') P F E = blocks (sy_mem S) P F E"
proof -
  show inv: "sys_inv S' P R F E X" unfolding S'_def by (rule copy_inv(1) [OF assms(1)])
  show la: "larges (sy_mem S') = larges (sy_mem S)" by (rule larges_cong) (simp add: S'_def)
  have "all_blocks (sy_mem S') P F E = all_blocks (sy_mem S) P F E"
    using copy_inv(2) [OF assms(1)] by (simp add: S'_def)
  then show "blocks (sy_mem S') P F E = blocks (sy_mem S) P F E"
    using la blocks_larges(2) [OF inv] blocks_larges(2) [OF assms(1)] unfolding all_blocks_def by blast
qed

lemma free_large_listed:
  assumes "sys_inv S P R F E X" and b: "(pos, n) \<in> larges (sy_mem S)"
  shows "\<exists>S'. free_arena os S (pos2index pos) (pos2offset pos) = Inr S' \<and> sys_inv S' P R F E X
    \<and> blocks (sy_mem S') P F E = blocks (sy_mem S) P F E \<and> larges (sy_mem S') = larges (sy_mem S) - {(pos, n)}
    \<and> user_bytes (sy_mem S') = user_bytes (sy_mem S)"
proof -
  obtain k where k: "pos = chunk_slot k 0" "n = unat (ar_size (sc_arenas (sy_mem S) ! k))" "k < 128"
    "ar_type (sc_arenas (sy_mem S) ! k) = 3" using b by (auto simp: larges_def)
  have "pos2index pos = word_of_nat k" using chunk_slot_parts(1) k by simp
  then show ?thesis
    using free_large_ok [OF assms(1) k(3,4), of os "pos2offset pos"] k(1,2) by simp
qed

lemma realloc_bytes:
  assumes b: "(pos, n) \<in> larges s" and r: "(ret, m) \<in> larges s1" "\<And>l. (ret, l) \<notin> larges s"
    and keep: "\<And>p. pos2index p \<noteq> pos2index ret \<Longrightarrow> user_bytes s1 p = user_bytes s p"
    and i: "i < n" "n \<le> 2 ^ 32"
  shows "user_bytes (copy_bytes ret pos (word_of_nat n) s1) (ret + word_of_nat i) = user_bytes s (pos + word_of_nat i)"
proof -
  obtain k where k: "pos = chunk_slot k 0" "k < 128" "ar_type (sc_arenas s ! k) = 3"
    using b by (auto simp: larges_def)
  obtain j where j: "ret = chunk_slot j 0" "j < 128" using r(1) by (auto simp: larges_def)
  have "j \<noteq> k" using r(2) k j by (auto simp: larges_def)
  have "pos2index (pos + word_of_nat i) = word_of_nat k" using slot_byte [OF k(2), of i] i k(1) by simp
  moreover have "pos2index ret = word_of_nat j" using j chunk_slot_parts(1) by simp
  ultimately have "pos2index (pos + word_of_nat i) \<noteq> pos2index ret"
    using \<open>j \<noteq> k\<close> index_word(1) [OF j(2)] index_word(1) [OF k(2)] by metis
  moreover have "unat (word_of_nat n :: u64) = n" using i(2) by (intro unat_of_nat_small) simp
  moreover have "pos2index (ret + word_of_nat i) = pos2index ret"
    using slot_byte [OF j(2), of i] i j chunk_slot_parts(1) by simp
  ultimately show ?thesis using keep copied [of i "word_of_nat n" ret pos s1] i(1) by simp
qed

lemma realloc_large_moves:
  assumes inv: "sys_inv S P R F E X" and b: "(pos, n) \<in> larges (sy_mem S)" and p0: "pos \<noteq> 0"
    and ch: "check_arena os (lock_context os S) (pos2index pos) (pos2offset pos) = Inr (lock_context os S, word_of_nat n)"
    and grow: "sz > word_of_nat n" "(word_of_nat n :: u64) \<noteq> 0"
    and new: "malloc_arena os (lock_context os S) sz = Inr (S1, ret)" and inv1: "sys_inv S1 P R F E X" and r0: "ret \<noteq> 0"
    and bl: "blocks (sy_mem S1) P F E = blocks (sy_mem S) P F E"
    and la: "larges (sy_mem S1) = insert (ret, m) (larges (sy_mem S))" "\<And>l. (ret, l) \<notin> larges (sy_mem S)" and fit: "n \<le> m"
    and keep: "\<And>p. pos2index p \<noteq> pos2index ret \<Longrightarrow> user_bytes (sy_mem S1) p = user_bytes (sy_mem S) p"
  shows "\<exists>S'. shm_realloc os S pos sz = Inr (S', ret) \<and> sys_inv S' P R F E X
    \<and> all_blocks (sy_mem S') P F E = insert (ret, m) (all_blocks (sy_mem S) P F E - {(pos, n)})
    \<and> (n \<le> 2 ^ 32 \<longrightarrow> (\<forall>i < n. user_bytes (sy_mem S') (ret + word_of_nat i) = user_bytes (sy_mem S) (pos + word_of_nat i)))"
proof -
  let ?S2 = "S1\<lparr>sy_mem := copy_bytes ret pos (word_of_nat n) (sy_mem S1)\<rparr>"
  note c = copy_sets [OF inv1, where d = ret and s = pos and n = "word_of_nat n"]
  have b1: "(pos, n) \<in> larges (sy_mem S1)" "(ret, m) \<in> larges (sy_mem S1)" using b la(1) by simp_all
  obtain S3 where f: "free_arena os ?S2 (pos2index pos) (pos2offset pos) = Inr S3" "sys_inv S3 P R F E X"
    "blocks (sy_mem S3) P F E = blocks (sy_mem ?S2) P F E" "larges (sy_mem S3) = larges (sy_mem ?S2) - {(pos, n)}"
    "user_bytes (sy_mem S3) = user_bytes (sy_mem ?S2)"
    using free_large_listed [OF c(1), of pos n os] b1(1) c(2) by blast
  obtain a1 a2 where ad: "get_or_update_addr os S1 pos = Inr (S1, Some a1)" "get_or_update_addr os S1 ret = Inr (S1, Some a2)"
    using larges_addr [OF inv1 b1(1)] larges_addr [OF inv1 b1(2)] by blast
  have "in_segment S1 pos (word_of_nat n)" "in_segment S1 ret (word_of_nat n)"
    unfolding larges_segment [OF b1(1)] larges_segment [OF b1(2)]
    using fit block_size_bound [OF inv1, of pos n] b1(1) by (simp_all add: all_blocks_def unat_of_nat_small)
  then have "shm_realloc os S pos sz = Inr (unlock_context os S3, ret)"
    using p0 ch grow new r0 ad f(1) by (simp add: shm_realloc_def Let_def)
  moreover have "(pos, n) \<notin> blocks (sy_mem S1) P F E" "(ret, m) \<noteq> (pos, n)"
    using blocks_larges(2) [OF inv1 _ b1(1)] la(2) b by blast+
  then have "all_blocks (sy_mem S3) P F E = insert (ret, m) (all_blocks (sy_mem S) P F E - {(pos, n)})"
    using f(3,4) c(2,3) bl la(1) by (auto simp: all_blocks_def)
  moreover have "user_bytes (sy_mem S3) (ret + word_of_nat i) = user_bytes (sy_mem S) (pos + word_of_nat i)"
    if "i < n" "n \<le> 2 ^ 32" for i
    using realloc_bytes [OF b b1(2) la(2) keep that] f(5) by simp
  ultimately show ?thesis using f(2) by (intro exI [of _ "unlock_context os S3"]) simp
qed

text \<open>Rounding a size near \<open>2 ^ 64\<close> up gives an arena of size 0: the copy leaves the segment.\<close>

lemma align_wraps:
  assumes "2 ^ 64 < unat sz + SHM_CHUNK_UNIT_SIZE"
  shows "align_size sz SHM_CHUNK_UNIT_SIZE = 0"
proof -
  have "unat (sz + (1048576 - 1)) = unat sz + 1048575 - 2 ^ 64"
    using assms unat_less_u64 [of sz] by (simp add: unat_word_ariths mod_if)
  then have "unat (sz + (1048576 - 1)) < 1048576" using unat_less_u64 [of sz] by simp
  then have "(sz + (1048576 - 1)) div 1048576 = 0" by (simp add: word_unat_eq_iff unat_div_distrib)
  then show ?thesis by (simp add: align_size_def)
qed

lemma realloc_wraps:
  assumes p0: "pos \<noteq> 0" and ch: "check_arena os (lock_context os S) (pos2index pos) (pos2offset pos) = Inr (lock_context os S, c)"
    and grow: "sz > c" "c \<noteq> 0" and new: "malloc_arena os (lock_context os S) sz = Inr (S1, ret)" "ret \<noteq> 0"
    and ret: "(ret, 0) \<in> larges (sy_mem S1)"
    and addr: "get_or_update_addr os S1 pos = Inr (S1, Some a)" "get_or_update_addr os S1 ret = Inr (S1, Some d)"
  shows "shm_realloc os S pos sz = Inl WildAccess"
proof -
  have "\<not> in_segment S1 ret c" unfolding larges_segment [OF ret] using grow(2) by (simp add: unat_gt_0)
  then show ?thesis using p0 ch grow new addr by (simp add: shm_realloc_def Let_def)
qed

text \<open>C7: growing a block that is an arena of its own: either there is no room for another arena of
  the new size, then the old block is kept; or the block moves to a new arena, with its bytes, and the
  old one is released; or the rounding of the new size wraps around, then the bytes of the block are
  copied over the end of an arena of size 0.\<close>

theorem shm_realloc_moves:
  assumes inv: "sys_inv S P R F E X" and b: "(pos, n) \<in> larges (sy_mem S)" "n \<noteq> 0"
    and sz: "n < unat sz" "CHUNK_MEDIUM_LIMIT < sz"
  shows "(\<exists>S'. shm_realloc os S pos sz = Inr (S', 0) \<and> sy_mem S' = sy_mem S
        \<and> no_arena os (lock_context os S) (align_size sz SHM_CHUNK_UNIT_SIZE))
    \<or> (\<exists>S' ret. shm_realloc os S pos sz = Inr (S', ret) \<and> ret \<noteq> 0 \<and> sys_inv S' P R F E X
        \<and> unat sz \<le> unat (align_size sz SHM_CHUNK_UNIT_SIZE)
        \<and> all_blocks (sy_mem S') P F E = insert (ret, unat (align_size sz SHM_CHUNK_UNIT_SIZE))
            (all_blocks (sy_mem S) P F E - {(pos, n)})
        \<and> (n \<le> 2 ^ 32 \<longrightarrow> (\<forall>i < n. user_bytes (sy_mem S') (ret + word_of_nat i) = user_bytes (sy_mem S) (pos + word_of_nat i))))
    \<or> shm_realloc os S pos sz = Inl WildAccess \<and> 2 ^ 64 < unat sz + SHM_CHUNK_UNIT_SIZE"
proof -
  let ?L = "lock_context os S" and ?m = "unat (align_size sz SHM_CHUNK_UNIT_SIZE)" and ?s = "sy_mem S"
  have invL: "sys_inv ?L P R F E X" using inv by simp
  have all: "(pos, n) \<in> all_blocks ?s P F E" using b(1) by (simp add: all_blocks_def)
  have p0: "pos \<noteq> 0" using all_blocks_nonzero [OF inv all] .
  have un: "unat (word_of_nat n :: u64) = n" using block_size_bound [OF inv all] by (simp add: unat_of_nat_small)
  have ch: "check_arena os ?L (pos2index pos) (pos2offset pos) = Inr (?L, word_of_nat n)"
    using check_arena_ok [OF invL, of pos n os] all b(1) by simp
  have grow: "sz > word_of_nat n" "(word_of_nat n :: u64) \<noteq> 0"
    using un sz(1) b(2) by (auto simp: word_less_nat_alt)
  have ml: "malloc_arena os ?L sz = malloc_large os ?L sz" using sz(2)
    by (simp add: malloc_arena_def word_le_nat_alt word_less_nat_alt)
  consider w where "malloc_large os ?L sz = Inr (?L\<lparr>sy_world := w\<rparr>, 0)" "no_arena os ?L (align_size sz SHM_CHUNK_UNIT_SIZE)"
    | S1 ret where "malloc_large os ?L sz = Inr (S1, ret)" "sys_inv S1 P R F E X" "ret \<noteq> 0"
      "blocks (sy_mem S1) P F E = blocks ?s P F E" "larges (sy_mem S1) = insert (ret, ?m) (larges ?s)"
      "\<forall>n. (ret, n) \<notin> larges ?s" "\<forall>p. pos2index p \<noteq> pos2index ret \<longrightarrow> user_bytes (sy_mem S1) p = user_bytes ?s p"
    using malloc_large_ok [OF invL, of os sz] unfolding lock_inv by blast
  then show ?thesis
  proof cases
    case 1
    have "shm_realloc os S pos sz = Inr (unlock_context os (?L\<lparr>sy_world := w\<rparr>), 0)"
      using p0 ch grow 1 ml by (simp add: shm_realloc_def Let_def)
    then show ?thesis by (intro disjI1 exI [of _ "unlock_context os (?L\<lparr>sy_world := w\<rparr>)"]) (simp add: 1(2))
  next
    case 2
    have new: "malloc_arena os ?L sz = Inr (S1, ret)" using 2(1) ml by simp
    show ?thesis
    proof (cases "unat sz + SHM_CHUNK_UNIT_SIZE \<le> 2 ^ 64")
      case True
      have fit: "unat sz \<le> ?m" using align_fits [OF True] .
      then have "n \<le> ?m" using sz(1) by linarith
      note moved = realloc_large_moves [OF inv b(1) p0 ch grow new 2(2,3,4,5) 2(6) [rule_format] this 2(7) [rule_format]]
      show ?thesis using moved 2(3) fit by blast
    next
      case False
      then have w: "2 ^ 64 < unat sz + SHM_CHUNK_UNIT_SIZE" by simp
      have l: "(pos, n) \<in> larges (sy_mem S1)" "(ret, 0) \<in> larges (sy_mem S1)"
        using 2(5) b(1) align_wraps [OF w] by simp_all
      obtain a d where "get_or_update_addr os S1 pos = Inr (S1, Some a)" "get_or_update_addr os S1 ret = Inr (S1, Some d)"
        using larges_addr [OF 2(2) l(1)] larges_addr [OF 2(2) l(2)] by blast
      from realloc_wraps [OF p0 ch grow new 2(3) l(2) this] show ?thesis using w by blast
    qed
  qed
qed

section \<open>Growing any block\<close>

text \<open>Growing a block in use either leaves it where it is, and the blocks in use with it, or moves it to a
  new one, or stops as an allocation of this size can. The block must be one that can be released once
  the new one is there. Before that: every block has an address, and ends inside its segment.\<close>

lemma block_addr:
  assumes inv: "sys_inv S P R F E X" and b: "(pos, n) \<in> all_blocks (sy_mem S) P F E"
  shows "\<exists>a. get_or_update_addr os S pos = Inr (S, Some a)"
proof (cases "(pos, n) \<in> larges (sy_mem S)")
  case True
  then show ?thesis by (rule larges_addr [OF inv])
next
  case False
  then have "(pos, n) \<in> blocks (sy_mem S) P F E" using b by (simp add: all_blocks_def)
  then obtain i j where i: "has_chunk (sy_mem S) i j" "pos2index pos = word_of_nat i"
    by (rule block_in_chunk [OF inv]) auto
  then have "i < 128" "ar_type (sc_arenas (sy_mem S) ! i) \<noteq> 0" by (auto simp: has_chunk_def)
  then show ?thesis using translate [OF sys_invD(3) [OF inv] _ _ all_blocks_nonzero [OF inv b] i(2)] by blast
qed

lemma small_size:
  assumes inv: "small_inv s P R F" and b: "(pos, n) \<in> small_blocks s (set (P True)) F"
  shows "n \<le> CHUNK_SMALL_LIMIT"
proof -
  obtain x j where x: "(pos, n) = live_block s x j" and "(x, j) \<in> small_live s (set (P True)) F"
    using b unfolding small_blocks_def by auto
  then have r: "x \<in> run_pages s (set (P True))" by (simp add: small_live_def)
  have "n = snd (live_block s x j)" by (simp flip: x)
  then have "n = elemsize_of (rclass s x)" by (simp only: live_block_def snd_conv)
  moreover have "elemsize_of (rclass s x) \<le> 1920"
    using elemsize_of_class [OF run_okD(2,3) [OF small_invD(5) [OF inv r]]] by blast
  ultimately show ?thesis by simp
qed

lemma block_segment:
  assumes inv: "sys_inv S P R F E X" and b: "(pos, n) \<in> all_blocks (sy_mem S) P F E" and l: "unat l \<le> n"
  shows "in_segment S pos l"
proof (cases "(pos, n) \<in> larges (sy_mem S)")
  case True
  then show ?thesis using larges_segment l by blast
next
  case False
  note I = sys_invD [OF inv]
  obtain c d where c: "c \<in> set (P d)" "in_chunk c (pos, n)"
    using b False small_block_in [OF I(4)] medium_block_in [OF I(5)] unfolding all_blocks_def blocks_def by blast
  obtain i j where h: "c = chunk_slot i j" "has_chunk (sy_mem S) i j" "i < 128" using in_pool_slot [OF I(2) c(1)] by metis
  define m where "m = unat pos - unat c"
  have m: "unat pos = unat (chunk_slot i j) + m" "m < 1048576" "m + n \<le> 1048576"
    using c(2) h(1) by (auto simp: in_chunk_def m_def)
  note ic = inside_chunk(1,7) [OF inv inv h(2) m(1,2)]
  have j: "j < 8" "chunked (sc_arenas (sy_mem S) ! i)" using h(2) unfolding has_chunk_def by blast+
  then have "ar_size (sc_arenas (sy_mem S) ! i) = SHM_ARENA_UNIT_SIZE"
    using arena_invD(2) [OF I(2) h(3)] by (simp add: arena_ok_def)
  moreover have "arena_at S (pos2index pos) = sc_arenas (sy_mem S) ! i"
    using ic(1) index_word(1) [OF h(3)] by (simp add: arena_at_def)
  moreover have "j * 1048576 \<le> 7 * 1048576" using j(1) by simp
  then have "j * 1048576 + m + unat l \<le> 8388608" using m(3) l by linarith
  ultimately show ?thesis using ic(2) by (simp add: in_segment_def)
qed

lemma copy_relinkable [simp]: "relinkable (copy_bytes d c n s) p = relinkable s p"
  by (simp add: relinkable_def unlinked_def)

text \<open>What growing does once the new block is there.\<close>

lemma realloc_step:
  assumes inv: "sys_inv S1 P R F E X" and b: "(pos, n) \<in> all_blocks (sy_mem S1) P F E" "(ret, k) \<in> all_blocks (sy_mem S1) P F E"
    and fit: "n \<le> k" and ch: "check_arena os (lock_context os S) (pos2index pos) (pos2offset pos) = Inr (lock_context os S, word_of_nat n)"
    and grow: "sz > word_of_nat n" "(word_of_nat n :: u64) \<noteq> 0"
    and new: "malloc_arena os (lock_context os S) sz = Inr (S1, ret)"
    and clean: "n \<le> CHUNK_SMALL_LIMIT \<Longrightarrow> relinkable (sy_mem S1) pos"
  shows "\<exists>S' P' R' F' E' X'. shm_realloc os S pos sz = Inr (S', ret) \<and> sys_inv S' P' R' F' E' X'
    \<and> all_blocks (sy_mem S') P' F' E' = all_blocks (sy_mem S1) P F E - {(pos, n)}"
proof -
  let ?c = "word_of_nat n :: u64"
  let ?S2 = "S1\<lparr>sy_mem := copy_bytes ret pos ?c (sy_mem S1)\<rparr>"
  have nz: "pos \<noteq> 0" "ret \<noteq> 0" using all_blocks_nonzero [OF inv b(1)] all_blocks_nonzero [OF inv b(2)] .
  have un: "unat ?c = n" using block_size_bound [OF inv b(1)] by (simp add: unat_of_nat_small)
  have inv2: "sys_inv ?S2 P R F E X" by (rule copy_inv(1) [OF inv])
  have b2: "(pos, n) \<in> all_blocks (sy_mem ?S2) P F E" using b(1) copy_inv(2) [OF inv] by simp
  have "relinkable (sy_mem ?S2) pos" if "(pos, n) \<in> small_blocks (sy_mem ?S2) (set (P True)) F"
    using small_size [OF sys_invD(4) [OF inv2] that] clean by simp
  then obtain S3 P' R' F' E' X' where f: "free_arena os ?S2 (pos2index pos) (pos2offset pos) = Inr S3" "sys_inv S3 P' R' F' E' X'"
    "all_blocks (sy_mem S3) P' F' E' = all_blocks (sy_mem ?S2) P F E - {(pos, n)}"
    using free_arena_ok [OF inv2 b2, of os] by blast
  obtain a1 a2 where ad: "get_or_update_addr os S1 pos = Inr (S1, Some a1)" "get_or_update_addr os S1 ret = Inr (S1, Some a2)"
    using block_addr [OF inv b(1)] block_addr [OF inv b(2)] by blast
  have "in_segment S1 pos ?c" "in_segment S1 ret ?c"
    using block_segment [OF inv b(1), of ?c] block_segment [OF inv b(2), of ?c] un fit by simp_all
  then have "shm_realloc os S pos sz = Inr (unlock_context os S3, ret)"
    using nz ch grow new ad f(1) by (simp add: shm_realloc_def Let_def)
  moreover have "all_blocks (sy_mem (unlock_context os S3)) P' F' E' = all_blocks (sy_mem S1) P F E - {(pos, n)}"
    using f(3) copy_inv(2) [OF inv] by simp
  moreover have "sys_inv (unlock_context os S3) P' R' F' E' X'" using f(2) by simp
  ultimately show ?thesis by blast
qed

lemma realloc_ok:
  assumes inv: "sys_inv S P R F E X" and b: "(pos, n) \<in> all_blocks (sy_mem S) P F E"
    and clean: "\<forall>S1 r. malloc_arena os (lock_context os S) sz = Inr (S1, r) \<longrightarrow> n \<le> CHUNK_SMALL_LIMIT \<longrightarrow> relinkable (sy_mem S1) pos"
  shows "(\<exists>S' ret. shm_realloc os S pos sz = Inr (S', ret) \<and> (ret = 0 \<or> ret = pos) \<and> sy_mem S' = sy_mem S \<and> sys_inv S' P R F E X)
    \<or> (\<exists>S' ret k P' R' F' E' X'. shm_realloc os S pos sz = Inr (S', ret) \<and> ret \<noteq> 0 \<and> ret \<noteq> pos \<and> n < unat sz \<and> unat sz \<le> k
        \<and> (ret, k) \<notin> all_blocks (sy_mem S) P F E \<and> sys_inv S' P' R' F' E' X'
        \<and> all_blocks (sy_mem S') P' F' E' = insert (ret, k) (all_blocks (sy_mem S) P F E - {(pos, n)}))
    \<or> shm_realloc os S pos sz = Inl AssertFail \<and> CHUNK_SMALL_LIMIT < sz \<and> sz \<le> CHUNK_MEDIUM_LIMIT
    \<or> shm_realloc os S pos sz = Inl WildAccess \<and> 2 ^ 64 < unat sz + SHM_CHUNK_UNIT_SIZE"
proof -
  let ?L = "lock_context os S"
  have invL: "sys_inv ?L P R F E X" using inv by simp
  have p0: "pos \<noteq> 0" using all_blocks_nonzero [OF inv b] .
  obtain c where ch: "check_arena os ?L (pos2index pos) (pos2offset pos) = Inr (?L, c)" "c = word_of_nat n \<or> c = 0"
    using check_arena_ok [OF invL, of pos n os] b by (auto split: if_splits)
  have un: "unat (word_of_nat n :: u64) = n" using block_size_bound [OF inv b] by (simp add: unat_of_nat_small)
  show ?thesis
  proof (cases "sz > c \<and> c \<noteq> 0")
    case False
    then have "shm_realloc os S pos sz = Inr (unlock_context os ?L, pos)"
      using p0 ch(1) by (auto simp: shm_realloc_def Let_def)
    then show ?thesis using inv by (intro disjI1 exI [of _ "unlock_context os ?L"] exI [of _ pos]) simp
  next
    case True
    then have c: "c = word_of_nat n" "sz > word_of_nat n" "(word_of_nat n :: u64) \<noteq> 0" "n < unat sz" "0 < sz"
      using ch(2) un by (auto simp: word_less_nat_alt)
    have "n \<noteq> 0" using c(3) by (intro notI) simp
    note ch' = ch(1) [unfolded c(1)]
    consider w where "malloc_arena os ?L sz = Inr (?L\<lparr>sy_world := w\<rparr>, 0)"
      | S1 ret k P' R' F' E' X' where "malloc_arena os ?L sz = Inr (S1, ret)" "sys_inv S1 P' R' F' E' X'" "ret \<noteq> 0"
        "all_blocks (sy_mem S1) P' F' E' = insert (ret, k) (all_blocks (sy_mem S) P F E)"
        "(ret, k) \<notin> all_blocks (sy_mem S) P F E" "unat sz + SHM_CHUNK_UNIT_SIZE \<le> 2 ^ 64 \<longrightarrow> unat sz \<le> k"
      | "malloc_arena os ?L sz = Inl AssertFail" "CHUNK_SMALL_LIMIT < sz" "sz \<le> CHUNK_MEDIUM_LIMIT"
      using malloc_arena_ok [OF invL c(5), of os] unfolding lock_inv by blast
    then show ?thesis
    proof cases
      case 1
      have "shm_realloc os S pos sz = Inr (unlock_context os (?L\<lparr>sy_world := w\<rparr>), 0)"
        using p0 ch' c(2,3) 1 by (simp add: shm_realloc_def Let_def)
      then show ?thesis using inv
        by (intro disjI1 exI [of _ "unlock_context os (?L\<lparr>sy_world := w\<rparr>)"] exI [of _ "0 :: u64"]) (simp add: sys_world)
    next
      case 2
      have b1: "(pos, n) \<in> all_blocks (sy_mem S1) P' F' E'" "(ret, k) \<in> all_blocks (sy_mem S1) P' F' E'"
        using 2(4) b by simp_all
      show ?thesis
      proof (cases "unat sz + SHM_CHUNK_UNIT_SIZE \<le> 2 ^ 64")
        case True
        then have fit: "unat sz \<le> k" "n \<le> k" using 2(6) c(4) by linarith+
        have ne: "(pos, n) \<noteq> (ret, k)" using 2(5) b by metis
        then have "separate (pos, n) (ret, k)" using blocks_separate [OF 2(2) b1] by blast
        then have "ret \<noteq> pos" using fit(2) \<open>n \<noteq> 0\<close> by (auto simp: separate_def apart_def)
        moreover have "insert (ret, k) (all_blocks (sy_mem S) P F E) - {(pos, n)} = insert (ret, k) (all_blocks (sy_mem S) P F E - {(pos, n)})"
          using ne by blast
        ultimately show ?thesis
          using realloc_step [OF 2(2) b1 fit(2) ch' c(2,3) 2(1) clean [rule_format, OF 2(1)]] 2(3,4,5) fit(1) c(4) by metis
      next
        case False
        then have w: "2 ^ 64 < unat sz + SHM_CHUNK_UNIT_SIZE" by simp
        then have big: "\<not> sz \<le> 1920" "\<not> sz \<le> 1044480" by (auto simp: word_le_nat_alt)
        then have "malloc_large os ?L sz = Inr (S1, ret)" using 2(1) by (simp add: malloc_arena_def)
        then have l: "(ret, 0) \<in> larges (sy_mem S1)" "sys_inv S1 P R F E X"
          "all_blocks (sy_mem S1) P F E = insert (ret, 0) (all_blocks (sy_mem S) P F E)"
          using malloc_large_block [OF invL, of os sz] 2(3) align_wraps [OF w] by auto
        obtain a d where "get_or_update_addr os S1 pos = Inr (S1, Some a)" "get_or_update_addr os S1 ret = Inr (S1, Some d)"
          using block_addr [OF l(2), of pos n] larges_addr [OF l(2,1)] b l(3) by blast
        from realloc_wraps [OF p0 ch' c(2,3) 2(1,3) l(1) this] show ?thesis using w by blast
      qed
    next
      case 3
      then have "shm_realloc os S pos sz = Inl AssertFail" using p0 ch' c(2,3) by (simp add: shm_realloc_def Let_def)
      then show ?thesis using 3(2,3) by blast
    qed
  qed
qed

end
