(* ===== verification/Shm_Demo.thy ===== *)
theory Shm_Demo
  imports Shm_Api
begin

text \<open>
  A system in which every call succeeds and states reached from \<open>shm_init\<close> in it: the theorems
  of \<open>Shm_Api\<close> at concrete inputs.
\<close>

section \<open>A concrete run\<close>

text \<open>The system, and a process before \<open>shm_init\<close>.\<close>

definition demo_os :: "unit os" where
  "demo_os = \<lparr>os_errno = \<lambda>w. 0, os_shmget = \<lambda>w key sz flags. (7, w), os_shmat = \<lambda>w id. (4096, w),
     os_shmdt = \<lambda>w addr. (0, w), os_shmctl_rmid = \<lambda>w id. (0, w), os_access = \<lambda>w path. (0, w),
     os_open = \<lambda>w path flags mode. (3, w), os_write = \<lambda>w fd buf n. (n, w), os_fsync = \<lambda>w fd. (0, w),
     os_close = \<lambda>w fd. w, os_chmod = \<lambda>w path mode. (0, w), os_ftok = \<lambda>w path proj. (5, w),
     os_umask = \<lambda>w m. (0, w), os_fcntl_lock = \<lambda>w fd. (0, w), os_mutexattr_init = \<lambda>w. (0, w),
     os_mutexattr_setpshared = \<lambda>w. (0, w), os_mutexattr_settype = \<lambda>w. (0, w), os_mutex_init = \<lambda>w. (0, w),
     os_mutexattr_destroy = \<lambda>w. w, os_mutex_lock = \<lambda>w. (0, w), os_mutex_unlock = \<lambda>w. (0, w),
     os_malloc = \<lambda>w n. (True, w), os_atexit = \<lambda>w. (0, w)\<rparr>"

lemma demo_serves:
  "grants demo_os w path index sz" "finds demo_os w path sz" "attachable demo_os 7"
  by (simp_all add: grants_def finds_def attachable_def shm_get_key_def shm_mmap_def shm_remove_def demo_os_def)

definition demo_mem :: shm_state where
  "demo_mem = \<lparr>sc_init_flag = 0, sc_key = 0, sc_count = 0, sc_user_data = 0, sc_arenas = [], sc_run_pool = [],
     sc_small_pool = \<lparr>rb_root = 0, rb_size = 0\<rparr>, sc_medium_pool = \<lparr>rb_root = 0, rb_size = 0\<rparr>,
     chunk_nodes = \<lambda>_. zero_chunk_node, chunks = \<lambda>_. zero_header (\<lambda>_. zero_page_node),
     run_nodes = \<lambda>_. clean_node, runs = \<lambda>_. zero_run, user_bytes = \<lambda>_. 0\<rparr>"

definition demo_process :: "unit sys" where
  "demo_process = \<lparr>sy_world = (), sy_path = [], sy_shared = False, sy_addrs = [], sy_mem = demo_mem\<rparr>"

definition demo_sys :: "unit sys" where
  "demo_sys = started demo_process 5 7 4096"

lemma demo_inv:
  "sys_inv demo_sys no_pools no_runs no_free no_extents no_nodes"
  "all_blocks (sy_mem demo_sys) no_pools no_free no_extents = {}"
  "\<not> no_room demo_os demo_sys"
proof -
  show "sys_inv demo_sys no_pools no_runs no_free no_extents no_nodes"
    "all_blocks (sy_mem demo_sys) no_pools no_free no_extents = {}"
    unfolding demo_sys_def by (rule started_inv; simp)+
  have z: "replicate 8 (0 :: u64) ! 1 = 0" by (rule nth_replicate) simp
  have "ar_chunks (sc_arenas (sy_mem demo_sys) ! 0) ! 1 = 0"
    using z by (simp add: demo_sys_def started_def shared_arenas zero_arena_def del: replicate.simps One_nat_def)
  then show "\<not> no_room demo_os demo_sys" unfolding no_room_def by (metis one_less_numeral_iff semiring_norm(76))
qed

lemma demo_arena: "no_arena demo_os S sz \<longleftrightarrow> empty_arenas (sy_mem S) = {}"
  by (simp add: no_arena_def demo_serves(1))

lemma demo_room: "no_room demo_os (lock_context os S) = no_room demo_os S"
  by (simp add: no_room_def demo_arena)

lemma demo_init: "\<exists>S'. shm_init 1 demo_os demo_process ''/tmp/s'' True = Inr (S', 0)"
proof -
  have "case shm_init 1 demo_os demo_process ''/tmp/s'' True of Inl e \<Rightarrow> False | Inr (S', r) \<Rightarrow> r = 0" by code_simp
  then show ?thesis by (auto split: sum.splits)
qed

lemma demo_flag: "sc_init_flag (sy_mem demo_process) \<noteq> SHM_INIT_FLAG"
  by (simp add: demo_process_def demo_mem_def)

theorem shm_init_creates_witness:
  "\<exists>S'. shm_init 1 demo_os demo_process ''/tmp/s'' True = Inr (S', 0)
    \<and> sys_inv S' no_pools no_runs no_free no_extents no_nodes"
  using demo_init shm_init_creates [OF _ demo_flag] by blast

theorem shm_malloc_correct_witness:
  "\<exists>S' pos n P' R' F' E' X'. shm_malloc demo_os demo_sys 100 = Inr (S', pos) \<and> pos \<noteq> 0 \<and> 100 \<le> n
    \<and> sys_inv S' P' R' F' E' X' \<and> all_blocks (sy_mem S') P' F' E' = {(pos, n)}"
proof -
  note m = shm_malloc_correct [OF demo_inv(1), where os = demo_os and sz = 100]
  obtain S' pos where r: "shm_malloc demo_os demo_sys 100 = Inr (S', pos)"
    using m by (cases "shm_malloc demo_os demo_sys 100") auto
  have "refused demo_os (lock_context demo_os demo_sys) 100 = no_room demo_os demo_sys"
    by (simp add: refused_def demo_room)
  then have "pos \<noteq> 0" using m demo_inv(3) unfolding r by auto
  moreover then have "\<exists>n P' R' F' E' X'. sys_inv S' P' R' F' E' X'
      \<and> all_blocks (sy_mem S') P' F' E' = insert (pos, n) (all_blocks (sy_mem demo_sys) no_pools no_free no_extents)
      \<and> (pos, n) \<notin> all_blocks (sy_mem demo_sys) no_pools no_free no_extents
      \<and> (unat (100 :: u64) + SHM_CHUNK_UNIT_SIZE \<le> 2 ^ 64 \<longrightarrow> unat (100 :: u64) \<le> n)"
    using m unfolding r sum.case prod.case by (simp only: if_False)
  moreover have "unat (100 :: u64) + SHM_CHUNK_UNIT_SIZE \<le> 2 ^ 64" "unat (100 :: u64) = 100" by simp_all
  ultimately show ?thesis using r unfolding demo_inv(2) by metis
qed

lemma demo_pages:
  "\<exists>(S :: unit sys) ret P E X. sys_inv S P no_runs no_free E X \<and> P True = [] \<and> (ret, 8192) \<in> medium_blocks (set (P False)) E
    \<and> all_blocks (sy_mem S) P no_free E = {(ret, 8192)}"
proof -
  have p: "pages_for (unat (5000 :: u64)) * 4096 = 8192" by (simp add: pages_for_def)
  have s: "CHUNK_SMALL_LIMIT < (5000 :: u64)" "(5000 :: u64) \<le> CHUNK_MEDIUM_LIMIT" by simp_all
  have no: "\<not> (\<exists>w. malloc_medium demo_os demo_sys 5000 = Inr (demo_sys\<lparr>sy_world := w\<rparr>, 0)
      \<and> no_room demo_os demo_sys)" using demo_inv(3) by blast
  note M = malloc_medium_ok [OF demo_inv(1) s, where os = demo_os, unfolded p list.set(1)]
  obtain S :: "unit sys" and ret P E X where m: "sys_inv S P no_runs no_free E X" "P True = []"
    "blocks (sy_mem S) P no_free E = insert (ret, 8192) (blocks (sy_mem demo_sys) no_pools no_free no_extents)"
    "larges (sy_mem S) = larges (sy_mem demo_sys)"
    using M no by blast
  have e: "blocks (sy_mem demo_sys) no_pools no_free no_extents = {}" "larges (sy_mem demo_sys) = {}"
    using demo_inv(2) by (simp_all add: all_blocks_def)
  have "run_pages (sy_mem S) (set (P True)) = {}" using m(2) by (simp add: run_pages_def)
  then have "small_blocks (sy_mem S) (set (P True)) no_free = {}" by (simp add: small_blocks_def small_live_def)
  then have "(ret, 8192) \<in> medium_blocks (set (P False)) E" using m(3) by (auto simp: blocks_def)
  moreover have "all_blocks (sy_mem S) P no_free E = {(ret, 8192)}" using m(3,4) e by (simp add: all_blocks_def)
  ultimately show ?thesis using m(1,2) by blast
qed

theorem shm_free_correct_witness:
  "\<exists>(S :: unit sys) pos S' P R F E X. (\<exists>P0 F0 E0. all_blocks (sy_mem S) P0 F0 E0 = {(pos, 8192)}) \<and> shm_free demo_os S pos = Inr S'
    \<and> sys_inv S' P R F E X \<and> all_blocks (sy_mem S') P F E = {}"
proof -
  obtain S :: "unit sys" and ret P E X where d: "sys_inv S P no_runs no_free E X" "P True = []"
    "all_blocks (sy_mem S) P no_free E = {(ret, 8192)}" using demo_pages by blast
  have "(ret, 8192) \<in> all_blocks (sy_mem S) P no_free E" using d(3) by simp
  moreover have "(ret, 8192) \<notin> small_blocks (sy_mem S) (set (P True)) no_free"
    using d(2) by (simp add: small_blocks_def small_live_def run_pages_def)
  ultimately obtain S' P' R' F' E' X' where "shm_free demo_os S ret = Inr S'" "sys_inv S' P' R' F' E' X'"
    "all_blocks (sy_mem S') P' F' E' = all_blocks (sy_mem S) P no_free E - {(ret, 8192)}"
    using shm_free_correct [OF d(1), where os = demo_os] by blast
  then show ?thesis using d(3) by (simp only: Diff_cancel) blast
qed

theorem shm_check_size_value_witness:
  "\<exists>(S :: unit sys) pos S' P E. (pos, 8192) \<in> medium_blocks (set (P False)) E \<and> shm_check_size demo_os S pos = Inr (S', 0)"
proof -
  obtain S :: "unit sys" and ret P E X where d: "sys_inv S P no_runs no_free E X" "P True = []" "(ret, 8192) \<in> medium_blocks (set (P False)) E"
    "all_blocks (sy_mem S) P no_free E = {(ret, 8192)}" using demo_pages by blast
  have a: "(ret, 8192) \<in> all_blocks (sy_mem S) P no_free E" using d(4) by simp
  have "(ret, 8192) \<in> blocks (sy_mem S) P no_free E" using d(3) by (simp add: blocks_def)
  then have "(ret, 8192) \<notin> larges (sy_mem S)" "(ret, 8192) \<notin> small_blocks (sy_mem S) (set (P True)) no_free"
    using blocks_larges(2) [OF d(1)] kinds_disjoint [OF sys_invD(1) [OF d(1)]] d(3) by blast+
  then show ?thesis using shm_check_size_value [OF d(1) a, where os = demo_os] d(3) by auto
qed

theorem shm_realloc_stays_witness:
  "\<exists>(S :: unit sys) pos S' P E. (pos, 8192) \<in> medium_blocks (set (P False)) E
    \<and> shm_realloc demo_os S pos 1000000 = Inr (S', pos) \<and> sy_mem S' = sy_mem S"
proof -
  obtain S :: "unit sys" and ret P E X where d: "sys_inv S P no_runs no_free E X" "P True = []" "(ret, 8192) \<in> medium_blocks (set (P False)) E"
    "all_blocks (sy_mem S) P no_free E = {(ret, 8192)}" using demo_pages by blast
  have a: "(ret, 8192) \<in> all_blocks (sy_mem S) P no_free E" using d(4) by simp
  have "(ret, 8192) \<in> blocks (sy_mem S) P no_free E" using d(3) by (simp add: blocks_def)
  then have "(ret, 8192) \<notin> larges (sy_mem S)" using blocks_larges(2) [OF d(1)] by blast
  then show ?thesis using shm_realloc_stays [OF d(1) a, where sz = 1000000 and os = demo_os] d(3) by blast
qed

text \<open>A block of a run with another free block.\<close>

lemma demo_small:
  "\<exists>(S :: unit sys) P R F p. sys_inv S P R F no_extents no_nodes
    \<and> (p, 1920) \<in> small_blocks (sy_mem S) (set (P True)) F \<and> relinkable (sy_mem S) p"
proof -
  have e: "elemsize_of 14 = 1920" by (simp add: elemsize_of_def run_config_list_def)
  have rc: "run_count 14 = 2" by (simp add: run_count_def e)
  have c14: "1 \<le> unat (14 :: u32)" "unat (14 :: u32) \<le> 14" "unat (14 :: u32) = 14" by simp_all
  have u2: "[0..<2 :: nat] = [0, 1]" by (simp add: upt_rec)
  have k14: "1 \<le> (14 :: nat)" "(14 :: nat) \<le> 14" by simp_all
  have no: "\<not> (\<exists>w. get_or_new_chunk demo_os demo_sys CHUNK_TYPE_SMALL 1 = Inr (demo_sys\<lparr>sy_world := w\<rparr>, None)
      \<and> no_room demo_os demo_sys)" using demo_inv(3) by blast
  obtain S1 :: "unit sys" and c xs where s1: "sys_inv S1 (no_pools(True := xs)) no_runs no_free no_extents no_nodes"
    "c \<in> set ((no_pools(True := xs)) True)" "sd_used (ch_small (chunks (sy_mem S1) c)) \<noteq> 256"
    using small_chunk [OF demo_inv(1), where os = demo_os and sz = 1] no by auto
  obtain S2 :: "unit sys" and x ys where s2: "sys_inv S2 (no_pools(True := ys)) (no_runs(14 := insert x {}))
      (no_free(x := [0, 1])) no_extents no_nodes"
    using new_run_step [OF s1 c14(1,2), unfolded c14(3) rc u2 fun_upd_upd] by blast
  define P where "P = no_pools(True := ys)"
  define R where "R = no_runs(14 := {x})"
  have r2: "R 14 \<noteq> {}" "x = Min (R 14)" by (simp_all add: R_def)
  obtain s3 p i "is" where t3: "(no_free(x := [0, 1])) x = i # is"
    "sys_inv (S2\<lparr>sy_mem := s3\<rparr>) P (R(14 := if is = [] then R 14 - {x} else R 14)) (no_free(x := is)) no_extents no_nodes"
    "blocks s3 P (no_free(x := is)) no_extents = insert (p, 1920) (blocks (sy_mem S2) P (no_free(x := [0, 1])) no_extents)"
    "run_of p = x"
    using take_block [OF s2 [folded P_def R_def] k14 r2, unfolded e fun_upd_upd] by blast
  have ne: "is \<noteq> []" using t3(1) by auto
  define S3 where "S3 = S2\<lparr>sy_mem := s3\<rparr>"
  have m3: "sy_mem S3 = s3" by (simp add: S3_def)
  have s3: "sys_inv S3 P R (no_free(x := is)) no_extents no_nodes" using t3(2) ne by (simp add: S3_def)
  have "x \<in> run_pages (sy_mem S3) (set (P True))" using run_class_set(2) [OF s3 k14] by (auto simp: R_def)
  from run_okD(6) [OF small_invD(5) [OF sys_invD(4) [OF s3] this]] have "\<not> run_full (runs (sy_mem S3) x)"
    using ne by (simp add: run_full_rep)
  then have "relinkable (sy_mem S3) p" by (simp add: relinkable_def t3(4))
  moreover have "(p, 1920) \<in> small_blocks (sy_mem S3) (set (P True)) (no_free(x := is))"
    using t3(3) by (auto simp: blocks_def m3 medium_blocks_def)
  ultimately show ?thesis using s3 by blast
qed

theorem shm_realloc_moves_witness:
  "\<exists>(S :: unit sys) pos. larges (sy_mem S) = {(pos, 1048576)}
    \<and> (\<exists>S' ret. shm_realloc demo_os S pos 2097152 = Inr (S', ret) \<and> ret \<noteq> 0
          \<and> all_blocks (sy_mem S') no_pools no_free no_extents = {(ret, 2097152)})"
proof -
  let ?a = "fresh_arena ARENA_TYPE_LARGE 7 1 1048576"
  define S where "S = with_arena demo_sys 1 ?a 8192 ()"
  have i: "1 \<le> (1 :: nat)" "(1 :: nat) < 128" by simp_all
  have ty: "ar_type (sc_arenas (sy_mem demo_sys) ! 1) = 0"
    by (simp add: demo_sys_def started_def shared_arenas zero_arena_def)
  have inv: "sys_inv S no_pools no_runs no_free no_extents no_nodes"
    unfolding S_def by (rule with_arena_inv [OF demo_inv(1) i ty]) simp_all
  have l0: "larges (sy_mem demo_sys) = {}" "length (sc_arenas (sy_mem demo_sys)) = 128"
    using demo_inv(2) arena_invD(1) sys_invD(2) [OF demo_inv(1)] by (auto simp: all_blocks_def)
  have l: "larges (sy_mem S) = {(chunk_slot 1 0, 1048576)}"
    using larges_new(1) [OF _ l0(2) i(2), of "sy_mem S" ?a] ty l0(1) by (simp add: S_def fresh_arena_def)
  have b: "all_blocks (sy_mem S) no_pools no_free no_extents = {(chunk_slot 1 0, 1048576)}"
    by (simp add: all_blocks_def l blocks_def small_blocks_def small_live_def run_pages_def medium_blocks_def)
  have m: "(chunk_slot 1 0, 1048576) \<in> larges (sy_mem S)" using l by simp
  have al: "unat (align_size (2097152 :: u64) 1048576) = 2097152" by (simp add: align_size_def)
  have n: "(1048576 :: nat) \<noteq> 0" "1048576 < unat (2097152 :: u64)" "CHUNK_MEDIUM_LIMIT < (2097152 :: u64)" by simp_all
  have "2 \<in> empty_arenas (sy_mem S)"
    by (simp add: S_def demo_sys_def started_def shared_arenas zero_arena_def with_arena_def)
  then have "\<not> no_arena demo_os (lock_context demo_os S) (align_size 2097152 1048576)"
    unfolding demo_arena lock_inv by blast
  moreover have "\<not> 2 ^ 64 < unat (2097152 :: u64) + 1048576" by simp
  ultimately show ?thesis
    using shm_realloc_moves [OF inv m n, where os = demo_os, unfolded al b Diff_cancel] l by blast
qed

end
