(* ===== verification/Join.thy ===== *)
theory Join
  imports Shm_Api
begin

text \<open>
  A process joins a context that others use: \<open>shm_init\<close> of \<open>src/shm_malloc.c\<close> finds the
  context set up, counts the process and maps every arena the context has.
\<close>

section \<open>Mapping the arenas of a context\<close>

lemma mmap_arena_ok:
  assumes "i < 128" "ar_type (sc_arenas (sy_mem S) ! i) \<noteq> 0" "ar_type (sc_arenas (sy_mem S) ! i) \<noteq> 1"
  shows "\<exists>w a. mmap_arena os S (word_of_nat i) = Inr (S\<lparr>sy_world := w\<rparr>, a)
    \<and> (attachable os (ar_shmid (sc_arenas (sy_mem S) ! i)) \<longrightarrow> a \<noteq> 0)"
proof -
  let ?a = "sc_arenas (sy_mem S) ! i"
  obtain a d e w where m: "shm_mmap os (sy_world S) 0 (ar_size ?a) False (ar_shmid ?a) = ((a, d, e), w)" by (metis prod.exhaust)
  have "mmap_arena os S (word_of_nat i) = Inr (S\<lparr>sy_world := w\<rparr>, a)" using assms m by (simp add: mmap_arena_def Let_def)
  moreover have "a \<noteq> 0" if "attachable os (ar_shmid ?a)" using attached [OF that m] .
  ultimately show ?thesis by blast
qed

text \<open>The entry of an arena in the table of addresses of a process.\<close>

abbreviation addr_entry :: "'w sys \<Rightarrow> nat \<Rightarrow> arena_addr" where
  "addr_entry S i \<equiv> sy_addrs S ! i"

definition mapped :: "'w os \<Rightarrow> 'w sys \<Rightarrow> nat \<Rightarrow> bool" where
  "mapped os S i \<longleftrightarrow> aa_shmid (addr_entry S i) = ar_shmid (sc_arenas (sy_mem S) ! i)
     \<and> (attachable os (ar_shmid (sc_arenas (sy_mem S) ! i)) \<longrightarrow> aa_addr (addr_entry S i) \<noteq> 0)"

lemma map_arenas_ok:
  assumes "set is \<subseteq> {..<128}" "distinct is" "length (sy_addrs S) = 128"
    and "\<And>i. i \<in> set is \<Longrightarrow> ar_type (sc_arenas (sy_mem S) ! i) \<noteq> 1"
  shows "\<exists>S'. map_arenas os S (map word_of_nat is) = Inr S' \<and> sy_mem S' = sy_mem S \<and> sy_shared S' = sy_shared S
    \<and> length (sy_addrs S') = 128 \<and> (\<forall>i < 128. i \<notin> set is \<longrightarrow> addr_entry S' i = addr_entry S i)
    \<and> (\<forall>i \<in> set is. ar_type (sc_arenas (sy_mem S) ! i) \<noteq> 0 \<longrightarrow> mapped os S' i)"
  using assms
proof (induction "is" arbitrary: S)
  case (Cons i "is")
  have i: "i < 128" "i \<notin> set is" using Cons.prems(1,2) by auto
  note ix = index_word [OF i(1)]
  have sub: "set is \<subseteq> {..<128}" "distinct is" using Cons.prems(1,2) by auto
  have no1: "\<And>k. k \<in> set is \<Longrightarrow> ar_type (sc_arenas (sy_mem S) ! k) \<noteq> 1" "ar_type (sc_arenas (sy_mem S) ! i) \<noteq> 1"
    using Cons.prems(4) by auto
  show ?case
  proof (cases "ar_type (sc_arenas (sy_mem S) ! i) = 0")
    case True
    then have "\<not> is_arena_valid S (word_of_nat i)" using i(1) by (simp add: is_arena_valid_def)
    then show ?thesis using Cons.IH [OF sub Cons.prems(3) no1(1)] True i(2) by auto
  next
    case False
    obtain w a where m: "mmap_arena os S (word_of_nat i) = Inr (S\<lparr>sy_world := w\<rparr>, a)"
      "attachable os (ar_shmid (sc_arenas (sy_mem S) ! i)) \<longrightarrow> a \<noteq> 0" using mmap_arena_ok [OF i(1) False no1(2)] by blast
    define S1 where "S1 = set_arena_addr (word_of_nat i) a (ar_shmid (sc_arenas (sy_mem S) ! i)) (S\<lparr>sy_world := w\<rparr>)"
    have s1: "sy_mem S1 = sy_mem S" "sy_shared S1 = sy_shared S" "length (sy_addrs S1) = 128"
      "\<forall>k. k \<noteq> i \<longrightarrow> addr_entry S1 k = addr_entry S k" "addr_entry S1 i = \<lparr>aa_addr = a, aa_shmid = ar_shmid (sc_arenas (sy_mem S) ! i)\<rparr>"
      using Cons.prems(3) i(1) by (simp_all add: S1_def set_arena_addr_def ix)
    have v: "is_arena_valid S (word_of_nat i)" using False i(1) ix by (simp add: is_arena_valid_def)
    obtain S' where S': "map_arenas os S1 (map word_of_nat is) = Inr S'" "sy_mem S' = sy_mem S" "sy_shared S' = sy_shared S"
      "length (sy_addrs S') = 128" "\<forall>k < 128. k \<notin> set is \<longrightarrow> addr_entry S' k = addr_entry S1 k"
      "\<forall>k \<in> set is. ar_type (sc_arenas (sy_mem S) ! k) \<noteq> 0 \<longrightarrow> mapped os S' k"
      using Cons.IH [OF sub s1(3), unfolded s1(1,2)] no1(1) by blast
    have "map_arenas os S (map word_of_nat (i # is)) = Inr S'"
      using S'(1) v m(1) i(1) by (simp add: S1_def)
    moreover have "mapped os S' i" using S'(2,5) s1(5) i m(2) by (simp add: mapped_def)
    ultimately show ?thesis using S'(2-6) s1(4) by auto
  qed
qed simp

section \<open>Joining a context\<close>

lemma init_shared_join:
  assumes "init_shared_context fuel os S path create = Inr (S', addr)" "addr \<noteq> 0" and "sc_init_flag (sy_mem S) = SHM_INIT_FLAG"
  shows "\<exists>w. S' = S\<lparr>sy_world := w, sy_mem := (sy_mem S)\<lparr>sc_count := sc_count (sy_mem S) + 1\<rparr>\<rparr>"
proof -
  obtain err key w1 where g: "shm_get_key os (sy_world S) path 0 0 = ((err, key), w1)" by (metis prod.exhaust)
  obtain a shmid e w2 where m: "shm_mmap os w1 key SHM_ARENA_UNIT_SIZE create 0 = ((a, shmid, e), w2)" by (metis prod.exhaust)
  have ok: "err = 0" "a \<noteq> 0" using assms(1,2) by (auto simp: init_shared_context_def g m Let_def split: if_splits)
  show ?thesis
  proof (cases create)
    case False
    have "shm_mmap os w1 key SHM_ARENA_UNIT_SIZE False 0 = ((a, shmid, e), w2)" using m False by simp
    then show ?thesis using assms ok False
      by (auto simp: init_shared_context_def g Let_def assert_r_def split: if_splits)
  next
    case True
    have m': "shm_mmap os w1 key SHM_ARENA_UNIT_SIZE True 0 = ((a, shmid, e), w2)" using m True by simp
    obtain fd w3 where l: "shm_lock_file fuel os w2 path = Inr (fd, w3)" "0 \<le> fd"
      using assms(1,2) ok True
      by (cases "shm_lock_file fuel os w2 path") (auto simp: init_shared_context_def g m' Let_def not_less split: if_splits)
    then show ?thesis using assms ok True
      by (auto simp: init_shared_context_def g m' Let_def assert_r_def split: if_splits)
  qed
qed

lemma init_joins:
  assumes "shm_init fuel os S path create = Inr (S', 0)" and f: "sc_init_flag (sy_mem S) = SHM_INIT_FLAG"
    and h: "heap_inv (sy_mem S) P R F E X" and a: "arena_inv (sy_mem S) P"
    and id: "\<And>i. i < 128 \<Longrightarrow> ar_type (sc_arenas (sy_mem S) ! i) \<noteq> 0 \<Longrightarrow> attachable os (ar_shmid (sc_arenas (sy_mem S) ! i))"
  shows "sy_mem S' = (sy_mem S)\<lparr>sc_count := sc_count (sy_mem S) + 1\<rparr> \<and> sy_shared S' \<and> sys_inv S' P R F E X
    \<and> all_blocks (sy_mem S') P F E = all_blocks (sy_mem S) P F E"
proof -
  from assms(1) obtain S2 S3 addr where i: "sy_mem S2 = sy_mem S"
    "sy_addrs S2 = replicate SHM_ARENA_MAX \<lparr>aa_addr = 0, aa_shmid = 0\<rparr>" "addr \<noteq> 0"
    "init_shared_context fuel os S2 path create = Inr (S3, addr)"
    "bind_r (map_arenas os (set_arena_addr 0 addr (ar_shmid (arena_at S3 0)) (lock_context os (S3\<lparr>sy_shared := True\<rparr>)))
       (map word_of_nat [1..<SHM_ARENA_MAX])) (\<lambda>S. Inr (unlock_context os S, 0)) = Inr (S', 0 :: int)"
    by (rule init_success)
  let ?m = "(sy_mem S)\<lparr>sc_count := sc_count (sy_mem S) + 1\<rparr>"
  obtain w where w: "S3 = S2\<lparr>sy_world := w, sy_mem := ?m\<rparr>" using init_shared_join [OF i(4,3)] f i(1) by auto
  define S4 where "S4 = set_arena_addr 0 addr (ar_shmid (arena_at S3 0)) (lock_context os (S3\<lparr>sy_shared := True\<rparr>))"
  have s4: "sy_mem S4 = ?m" "sy_shared S4" "length (sy_addrs S4) = 128"
    "addr_entry S4 0 = \<lparr>aa_addr = addr, aa_shmid = ar_shmid (sc_arenas (sy_mem S) ! 0)\<rparr>"
    using i(2) by (simp_all add: S4_def w set_arena_addr_def lock_context_def arena_at_def del: replicate.simps)
  have rng: "set [1..<128 :: nat] \<subseteq> {..<128}" "distinct [1..<128 :: nat]" by (auto simp del: upt_rec_numeral)
  have ty: "ar_type (sc_arenas (sy_mem S4) ! k) \<noteq> 1" if "k \<in> set [1..<128]" for k
  proof -
    have "1 \<le> k" "k < 128" using that by (simp_all del: upt_rec_numeral)
    then show ?thesis using arena_okD(3) [OF arena_invD(2) [OF a, of k]] s4(1) by simp
  qed
  obtain S5 where S5: "map_arenas os S4 (map word_of_nat [1..<128]) = Inr S5" "sy_mem S5 = sy_mem S4" "sy_shared S5 = sy_shared S4"
    "length (sy_addrs S5) = 128" "\<forall>k < 128. k \<notin> set [1..<128] \<longrightarrow> addr_entry S5 k = addr_entry S4 k"
    "\<forall>k \<in> set [1..<128]. ar_type (sc_arenas (sy_mem S4) ! k) \<noteq> 0 \<longrightarrow> mapped os S5 k"
    using map_arenas_ok [OF rng s4(3) ty, of os] by blast
  have S': "S' = unlock_context os S5" using i(5) S5(1) unfolding S4_def [symmetric] by (simp del: upt_rec_numeral)
  have "maps_ok S5" unfolding maps_ok_def
  proof (intro conjI allI impI)
    fix k :: nat
    assume k: "k < 128" "ar_type (sc_arenas (sy_mem S5) ! k) \<noteq> 0"
    have arena: "sc_arenas (sy_mem S5) = sc_arenas (sy_mem S)" using S5(2) s4(1) by simp
    have at: "attachable os (ar_shmid (sc_arenas (sy_mem S5) ! k))" using id [OF k(1)] k(2) arena by simp
    have "aa_shmid (addr_entry S5 k) = ar_shmid (sc_arenas (sy_mem S5) ! k) \<and> aa_addr (addr_entry S5 k) \<noteq> 0"
    proof (cases "k = 0")
      case True
      then show ?thesis using S5(5) s4(4) i(3) arena by (simp del: upt_rec_numeral)
    next
      case False
      then have "k \<in> set [1..<128]" using k(1) by (simp del: upt_rec_numeral)
      then show ?thesis using S5(2,6) k(2) at unfolding mapped_def by metis
    qed
    then show "aa_shmid (addr_entry S5 k) = ar_shmid (sc_arenas (sy_mem S5) ! k)" "aa_addr (addr_entry S5 k) \<noteq> 0" by blast+
  qed (rule S5(4))
  then have "sys_inv S5 P R F E X" using h a S5(2) s4(1) by (simp add: sys_inv_def count_inv)
  then show ?thesis using S5(2,3) s4(1,2) by (simp add: S' count_inv) (simp add: unlock_context_def)
qed

end
