(* ===== verification/Client.thy ===== *)
theory Client
  imports Shm_Demo Join
begin

text \<open>
  Processes that use the interface of \<open>src/shm_malloc.c\<close>: one makes the context, others join it,
  and they take, release and grow blocks, ask for their sizes and addresses and write into them. The
  theorems state what they may rely on in every state they can reach.
\<close>

section \<open>Writing into a block\<close>

text \<open>
  The process writes the bytes \<open>g\<close> into its block of \<open>m\<close> bytes. The free list of a run is
  stored in the free blocks, so in the model the first word of a small block changes to some
  \<open>v\<close> as well.
\<close>

definition write_block :: "u64 \<Rightarrow> u64 \<Rightarrow> (u64 \<Rightarrow> u8) \<Rightarrow> u32 \<Rightarrow> shm_state \<Rightarrow> shm_state" where
  "write_block pos m g v s =
     (let x = run_of pos; r = runs s x
      in s\<lparr>runs := (runs s)(x := r\<lparr>rn_words := (rn_words r)(ucast (pos - x) := v)\<rparr>),
           user_bytes := (\<lambda>p. if pos2index p = pos2index pos \<and> p - pos < m then g p else user_bytes s p)\<rparr>)"

lemma write_block_sel [simp]:
  "sc_arenas (write_block pos m g v s) = sc_arenas s" "chunks (write_block pos m g v s) = chunks s"
  "chunk_nodes (write_block pos m g v s) = chunk_nodes s" "run_nodes (write_block pos m g v s) = run_nodes s"
  "sc_small_pool (write_block pos m g v s) = sc_small_pool s" "sc_medium_pool (write_block pos m g v s) = sc_medium_pool s"
  "sc_run_pool (write_block pos m g v s) = sc_run_pool s"
  "rn_conf_index (runs (write_block pos m g v s) x) = rn_conf_index (runs s x)"
  "x \<noteq> run_of pos \<Longrightarrow> runs (write_block pos m g v s) x = runs s x"
  by (simp_all add: write_block_def Let_def)





section \<open>The states the processes reach\<close>

text \<open>A small block can be released unless it is in a full run whose node has stale links; the
  size is the one it was taken for.\<close>

definition may_free :: "'w sys \<Rightarrow> u64 \<Rightarrow> u64 \<Rightarrow> bool" where
  "may_free S pos sz \<longleftrightarrow> (sz \<le> CHUNK_SMALL_LIMIT \<longrightarrow> relinkable (sy_mem S) pos)"


text \<open>
  The interface implements the contract of \<open>Block_Heap\<close>: a request fits if rounding it up does
  not wrap around, and a block can be released unless it is in a full run with stale links.
\<close>

definition sys_blocks :: "'w sys \<Rightarrow> (u64 \<times> nat) set \<Rightarrow> bool" where
  "sys_blocks S A \<longleftrightarrow> (\<exists>P R F E X. sys_inv S P R F E X \<and> all_blocks (sy_mem S) P F E = A)"

lemma sys_blocksI: "sys_inv S P R F E X \<Longrightarrow> sys_blocks S (all_blocks (sy_mem S) P F E)"
  unfolding sys_blocks_def by blast

lemma sys_blocksE:
  assumes "sys_blocks S A"
  obtains P R F E X where "sys_inv S P R F E X" "A = all_blocks (sy_mem S) P F E"
  using assms unfolding sys_blocks_def by blast

lemma sys_blocks_lock [simp]:
  "sys_blocks (lock_context os S) A = sys_blocks S A" "sys_blocks (unlock_context os S) A = sys_blocks S A"
  "sys_blocks (S\<lparr>sy_world := w\<rparr>) A = sys_blocks S A"
  unfolding sys_blocks_def by (simp_all add: sys_world)

lemma take_law:
  assumes "sys_blocks S A" and m: "shm_malloc os S sz = Inr (S', pos)"
  shows "if pos = 0 then sys_blocks S' A
    else 0 < unat sz \<and> (\<exists>n. (pos, n) \<notin> A \<and> sys_blocks S' (insert (pos, n) A)
      \<and> (unat sz + SHM_CHUNK_UNIT_SIZE \<le> 2 ^ 64 \<longrightarrow> unat sz \<le> n))"
proof (cases "sz = 0")
  case True
  then show ?thesis using assms by (simp add: shm_malloc_def)
next
  case False
  let ?L = "lock_context os S"
  from assms(1) obtain P R F E X where S: "sys_inv S P R F E X" "A = all_blocks (sy_mem S) P F E" by (rule sys_blocksE)
  have inv: "sys_inv ?L P R F E X" using S(1) by simp
  obtain S1 where S1: "malloc_arena os ?L sz = Inr (S1, pos)" "S' = unlock_context os S1"
    using m False by (auto simp: shm_malloc_def bind_r_eq_Inr)
  have pos: "0 < sz" using False by (simp add: word_gt_0)
  from malloc_arena_ok [OF inv pos, of os] consider w where "S1 = ?L\<lparr>sy_world := w\<rparr>" "pos = 0"
    | n P' R' F' E' X' where "sys_inv S1 P' R' F' E' X'" "pos \<noteq> 0"
      "all_blocks (sy_mem S1) P' F' E' = insert (pos, n) (all_blocks (sy_mem S) P F E)"
      "(pos, n) \<notin> all_blocks (sy_mem S) P F E" "unat sz + SHM_CHUNK_UNIT_SIZE \<le> 2 ^ 64 \<longrightarrow> unat sz \<le> n"
    unfolding S1(1) by auto
  then show ?thesis
  proof cases
    case 1
    then show ?thesis using assms(1) S1(2) by simp
  next
    case 2
    have "0 < unat sz" using False unat_gt_0 by blast
    then show ?thesis using 2(2,4,5) S1(2) S(2) sys_blocksI [OF 2(1)] unfolding 2(3) by auto
  qed
qed

lemma give_law:
  assumes "sys_blocks S A" and b: "(pos, n) \<in> A" "unat sz \<le> n" "may_free S pos sz"
  shows "\<exists>S'. shm_free os S pos = Inr S' \<and> sys_blocks S' (A - {(pos, n)})"
proof -
  let ?L = "lock_context os S"
  from assms(1) obtain P R F E X where S: "sys_inv S P R F E X" "A = all_blocks (sy_mem S) P F E" by (rule sys_blocksE)
  have inv: "sys_inv ?L P R F E X" "(pos, n) \<in> all_blocks (sy_mem ?L) P F E" using S b(1) by simp_all
  have r: "relinkable (sy_mem ?L) pos" if "(pos, n) \<in> small_blocks (sy_mem ?L) (set (P True)) F"
  proof -
    have "n \<le> CHUNK_SMALL_LIMIT" using small_size [OF sys_invD(4) [OF inv(1)] that] .
    then show ?thesis using b(2,3) by (simp add: may_free_def word_le_nat_alt)
  qed
  obtain S1 P' R' F' E' X' where f: "free_arena os ?L (pos2index pos) (pos2offset pos) = Inr S1" "sys_inv S1 P' R' F' E' X'"
    "all_blocks (sy_mem S1) P' F' E' = A - {(pos, n)}"
    using free_arena_ok [OF inv r, of os] S(2) by auto
  have "shm_free os S pos = Inr (unlock_context os S1)"
    using f(1) all_blocks_nonzero [OF S(1)] b(1) S(2) by (auto simp: shm_free_def)
  moreover have "sys_blocks (unlock_context os S1) (A - {(pos, n)})" using sys_blocksI [OF f(2)] f(3) by simp
  ultimately show ?thesis by blast
qed

interpretation api: block_heap sys_blocks "shm_malloc os" "shm_free os" "\<lambda>pos. pos = 0" unat
  "\<lambda>S sz. unat sz + SHM_CHUNK_UNIT_SIZE \<le> 2 ^ 64" may_free separate for os
proof
  fix S :: "'a sys" and A sz S' pos
  assume a: "sys_blocks S A" "unat sz + SHM_CHUNK_UNIT_SIZE \<le> 2 ^ 64" "shm_malloc os S sz = Inr (S', pos)"
  note t = take_law [OF a(1,3)]
  show "sys_blocks S' A" if "pos = 0" using t that by simp
  show "0 < unat sz \<and> (\<exists>m\<ge>unat sz. (pos, m) \<notin> A \<and> sys_blocks S' (insert (pos, m) A))" if "pos \<noteq> 0"
    using t that a(2) by auto
next
  fix S :: "'a sys" and A pos m sz assume "sys_blocks S A" "(pos, m) \<in> A" "unat sz \<le> m" "may_free S pos sz"
  then show "\<exists>S'. shm_free os S pos = Inr S' \<and> sys_blocks S' (A - {(pos, m)})" by (rule give_law)
next
  fix S :: "'a sys" and A pos m assume "sys_blocks S A" "(pos, m) \<in> A"
  then show "pos \<noteq> 0" using all_blocks_nonzero by (metis sys_blocksE)
next
  fix S :: "'a sys" and A a b assume "sys_blocks S A" "a \<in> A" "b \<in> A" "a \<noteq> b"
  then show "separate a b" using blocks_separate by (metis sys_blocksE)
qed (auto simp: separate_def apart_def)

abbreviation client_inv :: "'w sys \<Rightarrow> (u64 \<times> u64) set \<Rightarrow> bool" where
  "client_inv \<equiv> api.held"


lemma client_inv_lock [simp]:
  "client_inv (lock_context os S) B = client_inv S B" "client_inv (unlock_context os S) B = client_inv S B"
  by (simp_all add: api.held_def)











section \<open>What the process may rely on\<close>



section \<open>A concrete run\<close>





end
