(* ===== verification/Process.thy ===== *)
theory Process
  imports Client
begin

text \<open>
  More than one process: a process joins a context that others use (\<open>shm_init\<close> of
  \<open>src/shm_malloc.c\<close>), leaves it (\<open>shm_exit\<close>), and finds segments that others have made or
  deleted in the meantime (\<open>get_or_update_arena_addr\<close> of \<open>src/shm_malloc_inc.h\<close>).
\<close>

section \<open>Joining a context\<close>

text \<open>C6: when \<open>shm_init\<close> reports success to a process that joins a context which others use, and
  the system attaches the segments that the table of arenas names, the process counts, the blocks in
  use are the same, and everything the invariant asks of its own table of addresses holds.\<close>

theorem shm_init_joins:
  assumes "shm_init fuel os S path create = Inr (S', 0)" and f: "sc_init_flag (sy_mem S) = SHM_INIT_FLAG"
    and h: "heap_inv (sy_mem S) P R F E X" and a: "arena_inv (sy_mem S) P"
    and id: "\<And>i. i < 128 \<Longrightarrow> ar_type (sc_arenas (sy_mem S) ! i) \<noteq> 0 \<Longrightarrow> attachable os (ar_shmid (sc_arenas (sy_mem S) ! i))"
  shows "sy_mem S' = (sy_mem S)\<lparr>sc_count := sc_count (sy_mem S) + 1\<rparr> \<and> sy_shared S' \<and> sys_inv S' P R F E X
    \<and> all_blocks (sy_mem S') P F E = all_blocks (sy_mem S) P F E"
  using assms by (rule init_joins)

text \<open>C14: a process that joins and leaves, on a system that attaches the segments the table of arenas
  names, gives the shared memory back as it was, and asks the system to remove the first segment only
  if no process was counted before.\<close>

theorem join_exit_roundtrip:
  assumes "shm_init fuel os S path create = Inr (S', 0)" and "sc_init_flag (sy_mem S) = SHM_INIT_FLAG"
    and "heap_inv (sy_mem S) P R F E X" "arena_inv (sy_mem S) P"
    and "\<And>i. i < 128 \<Longrightarrow> ar_type (sc_arenas (sy_mem S) ! i) \<noteq> 0 \<Longrightarrow> attachable os (ar_shmid (sc_arenas (sy_mem S) ! i))"
  shows "sy_mem (shm_exit os S') = sy_mem S
    \<and> sy_world (shm_exit os S') = (if sc_count (sy_mem S) = 0
        then snd (shm_remove os (sy_world S') (ar_shmid (sc_arenas (sy_mem S) ! 0))) else sy_world S')"
proof -
  have "sy_mem S' = (sy_mem S)\<lparr>sc_count := sc_count (sy_mem S) + 1\<rparr>" "sy_shared S'"
    using init_joins [OF assms] by blast+
  then show ?thesis by (simp add: shm_exit_def exit_shared_context_def Let_def arena_at_def)
qed

text \<open>C35: a process that finds the segment of a context which another one has made but not set up
  yet does not wait for it: \<open>shm_init\<close> without \<open>create\<close> stops at its assertion.\<close>

theorem shm_init_too_early:
  assumes "\<And>w. finds os w path SHM_ARENA_UNIT_SIZE" and "\<And>w n. fst (os_malloc os w n)" "\<And>w. fst (os_atexit os w) = 0"
    and "sc_init_flag (sy_mem S) \<noteq> SHM_INIT_FLAG"
  shows "shm_init fuel os S path False = Inl AssertFail"
proof -
  obtain w1 where "os_malloc os (sy_world S) (length path + 1) = (True, w1)"
    using assms(2) [of "sy_world S" "length path + 1"] by (metis prod.collapse)
  then have c: "copystr os (sy_world S) path = (Some path, w1)" by (simp add: copystr_def)
  obtain w2 where x: "os_atexit os w1 = (0, w2)" using assms(3) by (metis prod.collapse)
  define S2 where "S2 = S\<lparr>sy_shared := False,
    sy_addrs := replicate SHM_ARENA_MAX \<lparr>aa_addr = 0, aa_shmid = 0\<rparr>, sy_path := path, sy_world := w2\<rparr>"
  have f: "sc_init_flag (sy_mem S2) \<noteq> SHM_INIT_FLAG" using assms(4) by (simp add: S2_def)
  obtain err key w3 where g: "shm_get_key os (sy_world S2) path 0 0 = ((err, key), w3)" by (metis prod.exhaust)
  obtain a shmid e w4 where m: "shm_mmap os w3 key SHM_ARENA_UNIT_SIZE False 0 = ((a, shmid, e), w4)" by (metis prod.exhaust)
  have "err = 0" "a \<noteq> 0"
    using assms(1) [of "sy_world S2"] g m by (simp_all add: finds_def S2_def)
  then have "init_shared_context fuel os S2 path False = Inl AssertFail"
    using f by (simp add: init_shared_context_def g m Let_def assert_r_def)
  then show ?thesis by (simp add: shm_init_def c x Let_def S2_def del: replicate.simps)
qed

section \<open>Segments that others have made or deleted\<close>






text \<open>C36: when the system refuses to attach a segment, the entry keeps the segment's id with the
  address \<open>NULL\<close>: the process never tries again, and after the arena has been given another
  segment it aborts.\<close>

theorem failed_attach_traps:
  assumes i: "i < 128" and l: "length (sy_addrs S) = 128"
    and e: "addr_entry S i = \<lparr>aa_addr = 0, aa_shmid = 0\<rparr>" "ar_shmid (sc_arenas (sy_mem S) ! i) \<noteq> 0"
    and ty: "ar_type (sc_arenas (sy_mem S) ! i) = ARENA_TYPE_CHUNK \<or> ar_type (sc_arenas (sy_mem S) ! i) = ARENA_TYPE_LARGE"
    and no: "\<And>w d. fst (os_shmat os w d) = - 1"
  shows "\<exists>S'. get_or_update_arena_addr os S (word_of_nat i) = Inr (S', 0) \<and> sy_mem S' = sy_mem S
    \<and> (\<forall>os'. get_or_update_arena_addr os' S' (word_of_nat i) = Inr (S', 0))
    \<and> (\<forall>os' s. ar_shmid (sc_arenas s ! i) \<noteq> ar_shmid (sc_arenas (sy_mem S) ! i)
         \<longrightarrow> get_or_update_arena_addr os' (S'\<lparr>sy_mem := s\<rparr>) (word_of_nat i) = Inl AssertFail)"
proof -
  note ix = index_word [OF i]
  let ?a = "sc_arenas (sy_mem S) ! i"
  obtain w b where sm: "os_shmat os (sy_world S) (ar_shmid ?a) = (b, w)" by (metis prod.exhaust)
  then have "b = - 1" using no by (metis fst_conv)
  then obtain d n v where "shm_mmap os (sy_world S) 0 (ar_size ?a) False (ar_shmid ?a) = ((0, d, n), v)"
    using sm by (cases "ar_shmid ?a \<le> 0") (simp_all add: shm_mmap_def)
  moreover have "ar_type ?a \<noteq> 0" "ar_type ?a \<noteq> 1" using ty by auto
  ultimately have m: "mmap_arena os S (word_of_nat i) = Inr (S\<lparr>sy_world := v\<rparr>, 0)" using i by (simp add: mmap_arena_def)
  define S' where "S' = set_arena_addr (word_of_nat i) 0 (ar_shmid ?a) (S\<lparr>sy_world := v\<rparr>)"
  have s': "sy_mem S' = sy_mem S" "length (sy_addrs S') = 128" "addr_entry S' i = \<lparr>aa_addr = 0, aa_shmid = ar_shmid ?a\<rparr>"
    using i l by (simp_all add: S'_def set_arena_addr_def ix)
  have v: "is_arena_valid S (word_of_nat i)" using ty i ix by (auto simp: is_arena_valid_def)
  have "get_or_update_arena_addr os S (word_of_nat i) = Inr (S', 0)"
    using e l i v m by (simp add: get_or_update_arena_addr_def ix S'_def [symmetric]) (simp add: get_arena_addr_def ix s'(3))
  moreover have "get_or_update_arena_addr os' S' (word_of_nat i) = Inr (S', 0)" for os'
    using s' i by (simp add: get_or_update_arena_addr_def get_arena_addr_def ix)
  moreover have "get_or_update_arena_addr os' (S'\<lparr>sy_mem := s\<rparr>) (word_of_nat i) = Inl AssertFail"
    if "ar_shmid (sc_arenas s ! i) \<noteq> ar_shmid ?a" for os' s
    using s' i that e(2) by (simp add: get_or_update_arena_addr_def get_arena_addr_def ix assert_r_def)
  ultimately show ?thesis using s'(1) by blast
qed

section \<open>A concrete run\<close>

text \<open>A second process of the system of \<open>Shm_Demo\<close>, and the shared memory that the first process
  has set up.\<close>

definition demo_second :: "unit sys" where
  "demo_second = demo_process\<lparr>sy_mem := sy_mem demo_sys\<rparr>"

lemma demo_second_shared:
  "sc_init_flag (sy_mem demo_second) = SHM_INIT_FLAG" "sc_count (sy_mem demo_second) = 1"
  "heap_inv (sy_mem demo_second) no_pools no_runs no_free no_extents no_nodes" "arena_inv (sy_mem demo_second) no_pools"
  "i < 128 \<Longrightarrow> ar_type (sc_arenas (sy_mem demo_second) ! i) \<noteq> 0 \<Longrightarrow> attachable demo_os (ar_shmid (sc_arenas (sy_mem demo_second) ! i))"
proof -
  have m: "sy_mem demo_second = sy_mem demo_sys" by (simp add: demo_second_def)
  show "heap_inv (sy_mem demo_second) no_pools no_runs no_free no_extents no_nodes" "arena_inv (sy_mem demo_second) no_pools"
    using sys_invD(1,2) [OF demo_inv(1)] m by simp_all
  show "sc_init_flag (sy_mem demo_second) = SHM_INIT_FLAG" "sc_count (sy_mem demo_second) = 1"
    by (simp_all add: m demo_sys_def started_def)
  show "attachable demo_os (ar_shmid (sc_arenas (sy_mem demo_second) ! i))" if "i < 128" "ar_type (sc_arenas (sy_mem demo_second) ! i) \<noteq> 0"
    using that demo_serves(3) by (auto simp: m demo_sys_def started_def shared_arenas zero_arena_def split: if_splits)
qed

lemma demo_join: "\<exists>S'. shm_init 1 demo_os demo_second ''/tmp/s'' False = Inr (S', 0)"
proof -
  have "case shm_init 1 demo_os demo_second ''/tmp/s'' False of Inl e \<Rightarrow> False | Inr (S', r) \<Rightarrow> r = 0" by code_simp
  then show ?thesis by (auto split: sum.splits)
qed

theorem shm_init_joins_witness:
  "\<exists>S'. shm_init 1 demo_os demo_second ''/tmp/s'' False = Inr (S', 0) \<and> sc_count (sy_mem S') = 2
    \<and> sys_inv S' no_pools no_runs no_free no_extents no_nodes"
proof -
  obtain S' where s: "shm_init 1 demo_os demo_second ''/tmp/s'' False = Inr (S', 0)" using demo_join by blast
  from shm_init_joins [OF s demo_second_shared(1,3,4,5)] s demo_second_shared(2)
  show ?thesis by (intro exI [of _ S']) simp
qed

theorem join_exit_roundtrip_witness:
  "\<exists>S'. shm_init 1 demo_os demo_second ''/tmp/s'' False = Inr (S', 0) \<and> sy_mem (shm_exit demo_os S') = sy_mem demo_sys"
proof -
  obtain S' where s: "shm_init 1 demo_os demo_second ''/tmp/s'' False = Inr (S', 0)" using demo_join by blast
  from join_exit_roundtrip [OF s demo_second_shared(1,3,4,5)] s
  show ?thesis by (simp add: demo_second_def)
qed

theorem shm_init_too_early_witness: "shm_init 1 demo_os demo_process ''/tmp/s'' False = Inl AssertFail"
  by (rule shm_init_too_early [OF demo_serves(2)]) (simp_all add: demo_os_def demo_process_def demo_mem_def)

text \<open>The second process before it has mapped an arena that the first one has made.\<close>

definition demo_stale :: "unit sys" where
  "demo_stale = demo_sys\<lparr>sy_mem := (sy_mem demo_sys)\<lparr>sc_arenas := (sc_arenas (sy_mem demo_sys))
     [1 := fresh_arena ARENA_TYPE_CHUNK 7 1 SHM_ARENA_UNIT_SIZE]\<rparr>\<rparr>"

lemma demo_stale_entry:
  "addr_entry demo_stale 1 = \<lparr>aa_addr = 0, aa_shmid = 0\<rparr>" "length (sy_addrs demo_stale) = 128"
  "ar_shmid (sc_arenas (sy_mem demo_stale) ! 1) = 7" "ar_type (sc_arenas (sy_mem demo_stale) ! 1) = ARENA_TYPE_CHUNK"
proof -
  have z: "replicate 128 \<lparr>aa_addr = 0, aa_shmid = 0\<rparr> ! 1 = \<lparr>aa_addr = 0, aa_shmid = 0\<rparr>" by (rule nth_replicate) simp
  then show "addr_entry demo_stale 1 = \<lparr>aa_addr = 0, aa_shmid = 0\<rparr>"
    by (simp add: demo_stale_def demo_sys_def started_def del: replicate.simps)
  show "length (sy_addrs demo_stale) = 128" "ar_shmid (sc_arenas (sy_mem demo_stale) ! 1) = 7"
    "ar_type (sc_arenas (sy_mem demo_stale) ! 1) = ARENA_TYPE_CHUNK"
    by (simp_all add: demo_stale_def demo_sys_def started_def shared_arenas fresh_arena_def)
qed


theorem failed_attach_traps_witness:
  "\<exists>S'. get_or_update_arena_addr (demo_os\<lparr>os_shmat := \<lambda>w d. (- 1, w)\<rparr>) demo_stale (word_of_nat 1) = Inr (S', 0)
    \<and> get_or_update_arena_addr demo_os S' (word_of_nat 1) = Inr (S', 0)"
proof -
  note d = demo_stale_entry
  have i: "(1 :: nat) < 128" by simp
  have n: "ar_shmid (sc_arenas (sy_mem demo_stale) ! 1) \<noteq> 0" using d(3) by simp
  have t: "ar_type (sc_arenas (sy_mem demo_stale) ! 1) = ARENA_TYPE_CHUNK \<or> ar_type (sc_arenas (sy_mem demo_stale) ! 1) = ARENA_TYPE_LARGE"
    using d(4) by simp
  have no: "fst (os_shmat (demo_os\<lparr>os_shmat := \<lambda>w d. (- 1, w)\<rparr>) w x) = - 1" for w x by simp
  show ?thesis using failed_attach_traps [OF i d(2,1) n t no] by blast
qed

section \<open>The lock on the file\<close>

text \<open>C37: the result of \<open>shm_lock_file\<close> when the first \<open>n\<close> attempts to take the lock are interrupted
  by a signal and the next one is not: \<open>-1\<close> if the file cannot be opened; the descriptor if that
  attempt takes the lock; otherwise \<open>-1\<close>, with the file closed. Any bound above \<open>n\<close> is enough.\<close>

theorem shm_lock_file_ends:
  assumes "os_umask os w 0 = (old, w1)" "os_open os w1 filename O_WRONLY MODE_0666 = (fd, w2)"
    and "os_umask os w2 old = (u, w3)"
    and "\<forall>k < n. interrupted os (lock_attempts k os w3 fd) fd"
    and "os_fcntl_lock os (lock_attempts n os w3 fd) fd = (r, w4)" and "r = 0 \<or> os_errno os w4 \<noteq> EINTR" and "n < fuel"
  shows "shm_lock_file fuel os w filename
    = Inr (if fd < 0 then (- 1, w3) else if r = 0 then (fd, w4) else (- 1, os_close os w4 fd))"
  using do_lock_file_ends [OF assms(4-7)] errno_or_nonzero [of ENOMEM os w4]
  by (simp add: shm_lock_file_def assms(1-3))

text \<open>A system whose first two attempts to take a lock are interrupted; it counts them.\<close>

definition interrupting_os :: "nat os" where
  "interrupting_os = \<lparr>os_errno = \<lambda>w. if w = 1 \<or> w = 2 then EINTR else 0, os_shmget = \<lambda>w key sz flags. (7, w),
     os_shmat = \<lambda>w id. (4096, w), os_shmdt = \<lambda>w addr. (0, w), os_shmctl_rmid = \<lambda>w id. (0, w),
     os_access = \<lambda>w path. (0, w), os_open = \<lambda>w path flags mode. (3, w), os_write = \<lambda>w fd buf n. (n, w),
     os_fsync = \<lambda>w fd. (0, w), os_close = \<lambda>w fd. w, os_chmod = \<lambda>w path mode. (0, w),
     os_ftok = \<lambda>w path proj. (5, w), os_umask = \<lambda>w m. (0, w),
     os_fcntl_lock = \<lambda>w fd. (if w < 2 then -1 else 0, Suc w), os_mutexattr_init = \<lambda>w. (0, w),
     os_mutexattr_setpshared = \<lambda>w. (0, w), os_mutexattr_settype = \<lambda>w. (0, w), os_mutex_init = \<lambda>w. (0, w),
     os_mutexattr_destroy = \<lambda>w. w, os_mutex_lock = \<lambda>w. (0, w), os_mutex_unlock = \<lambda>w. (0, w),
     os_malloc = \<lambda>w n. (True, w), os_atexit = \<lambda>w. (0, w)\<rparr>"

theorem shm_lock_file_ends_witness:
  "shm_lock_file 3 interrupting_os 0 ''/tmp/s'' = Inr (3, 3) \<and> shm_lock_file 1000 interrupting_os 0 ''/tmp/s'' = Inr (3, 3)"
proof -
  have e: "os_umask interrupting_os 0 0 = (0, 0)" "os_open interrupting_os 0 ''/tmp/s'' O_WRONLY MODE_0666 = (3, 0)"
    by (simp_all add: interrupting_os_def)
  have a: "\<forall>k < 2. interrupted interrupting_os (lock_attempts k interrupting_os 0 3) 3"
    by (auto simp: interrupting_os_def interrupted_def less_2_cases_iff)
  have b: "os_fcntl_lock interrupting_os (lock_attempts 2 interrupting_os 0 3) 3 = (0, 3)"
    by (simp add: interrupting_os_def eval_nat_numeral)
  have "shm_lock_file fuel interrupting_os 0 ''/tmp/s'' = Inr (3, 3)" if "2 < fuel" for fuel
    using shm_lock_file_ends [OF e(1,2,1) a b _ that] by simp
  then show ?thesis by simp
qed

end
