(* ===== verification/Stale_Links.thy ===== *)
theory Stale_Links
  imports Client
begin

text \<open>
  What the hypothesis \<open>relinkable\<close> of the other theorems leaves out: \<open>malloc_chunk_run\<close> of
  \<open>src/chunk_small.c\<close> takes a run that has become full out of its pool, and the links of its
  node stay; \<open>free_chunk_small\<close> pushes the run again with them. The theorem follows one block of
  a full run, with one other run of the class in the pool, through \<open>shm_free\<close> and
  \<open>shm_malloc\<close>.
\<close>

section \<open>Two nodes of a pool\<close>

text \<open>The child links of two nodes.\<close>

definition links :: "tree_heap \<Rightarrow> u64 \<Rightarrow> u64 \<Rightarrow> u64 \<times> u64 \<times> u64 \<times> u64 \<Rightarrow> bool" where
  "links h x y l \<longleftrightarrow> (tn_left (h x), tn_right (h x), tn_left (h y), tn_right (h y)) = l"

lemma attach_links:
  assumes "x \<noteq> 0" "r \<noteq> 0" and "tn_left (h x) = 0 \<or> tn_left (h x) = r"
  shows "\<exists>h'. merge_attach h (shm_tree_getaddr x) (shm_tree_getaddr r) = Inr (h', shm_tree_getaddr x)
    \<and> tn_left (h' x) = r \<and> tn_right (h' x) = (if tn_left (h x) = 0 then 0 else r)
    \<and> (\<forall>z. z \<noteq> x \<longrightarrow> tn_left (h' z) = tn_left (h z) \<and> tn_right (h' z) = tn_right (h z))"
proof (cases "tn_left (h x) = 0")
  case True
  then show ?thesis using assms(1,2) by (auto simp: merge_attach_def tn_put_def tn_get_def)
next
  case False
  then show ?thesis using assms by (auto simp: merge_attach_def tn_put_def tn_get_def)
qed

text \<open>Merging \<open>y\<close> with itself, which is what two stale links to it ask for.\<close>

lemma merge_twice:
  assumes "y \<noteq> 0" "tn_right (h y) = 0" and "tn_left (h y) = 0 \<or> tn_left (h y) = y"
  shows "\<exists>h'. shm_tree_merge (Suc (Suc n)) h (shm_tree_getaddr y) (shm_tree_getaddr y) = Inr (h', shm_tree_getaddr y)
    \<and> tn_left (h' y) = y \<and> tn_right (h' y) = (if tn_left (h y) = 0 then 0 else y)
    \<and> (\<forall>z. z \<noteq> y \<longrightarrow> tn_left (h' z) = tn_left (h z) \<and> tn_right (h' z) = tn_right (h z))"
  using attach_links [where h = h and x = y and r = y, OF assms(1,1,3)] assms(1,2) by (simp add: tn_get_def)

text \<open>The first push is of a node without links, every later one finds the links the node had.\<close>

lemma push_links:
  assumes nz: "x \<noteq> 0" "y \<noteq> 0" and lt: "x < y" and p: "pool_root p = y" "pool_size p = 1"
    and l: "links h x y l" "(l, l') \<in> {((0, 0, 0, 0), (y, 0, 0, 0)), ((y, 0, 0, 0), (y, y, 0, 0)), ((y, y, y, 0), (y, y, y, y))}"
  shows "\<exists>h'. shm_tree_push (Suc (Suc (Suc n))) p h x = Inr (\<lparr>pool_root = x, pool_size = 2\<rparr>, h') \<and> links h' x y l'"
proof -
  have xy: "x \<noteq> y" "\<not> y < x" using lt by auto
  have "tn_left (h x) = 0 \<or> tn_left (h x) = y" using l by (auto simp: links_def)
  moreover obtain h1 where h1: "shm_tree_merge (Suc (Suc n)) h (shm_tree_getaddr (tn_right (h x))) (shm_tree_getaddr y) = Inr (h1, shm_tree_getaddr y)"
    "tn_left (h1 x) = tn_left (h x)" "(tn_left (h1 y), tn_right (h1 y)) = (if tn_right (h x) = 0 then (0, 0) else (y, y))"
  proof (cases "tn_right (h x) = 0")
    case True
    then show ?thesis using that [of h] l by (auto simp: links_def)
  next
    case False
    then have "tn_right (h x) = y" "tn_left (h y) = y" "tn_right (h y) = 0" using l nz(2) by (auto simp: links_def)
    then show ?thesis using that merge_twice [of y h n] nz(2) xy(1) by auto
  qed
  ultimately obtain h2 where h2: "merge_attach h1 (shm_tree_getaddr x) (shm_tree_getaddr y) = Inr (h2, shm_tree_getaddr x)"
    "tn_left (h2 x) = y" "tn_right (h2 x) = (if tn_left (h x) = 0 then 0 else y)"
    "tn_left (h2 y) = tn_left (h1 y)" "tn_right (h2 y) = tn_right (h1 y)"
    using attach_links [OF nz, of h1] xy(1) by auto
  have "shm_tree_merge (Suc (Suc (Suc n))) h (shm_tree_getaddr y) (shm_tree_getaddr x) = Inr (h2, shm_tree_getaddr x)"
    unfolding shm_tree_merge.simps(2) [of "Suc (Suc n)"] using nz lt h1(1) h2(1) by (simp add: tn_get_def del: shm_tree_merge.simps)
  then have "shm_tree_push (Suc (Suc (Suc n))) p h x = Inr (\<lparr>pool_root = x, pool_size = 2\<rparr>, h2)"
    using p by (simp add: shm_tree_push_def del: shm_tree_merge.simps)
  moreover have "links h2 x y l'" using l h1(3) h2(2-5) by (auto simp: links_def)
  ultimately show ?thesis by blast
qed

lemma pop_links:
  assumes nz: "x \<noteq> 0" "y \<noteq> 0" and lt: "x < y" and p: "pool_root p = x" "pool_size p = 2"
    and l: "links h x y l" "(l, l') \<in> {((y, 0, 0, 0), (y, 0, 0, 0)), ((y, y, 0, 0), (y, y, y, 0))}"
  shows "\<exists>h'. shm_tree_pop (Suc (Suc (Suc n))) p h = Inr (\<lparr>pool_root = y, pool_size = 1\<rparr>, h') \<and> links h' x y l'"
proof -
  have xy: "x \<noteq> y" using lt by auto
  obtain h1 where h1: "shm_tree_merge (Suc (Suc (Suc n))) h (shm_tree_getaddr y) (shm_tree_getaddr (tn_right (h x))) = Inr (h1, shm_tree_getaddr y)"
    "links h1 x y l'"
  proof (cases "tn_right (h x) = 0")
    case True
    then show ?thesis using that [of h] l nz by (auto simp: links_def)
  next
    case False
    then have "tn_right (h x) = y" "tn_left (h x) = y" "tn_left (h y) = 0" "tn_right (h y) = 0" "l' = (y, y, y, 0)"
      using l nz(2) by (auto simp: links_def)
    then show ?thesis using that merge_twice [of y h "Suc n"] nz(2) xy by (auto simp: links_def simp del: shm_tree_merge.simps)
  qed
  have "tn_left (h x) = y" using l by (auto simp: links_def)
  then have "shm_tree_pop (Suc (Suc (Suc n))) p h = Inr (\<lparr>pool_root = y, pool_size = 1\<rparr>, h1(y := (h1 y)\<lparr>tn_root := 0\<rparr>))"
    using p nz h1(1) by (simp add: shm_tree_pop_def tn_get_def tn_reroot_def tn_put_def del: shm_tree_merge.simps)
  moreover have "links (h1(y := (h1 y)\<lparr>tn_root := 0\<rparr>)) x y l'" using h1(2) xy by (simp add: links_def)
  ultimately show ?thesis by blast
qed

lemma pop_hangs:
  assumes "x \<noteq> 0" "y \<noteq> 0" and p: "pool_root p = x" "pool_size p = 2" and l: "links h x y (y, y, y, y)"
  shows "shm_tree_pop n p h = Inl OutOfFuel"
  using assms merge_self [of y h n] by (simp add: shm_tree_pop_def links_def tn_get_def)

section \<open>One block of one run\<close>

text \<open>The state after the header of the run \<open>x\<close>, its pool and the nodes have changed.\<close>

definition moved :: "'w sys \<Rightarrow> u64 \<Rightarrow> nat \<Rightarrow> run_header \<Rightarrow> shm_pool \<Rightarrow> tree_heap \<Rightarrow> 'w \<Rightarrow> 'w sys" where
  "moved S x k r p h w = S\<lparr>sy_world := w, sy_mem := (sy_mem S)\<lparr>sc_run_pool := (sc_run_pool (sy_mem S))[k := p],
     run_nodes := h, runs := (runs (sy_mem S))(x := r)\<rparr>\<rparr>"

text \<open>What the two calls need of the rest of the state: \<open>pos\<close> is in the page of the run \<open>x\<close>,
  the page is marked in a chunk that the table of arenas has, and the arena is mapped.\<close>

definition site :: "'w sys \<Rightarrow> u64 \<Rightarrow> u64 \<Rightarrow> bool" where
  "site S pos x \<longleftrightarrow> x \<noteq> 0 \<and> pos \<noteq> 0 \<and> length (sc_run_pool (sy_mem S)) = 15 \<and> maps_ok S
     \<and> (\<exists>P i j m. arena_inv (sy_mem S) P \<and> has_chunk (sy_mem S) i j \<and> m < SHM_CHUNK_UNIT_SIZE
          \<and> unat pos = unat (chunk_slot i j) + m \<and> pos2index x = word_of_nat i \<and> x \<noteq> chunk_slot i j
          \<and> ch_type (chunks (sy_mem S) (chunk_slot i j)) = CHUNK_TYPE_SMALL
          \<and> ch_pos (chunks (sy_mem S) (chunk_slot i j)) = chunk_slot i j
          \<and> find_run (sy_mem S) (chunk_slot i j) (word_of_nat m) = Inr (Some x))"

lemma moved_sel [simp]:
  "sc_arenas (sy_mem (moved S x k r p h w)) = sc_arenas (sy_mem S)" "chunks (sy_mem (moved S x k r p h w)) = chunks (sy_mem S)"
  "sc_run_pool (sy_mem (moved S x k r p h w)) = (sc_run_pool (sy_mem S))[k := p]" "run_nodes (sy_mem (moved S x k r p h w)) = h"
  "runs (sy_mem (moved S x k r p h w)) x = r" "sy_addrs (moved S x k r p h w) = sy_addrs S"
  by (simp_all add: moved_def)

lemma moved_twice [simp]: "moved (moved S x k r p h w) x k r' p' h' w' = moved S x k r' p' h' w'"
  by (simp add: moved_def)

lemma site_moved:
  assumes "site S pos x"
  shows "site (moved S x k r p h w) pos x"
proof -
  let ?S = "moved S x k r p h w"
  have "find_run (sy_mem ?S) = find_run (sy_mem S)" unfolding fun_eq_iff find_run_def moved_sel by simp
  moreover have "maps_ok ?S = maps_ok S" by (simp add: maps_ok_def)
  moreover have "arena_inv (sy_mem ?S) P = arena_inv (sy_mem S) P" for P
    by (simp add: arena_inv_def chunk_set_def has_chunk_def)
  moreover have "has_chunk (sy_mem ?S) = has_chunk (sy_mem S)" by (simp add: fun_eq_iff has_chunk_def)
  ultimately show ?thesis using assms by (simp add: site_def)
qed

lemma free_moves:
  assumes site: "site S pos x" and r: "runs (sy_mem S) x = r" "rn_pos r = x" "unat (rn_conf_index r) = k" "k < 15" "run_full r"
    and f: "free_run r (ucast (pos - x)) = Inr r'" "rn_pos r' = x" "rn_conf_index r' = rn_conf_index r" "\<not> run_empty r'"
    and p: "shm_tree_push run_fuel (sc_run_pool (sy_mem S) ! k) (run_nodes (sy_mem S)) x = Inr (p', h')"
  shows "\<exists>w. shm_free os S pos = Inr (moved S x k r' p' h' w)"
proof -
  let ?L = "lock_context os S" and ?s = "sy_mem S"
  obtain P i j m where c: "arena_inv ?s P" "has_chunk ?s i j" "m < 1048576" "unat pos = unat (chunk_slot i j) + m"
    "x \<noteq> chunk_slot i j" "ch_type (chunks ?s (chunk_slot i j)) = 1" "ch_pos (chunks ?s (chunk_slot i j)) = chunk_slot i j"
    "find_run ?s (chunk_slot i j) (word_of_nat m) = Inr (Some x)" "pos \<noteq> 0" "maps_ok S" "length (sc_run_pool ?s) = 15"
    using site unfolding site_def by auto
  have L: "sy_mem ?L = ?s" "maps_ok ?L" using c(10) by (simp_all add: lock_context_def maps_ok_def)
  have "pos = chunk_slot i j + word_of_nat m"
    using c(3,4) unat_less_u64 [of pos] by (simp add: word_unat_eq_iff unat_word_ariths unat_of_nat_small)
  moreover have "(ucast (word_of_nat m :: u32) :: u64) = word_of_nat m"
    using c(3) by (simp add: word_unat_eq_iff unat_of_nat_small unsigned_ucast_eq take_bit_nat_eq_self)
  ultimately have o: "chunk_slot i j + ucast (word_of_nat m :: u32) - rn_pos r = pos - x" using r(2) by simp
  have "free_chunk run_fuel ?s (chunk_slot i j) (word_of_nat m)
      = Inr (?s\<lparr>sc_run_pool := (sc_run_pool ?s)[k := p'], run_nodes := h', runs := (runs ?s)(x := r')\<rparr>, False)"
    using c(5-8,11) r f p o
    by (simp add: free_chunk_def free_chunk_small_def Let_def run_pool_push_def run_pool_at_def set_run_pool_def put_run_def)
  then have "free_arena os ?L (pos2index pos) (pos2offset pos)
      = Inr (?L\<lparr>sy_mem := ?s\<lparr>sc_run_pool := (sc_run_pool ?s)[k := p'], run_nodes := h', runs := (runs ?s)(x := r')\<rparr>\<rparr>)"
    using free_arena_table [of ?L P i j pos m os] c(1-4) L by simp
  then show ?thesis using c(9)
    by (intro exI [of _ "snd (os_mutex_unlock os (snd (os_mutex_lock os (sy_world S))))"])
      (simp add: shm_free_def moved_def lock_context_def unlock_context_def)
qed

lemma malloc_moves:
  assumes site: "site S pos x" and r: "runs (sy_mem S) x = r" "unat idx = k" "k < 15" "find_run_config sz = Inr idx"
    and m: "malloc_run r = Inr (r', ucast (pos - x))" "rn_pos r' = x" "rn_conf_index r' = idx" "run_full r'"
    and p: "pool_root (sc_run_pool (sy_mem S) ! k) = x"
      "shm_tree_pop run_fuel (sc_run_pool (sy_mem S) ! k) (run_nodes (sy_mem S)) = res"
    and o: "(ucast (ucast (pos - x) :: u32) :: u64) = pos - x"
  shows "\<exists>w. shm_malloc os S sz = bind_r res (\<lambda>(p', h'). Inr (moved S x k r' p' h' w, pos))"
proof -
  let ?L = "lock_context os S" and ?s = "sy_mem S"
  obtain i where c: "x \<noteq> 0" "maps_ok S" "length (sc_run_pool ?s) = 15" "pos2index x = word_of_nat i" "i < 128"
    "ar_type (sc_arenas ?s ! i) \<noteq> 0"
    using site unfolding site_def has_chunk_def by auto
  have L: "sy_mem ?L = ?s" "maps_ok ?L" using c(2) by (simp_all add: lock_context_def maps_ok_def)
  obtain a where a: "get_or_update_addr os ?L x = Inr (?L, Some a)"
    using translate [OF L(2) c(5) _ c(1,4), of os] c(6) L(1) by auto
  have t: "try_run_pool os ?L idx = Inr (?L, Some x)"
    using r(2,3) c(1,3) p(1) a L(1) by (simp add: try_run_pool_def run_pool_at_def)
  have mc: "malloc_chunk_run run_fuel ?s x = bind_r res (\<lambda>(p', h').
      Inr (?s\<lparr>sc_run_pool := (sc_run_pool ?s)[k := p'], run_nodes := h', runs := (runs ?s)(x := r')\<rparr>, pos))"
    using r m p(2) c(3) o
    by (cases res) (auto simp: malloc_chunk_run_def Let_def run_pool_pop_def run_pool_at_def set_run_pool_def put_run_def)
  have s: "0 < sz" "sz \<le> CHUNK_SMALL_LIMIT" using r(4) by (simp_all add: find_run_config_def assert_r_def split: if_splits)
  have "malloc_arena os ?L sz = malloc_small os ?L sz" using s(2) by (simp add: malloc_arena_def)
  also have "\<dots> = bind_r (malloc_chunk_run run_fuel ?s x) (\<lambda>(s, ret). Inr (?L\<lparr>sy_mem := s\<rparr>, ret))"
    using r(4) t L(1) by (simp add: malloc_small_def)
  finally have "shm_malloc os S sz = bind_r (bind_r (malloc_chunk_run run_fuel ?s x) (\<lambda>(s, ret). Inr (?L\<lparr>sy_mem := s\<rparr>, ret)))
      (\<lambda>(S, pos). Inr (unlock_context os S, pos))"
    using s(1) by (auto simp: shm_malloc_def)
  then show ?thesis unfolding mc
    by (intro exI [of _ "snd (os_mutex_unlock os (snd (os_mutex_lock os (sy_world S))))"], cases res)
      (auto simp: moved_def lock_context_def unlock_context_def)
qed

section \<open>The rounds\<close>

text \<open>Between two calls: the block \<open>j\<close> of the run \<open>x\<close> of class \<open>k\<close> is at \<open>pos\<close>, the free
  list of the run is \<open>is\<close>, \<open>pool\<close> is the pool of the class and \<open>l\<close> are the links.\<close>

definition round_at :: "'w sys \<Rightarrow> u64 \<Rightarrow> u64 \<Rightarrow> u64 \<Rightarrow> nat \<Rightarrow> nat \<Rightarrow> nat list \<Rightarrow> shm_pool \<Rightarrow> u64 \<times> u64 \<times> u64 \<times> u64 \<Rightarrow> bool" where
  "round_at S pos x y k j is pool l \<longleftrightarrow> site S pos x \<and> 1 \<le> k \<and> k \<le> 14 \<and> y \<noteq> 0 \<and> x < y
     \<and> sc_run_pool (sy_mem S) ! k = pool \<and> links (run_nodes (sy_mem S)) x y l
     \<and> (let r = runs (sy_mem S) x in run_rep r is \<and> rn_pos r = x \<and> unat (rn_conf_index r) = k
          \<and> 1 < unat (rn_total r) \<and> j < unat (rn_total r) \<and> pos = x + ucast (boff (unat (rn_elemsize r)) j))"

lemma run_fuel_Suc: "\<exists>n. run_fuel = Suc (Suc (Suc n))"
  by (rule exI [of _ "2 ^ 19 - 3"]) (simp add: run_fuel_def)

lemma block_offset: "(ucast (x + ucast (off :: u32) - x :: u64) :: u32) = off"
  by (simp add: bit_eq_iff bit_unsigned_iff)

lemma free_round:
  assumes a: "round_at S pos x y k j [] \<lparr>pool_root = y, pool_size = 1\<rparr> l"
    and l: "(l, l') \<in> {((0, 0, 0, 0), (y, 0, 0, 0)), ((y, 0, 0, 0), (y, y, 0, 0)), ((y, y, y, 0), (y, y, y, y))}"
  shows "\<exists>S'. shm_free os S pos = Inr S' \<and> round_at S' pos x y k j [j] \<lparr>pool_root = x, pool_size = 2\<rparr> l'"
proof -
  let ?s = "sy_mem S"
  define r where "r = runs ?s x"
  have A: "site S pos x" "1 \<le> k" "k \<le> 14" "y \<noteq> 0" "x < y" "sc_run_pool ?s ! k = \<lparr>pool_root = y, pool_size = 1\<rparr>"
    "links (run_nodes ?s) x y l" "run_rep r []" "rn_pos r = x" "unat (rn_conf_index r) = k" "1 < unat (rn_total r)"
    "j < unat (rn_total r)" "pos = x + ucast (boff (unat (rn_elemsize r)) j)"
    using a unfolding round_at_def Let_def r_def by blast+
  have x0: "x \<noteq> 0" using A(1) by (simp add: site_def)
  obtain r' where r': "free_run r (boff (unat (rn_elemsize r)) j) = Inr r'" "run_rep r' [j]" "rn_elemsize r' = rn_elemsize r"
    "rn_total r' = rn_total r" "rn_pos r' = rn_pos r" "rn_conf_index r' = rn_conf_index r"
    using free_run_rep [OF A(8,12)] by auto
  obtain n where "run_fuel = Suc (Suc (Suc n))" using run_fuel_Suc by blast
  then obtain h' where h': "shm_tree_push run_fuel (sc_run_pool ?s ! k) (run_nodes ?s) x = Inr (\<lparr>pool_root = x, pool_size = 2\<rparr>, h')"
    "links h' x y l'" using push_links [OF x0 A(4,5) _ _ A(7) l, of "sc_run_pool ?s ! k" n] A(6) by auto
  have f: "free_run r (ucast (pos - x)) = Inr r'" using r'(1) by (simp only: A(13) block_offset)
  have full: "run_full r" "\<not> run_empty r'" using run_full_rep [OF A(8)] run_empty_rep [OF r'(2)] A(11) r'(4) by simp_all
  have k: "k < 15" using A(3) by simp
  have "rn_pos r' = x" using r'(5) A(9) by simp
  from free_moves [OF A(1) r_def [symmetric] A(9,10) k full(1) f this r'(6) full(2) h'(1), of os]
  obtain w where w: "shm_free os S pos = Inr (moved S x k r' \<lparr>pool_root = x, pool_size = 2\<rparr> h' w)" by blast
  have "length (sc_run_pool ?s) = 15" using A(1) by (simp add: site_def)
  then have "round_at (moved S x k r' \<lparr>pool_root = x, pool_size = 2\<rparr> h' w) pos x y k j [j] \<lparr>pool_root = x, pool_size = 2\<rparr> l'"
    unfolding round_at_def Let_def moved_sel using site_moved [OF A(1)] A h'(2) r' k by simp
  then show ?thesis using w by blast
qed

lemma malloc_round_call:
  assumes a: "round_at S pos x y k j [j] \<lparr>pool_root = x, pool_size = 2\<rparr> l"
    and sz: "find_run_config sz = Inr idx" "unat idx = k"
    and p: "shm_tree_pop run_fuel \<lparr>pool_root = x, pool_size = 2\<rparr> (run_nodes (sy_mem S)) = res"
  shows "\<exists>r' w. shm_malloc os S sz = bind_r res (\<lambda>(p', h'). Inr (moved S x k r' p' h' w, pos))
    \<and> (\<forall>p' h'. links h' x y l' \<longrightarrow> round_at (moved S x k r' p' h' w) pos x y k j [] p' l')"
proof -
  let ?s = "sy_mem S"
  define r where "r = runs ?s x"
  have A: "site S pos x" "1 \<le> k" "k \<le> 14" "y \<noteq> 0" "x < y" "sc_run_pool ?s ! k = \<lparr>pool_root = x, pool_size = 2\<rparr>"
    "links (run_nodes ?s) x y l" "run_rep r [j]" "rn_pos r = x" "unat (rn_conf_index r) = k" "1 < unat (rn_total r)"
    "j < unat (rn_total r)" "pos = x + ucast (boff (unat (rn_elemsize r)) j)"
    using a unfolding round_at_def Let_def r_def by blast+
  obtain r' where r': "malloc_run r = Inr (r', boff (unat (rn_elemsize r)) j)" "run_rep r' []" "rn_elemsize r' = rn_elemsize r"
    "rn_total r' = rn_total r" "rn_pos r' = rn_pos r" "rn_conf_index r' = rn_conf_index r"
    using malloc_run_rep [OF A(8)] by auto
  have k: "k < 15" using A(3) by simp
  have m: "malloc_run r = Inr (r', ucast (pos - x))" using r'(1) by (simp only: A(13) block_offset)
  have ps: "(ucast (ucast (pos - x) :: u32) :: u64) = pos - x" by (simp only: A(13) block_offset) simp
  have f: "run_full r'" using run_full_rep [OF r'(2)] by simp
  have ci: "rn_pos r' = x" "rn_conf_index r' = idx" using r'(5,6) A(9,10) sz(2) by (simp_all add: word_unat_eq_iff)
  have "pool_root (sc_run_pool ?s ! k) = x" "shm_tree_pop run_fuel (sc_run_pool ?s ! k) (run_nodes ?s) = res"
    using A(6) p by simp_all
  from malloc_moves [OF A(1) r_def [symmetric] sz(2) k sz(1) m ci f this ps, of os]
  obtain w where w: "shm_malloc os S sz = bind_r res (\<lambda>(p', h'). Inr (moved S x k r' p' h' w, pos))" by blast
  have "length (sc_run_pool ?s) = 15" using A(1) by (simp add: site_def)
  then have "round_at (moved S x k r' p' h' w) pos x y k j [] p' l'" if "links h' x y l'" for p' h'
    unfolding round_at_def Let_def moved_sel using site_moved [OF A(1)] A that r' k by simp
  then show ?thesis using w by blast
qed

lemma malloc_round:
  assumes a: "round_at S pos x y k j [j] \<lparr>pool_root = x, pool_size = 2\<rparr> l" and sz: "find_run_config sz = Inr idx" "unat idx = k"
    and l: "(l, l') \<in> {((y, 0, 0, 0), (y, 0, 0, 0)), ((y, y, 0, 0), (y, y, y, 0))}"
  shows "\<exists>S'. shm_malloc os S sz = Inr (S', pos) \<and> round_at S' pos x y k j [] \<lparr>pool_root = y, pool_size = 1\<rparr> l'"
proof -
  have A: "x \<noteq> 0" "y \<noteq> 0" "x < y" "links (run_nodes (sy_mem S)) x y l" using a by (simp_all add: round_at_def site_def)
  obtain n where "run_fuel = Suc (Suc (Suc n))" using run_fuel_Suc by blast
  then obtain h' where h': "shm_tree_pop run_fuel \<lparr>pool_root = x, pool_size = 2\<rparr> (run_nodes (sy_mem S))
      = Inr (\<lparr>pool_root = y, pool_size = 1\<rparr>, h')" "links h' x y l'"
    using pop_links [OF A(1-3) _ _ A(4) l, of "\<lparr>pool_root = x, pool_size = 2\<rparr>" n] by auto
  from malloc_round_call [OF a sz h'(1), of os l'] show ?thesis using h'(2) by auto
qed

lemma malloc_round_hangs:
  assumes a: "round_at S pos x y k j [j] \<lparr>pool_root = x, pool_size = 2\<rparr> (y, y, y, y)" and sz: "find_run_config sz = Inr idx" "unat idx = k"
  shows "shm_malloc os S sz = Inl OutOfFuel \<and> (\<forall>fuel. malloc_chunk_run fuel (sy_mem S) x = Inl OutOfFuel)"
proof -
  let ?p = "\<lparr>pool_root = x, pool_size = 2\<rparr>" and ?s = "sy_mem S"
  define r where "r = runs ?s x"
  have A: "x \<noteq> 0" "y \<noteq> 0" "sc_run_pool ?s ! k = ?p" "links (run_nodes ?s) x y (y, y, y, y)" "k < length (sc_run_pool ?s)"
    "run_rep r [j]" "unat (rn_conf_index r) = k"
    using a by (simp_all add: round_at_def site_def Let_def r_def)
  have pop: "shm_tree_pop fuel ?p (run_nodes ?s) = Inl OutOfFuel" for fuel
    by (rule pop_hangs [OF A(1,2) _ _ A(4)]) simp_all
  have "shm_malloc os S sz = Inl OutOfFuel" using malloc_round_call [OF a sz pop, of os] by auto
  moreover obtain r' off where "malloc_run r = Inr (r', off)" "run_rep r' []" "rn_conf_index r' = rn_conf_index r"
    using malloc_run_rep [OF A(6)] by auto
  then have "malloc_chunk_run fuel ?s x = Inl OutOfFuel" for fuel
    using run_full_rep [of r' "[]"] A(3,5,7) pop
    by (simp add: malloc_chunk_run_def r_def [symmetric] Let_def run_pool_pop_def run_pool_at_def put_run_def)
  ultimately show ?thesis by blast
qed

section \<open>What happens to the block\<close>

lemma single_pool:
  assumes "pool_rep p h {y}"
  shows "p = \<lparr>pool_root = y, pool_size = 1\<rparr>" "y \<noteq> 0" "tn_left (h y) = 0" "tn_right (h y) = 0"
proof -
  from assms obtain t q where t: "pool_root p = rt t" "tlk h q t" "set_tree t = {y}" "pool_size p = of_nat (size t)" "size t = card {y}"
    by (rule pool_repE)
  then obtain a where "t = \<langle>\<langle>\<rangle>, a, \<langle>\<rangle>\<rangle>" by (cases t) auto
  then show "p = \<lparr>pool_root = y, pool_size = 1\<rparr>" "y \<noteq> 0" "tn_left (h y) = 0" "tn_right (h y) = 0"
    using t by auto
qed

lemma round_start:
  assumes inv: "sys_inv S P R F E X" and b: "(pos, n) \<in> small_blocks (sy_mem S) (set (P True)) F"
    and x: "x = run_of pos" "F x = []" "unlinked (sy_mem S) x"
    and y: "R (rclass (sy_mem S) x) = {y}" "x < y"
  shows "\<exists>j. round_at S pos x y (rclass (sy_mem S) x) j [] \<lparr>pool_root = y, pool_size = 1\<rparr> (0, 0, 0, 0)"
proof -
  let ?s = "sy_mem S" and ?k = "rclass (sy_mem S) x"
  note I = sys_invD [OF inv]
  obtain c i k j where c: "c \<in> set (P True)" "1 \<le> i" "i < 256" "bm_bit (sbm ?s c) i" "page c i \<in> run_pages ?s (set (P True))"
    "k = rclass ?s (page c i)" "j < run_count k" "j \<notin> set (F (page c i))" "(pos, n) = live_block ?s (page c i) j"
    "unat pos = unat c + (i * 4096 + (64 + j * elemsize_of k))" "i * 4096 + (64 + j * elemsize_of k) < 1048576"
    by (rule small_block_cases [OF I(4) b])
  have p: "pos = fst (live_block ?s (page c i) j)" using c(9) by (metis fst_conv)
  have xc: "x = page c i" using x(1) p run_of_block [OF I(4) c(5)] c(6,7) by simp
  have kx: "k = ?k" using c(6) xc by simp
  note r = run_okD [OF small_invD(5) [OF I(4) c(5)], folded xc kx]
  have rp: "rn_pos (runs ?s x) = x" "1 \<le> ?k" "?k \<le> 14" "unat (rn_elemsize (runs ?s x)) = elemsize_of k"
    "unat (rn_total (runs ?s x)) = run_count k" "run_rep (runs ?s x) []" using r x(2) kx by simp_all
  have "elemsize_of k \<le> 1920" "0 < elemsize_of k" using elemsize_of_class [of k] rp(2,3) kx by auto
  then have "2 * elemsize_of k \<le> 4032" by simp
  then have "2 \<le> 4032 div elemsize_of k" using \<open>0 < elemsize_of k\<close> by (simp add: less_eq_div_iff_mult_less_eq)
  then have cnt: "1 < run_count k" by (simp add: run_count_def)
  obtain a m where am: "c = chunk_slot a m" "has_chunk ?s a m" "a < 128" "m < 8" using in_pool_slot [OF I(2) c(1)] by metis
  have ok: "small_ok ?s c" using small_invD(2) [OF I(4) c(1)] .
  then have ch: "ch_type (chunks ?s c) = 1" "ch_pos (chunks ?s c) = c" "chunk_aligned c" by (simp_all add: small_ok_def)
  have nx: "64 + j * elemsize_of k < 4096" using live_block_place(4,5) [OF I(4) c(5), of j] c(6,7) by simp
  have fr: "find_run ?s c (word_of_nat (i * 4096 + (64 + j * elemsize_of k))) = Inr (Some x)"
    using find_run_ok [OF ok c(3) nx] c(4) xc by simp
  have xc': "x \<noteq> c" using page_inject [OF ch(3,3) c(3), of 0] c(2) xc by simp
  have xi: "pos2index x = word_of_nat a" using page_index_slot [of a m i] am(1,2,3,4) c(3) xc unfolding has_chunk_def by simp
  have x0: "x \<noteq> 0" using page_nonzero [OF ch(3) c(3)] xc by simp
  have "(pos, n) \<in> all_blocks ?s P F E" using b by (simp add: all_blocks_def blocks_def)
  then have p0: "pos \<noteq> 0" by (rule all_blocks_nonzero [OF inv])
  have site: "site S pos x" unfolding site_def
  proof (intro conjI exI)
    show "arena_inv ?s P" "maps_ok S" by (rule I(2), rule I(3))
    show "length (sc_run_pool ?s) = 15" using small_invD(3) [OF I(4)] .
    show "has_chunk ?s a m" by (rule am(2))
    show "find_run ?s (chunk_slot a m) (word_of_nat (i * 4096 + (64 + j * elemsize_of k))) = Inr (Some x)" using fr am(1) by simp
  qed (use x0 p0 c(10,11) xi xc' ch(1,2) am(1) in simp_all)
  have "pool_rep (sc_run_pool ?s ! ?k) (run_nodes ?s) {y}" using small_invD(4) [OF I(4) rp(2,3)] y(1) by simp
  note y1 = single_pool [OF this]
  have "pos = x + ucast (boff (unat (rn_elemsize (runs ?s x))) j)" using p xc kx rp(4) by (simp add: live_block_def)
  then have "round_at S pos x y ?k j [] \<lparr>pool_root = y, pool_size = 1\<rparr> (0, 0, 0, 0)"
    unfolding round_at_def Let_def using site y1 y(2) x(3) rp cnt c(7) by (simp add: links_def unlinked_def)
  then show ?thesis ..
qed

text \<open>C10: releasing and taking the same small block, twice, makes the allocator hang. The block is in
  a full run, the run's node has no links yet, and the pool of its size class holds one other run,
  at a higher position. \<open>shm_free\<close>, \<open>shm_malloc\<close>, \<open>shm_free\<close>, \<open>shm_malloc\<close> and \<open>shm_free\<close>
  of the block return, \<open>shm_malloc\<close> always with this block; after the first \<open>shm_malloc\<close> the
  node has stale links; and the third \<open>shm_malloc\<close> of this class never returns, whatever depth the
  recursion of \<open>shm_tree_merge\<close> is given.\<close>

theorem stale_run_hangs:
  assumes inv: "sys_inv S P R F E X" and b: "(pos, n) \<in> small_blocks (sy_mem S) (set (P True)) F"
    and x: "x = run_of pos" "F x = []" "unlinked (sy_mem S) x"
    and y: "R (rclass (sy_mem S) x) = {y}" "x < y"
    and sz: "find_run_config sz = Inr idx" "unat idx = rclass (sy_mem S) x"
  shows "\<exists>S1 S2 S3 S4 S5. shm_free os S pos = Inr S1 \<and> shm_malloc os S1 sz = Inr (S2, pos)
    \<and> \<not> relinkable (sy_mem S2) pos \<and> shm_free os S2 pos = Inr S3 \<and> shm_malloc os S3 sz = Inr (S4, pos)
    \<and> shm_free os S4 pos = Inr S5 \<and> shm_malloc os S5 sz = Inl OutOfFuel
    \<and> (\<forall>fuel. malloc_chunk_run fuel (sy_mem S5) x = Inl OutOfFuel)"
proof -
  let ?k = "rclass (sy_mem S) x"
  let ?one = "\<lparr>pool_root = y, pool_size = 1\<rparr> :: shm_pool" and ?two = "\<lparr>pool_root = x, pool_size = 2\<rparr> :: shm_pool"
  obtain j where r0: "round_at S pos x y ?k j [] ?one (0, 0, 0, 0)" using round_start [OF inv b x y] by blast
  obtain S1 where 1: "shm_free os S pos = Inr S1" "round_at S1 pos x y ?k j [j] ?two (y, 0, 0, 0)"
    using free_round [OF r0, of "(y, 0, 0, 0)" os] by blast
  obtain S2 where 2: "shm_malloc os S1 sz = Inr (S2, pos)" "round_at S2 pos x y ?k j [] ?one (y, 0, 0, 0)"
    using malloc_round [OF 1(2) sz, of "(y, 0, 0, 0)" os] by blast
  obtain S3 where 3: "shm_free os S2 pos = Inr S3" "round_at S3 pos x y ?k j [j] ?two (y, y, 0, 0)"
    using free_round [OF 2(2), of "(y, y, 0, 0)" os] by blast
  obtain S4 where 4: "shm_malloc os S3 sz = Inr (S4, pos)" "round_at S4 pos x y ?k j [] ?one (y, y, y, 0)"
    using malloc_round [OF 3(2) sz, of "(y, y, y, 0)" os] by blast
  obtain S5 where 5: "shm_free os S4 pos = Inr S5" "round_at S5 pos x y ?k j [j] ?two (y, y, y, y)"
    using free_round [OF 4(2), of "(y, y, y, y)" os] by blast
  have "run_rep (runs (sy_mem S2) x) []" "links (run_nodes (sy_mem S2)) x y (y, 0, 0, 0)" "y \<noteq> 0"
    using 2(2) by (simp_all add: round_at_def Let_def)
  then have "\<not> relinkable (sy_mem S2) pos"
    using run_full_rep by (simp add: relinkable_def x(1) [symmetric] unlinked_def links_def)
  then show ?thesis using 1(1) 2(1) 3(1) 4(1) 5(1) malloc_round_hangs [OF 5(2) sz, of os] by blast
qed

section \<open>A concrete run\<close>

lemma elemsize_inj: "i \<le> 14 \<Longrightarrow> j \<le> 14 \<Longrightarrow> elemsize_of i = elemsize_of j \<Longrightarrow> i = j"
proof -
  assume a: "i \<le> 14" "j \<le> 14" "elemsize_of i = elemsize_of j"
  have "distinct (map elemsize_of [0..<15])" unfolding elemsize_of_table by simp
  then have "inj_on elemsize_of {0..<15}" by (simp add: distinct_map del: upt_rec_numeral)
  then show "i = j" by (rule inj_onD) (use a in auto)
qed

text \<open>The nodes after the operations on a pool of at most one run.\<close>

lemma update_chunk_pool_nodes: "update_chunk_pool s c m = Inr s' \<Longrightarrow> run_nodes s' = run_nodes s"
  by (auto simp: update_chunk_pool_def bind_r_eq_Inr set_chunk_pool_def Let_def split: if_splits prod.splits)

lemma new_run_place:
  assumes ok: "small_ok s c" and u: "sd_used (ch_small (chunks s c)) \<noteq> 256"
    and p: "unat idx < length (sc_run_pool s)" "sc_run_pool s ! unat idx = \<lparr>pool_root = 0, pool_size = 0\<rparr>"
    and n: "new_chunk_run run_fuel s c idx = Inr (s', x)"
  shows "run_nodes s' = (run_nodes s)(x := clean_node)"
    "\<exists>i. x = page c i \<and> 1 \<le> i \<and> i < 256 \<and> \<not> bm_bit (sbm s c) i \<and> (\<forall>j < i. bm_bit (sbm s c) j)"
proof -
  have cc: "ch_type (chunks s c) = 1" "ch_pos (chunks s c) = c" "length (sbm s c) = 4" using ok by (simp_all add: small_ok_def)
  obtain i where i: "1 \<le> i" "i < 256" "\<not> bm_bit (sbm s c) i"
    "bitmap_sfu (sbm s c) 256 = Inr (word_of_nat i, bm_put (sbm s c) i True)"
    "unat (sd_used (ch_small (chunks s c))) < 256" using free_page [OF ok u] .
  have un: "unat (word_of_nat i :: u32) = i" "(word_of_nat i :: u32) < 256" using i(2) by (simp_all add: unat_of_nat_small word_less_nat_alt)
  have first: "\<forall>j < i. bm_bit (sbm s c) j"
    using bitmap_sfu_correct [of 256 "sbm s c"] i(4) un cc(3) by auto
  have us: "sd_used (ch_small (chunks s c)) < 256" using i(5) by (simp add: word_less_nat_alt)
  obtain m where m: "run_fuel = Suc m" by (metis run_fuel_Suc)
  have x: "x = page c i" and nodes: "run_nodes s' = (run_nodes s)(page c i := clean_node)"
    using n cc(1,2) us i(4) un(2) p page_word(1) [OF i(2)] update_chunk_pool_nodes
    by (auto simp: new_chunk_run_def Let_def put_small_def put_run_def run_pool_push_def run_pool_at_def set_run_pool_def
        shm_tree_push_def m bind_r_eq_Inr split: if_splits)
  show "run_nodes s' = (run_nodes s)(x := clean_node)" using nodes x by simp
  show "\<exists>i. x = page c i \<and> 1 \<le> i \<and> i < 256 \<and> \<not> bm_bit (sbm s c) i \<and> (\<forall>j < i. bm_bit (sbm s c) j)"
    using x i(1-3) first by blast
qed

lemma take_nodes:
  assumes m: "malloc_chunk_run run_fuel s x = Inr (s', ret)"
    and p: "sc_run_pool s ! unat (rn_conf_index (runs s x)) = \<lparr>pool_root = x, pool_size = 1\<rparr>" "x \<noteq> 0"
    and l: "tn_left (run_nodes s x) = 0" "tn_right (run_nodes s x) = 0"
  shows "run_nodes s' = run_nodes s"
proof -
  obtain n where n: "run_fuel = Suc n" by (metis run_fuel_Suc)
  obtain r off where r: "malloc_run (runs s x) = Inr (r, off)" using m by (auto simp: malloc_chunk_run_def bind_r_eq_Inr)
  then have c: "rn_conf_index r = rn_conf_index (runs s x)"
    by (auto simp: malloc_run_def Let_def assert_r_def split: if_splits)
  show ?thesis using m r c p l
    by (auto simp: malloc_chunk_run_def Let_def put_run_def run_pool_pop_def run_pool_at_def set_run_pool_def shm_tree_pop_def
        tn_get_def tn_reroot_def n bind_r_eq_Inr split: if_splits)
qed


lemma room_left:
  assumes inv: "small_inv s P R F" and c: "c \<in> set (P True)" and a: "run_pages s (set (P True)) \<subseteq> {a}"
  shows "sd_used (ch_small (chunks s c)) \<noteq> 256"
proof
  assume e: "sd_used (ch_small (chunks s c)) = 256"
  have ok: "small_ok s c" using small_invD(2) [OF inv c] .
  then have u: "unat (sd_used (ch_small (chunks s c))) = card {i. i < 256 \<and> bm_bit (sbm s c) i}" "chunk_aligned c"
    unfolding small_ok_def by blast+
  have k: "card {i. i < 256 \<and> bm_bit (sbm s c) i} = card {..<256 :: nat}" using u(1) e by simp
  have f: "finite {..<256 :: nat}" "{i. i < 256 \<and> bm_bit (sbm s c) i} \<subseteq> {..<256}" by blast+
  have all: "{i. i < 256 \<and> bm_bit (sbm s c) i} = {..<256}" by (rule card_subset_eq [OF f k])
  have "page c i = a" if "1 \<le> i" "i < 256" for i
  proof -
    have "bm_bit (sbm s c) i" using all that by auto
    then have "page c i \<in> run_pages s (set (P True))" using c that unfolding run_pages_def by blast
    then show ?thesis using a by blast
  qed
  from this [of 1] this [of 2] show False using page_inject [OF u(2,2), of 1 2] by simp
qed

text \<open>The only runs are those the blocks in use belong to, and the ones with a free list.\<close>

lemma run_has_block:
  assumes inv: "small_inv s P R F" and x: "x \<in> run_pages s (set (P True))" and f: "F x = []"
  shows "\<exists>p n. (p, n) \<in> small_blocks s (set (P True)) F \<and> run_of p = x"
proof -
  note r = run_okD [OF small_invD(5) [OF inv x]]
  have "elemsize_of (rclass s x) \<le> 1920" "0 < elemsize_of (rclass s x)" using elemsize_of_class [OF r(2,3)] by auto
  then have c: "0 < run_count (rclass s x)" by (simp add: run_count_def div_greater_zero_iff)
  then have "(x, 0) \<in> small_live s (set (P True)) F" using x f by (simp add: small_live_def)
  then have "live_block s x 0 \<in> small_blocks s (set (P True)) F" unfolding small_blocks_def by force
  then show ?thesis using run_of_block [OF inv x c] by (metis prod.collapse)
qed

lemma empty_class:
  assumes inv: "small_inv s P R F" and "1 \<le> k" "k \<le> 14" "R k = {}"
  shows "sc_run_pool s ! k = \<lparr>pool_root = 0, pool_size = 0\<rparr>"
proof -
  have "pool_rep (sc_run_pool s ! k) (run_nodes s) {}" using small_invD(4) [OF inv assms(2,3)] assms(4) by simp
  then obtain t q where "pool_root (sc_run_pool s ! k) = rt t" "set_tree t = {}" "pool_size (sc_run_pool s ! k) = of_nat (size t)"
    by (rule pool_repE) blast
  then show ?thesis by (cases t) (auto intro: shm_pool.equality)
qed

text \<open>The largest class: two blocks of 1920 bytes.\<close>

lemma class_14:
  "elemsize_of 14 = 1920" "run_count 14 = 2" "1 \<le> unat (14 :: u32)" "unat (14 :: u32) \<le> 14" "unat (14 :: u32) = 14"
  "1 \<le> (14 :: nat)" "(14 :: nat) \<le> 14" "[0..<2 :: nat] = [0, 1]"
  by (simp_all add: elemsize_of_def run_config_list_def run_count_def upt_rec)

lemma demo_run:
  "\<exists>(S :: unit sys) P c a. sys_inv S P (no_runs(14 := {a})) (no_free(a := [0, 1])) no_extents no_nodes
    \<and> c \<in> set (P True) \<and> P False = [] \<and> a = page c 1 \<and> blocks (sy_mem S) P (no_free(a := [0, 1])) no_extents = {}"
proof -
  have no: "\<not> (\<exists>w. get_or_new_chunk demo_os demo_sys CHUNK_TYPE_SMALL 1 = Inr (demo_sys\<lparr>sy_world := w\<rparr>, None)
      \<and> no_room demo_os demo_sys)" using demo_inv(3) by blast
  have none: "blocks (sy_mem demo_sys) no_pools no_free no_extents = {}" using demo_inv(2) by (simp add: all_blocks_def)
  obtain S1 :: "unit sys" and c xs where S1: "sys_inv S1 (no_pools(True := xs)) no_runs no_free no_extents no_nodes"
    "c \<in> set ((no_pools(True := xs)) True)" "sd_used (ch_small (chunks (sy_mem S1) c)) \<noteq> 256"
    "blocks (sy_mem S1) (no_pools(True := xs)) no_free no_extents = {}"
    using small_chunk [OF demo_inv(1), where os = demo_os and sz = 1] no none by auto
  note I1 = sys_invD [OF S1(1)]
  have G1: "run_pages (sy_mem S1) (set xs) = {}" using run_has_block [OF I1(4)] S1(4) by (auto simp: blocks_def)
  obtain s2 a ys where s2: "new_chunk_run run_fuel (sy_mem S1) c 14 = Inr (s2, a)"
    "sys_inv (S1\<lparr>sy_mem := s2\<rparr>) (no_pools(True := ys)) (no_runs(14 := insert a {})) (no_free(a := [0, 1])) no_extents no_nodes"
    "blocks s2 (no_pools(True := ys)) (no_free(a := [0, 1])) no_extents = blocks (sy_mem S1) (no_pools(True := xs)) no_free no_extents"
    "sc_arenas s2 = sc_arenas (sy_mem S1)"
    using new_run_step [OF S1(1-3) class_14(3,4), unfolded class_14(5) class_14(2,8) fun_upd_upd] by blast
  have pool: "unat (14 :: u32) < length (sc_run_pool (sy_mem S1))" "sc_run_pool (sy_mem S1) ! unat (14 :: u32) = \<lparr>pool_root = 0, pool_size = 0\<rparr>"
    using empty_class [OF I1(4) class_14(6,7)] small_invD(3) [OF I1(4)] by simp_all
  obtain i where i: "a = page c i" "1 \<le> i" "i < 256" "\<forall>j < i. bm_bit (sbm (sy_mem S1) c) j"
    using new_run_place(2) [OF small_invD(2) [OF I1(4) S1(2)] S1(3) pool s2(1)] by blast
  have a1: "a = page c 1"
  proof (cases "i = 1")
    case False
    then have "bm_bit (sbm (sy_mem S1) c) 1" using i(2,4) by simp
    then have "page c 1 \<in> run_pages (sy_mem S1) (set xs)" using S1(2) unfolding run_pages_def by force
    then show ?thesis using G1 by blast
  qed (simp add: i(1))
  have "set ys = chunk_set s2" using sys_invD(2) [OF s2(2)] by (simp add: arena_inv_def)
  moreover have "set xs = chunk_set (sy_mem S1)" using I1(2) by (simp add: arena_inv_def)
  moreover have "chunk_set s2 = chunk_set (sy_mem S1)" using s2(4) by (simp add: chunk_set_def has_chunk_def)
  ultimately have "c \<in> set ys" using S1(2) by simp
  then show ?thesis using s2(2,3) S1(4) a1
    by (intro exI [of _ "S1\<lparr>sy_mem := s2\<rparr>"] exI [of _ "no_pools(True := ys)"] exI [of _ c] exI [of _ a]) simp
qed

lemma demo_filled:
  "\<exists>(S :: unit sys) P c a p q. sys_inv S P no_runs no_free no_extents no_nodes \<and> c \<in> set (P True) \<and> P False = []
    \<and> a = page c 1 \<and> unlinked (sy_mem S) a \<and> blocks (sy_mem S) P no_free no_extents = {(p, 1920), (q, 1920)}
    \<and> run_of p = a \<and> run_of q = a"
proof -
  note k14 = class_14(6,7)
  obtain S2 :: "unit sys" and P c a where S2: "sys_inv S2 P (no_runs(14 := {a})) (no_free(a := [0, 1])) no_extents no_nodes"
    "c \<in> set (P True)" "P False = []" "a = page c 1" "blocks (sy_mem S2) P (no_free(a := [0, 1])) no_extents = {}"
    using demo_run by blast
  define R where "R = no_runs(14 := {a})"
  have r2: "R 14 \<noteq> {}" "a = Min (R 14)" by (simp_all add: R_def)
  obtain s3 p l j where t3: "(no_free(a := [0, 1])) a = j # l"
    "sys_inv (S2\<lparr>sy_mem := s3\<rparr>) P (R(14 := if l = [] then R 14 - {a} else R 14)) (no_free(a := l)) no_extents no_nodes"
    "blocks s3 P (no_free(a := l)) no_extents = insert (p, 1920) (blocks (sy_mem S2) P (no_free(a := [0, 1])) no_extents)"
    "run_of p = a"
    using take_block [OF S2(1) [folded R_def] k14 r2, unfolded class_14(1) fun_upd_upd] by blast
  have l: "l = [1]" using t3(1) by auto
  define S3 where "S3 = S2\<lparr>sy_mem := s3\<rparr>"
  have m3: "sy_mem S3 = s3" by (simp add: S3_def)
  have i3: "sys_inv S3 P R (no_free(a := [1])) no_extents no_nodes" using t3(2) l by (simp add: S3_def)
  have b3: "blocks s3 P (no_free(a := [1])) no_extents = {(p, 1920)}" using t3(3) S2(5) l by simp
  obtain s4 q l2 j2 where t4: "(no_free(a := [1])) a = j2 # l2" "malloc_chunk_run run_fuel s3 a = Inr (s4, q)"
    "sys_inv (S3\<lparr>sy_mem := s4\<rparr>) P (R(14 := if l2 = [] then R 14 - {a} else R 14)) (no_free(a := l2)) no_extents no_nodes"
    "blocks s4 P (no_free(a := l2)) no_extents = insert (q, 1920) (blocks s3 P (no_free(a := [1])) no_extents)"
    "run_of q = a"
    using take_block [OF i3 k14 r2, unfolded class_14(1) fun_upd_upd m3] by blast
  have l2: "l2 = []" using t4(1) by auto
  have cleared: "R(14 := R 14 - {a}) = (\<lambda>_. {} :: u64 set)" "(\<lambda>_ :: u64. [] :: nat list)(a := []) = (\<lambda>_. [])"
    by (auto simp: R_def)
  have i4: "sys_inv (S3\<lparr>sy_mem := s4\<rparr>) P no_runs no_free no_extents no_nodes"
    using t4(3) unfolding l2 if_P [OF refl] cleared .
  have "pool_rep (sc_run_pool s3 ! 14) (run_nodes s3) {a}" "rclass s3 a = 14"
    using run_class_set(1,3) [OF i3 k14] m3 by (auto simp: R_def)
  note s3 = single_pool [OF this(1)] this(2)
  have "run_nodes s4 = run_nodes s3" using take_nodes [OF t4(2)] s3 by simp
  then have "unlinked s4 a" using s3(3,4) by (simp add: unlinked_def)
  moreover have "blocks s4 P no_free no_extents = {(p, 1920), (q, 1920)}" using t4(4) unfolding l2 cleared b3 by auto
  ultimately show ?thesis using i4 S2(2-4) t3(4) t4(5)
    by (intro exI [of _ "S3\<lparr>sy_mem := s4\<rparr>"] exI [of _ P] exI [of _ c] exI [of _ a] exI [of _ p] exI [of _ q]) simp
qed

text \<open>Three blocks of the largest class: two fill a run, the third is in another one.\<close>

lemma demo_full:
  "\<exists>(S :: unit sys) P R F x y p. sys_inv S P R F no_extents no_nodes \<and> (p, 1920) \<in> small_blocks (sy_mem S) (set (P True)) F
    \<and> x = run_of p \<and> F x = [] \<and> unlinked (sy_mem S) x \<and> R (rclass (sy_mem S) x) = {y} \<and> x < y \<and> rclass (sy_mem S) x = 14"
proof -
  obtain S4 :: "unit sys" and P c a p q where S4: "sys_inv S4 P no_runs no_free no_extents no_nodes" "c \<in> set (P True)" "P False = []"
    "a = page c 1" "unlinked (sy_mem S4) a" "blocks (sy_mem S4) P no_free no_extents = {(p, 1920), (q, 1920)}" "run_of p = a" "run_of q = a"
    using demo_filled by blast
  note I4 = sys_invD(4) [OF S4(1)]
  have "run_pages (sy_mem S4) (set (P True)) \<subseteq> {a}"
    using run_has_block [OF I4] S4(6,7,8) by (fastforce simp: blocks_def)
  then have u4: "sd_used (ch_small (chunks (sy_mem S4) c)) \<noteq> 256" by (rule room_left [OF I4 S4(2)])
  obtain s5 b zs where s5: "new_chunk_run run_fuel (sy_mem S4) c 14 = Inr (s5, b)"
    "sys_inv (S4\<lparr>sy_mem := s5\<rparr>) (P(True := zs)) (no_runs(14 := insert b {})) (no_free(b := [0, 1])) no_extents no_nodes"
    "blocks s5 (P(True := zs)) (no_free(b := [0, 1])) no_extents = blocks (sy_mem S4) P no_free no_extents"
    using new_run_step [OF S4(1,2) u4 class_14(3,4), unfolded class_14(5) class_14(2,8) fun_upd_upd] by blast
  define S5 where "S5 = S4\<lparr>sy_mem := s5\<rparr>"
  have m5: "sy_mem S5 = s5" by (simp add: S5_def)
  have i5: "sys_inv S5 (P(True := zs)) (no_runs(14 := {b})) (no_free(b := [0, 1])) no_extents no_nodes"
    using s5(2) by (simp add: S5_def)
  note I5 = sys_invD(4) [OF i5, unfolded m5]
  have pool4: "unat (14 :: u32) < length (sc_run_pool (sy_mem S4))" "sc_run_pool (sy_mem S4) ! unat (14 :: u32) = \<lparr>pool_root = 0, pool_size = 0\<rparr>"
    using empty_class [OF I4 class_14(6,7)] small_invD(3) [OF I4] by simp_all
  note n5 = new_run_place [OF small_invD(2) [OF I4 S4(2)] u4 pool4 s5(1)]
  obtain i where i: "b = page c i" "1 \<le> i" "i < 256" "\<not> bm_bit (sbm (sy_mem S4) c) i" using n5(2) by blast
  have ca: "chunk_aligned c" using small_invD(7) [OF I4 S4(2)] .
  have "(p, 1920) \<in> small_blocks (sy_mem S4) (set (P True)) no_free"
    using S4(3,6) by (auto simp: blocks_def medium_blocks_def)
  then obtain d k where d: "d \<in> set (P True)" "k < 256" "bm_bit (sbm (sy_mem S4) d) k" "a = page d k"
    using S4(7) run_of_block [OF I4] by (elim small_block_cases [OF I4]) (metis fst_conv)
  have "d = c" "k = 1" using page_inject [OF small_invD(7) [OF I4 d(1)] ca d(2), of 1] d(4) S4(4) by simp_all
  then have "1 < i" using d(3) i(2,4) by (cases "i = 1") auto
  then have ab: "a < b" using unat_page [OF ca, of 1] unat_page [OF ca i(3)] S4(4) i(1) by (simp add: word_less_nat_alt)
  have small5: "(p, 1920) \<in> small_blocks s5 (set ((P(True := zs)) True)) (no_free(b := [0, 1]))"
    using s5(3) S4(3,6) by (auto simp: blocks_def medium_blocks_def)
  then obtain x j where x: "x \<in> run_pages s5 (set ((P(True := zs)) True))" "j < run_count (rclass s5 x)" "(p, 1920) = live_block s5 x j"
    by (elim small_block_cases [OF I5]) blast
  have "p = fst (live_block s5 x j)" using x(3) by (metis fst_conv)
  then have xa: "x = a" using run_of_block [OF I5 x(1,2)] S4(7) by simp
  have "elemsize_of (rclass s5 a) = 1920" using x(3) xa by (simp add: live_block_def)
  moreover have "rclass s5 a \<le> 14" using run_okD(3) [OF small_invD(5) [OF I5 x(1)]] xa by simp
  ultimately have cl: "rclass s5 a = 14" using elemsize_inj [of "rclass s5 a" 14] class_14(1) by simp
  have un: "unlinked s5 a" using n5(1) ab S4(5) by (auto simp: unlinked_def)
  have "sys_inv S5 (P(True := zs)) (no_runs(14 := {b})) (no_free(b := [0, 1])) no_extents no_nodes
      \<and> (p, 1920) \<in> small_blocks (sy_mem S5) (set ((P(True := zs)) True)) (no_free(b := [0, 1])) \<and> a = run_of p
      \<and> (no_free(b := [0, 1])) a = [] \<and> unlinked (sy_mem S5) a \<and> (no_runs(14 := {b})) (rclass (sy_mem S5) a) = {b}
      \<and> a < b \<and> rclass (sy_mem S5) a = 14"
    using i5 small5 S4(7) un cl ab m5 by auto
  then show ?thesis by blast
qed

theorem stale_run_hangs_witness:
  "\<exists>(S :: unit sys) p S1 S2 S3 S4 S5. (\<exists>P R F. sys_inv S P R F no_extents no_nodes)
    \<and> shm_free demo_os S p = Inr S1 \<and> shm_malloc demo_os S1 1900 = Inr (S2, p) \<and> shm_free demo_os S2 p = Inr S3
    \<and> shm_malloc demo_os S3 1900 = Inr (S4, p) \<and> shm_free demo_os S4 p = Inr S5 \<and> shm_malloc demo_os S5 1900 = Inl OutOfFuel"
proof -
  obtain S :: "unit sys" and P R F x y p where s: "sys_inv S P R F no_extents no_nodes" "(p, 1920) \<in> small_blocks (sy_mem S) (set (P True)) F"
    "x = run_of p" "F x = []" "unlinked (sy_mem S) x" "R (rclass (sy_mem S) x) = {y}" "x < y" "rclass (sy_mem S) x = 14"
    using demo_full by blast
  have f: "find_run_config 1900 = Inr 14" by (simp add: find_run_config_def run_table128_def)
  have "unat (14 :: u32) = rclass (sy_mem S) x" using s(8) by simp
  from stale_run_hangs [OF s(1-7) f this, of demo_os] s(1) show ?thesis by blast
qed

end
