(* ===== verification/Medium_Refine.thy ===== *)
theory Medium_Refine
  imports Client
begin

text \<open>
  What a client of \<open>src/chunk_medium.c\<close> may rely on: a medium chunk refines a list of extents
  together with the order in which its tree keeps the free ones. The statements are total: they
  name the assertion that fails, and the releases that are ignored. At the end, the four calls that
  abort although nearly all pages are free, and the choice of a chunk by \<open>get_avaliable_chunk\<close>.
\<close>

section \<open>The first free extent of the tree\<close>

lemma first_extent:
  assumes inv: "medium_inv s P E X" and c: "c \<in> set (P False)" and X: "X c = x # xs"
  obtains as n bs where "E c = as @ (n, False) # bs" "unat x = Suc (page_sum as)"
    "n = unat (mv_size (rb_v (ch_pages (chunks s c) x)))"
proof -
  have "medium_rep (medium_of s c) (E c) (x # xs)" using inv c X by (auto simp: medium_inv_def medium_ok_def)
  then have "free_nodes (ch_pages (chunks s c)) (set (x # xs)) (frees 1 (E c))"
    unfolding medium_of_def by (rule medium_repD(7))
  from free_nodesD(1) [OF this, of x] frees_split that show thesis by fastforce
qed

text \<open>An allocation from a chunk, as a relation on the lists of extents.\<close>

definition extent_taken :: "extent list \<Rightarrow> u16 list \<Rightarrow> nat \<Rightarrow> extent list \<Rightarrow> u16 list \<Rightarrow> nat \<Rightarrow> bool" where
  "extent_taken es xs k es' xs' p \<longleftrightarrow> (\<exists>as n bs x ys. xs = x # ys \<and> es = as @ (n, False) # bs
     \<and> p = Suc (page_sum as) \<and> unat x = p \<and> k \<le> n \<and> es' = take_extent as n k bs
     \<and> ((\<forall>(q, m) \<in> frees 1 es. m \<noteq> n - k) \<longrightarrow> xs' = take_order n (word_of_nat k) x ys))"

text \<open>The allocation is refused when the first free extent is too small or there is none.\<close>

definition first_too_small :: "extent list \<Rightarrow> u16 list \<Rightarrow> nat \<Rightarrow> bool" where
  "first_too_small es xs k \<longleftrightarrow> (case xs of [] \<Rightarrow> True
     | x # _ \<Rightarrow> \<exists>n < k. (unat x, n) \<in> frees 1 es)"

text \<open>A release: the extent at page \<open>p\<close> becomes free and joins its free neighbours.\<close>

definition extent_given :: "extent list \<Rightarrow> u16 list \<Rightarrow> nat \<Rightarrow> extent list \<Rightarrow> u16 list \<Rightarrow> bool" where
  "extent_given es xs p es' xs' \<longleftrightarrow> (\<exists>as n bs. es = as @ (n, True) # bs \<and> p = Suc (page_sum as)
     \<and> es' = free_extent as n bs
     \<and> ((\<forall>(q, m) \<in> frees 1 es. m \<noteq> last_free as + n + hd_free bs) \<longrightarrow> xs' = free_order as n bs xs))"

section \<open>Refinement\<close>

lemma malloc_medium_steps:
  assumes inv: "medium_inv s P E X" and c: "c \<in> set (P False)"
    and len: "len \<noteq> 0" "unat len \<le> 255 * SHM_PAGE_SIZE"
  shows "if first_too_small (E c) (X c) (pages_for (unat len)) then malloc_chunk_medium s c len = Inl AssertFail
    else \<exists>s' ys es xs p. malloc_chunk_medium s c len = Inr (s', page c p) \<and> mset ys = mset (P False)
      \<and> extent_taken (E c) (X c) (pages_for (unat len)) es xs p
      \<and> medium_inv s' (P(False := ys)) (E(c := es)) (X(c := xs)) \<and> medium_frame s s' c"
proof (cases "X c")
  case Nil
  then show ?thesis using malloc_medium_abort [OF inv c len] by (simp add: first_too_small_def)
next
  case (Cons x xs)
  obtain as n bs where e: "E c = as @ (n, False) # bs" "unat x = Suc (page_sum as)"
    "n = unat (mv_size (rb_v (ch_pages (chunks s c) x)))" using first_extent [OF inv c Cons] by blast
  let ?k = "pages_for (unat len)"
  have pr: "proper (E c)" using inv c by (auto simp: medium_inv_def medium_ok_def medium_of_def dest: medium_repD(1))
  have un: "m = n" if "(unat x, m) \<in> frees 1 (E c)" for m
    using that frees_below [of as "unat x" m] frees_above [of bs "unat x" m "Suc (page_sum as) + n"] pr e(1,2) by auto
  have f: "first_too_small (E c) (X c) ?k \<longleftrightarrow> n < ?k"
    using un e by (auto simp: first_too_small_def Cons)
  show ?thesis
  proof (cases "n < ?k")
    case True
    then show ?thesis using f malloc_medium_abort [OF inv c len] Cons e(3) by auto
  next
    case False
    then have k: "?k \<le> n" by simp
    obtain as' bs' s' ys zs where m: "E c = as' @ (n, False) # bs'"
      "malloc_chunk_medium s c len = Inr (s', page c (Suc (page_sum as')))" "mset ys = mset (P False)"
      "medium_inv s' (P(False := ys)) (E(c := take_extent as' n ?k bs')) (X(c := zs))" "medium_frame s s' c"
      "(\<forall>(q, m) \<in> frees 1 (E c). m \<noteq> n - ?k) \<longrightarrow> zs = take_order n (word_of_nat ?k) x xs" "unat x = Suc (page_sum as')"
      using malloc_medium_inv [OF inv c Cons len k e(3)] by blast
    have "extent_taken (E c) (X c) ?k (take_extent as' n ?k bs') zs (Suc (page_sum as'))"
      unfolding extent_taken_def Cons using m(1,6,7) k by blast
    then show ?thesis using f False m by (simp only: if_False) blast
  qed
qed

lemma free_medium_steps:
  assumes inv: "medium_inv s P E X" and c: "c \<in> set (P False)" and o: "unat offset < 2 ^ 28"
  shows "if unat offset mod SHM_PAGE_SIZE = 0 \<and> unat offset div SHM_PAGE_SIZE \<in> heads (\<lambda>u. u) 1 (E c)
    then \<exists>s' ys es xs. free_chunk_medium s c offset = Inr (s', es = [(255, False)]) \<and> mset ys = mset (P False)
      \<and> extent_given (E c) (X c) (unat offset div SHM_PAGE_SIZE) es xs
      \<and> medium_inv s' (P(False := ys)) (E(c := es)) (X(c := xs)) \<and> medium_frame s s' c
    else free_chunk_medium s c offset = Inr (s, False)"
proof (cases "unat offset mod SHM_PAGE_SIZE = 0 \<and> unat offset div SHM_PAGE_SIZE \<in> heads (\<lambda>u. u) 1 (E c)")
  case True
  then obtain as n bs where e: "E c = as @ (n, True) # bs" "unat offset div SHM_PAGE_SIZE = Suc (page_sum as)"
    using used_split by fastforce
  have "unat offset = Suc (page_sum as) * SHM_PAGE_SIZE" using True e(2) by (metis div_mod_decomp add.right_neutral)
  then have w: "offset = word_of_nat (Suc (page_sum as) * SHM_PAGE_SIZE)" by (metis of_nat_unat ucast_id)
  obtain s' ys zs b where f: "free_chunk_medium s c offset = Inr (s', b)" "mset ys = mset (P False)"
    "medium_inv s' (P(False := ys)) (E(c := free_extent as n bs)) (X(c := zs))"
    "b \<longleftrightarrow> free_extent as n bs = [(255, False)]" "medium_frame s s' c"
    "(\<forall>(q, m) \<in> frees 1 (E c). m \<noteq> last_free as + n + hd_free bs) \<longrightarrow> zs = free_order as n bs (X c)"
    using free_medium_inv [OF inv c e(1)] unfolding w by blast
  have "extent_given (E c) (X c) (unat offset div SHM_PAGE_SIZE) (free_extent as n bs) zs"
    unfolding extent_given_def e(2) using e(1) f(6) by blast
  then show ?thesis using True f by (simp only: if_True simp_thms) blast
next
  case False
  then show ?thesis using free_medium_ignored [OF inv c o False] by (simp only: if_False)
qed

text \<open>C11: an allocation of at most 255 pages from a medium chunk refines the allocation from a list
  of extents: the first free extent of the tree is cut, its rest stays free, the address is that of
  its first page, every other chunk and all the small blocks are left alone and the invariant of the
  medium chunks holds again. When that extent is too small, or there is none, the assertion after
  the search fails, whatever other extents the chunk has.\<close>

theorem malloc_chunk_medium_refines:
  assumes "medium_inv s P E X" and "c \<in> set (P False)"
    and "len \<noteq> 0" and "unat len \<le> 255 * SHM_PAGE_SIZE"
  shows "if first_too_small (E c) (X c) (pages_for (unat len)) then malloc_chunk_medium s c len = Inl AssertFail
    else \<exists>s' ys es xs p. malloc_chunk_medium s c len = Inr (s', page c p) \<and> mset ys = mset (P False)
      \<and> extent_taken (E c) (X c) (pages_for (unat len)) es xs p
      \<and> medium_inv s' (P(False := ys)) (E(c := es)) (X(c := xs)) \<and> medium_frame s s' c"
  using assms by (rule malloc_medium_steps)

text \<open>C12: a release refines the release in the list of extents: the extent that starts at the page of
  the offset becomes free and joins its free neighbours, and the result tells whether the whole chunk
  is free now. An offset that is not the first page of an extent in use changes nothing.\<close>

theorem free_chunk_medium_refines:
  assumes "medium_inv s P E X" and "c \<in> set (P False)" and "unat offset < 2 ^ 28"
  shows "if unat offset mod SHM_PAGE_SIZE = 0 \<and> unat offset div SHM_PAGE_SIZE \<in> heads (\<lambda>u. u) 1 (E c)
    then \<exists>s' ys es xs. free_chunk_medium s c offset = Inr (s', es = [(255, False)]) \<and> mset ys = mset (P False)
      \<and> extent_given (E c) (X c) (unat offset div SHM_PAGE_SIZE) es xs
      \<and> medium_inv s' (P(False := ys)) (E(c := es)) (X(c := xs)) \<and> medium_frame s s' c
    else free_chunk_medium s c offset = Inr (s, False)"
  using assms by (rule free_medium_steps)

section \<open>A medium chunk as a heap of blocks\<close>

text \<open>A medium chunk implements the contract of \<open>Block_Heap\<close>: the release takes the position, as
  \<open>free_arena\<close> does, and passes the offset in the chunk on.\<close>

definition chunk_blocks :: "u64 \<Rightarrow> shm_state \<Rightarrow> (u64 \<times> nat) set \<Rightarrow> bool" where
  "chunk_blocks c s A \<longleftrightarrow> (\<exists>P E X. medium_inv s P E X \<and> c \<in> set (P False) \<and> A = medium_blocks {c} E)"

definition release_page :: "u64 \<Rightarrow> shm_state \<Rightarrow> u64 \<Rightarrow> shm_state res" where
  "release_page c s pos = bind_r (free_chunk_medium s c (ucast (pos - c))) (\<lambda>(s, b). Inr s)"

lemma chunk_blocks_image:
  "medium_blocks {c} E = (\<lambda>(q, n). (page c q, n * SHM_PAGE_SIZE)) ` useds 1 (E c)"
  by (auto simp: medium_blocks_def)

lemma chunk_take:
  assumes "chunk_blocks c s A" and len: "len \<noteq> 0" "unat len \<le> 255 * SHM_PAGE_SIZE"
    and m: "malloc_chunk_medium s c len = Inr (s', pos)"
  shows "0 < unat len \<and> (\<exists>n \<ge> unat len. (pos, n) \<notin> A \<and> chunk_blocks c s' (insert (pos, n) A))"
proof -
  from assms(1) obtain P E X where I: "medium_inv s P E X" "c \<in> set (P False)" "A = medium_blocks {c} E"
    by (auto simp: chunk_blocks_def)
  let ?k = "pages_for (unat len)"
  obtain ys es xs p where t: "pos = page c p" "mset ys = mset (P False)" "extent_taken (E c) (X c) ?k es xs p"
    "medium_inv s' (P(False := ys)) (E(c := es)) (X(c := xs))"
    using malloc_medium_steps [OF I(1,2) len] m by (auto split: if_splits)
  then obtain as n bs where e: "E c = as @ (n, False) # bs" "p = Suc (page_sum as)" "?k \<le> n" "es = take_extent as n ?k bs"
    unfolding extent_taken_def by blast
  have "useds 1 es = insert (p, ?k) (useds 1 (E c))" using useds_take [OF e(3), of 1 as bs] e by simp
  then have b: "medium_blocks {c} (E(c := es)) = insert (pos, ?k * SHM_PAGE_SIZE) A"
    unfolding I(3) t(1) chunk_blocks_image by simp
  have "(pos, ?k * SHM_PAGE_SIZE) \<notin> medium_blocks (set (P False)) E"
    using medium_blocks_take(2) [OF I(1,2) e(1,3)] pages_for_size(2) [OF len] unfolding t(1) e(2) by blast
  then have "(pos, ?k * SHM_PAGE_SIZE) \<notin> A" using I(2) unfolding I(3) medium_blocks_def by blast
  moreover have "c \<in> set ys" using mset_eq_setD [OF t(2)] I(2) by simp
  then have "chunk_blocks c s' (insert (pos, ?k * SHM_PAGE_SIZE) A)"
    unfolding chunk_blocks_def using t(4) b by (intro exI [of _ "P(False := ys)"]) auto
  ultimately show ?thesis using pages_for_size(4) [OF len] len(1) unat_gt_0 by blast
qed

lemma page_back:
  assumes "p < 256"
  shows "(ucast (page c p - c) :: u32) = word_of_nat (p * SHM_PAGE_SIZE)"
proof -
  have "unat (word_of_nat (p * 4096) :: u64) = p * 4096" by (rule unat_of_nat_small) (use assms in simp)
  moreover have "unat (word_of_nat (p * 4096) :: u32) = p * 4096" by (rule unat_of_nat_small) (use assms in simp)
  ultimately show ?thesis using assms
    by (simp add: page_def word_unat_eq_iff unsigned_ucast_eq take_bit_nat_eq_self del: of_nat_mult)
qed

lemma chunk_give:
  assumes "chunk_blocks c s A" and b: "(pos, n) \<in> A"
  shows "\<exists>s'. release_page c s pos = Inr s' \<and> chunk_blocks c s' (A - {(pos, n)})"
proof -
  from assms(1) obtain P E X where I: "medium_inv s P E X" "c \<in> set (P False)" "A = medium_blocks {c} E"
    by (auto simp: chunk_blocks_def)
  obtain p k where p: "pos = page c p" "n = k * SHM_PAGE_SIZE" "(p, k) \<in> useds 1 (E c)"
    using b unfolding I(3) medium_blocks_def by auto
  note M = medium_used_range [OF I(1,2) p(3)]
  obtain as bs where e: "E c = as @ (k, True) # bs" "p = Suc (page_sum as)" using useds_split [OF p(3)] by auto
  obtain s' ys zs d where f: "free_chunk_medium s c (word_of_nat (p * SHM_PAGE_SIZE)) = Inr (s', d)" "mset ys = mset (P False)"
    "medium_inv s' (P(False := ys)) (E(c := free_extent as k bs)) (X(c := zs))"
    using free_medium_inv [OF I(1,2) e(1)] unfolding e(2) by blast
  have r: "release_page c s pos = Inr s'"
    using f(1) page_back [of p c] M(2,3) p(1) by (simp add: release_page_def)
  let ?f = "\<lambda>(q, n). (page c q, n * SHM_PAGE_SIZE)"
  have "inj_on ?f (useds 1 (E c))"
  proof (rule inj_onI)
    fix a b assume ab: "a \<in> useds 1 (E c)" "b \<in> useds 1 (E c)" "?f a = ?f b"
    obtain q i r j where "a = (q, i)" "b = (r, j)" by (cases a; cases b)
    then show "a = b"
      using ab page_inject [OF M(4,4), of q r] medium_used_range(2,3) [OF I(1,2), of q i] medium_used_range(2,3) [OF I(1,2), of r j]
      by auto
  qed
  moreover have "useds 1 (free_extent as k bs) = useds 1 (E c) - {(p, k)}"
    using useds_free [of as k bs 1] M(6) e by simp
  ultimately have "?f ` useds 1 (free_extent as k bs) = ?f ` useds 1 (E c) - {?f (p, k)}"
    using p(3) by (simp add: inj_on_image_set_diff [of ?f "useds 1 (E c)"])
  then have "medium_blocks {c} (E(c := free_extent as k bs)) = A - {(pos, n)}"
    unfolding I(3) p(1,2) chunk_blocks_image by simp
  moreover have "c \<in> set ys" using mset_eq_setD [OF f(2)] I(2) by simp
  ultimately have "chunk_blocks c s' (A - {(pos, n)})"
    unfolding chunk_blocks_def using f(3) by (intro exI [of _ "P(False := ys)"]) auto
  then show ?thesis using r by blast
qed

interpretation page_heap: block_heap "chunk_blocks c" "\<lambda>s len. malloc_chunk_medium s c len" "release_page c" "\<lambda>pos. False"
  unat "\<lambda>s len. len \<noteq> 0 \<and> unat len \<le> 255 * SHM_PAGE_SIZE" "\<lambda>s pos len. True" apart for c
proof
  fix s A a b assume "chunk_blocks c s A" and ab: "a \<in> A" "b \<in> A" "a \<noteq> b"
  then obtain P E X where I: "medium_inv s P E X" "c \<in> set (P False)" "A = medium_blocks {c} E"
    by (auto simp: chunk_blocks_def)
  then have "a \<in> medium_blocks (set (P False)) E" "b \<in> medium_blocks (set (P False)) E"
    using ab(1,2) by (auto simp: medium_blocks_def)
  then show "apart a b" using medium_blocks_apart [OF I(1)] ab(3) by blast
qed (use chunk_take chunk_give in \<open>auto simp: apart_def\<close>)

section \<open>Four calls that abort\<close>

lemma take_fresh:
  assumes "extent_taken [(255, False)] [1] 1 es xs p"
  shows "es = [(1, True), (254, False)]" "xs = [2]" "p = 1"
proof -
  obtain as n bs where "[(255, False)] = as @ (n, False) # bs" "p = Suc (page_sum as)" "es = take_extent as n 1 bs"
    "(\<forall>(q, m) \<in> frees 1 [(255, False)]. m \<noteq> n - 1) \<longrightarrow> xs = take_order n (word_of_nat 1) 1 []"
    using assms unfolding extent_taken_def by blast
  then show "es = [(1, True), (254, False)]" "xs = [2]" "p = 1"
    by (simp_all add: Cons_eq_append_conv take_extent_def take_order_def)
qed

lemma take_second:
  assumes "extent_taken [(1, True), (254, False)] [2] 1 es xs p"
  shows "es = [(1, True), (1, True), (253, False)]" "xs = [3]" "p = 2"
proof -
  obtain as n bs where t: "[(1, True), (254, False)] = as @ (n, False) # bs" "p = Suc (page_sum as)"
    "es = take_extent as n 1 bs"
    "(\<forall>(q, m) \<in> frees 1 [(1, True), (254, False)]. m \<noteq> n - 1) \<longrightarrow> xs = take_order n (word_of_nat 1) 2 []"
    using assms unfolding extent_taken_def by blast
  have "as = [(1, True)]" "n = 254" "bs = []" using t(1) by (auto simp: Cons_eq_append_conv)
  with t show "es = [(1, True), (1, True), (253, False)]" "xs = [3]" "p = 2"
    by (simp_all add: take_extent_def take_order_def)
qed

lemma give_first:
  assumes "extent_given [(1, True), (1, True), (253, False)] [3] 1 es xs"
  shows "es = [(1, False), (1, True), (253, False)]" "xs = [1, 3]"
proof -
  let ?es = "[(1, True), (1, True), (253, False)] :: extent list"
  obtain as n bs where t: "?es = as @ (n, True) # bs" "1 = Suc (page_sum as)" "es = free_extent as n bs"
    "(\<forall>(q, m) \<in> frees 1 ?es. m \<noteq> last_free as + n + hd_free bs) \<longrightarrow> xs = free_order as n bs [3]"
    using assms unfolding extent_given_def by blast
  have a: "as = []" using t(1,2) by (cases as) auto
  have "n = 1" "bs = [(1, True), (253, False)]" using t(1) unfolding a by auto
  with t a show "es = [(1, False), (1, True), (253, False)]" "xs = [1, 3]"
    by (simp_all add: free_extent_def free_order_def last_free_def hd_free_def drop_last_free_def drop_hd_free_def)
qed

lemma four_calls:
  assumes inv: "medium_inv s P E X" and c: "c \<in> set (P False)" and e: "E c = [(255, False)]" "X c = [1]"
  shows "\<exists>s1 s2 s3 P' E' X'. malloc_chunk_medium s c 4096 = Inr (s1, page c 1)
    \<and> malloc_chunk_medium s1 c 4096 = Inr (s2, page c 2) \<and> free_chunk_medium s2 c 4096 = Inr (s3, False)
    \<and> medium_inv s3 P' E' X' \<and> E' c = [(1, False), (1, True), (253, False)]
    \<and> malloc_chunk_medium s3 c 8192 = Inl AssertFail"
proof -
  have k: "pages_for (unat (4096 :: u64)) = 1" "pages_for (unat (8192 :: u64)) = 2"
    by (simp_all add: pages_for_def)
  have l: "(4096 :: u64) \<noteq> 0" "unat (4096 :: u64) \<le> 255 * SHM_PAGE_SIZE" "(8192 :: u64) \<noteq> 0"
    "unat (8192 :: u64) \<le> 255 * SHM_PAGE_SIZE" by simp_all
  have f: "\<not> first_too_small [(255, False)] [1] 1" "\<not> first_too_small [(1, True), (254, False)] [2] 1"
    "first_too_small [(1, False), (1, True), (253, False)] [1, 3] 2"
    by (simp_all add: first_too_small_def)
  obtain s1 ys1 es1 xs1 p1 where 1: "malloc_chunk_medium s c 4096 = Inr (s1, page c p1)" "mset ys1 = mset (P False)"
    "extent_taken [(255, False)] [1] 1 es1 xs1 p1"
    "medium_inv s1 (P(False := ys1)) (E(c := es1)) (X(c := xs1))"
    using malloc_medium_steps [OF inv c l(1,2), unfolded e k(1)] f(1) by (simp only: if_False) blast
  note t1 = take_fresh [OF 1(3)]
  have c1: "c \<in> set ((P(False := ys1)) False)" using c mset_eq_setD [OF 1(2)] by simp
  have x1: "(E(c := es1)) c = [(1, True), (254, False)]" "(X(c := xs1)) c = [2]" using t1 by simp_all
  obtain s2 ys2 es2 xs2 p2 where 2: "malloc_chunk_medium s1 c 4096 = Inr (s2, page c p2)"
    "mset ys2 = mset ((P(False := ys1)) False)" "extent_taken [(1, True), (254, False)] [2] 1 es2 xs2 p2"
    "medium_inv s2 (P(False := ys1, False := ys2)) (E(c := es1, c := es2)) (X(c := xs1, c := xs2))"
    using malloc_medium_steps [OF 1(4) c1 l(1,2), unfolded x1 k(1)] f(2) by (simp only: if_False) blast
  note t2 = take_second [OF 2(3)]
  have c2: "c \<in> set ((P(False := ys1, False := ys2)) False)" using c1 mset_eq_setD [OF 2(2)] by simp
  have x2: "(E(c := es1, c := es2)) c = [(1, True), (1, True), (253, False)]" "(X(c := xs1, c := xs2)) c = [3]"
    using t2 by simp_all
  have o: "unat (4096 :: u32) < 2 ^ 28" "unat (4096 :: u32) mod SHM_PAGE_SIZE = 0 \<and>
      unat (4096 :: u32) div SHM_PAGE_SIZE \<in> heads (\<lambda>u. u) 1 [(1, True), (1, True), (253, False)]"
    "unat (4096 :: u32) div SHM_PAGE_SIZE = 1" by simp_all
  obtain s3 ys3 es3 xs3 where 3: "free_chunk_medium s2 c 4096 = Inr (s3, es3 = [(255, False)])"
    "mset ys3 = mset ((P(False := ys1, False := ys2)) False)"
    "extent_given [(1, True), (1, True), (253, False)] [3] 1 es3 xs3"
    "medium_inv s3 (P(False := ys1, False := ys2, False := ys3)) (E(c := es1, c := es2, c := es3))
      (X(c := xs1, c := xs2, c := xs3))"
    using free_medium_steps [OF 2(4) c2 o(1), unfolded x2] o(2,3) by (simp only: if_True simp_thms) blast
  note t3 = give_first [OF 3(3)]
  have c3: "c \<in> set ((P(False := ys1, False := ys2, False := ys3)) False)"
    using c2 mset_eq_setD [OF 3(2)] by simp
  have x3: "(E(c := es1, c := es2, c := es3)) c = [(1, False), (1, True), (253, False)]"
    "(X(c := xs1, c := xs2, c := xs3)) c = [1, 3]" using t3 by simp_all
  have "malloc_chunk_medium s3 c 8192 = Inl AssertFail"
    using malloc_medium_steps [OF 3(4) c3 l(3,4), unfolded x3 k(2)] f(3) by (simp only: if_True)
  moreover have "free_chunk_medium s2 c 4096 = Inr (s3, False)" using 3(1) t3(1) by simp
  ultimately show ?thesis using 1(1) 2(1) 3(4) x3(1) t1(3) t2(3) by blast
qed

text \<open>C13: two pages are allocated from a fresh medium chunk and the first is released: now a request
  for two pages fails on the assertion, although 253 pages in a row are free, because the search
  returns the one page that was released last. The comparison of the tree does not order it by
  size.\<close>

theorem medium_four_calls_abort:
  assumes "medium_inv s P E X" and "c \<in> set (P False)" and "E c = [(255, False)]" and "X c = [1]"
  shows "\<exists>s1 s2 s3 P' E' X'. malloc_chunk_medium s c 4096 = Inr (s1, page c 1)
    \<and> malloc_chunk_medium s1 c 4096 = Inr (s2, page c 2) \<and> free_chunk_medium s2 c 4096 = Inr (s3, False)
    \<and> medium_inv s3 P' E' X' \<and> E' c = [(1, False), (1, True), (253, False)]
    \<and> malloc_chunk_medium s3 c 8192 = Inl AssertFail"
  using assms by (rule four_calls)

section \<open>A concrete chunk\<close>

text \<open>The first medium chunk of the system of \<open>Shm_Demo\<close>.\<close>

lemma demo_medium:
  obtains S :: "unit sys" and c P E X where "new_chunk demo_os demo_sys CHUNK_TYPE_MEDIUM = Inr (S, Some c)"
    "medium_inv (sy_mem S) P E X" "c \<in> set (P False)" "E c = [(255, False)]" "X c = [1]"
proof -
  have t: "CHUNK_TYPE_MEDIUM = CHUNK_TYPE_SMALL \<or> CHUNK_TYPE_MEDIUM = (CHUNK_TYPE_MEDIUM :: u32)"
    "False = (CHUNK_TYPE_MEDIUM = (CHUNK_TYPE_SMALL :: u32))" by simp_all
  obtain S' :: "unit sys" and c xs where n: "new_chunk demo_os demo_sys CHUNK_TYPE_MEDIUM = Inr (S', Some c)"
    "mset xs = add_mset c (mset (no_pools False))"
    "sys_inv S' (no_pools(False := xs)) no_runs no_free (made False c [(255, False)] no_extents) (made False c [1] no_nodes)"
    using new_chunk_ok [OF demo_inv(1) t, of demo_os] demo_inv(3) by blast
  have "medium_inv (sy_mem S') (no_pools(False := xs)) (no_extents(c := [(255, False)])) (no_nodes(c := [1]))"
    using n(3) by (simp add: sys_inv_def heap_inv_def made_def)
  moreover have "c \<in> set xs" using mset_eq_setD [of xs "c # no_pools False"] n(2) by simp
  ultimately show thesis using that n(1) by fastforce
qed

lemma demo_taken:
  obtains S :: "unit sys" and c s P E X where "new_chunk demo_os demo_sys CHUNK_TYPE_MEDIUM = Inr (S, Some c)"
    "malloc_chunk_medium (sy_mem S) c 4096 = Inr (s, page c 1)"
    "medium_inv s P E X" "c \<in> set (P False)" "E c = [(1, True), (254, False)]"
proof -
  obtain S :: "unit sys" and c P E X where d: "new_chunk demo_os demo_sys CHUNK_TYPE_MEDIUM = Inr (S, Some c)"
    "medium_inv (sy_mem S) P E X" "c \<in> set (P False)" "E c = [(255, False)]" "X c = [1]" by (rule demo_medium)
  have k: "pages_for (unat (4096 :: u64)) = 1" by (simp add: pages_for_def)
  have l: "(4096 :: u64) \<noteq> 0" "unat (4096 :: u64) \<le> 255 * SHM_PAGE_SIZE" by simp_all
  have f: "\<not> first_too_small [(255, False)] [1] 1" by (simp add: first_too_small_def)
  obtain s1 ys1 es1 xs1 p1 where m: "malloc_chunk_medium (sy_mem S) c 4096 = Inr (s1, page c p1)" "mset ys1 = mset (P False)"
    "extent_taken [(255, False)] [1] 1 es1 xs1 p1"
    "medium_inv s1 (P(False := ys1)) (E(c := es1)) (X(c := xs1))"
    using malloc_medium_steps [OF d(2,3) l, unfolded d(4,5) k] f by (simp only: if_False) blast
  note t = take_fresh [OF m(3)]
  have "c \<in> set ys1" using d(3) mset_eq_setD [OF m(2)] by simp
  then show thesis using that [OF d(1) _ m(4)] m(1) t by simp
qed

theorem malloc_chunk_medium_refines_witness:
  "\<exists>(S :: unit sys) c s. new_chunk demo_os demo_sys CHUNK_TYPE_MEDIUM = Inr (S, Some c)
    \<and> malloc_chunk_medium (sy_mem S) c 4096 = Inr (s, page c 1)"
proof -
  obtain S :: "unit sys" and c P E X where d: "new_chunk demo_os demo_sys CHUNK_TYPE_MEDIUM = Inr (S, Some c)"
    "medium_inv (sy_mem S) P E X" "c \<in> set (P False)" "E c = [(255, False)]" "X c = [1]" by (rule demo_medium)
  have l: "(4096 :: u64) \<noteq> 0" "unat (4096 :: u64) \<le> 255 * SHM_PAGE_SIZE" by simp_all
  have k: "pages_for (unat (4096 :: u64)) = 1" by (simp add: pages_for_def)
  have f: "\<not> first_too_small [(255, False)] [1] 1" by (simp add: first_too_small_def)
  obtain s es xs p where m: "malloc_chunk_medium (sy_mem S) c 4096 = Inr (s, page c p)"
    "extent_taken [(255, False)] [1] 1 es xs p"
    using malloc_chunk_medium_refines [OF d(2,3) l, unfolded d(4,5) k] f by (simp only: if_False) blast
  show ?thesis using d(1) m(1) take_fresh(3) [OF m(2)] by blast
qed

theorem free_chunk_medium_refines_witness:
  "\<exists>(S :: unit sys) c s s'. new_chunk demo_os demo_sys CHUNK_TYPE_MEDIUM = Inr (S, Some c)
    \<and> malloc_chunk_medium (sy_mem S) c 4096 = Inr (s, page c 1)
    \<and> free_chunk_medium s c 4096 = Inr (s', True)"
proof -
  obtain S :: "unit sys" and c s P E X where d: "new_chunk demo_os demo_sys CHUNK_TYPE_MEDIUM = Inr (S, Some c)"
    "malloc_chunk_medium (sy_mem S) c 4096 = Inr (s, page c 1)"
    "medium_inv s P E X" "c \<in> set (P False)" "E c = [(1, True), (254, False)]" by (rule demo_taken)
  have o: "unat (4096 :: u32) < 2 ^ 28" "unat (4096 :: u32) mod SHM_PAGE_SIZE = 0 \<and>
      unat (4096 :: u32) div SHM_PAGE_SIZE \<in> heads (\<lambda>u. u) 1 [(1, True), (254, False)]"
    "unat (4096 :: u32) div SHM_PAGE_SIZE = 1" by simp_all
  obtain s' ys es xs where f: "free_chunk_medium s c 4096 = Inr (s', es = [(255, False)])"
    "extent_given [(1, True), (254, False)] (X c) 1 es xs"
    using free_chunk_medium_refines [OF d(3,4) o(1), unfolded d(5)] o(2,3) by (simp only: if_True simp_thms) blast
  obtain as n bs where t: "[(1, True), (254, False)] = as @ (n, True) # bs" "es = free_extent as n bs"
    using f(2) unfolding extent_given_def by blast
  have "as = []" "n = 1" "bs = [(254, False)]" using t(1) by (auto simp: Cons_eq_append_conv)
  then have "es = [(255, False)]"
    using t(2) by (simp add: free_extent_def last_free_def hd_free_def drop_last_free_def drop_hd_free_def)
  then show ?thesis using d(1,2) f(1) by auto
qed

theorem medium_four_calls_abort_witness:
  "\<exists>(S :: unit sys) c s1 s2 s3. new_chunk demo_os demo_sys CHUNK_TYPE_MEDIUM = Inr (S, Some c)
    \<and> malloc_chunk_medium (sy_mem S) c 4096 = Inr (s1, page c 1)
    \<and> malloc_chunk_medium s1 c 4096 = Inr (s2, page c 2)
    \<and> free_chunk_medium s2 c 4096 = Inr (s3, False) \<and> malloc_chunk_medium s3 c 8192 = Inl AssertFail"
proof -
  obtain S :: "unit sys" and c P E X where d: "new_chunk demo_os demo_sys CHUNK_TYPE_MEDIUM = Inr (S, Some c)"
    "medium_inv (sy_mem S) P E X" "c \<in> set (P False)" "E c = [(255, False)]" "X c = [1]" by (rule demo_medium)
  show ?thesis using medium_four_calls_abort [OF d(2-5)] d(1) by blast
qed

section \<open>The choice of a chunk\<close>

text \<open>C20: \<open>get_avaliable_chunk\<close> returns a chunk of the right pool whose recorded size is
  enough, for small chunks any chunk with a free page, and none only if no chunk of the pool is
  large enough; it writes nothing.\<close>

theorem get_avaliable_chunk_correct:
  assumes "cpools s P" and "unat sz < 2 ^ 31"
  shows "\<exists>r. get_avaliable_chunk s type sz = Inr r \<and> (let b = (type = CHUNK_TYPE_SMALL);
      m = (if b then 1 else unat sz) in case r of
      None \<Rightarrow> \<forall>c \<in> set (P b). unat (cv_maxsize (rb_v (chunk_nodes s c))) < m
    | Some c \<Rightarrow> c \<in> set (P b) \<and> m \<le> unat (cv_maxsize (rb_v (chunk_nodes s c))))"
  unfolding Let_def using get_avaliable_ok [OF assms refl refl] .

theorem get_avaliable_chunk_correct_witness:
  "\<exists>(S :: unit sys) c r. new_chunk demo_os demo_sys CHUNK_TYPE_MEDIUM = Inr (S, Some c)
    \<and> get_avaliable_chunk (sy_mem S) CHUNK_TYPE_MEDIUM 1000000 = Inr r
    \<and> (case r of None \<Rightarrow> unat (cv_maxsize (rb_v (chunk_nodes (sy_mem S) c))) < 1000000
        | Some c' \<Rightarrow> 1000000 \<le> unat (cv_maxsize (rb_v (chunk_nodes (sy_mem S) c'))))"
proof -
  obtain S :: "unit sys" and c P E X where d: "new_chunk demo_os demo_sys CHUNK_TYPE_MEDIUM = Inr (S, Some c)"
    "medium_inv (sy_mem S) P E X" "c \<in> set (P False)" "E c = [(255, False)]" "X c = [1]" by (rule demo_medium)
  have P: "cpools (sy_mem S) P" using d(2) by (simp add: medium_inv_def)
  have "unat (1000000 :: u64) < 2 ^ 31" "unat (1000000 :: u64) = 1000000" "CHUNK_TYPE_MEDIUM \<noteq> (CHUNK_TYPE_SMALL :: u32)"
    by simp_all
  then show ?thesis
    using get_avaliable_chunk_correct [OF P, of 1000000 CHUNK_TYPE_MEDIUM] d(1,3) by (fastforce simp: Let_def split: option.splits)
qed

end
