(* ===== verification/Arena_Table.thy ===== *)
theory Arena_Table
  imports Client
begin

text \<open>
  The table of arenas of \<open>src/shm_context.c\<close>: an entry stays well-formed when a chunk is cut from
  its arena and when one is given back, and giving back undoes the cut. \<open>arena_ok\<close> is the type of
  an entry: its tag, its own index, the position in every slot and the count of the slots in use.
\<close>

section \<open>Cutting and giving back a chunk\<close>

lemma delete_slot:
  assumes "i < 128" "length (ar_chunks a) = 8" "j < 8" "ar_chunks a ! j \<noteq> 0"
  shows "delete_arena_chunk a (chunk_slot i j) = Inr (put_slot a j 0 (ar_used a - 1))"
proof -
  have "unat (pos2offset (chunk_slot i j) div SHM_CHUNK_UNIT_SIZE) = j"
    using chunk_slot_parts(2) [of i j] unat_slot_offset [OF assms(3)] by (simp add: unat_div)
  then show ?thesis using assms by (simp add: delete_arena_chunk_def Let_def)
qed

lemma cut_and_back:
  assumes ok: "arena_ok a i" "chunked a" and i: "i < 128"
  shows "case new_arena_chunk a of (a', pos) \<Rightarrow>
    if pos = 0 then a' = a \<and> (\<forall>j < 8. ar_chunks a ! j \<noteq> 0)
    else arena_ok a' i \<and> (\<exists>j < 8. pos = chunk_slot i j \<and> ar_chunks a ! j = 0)
      \<and> unat (ar_used a') = unat (ar_used a) + 1 \<and> delete_arena_chunk a' pos = Inr a"
  using new_arena_chunk_cases [OF ok i]
proof (elim disjE exE conjE)
  fix j assume j: "j < 8" "(i, j) \<noteq> (0, 0)" "ar_chunks a ! j = 0"
    and n: "new_arena_chunk a = (put_slot a j (chunk_slot i j) (ar_used a + 1), chunk_slot i j)"
  note A = arena_okD [OF ok(1)]
  let ?a = "put_slot a j (chunk_slot i j) (ar_used a + 1)"
  have nz: "chunk_slot i j \<noteq> 0" using chunk_slot_nonzero [OF i j(1,2)] .
  have "delete_arena_chunk ?a (chunk_slot i j) = Inr (put_slot ?a j 0 (ar_used ?a - 1))"
    by (rule delete_slot [OF i]) (use A(1) j(1) nz in simp_all)
  moreover have "(ar_chunks a)[j := 0] = ar_chunks a" using j(3) by (metis list_update_id)
  ultimately have "delete_arena_chunk ?a (chunk_slot i j) = Inr a" by simp
  moreover have "unat (ar_used a + 1) = unat (ar_used a) + 1"
    using A(7) [OF ok(2)] slots_le [of "\<lambda>k. ar_chunks a ! k \<noteq> 0"] by (simp add: unat_word_ariths)
  ultimately show ?thesis unfolding n using nz j arena_ok_take [OF ok i j] by auto
qed simp

text \<open>C16: an entry of the table for an arena of chunks keeps its type: \<open>new_arena_chunk\<close> returns 0
  only if every slot is taken, and otherwise the position of a slot that was free, in an entry that is
  well-formed again; \<open>delete_arena_chunk\<close> of that position restores the old entry, and of any
  chunk of the arena leaves a well-formed entry.\<close>

theorem arena_entry_typed:
  assumes "arena_ok a i" and "chunked a" and "i < 128"
  shows "(case new_arena_chunk a of (a', pos) \<Rightarrow>
      if pos = 0 then a' = a \<and> (\<forall>j < 8. ar_chunks a ! j \<noteq> 0)
      else arena_ok a' i \<and> (\<exists>j < 8. pos = chunk_slot i j \<and> ar_chunks a ! j = 0)
        \<and> unat (ar_used a') = unat (ar_used a) + 1 \<and> delete_arena_chunk a' pos = Inr a)
    \<and> (\<forall>j < 8. (i, j) \<noteq> (0, 0) \<and> ar_chunks a ! j \<noteq> 0 \<longrightarrow>
        (\<exists>a'. delete_arena_chunk a (chunk_slot i j) = Inr a' \<and> arena_ok a' i))"
  using cut_and_back [OF assms] arena_ok_drop [OF assms(1,2)] delete_slot [OF assms(3) arena_okD(1) [OF assms(1)]]
  by blast

theorem arena_entry_typed_witness:
  "\<exists>a' j. new_arena_chunk (fresh_arena ARENA_TYPE_CHUNK 7 1 SHM_ARENA_UNIT_SIZE) = (a', chunk_slot 1 j)
    \<and> arena_ok a' 1 \<and> delete_arena_chunk a' (chunk_slot 1 j) = Inr (fresh_arena ARENA_TYPE_CHUNK 7 1 SHM_ARENA_UNIT_SIZE)"
proof -
  let ?a = "fresh_arena ARENA_TYPE_CHUNK 7 1 SHM_ARENA_UNIT_SIZE"
  have z: "replicate 8 (0 :: u64) ! j = 0" if "j < 8" for j using that by (rule nth_replicate)
  have ok: "arena_ok ?a 1" using z by (simp add: fresh_arena_def arena_ok_def del: replicate.simps)
  have c: "chunked ?a" by (simp add: fresh_arena_def)
  have "ar_chunks ?a ! 1 = 0" using z [of 1] by (simp add: fresh_arena_def del: replicate.simps)
  moreover have "(1 :: nat) < 8" by simp
  ultimately have "\<not> (\<forall>j < 8. ar_chunks ?a ! j \<noteq> 0)" by blast
  moreover obtain a' pos where n: "new_arena_chunk ?a = (a', pos)" by (cases "new_arena_chunk ?a")
  ultimately show ?thesis using arena_entry_typed [OF ok c] unfolding n by (auto split: if_splits)
qed

end
