(* ===== verification/Example.thy ===== *)
theory Example
  imports Client
begin

text \<open>
  The program \<open>src/example/main.c\<close>: the first process allocates 2052 blocks and keeps their
  positions in a block it names in the user data of the context; a later process finds it there and
  reads the small blocks. The program stops at \<open>exit\<close>, and \<open>getchar\<close> lets other
  processes change the shared memory.
\<close>

section \<open>Programs that print and exit\<close>

text \<open>A format string, without its line end, and its arguments.\<close>

datatype print_out = Print string "u64 list"

text \<open>A program maps the system and its output to a new system, more output, and a result, or
  \<open>None\<close> once it has called \<open>exit\<close>.\<close>

type_synonym ('w, 'a) prog = "'w sys \<times> print_out list \<Rightarrow> (('w sys \<times> print_out list) \<times> 'a option) res"

definition ret :: "'a \<Rightarrow> ('w, 'a) prog" where
  "ret x s = Inr (s, Some x)"

definition and_then :: "('w, 'a) prog \<Rightarrow> ('a \<Rightarrow> ('w, 'b) prog) \<Rightarrow> ('w, 'b) prog" where
  "and_then p k s = bind_r (p s) (\<lambda>(s, x). case x of None \<Rightarrow> Inr (s, None) | Some x \<Rightarrow> k x s)"

definition call :: "('w sys \<Rightarrow> ('w sys \<times> 'a) res) \<Rightarrow> ('w, 'a) prog" where
  "call f s = bind_r (f (fst s)) (\<lambda>(S, x). Inr ((S, snd s), Some x))"

definition call_void :: "('w sys \<Rightarrow> 'w sys res) \<Rightarrow> ('w, unit) prog" where
  "call_void f = call (\<lambda>S. bind_r (f S) (\<lambda>S. Inr (S, ())))"

definition printf :: "string \<Rightarrow> u64 list \<Rightarrow> ('w, unit) prog" where
  "printf fmt args s = Inr ((fst s, snd s @ [Print fmt args]), Some ())"

primrec for_each :: "nat list \<Rightarrow> (nat \<Rightarrow> ('w, unit) prog) \<Rightarrow> ('w, unit) prog" where
  "for_each [] body = ret ()"
| "for_each (i # is) body = and_then (body i) (\<lambda>_. for_each is body)"

section \<open>Reads and writes of words\<close>

text \<open>The 8 bytes at a position, the least significant first. A pointer that \<open>shm_get_addr\<close>
  returned leads to the bytes of the position it was asked for; \<open>NULL\<close> cannot be dereferenced.\<close>

definition store64 :: "u64 \<Rightarrow> u64 \<Rightarrow> shm_state \<Rightarrow> shm_state" where
  "store64 pos v = write_block pos 8 (\<lambda>p. ucast (drop_bit (8 * unat (p - pos)) v)) (ucast v)"

definition load64 :: "shm_state \<Rightarrow> u64 \<Rightarrow> u64" where
  "load64 s pos = foldr (\<lambda>k v. ucast (user_bytes s (pos + word_of_nat k)) + 256 * v) [0..<8] 0"

definition write64 :: "u64 option \<Rightarrow> u64 \<Rightarrow> u64 \<Rightarrow> 'w sys \<Rightarrow> 'w sys res" where
  "write64 a pos v S = (if a = None then Inl NullDeref else Inr (S\<lparr>sy_mem := store64 pos v (sy_mem S)\<rparr>))"

definition read64 :: "u64 option \<Rightarrow> u64 \<Rightarrow> 'w sys \<Rightarrow> ('w sys \<times> u64) res" where
  "read64 a pos S = (if a = None then Inl NullDeref else Inr (S, load64 (sy_mem S) pos))"

section \<open>The program\<close>

abbreviation (input) SMALL_TEST_SIZE :: nat where "SMALL_TEST_SIZE \<equiv> 1024"
abbreviation (input) MEDIUM_TEST_SIZE :: nat where "MEDIUM_TEST_SIZE \<equiv> 1024"
abbreviation (input) LARGE_TEST_SIZE :: nat where "LARGE_TEST_SIZE \<equiv> 4"

text \<open>\<open>struct memory_info\<close>: the positions of its entries, and its size.\<close>

definition info_small :: "u64 \<Rightarrow> nat \<Rightarrow> u64" where
  "info_small info i = info + word_of_nat (8 * i)"

definition info_medium :: "u64 \<Rightarrow> nat \<Rightarrow> u64" where
  "info_medium info i = info + word_of_nat (8 * (SMALL_TEST_SIZE + i))"

definition info_large :: "u64 \<Rightarrow> nat \<Rightarrow> u64" where
  "info_large info i = info + word_of_nat (8 * (SMALL_TEST_SIZE + MEDIUM_TEST_SIZE + i))"

definition memory_info_size :: u64 where
  "memory_info_size = word_of_nat (8 * (SMALL_TEST_SIZE + MEDIUM_TEST_SIZE + LARGE_TEST_SIZE))"

definition check_exit :: "bool \<Rightarrow> string \<Rightarrow> ('w, unit) prog" where
  "check_exit r msg s = (if r then Inr ((fst s, snd s @ [Print msg []]), None) else Inr (s, Some ()))"

text \<open>The body of the three loops of \<open>malloc_test\<close>: a block of \<open>sz\<close> bytes, its position
  stored in the entry, and \<open>i\<close> stored in the block.\<close>

definition take_entry :: "'w os \<Rightarrow> u64 option \<Rightarrow> u64 \<Rightarrow> string \<Rightarrow> u64 \<Rightarrow> nat \<Rightarrow> ('w, unit) prog" where
  "take_entry os info entry msg sz i =
     and_then (call (\<lambda>S. shm_malloc os S sz)) (\<lambda>p.
     and_then (check_exit (p = 0) msg) (\<lambda>_.
     and_then (call_void (write64 info entry p)) (\<lambda>_.
     and_then (call (\<lambda>S. shm_get_addr os S p)) (\<lambda>a.
     call_void (write64 a p (word_of_nat i))))))"

definition malloc_test :: "'w os \<Rightarrow> ('w, u64) prog" where
  "malloc_test os =
     and_then (call (\<lambda>S. shm_malloc os S memory_info_size)) (\<lambda>info_pos.
     and_then (check_exit (info_pos = 0) ''shm malloc error'') (\<lambda>_.
     and_then (call (\<lambda>S. shm_get_addr os S info_pos)) (\<lambda>info.
     and_then (printf ''shm malloc %lx %p'' [info_pos, case info of None \<Rightarrow> 0 | Some a \<Rightarrow> a]) (\<lambda>_.
     and_then (for_each [0..<SMALL_TEST_SIZE] (\<lambda>i.
       take_entry os info (info_small info_pos i) ''shm malloc small error''
         (if i < 256 then 8 else word_of_nat (64 * (i div 32))) i)) (\<lambda>_.
     and_then (for_each [0..<MEDIUM_TEST_SIZE] (\<lambda>i.
       take_entry os info (info_medium info_pos i) ''shm malloc medium error''
         (word_of_nat ((i div 64 + 1) * 4096)) i)) (\<lambda>_.
     and_then (for_each [0..<LARGE_TEST_SIZE] (\<lambda>i.
       take_entry os info (info_large info_pos i) ''shm malloc large error''
         (word_of_nat ((i + 1) * 1024 * 1024)) i)) (\<lambda>_.
     ret info_pos)))))))"

definition free_entry :: "'w os \<Rightarrow> u64 option \<Rightarrow> u64 \<Rightarrow> ('w, unit) prog" where
  "free_entry os info entry = and_then (call (read64 info entry)) (\<lambda>p. call_void (\<lambda>S. shm_free os S p))"

definition free_test :: "'w os \<Rightarrow> u64 \<Rightarrow> ('w, unit) prog" where
  "free_test os info_pos =
     and_then (call (\<lambda>S. shm_get_addr os S info_pos)) (\<lambda>info.
     and_then (printf ''shm free %lx %p'' [info_pos, case info of None \<Rightarrow> 0 | Some a \<Rightarrow> a]) (\<lambda>_.
     and_then (for_each [0..<SMALL_TEST_SIZE] (\<lambda>i. free_entry os info (info_small info_pos i))) (\<lambda>_.
     and_then (for_each [0..<MEDIUM_TEST_SIZE] (\<lambda>i. free_entry os info (info_medium info_pos i))) (\<lambda>_.
     and_then (for_each [0..<LARGE_TEST_SIZE] (\<lambda>i. free_entry os info (info_large info_pos i))) (\<lambda>_.
     call_void (\<lambda>S. shm_free os S info_pos))))))"

text \<open>The loop of \<open>read_test\<close> from entry \<open>i\<close> on, with \<open>n\<close> entries left; its result is the
  value of \<open>i\<close> after the loop, which \<open>break\<close> may leave early.\<close>

primrec read_loop :: "'w os \<Rightarrow> u64 option \<Rightarrow> u64 \<Rightarrow> nat \<Rightarrow> nat \<Rightarrow> ('w, nat) prog" where
  "read_loop os info info_pos i 0 = ret i"
| "read_loop os info info_pos i (Suc n) =
     and_then (call (read64 info (info_small info_pos i))) (\<lambda>pos.
     and_then (call (\<lambda>S. shm_get_addr os S pos)) (\<lambda>p.
     and_then (check_exit (p = None) ''shm read error'') (\<lambda>_.
     and_then (call (read64 p pos)) (\<lambda>v.
     if v \<noteq> word_of_nat i then and_then (printf ''read %ld error'' [word_of_nat i]) (\<lambda>_. ret i)
     else read_loop os info info_pos (Suc i) n))))"

definition read_test :: "'w os \<Rightarrow> u64 \<Rightarrow> ('w, unit) prog" where
  "read_test os info_pos =
     and_then (call (\<lambda>S. shm_get_addr os S info_pos)) (\<lambda>info.
     and_then (check_exit (info = None) ''shm reader get addr error'') (\<lambda>_.
     and_then (printf ''shm read %lx %p'' [info_pos, case info of None \<Rightarrow> 0 | Some a \<Rightarrow> a]) (\<lambda>_.
     and_then (read_loop os info info_pos 0 SMALL_TEST_SIZE) (\<lambda>i.
     if i = 2048 then printf ''read shm success'' [] else ret ()))))"

text \<open>\<open>getchar\<close> is an argument: what other processes do meanwhile. The log, and with it the
  level that \<open>main\<close> sets, is not part of this output. At the end the handler that
  \<open>shm_init\<close> registered runs.\<close>

definition main_prog :: "nat \<Rightarrow> 'w os \<Rightarrow> ('w sys \<Rightarrow> 'w sys) \<Rightarrow> ('w, unit) prog" where
  "main_prog fuel os getchar =
     and_then (call (\<lambda>S. shm_init fuel os S ''/tmp/shm_example'' True)) (\<lambda>r.
     if r \<noteq> 0 then printf ''init shm error %d'' [word_of_int r]
     else and_then (call (\<lambda>S. bind_r (shm_get_userdata S) (\<lambda>d. Inr (S, d)))) (\<lambda>data.
       if data = 0
       then and_then (malloc_test os) (\<lambda>pos.
            and_then (call_void (\<lambda>S. shm_set_userdata S pos)) (\<lambda>_.
            and_then (call_void (\<lambda>S. Inr (getchar S))) (\<lambda>_.
            and_then (free_test os pos) (\<lambda>_.
            call_void (\<lambda>S. shm_set_userdata S 0)))))
       else and_then (read_test os data) (\<lambda>_. call_void (\<lambda>S. Inr (getchar S)))))"

definition example_main :: "nat \<Rightarrow> 'w os \<Rightarrow> ('w sys \<Rightarrow> 'w sys) \<Rightarrow> 'w sys \<Rightarrow> ('w sys \<times> print_out list) res" where
  "example_main fuel os getchar S =
     bind_r (main_prog fuel os getchar (S, [])) (\<lambda>((S, out), _). Inr (shm_exit os S, out))"

section \<open>What is never printed\<close>

text \<open>\<open>silent msg p\<close>: the program \<open>p\<close> does not print \<open>msg\<close>; \<open>yields p Q\<close>: its
  result has the property \<open>Q\<close>.\<close>

definition silent :: "print_out \<Rightarrow> ('w, 'a) prog \<Rightarrow> bool" where
  "silent msg p \<longleftrightarrow> (\<forall>s s' r. p s = Inr (s', r) \<longrightarrow> msg \<notin> set (snd s) \<longrightarrow> msg \<notin> set (snd s'))"

definition yields :: "('w, 'a) prog \<Rightarrow> ('a \<Rightarrow> bool) \<Rightarrow> bool" where
  "yields p Q \<longleftrightarrow> (\<forall>s s' x. p s = Inr (s', Some x) \<longrightarrow> Q x)"

named_theorems quiet

lemma silent_then:
  assumes "silent msg p" and "yields p Q" and "\<And>x. Q x \<Longrightarrow> silent msg (k x)"
  shows "silent msg (and_then p k)"
  unfolding silent_def
proof (intro allI impI)
  fix s s' r assume a: "and_then p k s = Inr (s', r)" "msg \<notin> set (snd s)"
  then obtain s1 x where p: "p s = Inr (s1, x)" by (auto simp: and_then_def bind_r_eq_Inr)
  then have m: "msg \<notin> set (snd s1)" using assms(1) a(2) unfolding silent_def by blast
  show "msg \<notin> set (snd s')"
  proof (cases x)
    case None
    then show ?thesis using a(1) p m by (simp add: and_then_def)
  next
    case (Some y)
    then have "Q y" using assms(2) p unfolding yields_def by blast
    moreover have "k y s1 = Inr (s', r)" using a(1) p Some by (simp add: and_then_def)
    ultimately show ?thesis using assms(3) m unfolding silent_def by blast
  qed
qed

lemma silent_and_then [quiet]: "silent msg p \<Longrightarrow> (\<And>x. silent msg (k x)) \<Longrightarrow> silent msg (and_then p k)"
  by (rule silent_then [of _ _ "\<lambda>_. True"]) (simp_all add: yields_def)

lemma silent_basic [quiet]:
  "silent msg (ret x)" "silent msg (call f)" "silent msg (call_void g)"
  "msg \<noteq> Print fmt args \<Longrightarrow> silent msg (printf fmt args)"
  "msg \<noteq> Print txt [] \<Longrightarrow> silent msg (check_exit b txt)"
  by (auto simp: silent_def ret_def call_void_def call_def printf_def check_exit_def bind_r_eq_Inr split: if_splits)

lemma silent_if [quiet]: "silent msg p \<Longrightarrow> silent msg q \<Longrightarrow> silent msg (if b then p else q)"
  by simp

lemma silent_for_each [quiet]: "(\<And>i. silent msg (body i)) \<Longrightarrow> silent msg (for_each is body)"
  by (induction "is") (simp_all add: silent_basic silent_and_then)

lemma yields_then: "(\<And>x. yields (k x) Q) \<Longrightarrow> yields (and_then p k) Q"
  unfolding yields_def and_then_def by (fastforce simp: bind_r_eq_Inr split: option.splits)

lemma yields_ret: "Q x \<Longrightarrow> yields (ret x) Q"
  by (simp add: yields_def ret_def)

lemma read_loop_bound: "yields (read_loop os info pos i n) (\<lambda>j. j \<le> i + n)"
proof (induction n arbitrary: i)
  case (Suc n)
  have "yields (read_loop os info pos (Suc i) n) (\<lambda>j. j \<le> i + Suc n)" using Suc.IH [of "Suc i"] by simp
  then show ?case unfolding read_loop.simps
    by (intro yields_then) (simp split: if_splits add: yields_then yields_ret)
qed (simp add: yields_ret)

lemma silent_read_loop [quiet]:
  assumes "\<And>args. msg \<noteq> Print ''read %ld error'' args" "msg \<noteq> Print ''shm read error'' []"
  shows "silent msg (read_loop os info pos i n)"
  by (induction n arbitrary: i) (use assms in \<open>auto intro!: quiet\<close>)

lemma silent_read_test: "silent (Print ''read shm success'' []) (read_test os pos)"
  unfolding read_test_def
  by (intro silent_and_then silent_basic silent_then [OF silent_read_loop read_loop_bound]) (auto intro!: quiet)

lemma silent_main: "silent (Print ''read shm success'' []) (main_prog fuel os getchar)"
  unfolding main_prog_def malloc_test_def free_test_def take_entry_def free_entry_def
  by (intro quiet silent_read_test) simp_all

text \<open>C39: the example never reports that its reader succeeded: the message is printed only if the loop
  over the 1024 entries ends with the counter at 2048. Neither process prints it, whatever the system
  does, whatever the shared memory holds and whatever other processes do meanwhile.\<close>

theorem example_never_reports_success:
  "case example_main fuel os getchar S of Inl e \<Rightarrow> True
    | Inr (S', out) \<Rightarrow> Print ''read shm success'' [] \<notin> set out"
  using silent_main [of fuel os getchar] unfolding silent_def example_main_def
  by (fastforce simp: bind_r_eq_Inr split: sum.splits)

end
