(* ===== verification/Spec2Isabelle.thy ===== *)
theory Spec2Isabelle
  imports RBTree_Query ShmTree Run Bitmap ShmType Process Stale_Links Medium_Refine Arena_Table Example
begin

text \<open>
  A model of shmmalloc, an allocator for memory that several processes share, and what holds of it.

  \<^bold>\<open>The program.\<close> Processes that name the same path attach the same System V segments. The first
  segment, arena 0, starts with the shared context (\<open>struct shm_shared_context\<close>): the table of
  128 arenas, a pool of runs for each of 14 size classes, and two trees of chunks. An arena is a
  segment of 8 MB that is cut into 8 chunks of 1 MB, or a larger one that is a single block. A chunk
  has a header page and 255 pages: a small chunk hands out its pages as runs of equal blocks, a
  medium chunk hands out extents of pages. A block is named by a 64-bit position: the index of its
  arena in the upper half, the offset in the lower half. \<open>shm_malloc\<close> dispatches on the size: up to
  1920 bytes to a run, up to 255 pages to a medium chunk, above that to a new arena.

  \<^bold>\<open>Theories and sources.\<close> In the order the code builds on itself:

  \<^item> Prelude: the word types, the faults that stop the program (a failed assertion, a null
    dereference, an access outside an object, a loop beyond its bound) and the results that carry
    them. Every \<open>assert\<close>, null test and early return of the code is a branch of the model.
  \<^item> Block_Heap: the locale \<open>block_heap\<close>, the contract of a layer that hands out blocks. Its
    interpretations are \<open>run_heap\<close> (Run), \<open>page_heap\<close> (Medium_Refine) and \<open>api\<close> (Client).
  \<^item> Bitmap: \<open>src/shm_util.h\<close> and \<open>src/builtin_wrapper.h\<close>; a bitmap is the list of its words.
  \<^item> ShmType: positions (\<open>src/shm_type.h\<close>) and the table of size classes (\<open>src/chunk_small.c\<close>).
  \<^item> RBTree: the template \<open>src/rbtree.h\<close> over a map from pointers to nodes, polymorphic in
    pointer and key; the null pointer is 0, as in every instance of the code. RBTree_Abs relates linked
    nodes to a tree and a path above it, RBTree_Inv holds the red-black invariant, RBTree_Insert,
    RBTree_Fix_Delete and RBTree_Delete the two updates, RBTree_Query the list view \<open>rb_rep\<close>,
    the traversals, and the locale \<open>rb_order\<close> of the comparison, interpreted in ShmState as
    \<open>chunk_order\<close>.
  \<^item> ShmTree: the leftist heap \<open>src/shm_tree.h\<close> and \<open>src/shm_tree.c\<close> over a map from positions
    to nodes; \<open>pool_rep\<close> is the set it holds. The locale \<open>min_pool\<close> is what small chunks ask of
    it, interpreted as \<open>tree_pool\<close>.
  \<^item> Run: the page of equal blocks of \<open>src/chunk_small.c\<close>, its free list stored in the blocks.
  \<^item> ShmState: the record \<open>shm_state\<close> of everything the segments hold: the fields of the context,
    the chunks, the runs and the nodes of both kinds by position, the bytes of the blocks.
  \<^item> ChunkSmall: the rest of \<open>src/chunk_small.c\<close>. ChunkMedium: \<open>src/chunk_medium.c\<close>, a chunk as
    a list of extents; ChunkMedium_Inv: the same inside the shared state.
  \<^item> ShmChunk: \<open>src/shm_chunk.c\<close>, both kinds of chunks and their pools.
  \<^item> ShmOp: \<open>src/shm_op_wrapper.c\<close> and \<open>src/shm_lock.c\<close> over a record of system calls.
  \<^item> ShmContext: \<open>src/shm_context.c\<close> and \<open>src/shm_malloc_inc.h\<close>. ShmMalloc: \<open>src/shm_malloc.c\<close>,
    \<open>src/shm_util.c\<close> and \<open>src/shm_logger.c\<close>. The record \<open>sys\<close> is one process with the
    shared state: \<open>struct shm_malloc_context\<close>, the operating system, and the segments.
  \<^item> Arena_Inv and Arena_Table: the table of arenas. Heap_Live: the blocks in use. Heap_Alloc:
    \<open>malloc_arena\<close>, \<open>free_arena\<close> and \<open>check_arena\<close> against them. Shm_Api: the interface.
  \<^item> Shm_Demo: a system that serves every call, and states reached in it, for the witnesses.
  \<^item> Join: a process joins a context in use. Client: processes that make the calls of the interface in
    any order, with one exception, the release of a small block of a full run whose node has stale
    links. Stale_Links: what that release leads to. Process: processes that join and leave, and
    segments that others made. Medium_Refine: what a client of a medium chunk may rely on.
  \<^item> Example: the program \<open>src/example/main.c\<close>.

  \<^bold>\<open>The invariant.\<close> \<open>sys_inv S P R F E X\<close> ties the shared state to lists and sets: \<open>P\<close> gives the
  chunks of the two trees in search order, \<open>R\<close> the runs of each pool, \<open>F\<close> the free list of each run,
  \<open>E\<close> the extents of each medium chunk, \<open>X\<close> the order in which its tree keeps the free ones. It is
  the conjunction of \<open>heap_inv\<close> (the chunks, by \<open>small_inv\<close> and \<open>medium_inv\<close>), \<open>arena_inv\<close>
  (the table: the chunks in the pools are those of the slots) and \<open>maps_ok\<close> (the process has every
  arena attached). \<open>all_blocks\<close> reads the blocks in use off these, with their real sizes.

  \<^bold>\<open>What is shown.\<close>

  \<^item> The interface (Shm_Api): \<open>shm_malloc\<close> adds one block, or is refused and changes nothing, or
    aborts for a medium size; \<open>shm_free\<close> removes exactly the block it is given, unless that is a small
    block of a full run whose node has stale links (\<open>relinkable\<close>); both keep the invariant, and
    \<open>shm_init\<close> establishes it; \<open>shm_realloc\<close> and \<open>shm_check_size\<close> are described as they behave,
    which is not always as the interface promises.
  \<^item> Clients (Client): by rule induction over the sequences of calls that do not release, or move by
    \<open>shm_realloc\<close>, a small block of a full run with stale links: blocks never overlap, every block
    held has an address and a size and can be released under the same condition, and a request is
    served unless it is \<open>refused\<close>: the table is full, or one of the calls fails that make a segment for
    the first free entry, and for small and medium sizes the first arena has no free chunk.
  \<^item> Stale links (Stale_Links): releasing and taking one small block of a full run twice, with another
    run of the class in the pool, makes the next \<open>shm_malloc\<close> of the class recurse without end.
  \<^item> Processes (Process): joining gives the invariant over the same blocks, leaving undoes joining, a
    table of addresses that is out of date is repaired entry by entry, and the ways this can fail.
  \<^item> Medium chunks: refinement of operations on lists of extents, and the sequence of four calls
    after which the assertion of \<open>malloc_chunk_medium\<close> stops the process.
  \<^item> Runs: the free list, the count and the bounds in any sequence of calls; new runs; round trip.
  \<^item> Red-black trees: insertion and deletion are total and keep the tree and its order; minimum,
    maximum, neighbours and traversals agree with the in-order list; \<open>rbtree_lower\<close> finds a node
    that is large enough, but not always the least.
  \<^item> Leftist heaps: push, pop and remove refine operations on a set; pushing and popping everything
    sorts; pushing a popped run again without clearing its links leads to a merge without end.
  \<^item> Bitmaps, positions, size classes, alignment, the lock on the file, and the example program.

  \<^bold>\<open>Bounds.\<close> Loops over a red-black tree have \<open>rb_fuel\<close>, 64 iterations: the height of a tree of
  fewer than 2 to the 31 nodes is below it (\<open>rbt_height\<close>). A merge of leftist heaps gets
  \<open>run_fuel\<close>, 2 to the 19, which is more than the runs of all chunks, 1024 times 255
  (Arena_Inv). A fuelled merge that runs out returns a fault, so the totality of the interface
  says that it does not. The loop of \<open>do_lock_file\<close> has no bound in the code; its fuel is an
  argument, and its theorem says when it ends. All other loops are structural recursions.

  \<^bold>\<open>Parameters and what is relied on.\<close> The system calls are the fields of \<open>os\<close>, each a function of
  the system's state; nothing is assumed of them except in the theorems on joining: the segments that the table of
  arenas names can be attached (\<open>attachable\<close>), and for \<open>shm_init_too_early\<close> the calls that find the
  first segment succeed (\<open>finds\<close>). \<open>grants\<close> says of one state of the system that the calls for one new
  segment succeed; it only serves to say when a request is refused. An attached segment is the part of
  \<open>shm_state\<close> with its index; a new one is zero there, as \<open>new_arena\<close> clears it. Structures are
  held by position and not as bytes, so the layout that the code checks by \<open>static_assert\<close> is
  taken for granted; the exception is the free list of a run, which the blocks do hold.

  \<^bold>\<open>Not modelled.\<close> The mutex and the file lock are calls with results, not exclusion: the model is the
  sequence of calls that the lock makes of concurrent processes. The pointers inside the trees go
  through \<open>get_or_update_addr\<close> in the code; the model follows them directly, which agrees when
  every arena is attached (\<open>maps_ok\<close>), and get_or_update_addr itself is modelled where
  \<open>shm_context.c\<close> and \<open>shm_malloc.c\<close> call it. The model stops with an access outside an object where
  the code goes on with bytes that are no such object: a position in the first chunk of arena 0, where
  the context is (\<open>chunk_at\<close>), one in the header page of a small chunk (\<open>free_chunk_small\<close>,
  \<open>check_chunk_small\<close>), one that is not the start of a block of its run (\<open>free_run\<close>), and a copy of
  \<open>shm_realloc\<close> beyond the end of a segment (\<open>in_segment\<close>). The text of log messages is an argument. The
  build files, and the tests, are not modelled.
\<close>

end
